(* ===== verification/Amq_Prelude.thy ===== *)
theory Amq_Prelude
  imports Main "HOL-Library.Word" "HOL-Library.Multiset"
begin

text \<open>
  Shared ground of the development: the types that stand for the machine types of the C code,
  the ways a C function can fail, and the generic facts on lists and words that the component
  theories use.

  The C code fails in ways HOL functions do not: an \<^verbatim>\<open>assert\<close> aborts, an index can leave its
  array, a null pointer or one to freed memory can be dereferenced.  A function that can do so returns a
  \<open>c_result\<close>, with the failure as the left summand, so that every such branch is a value of
  the model and "does not fail" is a theorem.
\<close>

unbundle bit_operations_syntax

type_synonym byte = "8 word"
type_synonym dbyte = "16 word"
type_synonym qbyte = "32 word"

datatype c_fail = Assert_Failed | Out_Of_Bounds | Null_Pointer | Dangling_Pointer

type_synonym 'a c_result = "c_fail + 'a"

definition c_bind :: "'a c_result \<Rightarrow> ('a \<Rightarrow> 'b c_result) \<Rightarrow> 'b c_result" where
  "c_bind r f = (case r of Inl e \<Rightarrow> Inl e | Inr x \<Rightarrow> f x)"

lemma c_bind_simps [simp]:
  "c_bind (Inl e) f = Inl e"
  "c_bind (Inr x) f = f x"
  by (simp_all add: c_bind_def)

lemma c_bind_Inr_iff: "c_bind r f = Inr y \<longleftrightarrow> (\<exists>x. r = Inr x \<and> f x = Inr y)"
  by (cases r) simp_all

text \<open>
  Facts collected under \<open>table_facts\<close> say what a lookup table of the source holds; they are
  checked entry by entry by evaluation in the kernel.
\<close>

named_theorems table_facts

text \<open>
  A property of every byte holds if it holds of the 256 numbers below 256: the form in which a
  table indexed by a byte is checked.
\<close>

lemma list_all_byteI:
  assumes "list_all (\<lambda>n. P (word_of_nat n)) [0..<256]"
  shows "P (w :: byte)"
proof -
  have "unat w < 256" using unsigned_less [of w, where ?'a = nat] by simp
  moreover from assms have "\<forall>n<256. P (word_of_nat n)"
    by (simp add: list_all_iff)
  ultimately have "P (word_of_nat (unat w))" by blast
  then show ?thesis by simp
qed

lemma list_all_lessI:
  assumes "list_all P [0..<n]" and "i < n"
  shows "P i"
  using assms by (auto simp: list_all_iff)

lemma all_between_Suc:
  "(\<forall>i. n < i \<and> i < m \<longrightarrow> P i) \<longleftrightarrow>
   (Suc n < m \<longrightarrow> P (Suc n)) \<and> (\<forall>i. Suc n < i \<and> i < m \<longrightarrow> P i)"
  by (metis Suc_lessD Suc_lessI lessI)

lemma sorted_list_of_set_insert_Min:
  assumes "finite A" and "x \<in> A" and "\<forall>y\<in>A. x \<le> y"
  shows "sorted_list_of_set A = (x :: 'a :: linorder) # sorted_list_of_set (A - {x})"
proof -
  have "A \<noteq> {}" and "Min A = x"
    using assms by (auto intro: Min_eqI)
  then show ?thesis
    using assms(1) by (simp add: sorted_list_of_set_nonempty)
qed

text \<open>Reading and writing a byte buffer; outside it the code has no defined behaviour.\<close>

definition c_read :: "byte list \<Rightarrow> nat \<Rightarrow> byte c_result" where
  "c_read buf i = (if i < length buf then Inr (buf ! i) else Inl Out_Of_Bounds)"

definition c_write :: "byte list \<Rightarrow> nat \<Rightarrow> byte \<Rightarrow> byte list c_result" where
  "c_write buf i v = (if i < length buf then Inr (buf[i := v]) else Inl Out_Of_Bounds)"

lemma c_read_Inr [simp]: "c_read buf i = Inr v \<longleftrightarrow> i < length buf \<and> v = buf ! i"
  by (auto simp: c_read_def)

lemma c_write_Inr [simp]: "c_write buf i v = Inr buf' \<longleftrightarrow> i < length buf \<and> buf' = buf[i := v]"
  by (auto simp: c_write_def)

lemma c_read_in [simp]: "i < length buf \<Longrightarrow> c_read buf i = Inr (buf ! i)"
  by simp

lemma c_write_in [simp]: "i < length buf \<Longrightarrow> c_write buf i v = Inr (buf[i := v])"
  by simp

text \<open>Block copies out of and into a buffer, the effect of \<^verbatim>\<open>memcpy\<close>.\<close>

definition mem_get :: "byte list \<Rightarrow> nat \<Rightarrow> nat \<Rightarrow> byte list c_result" where
  "mem_get buf i n = (if i + n \<le> length buf then Inr (take n (drop i buf)) else Inl Out_Of_Bounds)"

definition mem_put :: "byte list \<Rightarrow> nat \<Rightarrow> byte list \<Rightarrow> byte list c_result" where
  "mem_put buf i bs =
     (if i + length bs \<le> length buf then Inr (take i buf @ bs @ drop (i + length bs) buf)
      else Inl Out_Of_Bounds)"

lemma mem_get_in: "i + n \<le> length buf \<Longrightarrow> mem_get buf i n = Inr (take n (drop i buf))"
  by (simp add: mem_get_def)

lemma mem_put_in:
  "i + length bs \<le> length buf \<Longrightarrow> mem_put buf i bs = Inr (take i buf @ bs @ drop (i + length bs) buf)"
  by (simp add: mem_put_def)

lemma mem_put_length: "mem_put buf i bs = Inr buf' \<Longrightarrow> length buf' = length buf"
  by (auto simp: mem_put_def split: if_splits)

lemma mem_get_append [simp]:
  "mem_get (xs @ ys @ zs) (length xs) (length ys) = Inr ys"
  by (simp add: mem_get_def)

lemma c_read_append [simp]: "c_read (xs @ y # zs) (length xs) = Inr y"
  by (simp add: c_read_def)

lemma unat_byte [simp]: "k < 256 \<Longrightarrow> unat (word_of_nat k :: byte) = k"
  by (simp add: unat_of_nat take_bit_eq_mod)

end
