(* ===== verification/Bitmap_Spec.thy ===== *)
theory Bitmap_Spec
  imports Amq_Prelude
begin

text \<open>
  The contract of a bitmap, as the exchanges use one: start empty, set bits below a capacity, and
  list the bits that are set.  The client facts proved here are about marking a whole list of
  numbers, which is what an exchange does when it indexes its bindings.
\<close>

locale bitmap =
  fixes new :: 'b
    and put :: "'b \<Rightarrow> nat \<Rightarrow> 'b c_result"
    and members :: "'b \<Rightarrow> nat list c_result"
    and abs :: "'b \<Rightarrow> nat set"
    and wf :: "'b \<Rightarrow> bool"
    and cap :: nat
  assumes wf_new: "wf new"
    and abs_new: "abs new = {}"
    and put_ok: "wf b \<Longrightarrow> n < cap \<Longrightarrow> \<exists>b'. put b n = Inr b' \<and> wf b' \<and> abs b' = insert n (abs b)"
    and members_abs: "wf b \<Longrightarrow> members b = Inr (sorted_list_of_set (abs b))"
    and finite_abs: "finite (abs b)"
begin

lemma put_wf: "put b n = Inr b' \<Longrightarrow> wf b \<Longrightarrow> n < cap \<Longrightarrow> wf b'"
  using put_ok by fastforce

lemma put_abs: "put b n = Inr b' \<Longrightarrow> wf b \<Longrightarrow> n < cap \<Longrightarrow> abs b' = insert n (abs b)"
  using put_ok by fastforce

lemma members_set: "wf b \<Longrightarrow> \<exists>ns. members b = Inr ns \<and> set ns = abs b \<and> sorted ns \<and> distinct ns"
  by (simp add: members_abs finite_abs)

lemma put_all:
  assumes "wf b" and "\<forall>n\<in>set ns. n < cap"
  shows "\<exists>b'. foldl (\<lambda>r n. c_bind r (\<lambda>b. put b n)) (Inr b) ns = Inr b' \<and>
    wf b' \<and> abs b' = abs b \<union> set ns"
  using assms
proof (induction ns arbitrary: b)
  case (Cons n ns)
  then obtain b' where b': "put b n = Inr b'" "wf b'" "abs b' = insert n (abs b)"
    using put_ok [of b n] by auto
  with Cons.IH [of b'] Cons.prems obtain b'' where
    "foldl (\<lambda>r n. c_bind r (\<lambda>b. put b n)) (Inr b') ns = Inr b''" "wf b''" "abs b'' = abs b' \<union> set ns"
    by auto
  with b' show ?case by auto
qed simp

end

end
