(* ===== verification/Ipr_Bits.thy ===== *)
theory Ipr_Bits
  imports Bitmap_Spec
begin

text \<open>
  The bitstring object of the iPR runtime, \<^verbatim>\<open>tooling/base2/ipr/ipr_bits.c\<close>.  The broker's
  exchanges keep one such bitmap per index key, with one bit per binding.

  The object is a \<open>size\<close> (bytes in use) and an array of 16384 bytes.  The array is a function
  on byte numbers; every access the code makes is guarded in the model by the array's bounds, and
  an access outside them is \<open>Out_Of_Bounds\<close>.
\<close>

section \<open>The object and its lookup tables\<close>

definition IPR_BITS_SIZE :: nat where
  "IPR_BITS_SIZE = 16384"

definition IPR_BITS_SIZE_BITS :: nat where
  "IPR_BITS_SIZE_BITS = IPR_BITS_SIZE * 8"

record ipr_bits =
  bits_size :: nat
  bits_data :: "nat \<Rightarrow> byte"

definition s_bit_count :: "nat list" where
  "s_bit_count = [
    0, 1, 1, 2, 1, 2, 2, 3, 1, 2, 2, 3, 2, 3, 3, 4,
    1, 2, 2, 3, 2, 3, 3, 4, 2, 3, 3, 4, 3, 4, 4, 5,
    1, 2, 2, 3, 2, 3, 3, 4, 2, 3, 3, 4, 3, 4, 4, 5,
    2, 3, 3, 4, 3, 4, 4, 5, 3, 4, 4, 5, 4, 5, 5, 6,
    1, 2, 2, 3, 2, 3, 3, 4, 2, 3, 3, 4, 3, 4, 4, 5,
    2, 3, 3, 4, 3, 4, 4, 5, 3, 4, 4, 5, 4, 5, 5, 6,
    2, 3, 3, 4, 3, 4, 4, 5, 3, 4, 4, 5, 4, 5, 5, 6,
    3, 4, 4, 5, 4, 5, 5, 6, 4, 5, 5, 6, 5, 6, 6, 7,
    1, 2, 2, 3, 2, 3, 3, 4, 2, 3, 3, 4, 3, 4, 4, 5,
    2, 3, 3, 4, 3, 4, 4, 5, 3, 4, 4, 5, 4, 5, 5, 6,
    2, 3, 3, 4, 3, 4, 4, 5, 3, 4, 4, 5, 4, 5, 5, 6,
    3, 4, 4, 5, 4, 5, 5, 6, 4, 5, 5, 6, 5, 6, 6, 7,
    2, 3, 3, 4, 3, 4, 4, 5, 3, 4, 4, 5, 4, 5, 5, 6,
    3, 4, 4, 5, 4, 5, 5, 6, 4, 5, 5, 6, 5, 6, 6, 7,
    3, 4, 4, 5, 4, 5, 5, 6, 4, 5, 5, 6, 5, 6, 6, 7,
    4, 5, 5, 6, 5, 6, 6, 7, 5, 6, 6, 7, 6, 7, 7, 8]"

definition s_bit_set :: "byte list" where
  "s_bit_set = [0x01, 0x02, 0x04, 0x08, 0x10, 0x20, 0x40, 0x80]"

definition s_bit_clear :: "byte list" where
  "s_bit_clear = [0xFE, 0xFD, 0xFB, 0xF7, 0xEF, 0xDF, 0xBF, 0x7F]"

definition s_first_bit_on :: "nat list" where
  "s_first_bit_on = [
    0, 0, 1, 0, 2, 0, 1, 0, 3, 0, 1, 0, 2, 0, 1, 0,
    4, 0, 1, 0, 2, 0, 1, 0, 3, 0, 1, 0, 2, 0, 1, 0,
    5, 0, 1, 0, 2, 0, 1, 0, 3, 0, 1, 0, 2, 0, 1, 0,
    4, 0, 1, 0, 2, 0, 1, 0, 3, 0, 1, 0, 2, 0, 1, 0,
    6, 0, 1, 0, 2, 0, 1, 0, 3, 0, 1, 0, 2, 0, 1, 0,
    4, 0, 1, 0, 2, 0, 1, 0, 3, 0, 1, 0, 2, 0, 1, 0,
    5, 0, 1, 0, 2, 0, 1, 0, 3, 0, 1, 0, 2, 0, 1, 0,
    4, 0, 1, 0, 2, 0, 1, 0, 3, 0, 1, 0, 2, 0, 1, 0,
    7, 0, 1, 0, 2, 0, 1, 0, 3, 0, 1, 0, 2, 0, 1, 0,
    4, 0, 1, 0, 2, 0, 1, 0, 3, 0, 1, 0, 2, 0, 1, 0,
    5, 0, 1, 0, 2, 0, 1, 0, 3, 0, 1, 0, 2, 0, 1, 0,
    4, 0, 1, 0, 2, 0, 1, 0, 3, 0, 1, 0, 2, 0, 1, 0,
    6, 0, 1, 0, 2, 0, 1, 0, 3, 0, 1, 0, 2, 0, 1, 0,
    4, 0, 1, 0, 2, 0, 1, 0, 3, 0, 1, 0, 2, 0, 1, 0,
    5, 0, 1, 0, 2, 0, 1, 0, 3, 0, 1, 0, 2, 0, 1, 0,
    4, 0, 1, 0, 2, 0, 1, 0, 3, 0, 1, 0, 2, 0, 1, 0]"

definition s_first_bit_off :: "nat list" where
  "s_first_bit_off = [
    0, 1, 0, 2, 0, 1, 0, 3, 0, 1, 0, 2, 0, 1, 0, 4,
    0, 1, 0, 2, 0, 1, 0, 3, 0, 1, 0, 2, 0, 1, 0, 5,
    0, 1, 0, 2, 0, 1, 0, 3, 0, 1, 0, 2, 0, 1, 0, 4,
    0, 1, 0, 2, 0, 1, 0, 3, 0, 1, 0, 2, 0, 1, 0, 6,
    0, 1, 0, 2, 0, 1, 0, 3, 0, 1, 0, 2, 0, 1, 0, 4,
    0, 1, 0, 2, 0, 1, 0, 3, 0, 1, 0, 2, 0, 1, 0, 5,
    0, 1, 0, 2, 0, 1, 0, 3, 0, 1, 0, 2, 0, 1, 0, 4,
    0, 1, 0, 2, 0, 1, 0, 3, 0, 1, 0, 2, 0, 1, 0, 7,
    0, 1, 0, 2, 0, 1, 0, 3, 0, 1, 0, 2, 0, 1, 0, 4,
    0, 1, 0, 2, 0, 1, 0, 3, 0, 1, 0, 2, 0, 1, 0, 5,
    0, 1, 0, 2, 0, 1, 0, 3, 0, 1, 0, 2, 0, 1, 0, 4,
    0, 1, 0, 2, 0, 1, 0, 3, 0, 1, 0, 2, 0, 1, 0, 6,
    0, 1, 0, 2, 0, 1, 0, 3, 0, 1, 0, 2, 0, 1, 0, 4,
    0, 1, 0, 2, 0, 1, 0, 3, 0, 1, 0, 2, 0, 1, 0, 5,
    0, 1, 0, 2, 0, 1, 0, 3, 0, 1, 0, 2, 0, 1, 0, 4,
    0, 1, 0, 2, 0, 1, 0, 3, 0, 1, 0, 2, 0, 1, 0, 0]"

definition clear_trailing_bits :: "byte list" where
  "clear_trailing_bits = [254, 252, 248, 240, 224, 192, 128, 0]"

definition clear_leading_bits :: "byte list" where
  "clear_leading_bits = [0, 1, 3, 7, 15, 31, 63, 127]"

definition set_trailing_bits :: "byte list" where
  "set_trailing_bits = [0, 1, 3, 7, 15, 31, 63, 127]"

definition set_leading_bits :: "byte list" where
  "set_leading_bits = [254, 252, 248, 240, 224, 192, 128, 0]"

section \<open>Operations\<close>

text \<open>The allocator returns zeroed memory, so a new bitstring has size 0 and all bytes 0.\<close>

definition ipr_bits_new :: ipr_bits where
  "ipr_bits_new = \<lparr>bits_size = 0, bits_data = (\<lambda>_. 0)\<rparr>"

definition ipr_bits_set :: "ipr_bits \<Rightarrow> nat \<Rightarrow> ipr_bits c_result" where
  "ipr_bits_set self index =
     (let byte_nbr = index div 8; bit_nbr = index mod 8
      in if \<not> index < IPR_BITS_SIZE_BITS then Inl Assert_Failed
         else Inr (self\<lparr>
           bits_data := (bits_data self)(byte_nbr := bits_data self byte_nbr OR s_bit_set ! bit_nbr),
           bits_size := (if bits_size self < byte_nbr + 1 then byte_nbr + 1 else bits_size self)\<rparr>))"

definition ipr_bits_clear :: "ipr_bits \<Rightarrow> nat \<Rightarrow> ipr_bits c_result" where
  "ipr_bits_clear self index =
     (let byte_nbr = index div 8; bit_nbr = index mod 8
      in if \<not> index < IPR_BITS_SIZE_BITS then Inl Assert_Failed
         else Inr (self\<lparr>
           bits_data := (bits_data self)(byte_nbr := bits_data self byte_nbr AND s_bit_clear ! bit_nbr)\<rparr>))"

definition ipr_bits_test :: "ipr_bits \<Rightarrow> nat \<Rightarrow> nat c_result" where
  "ipr_bits_test self index =
     (let byte_nbr = index div 8; bit_nbr = index mod 8
      in if \<not> index < IPR_BITS_SIZE_BITS then Inl Assert_Failed
         else Inr (if bits_data self byte_nbr AND s_bit_set ! bit_nbr \<noteq> 0 then 1 else 0))"

text \<open>
  \<open>c_memset p c n m\<close> is the C library's \<^verbatim>\<open>memset (m + p, c, n)\<close>: the fill value comes
  second and the length third.  \<^verbatim>\<open>ipr_bits_reset\<close> passes them the other way round.
\<close>

definition c_memset :: "nat \<Rightarrow> nat \<Rightarrow> nat \<Rightarrow> (nat \<Rightarrow> byte) \<Rightarrow> nat \<Rightarrow> byte" where
  "c_memset p c n m = (\<lambda>i. if p \<le> i \<and> i < p + n then word_of_nat c else m i)"

definition ipr_bits_reset :: "ipr_bits \<Rightarrow> ipr_bits" where
  "ipr_bits_reset self =
     self\<lparr>bits_size := 0, bits_data := c_memset 0 IPR_BITS_SIZE 0 (bits_data self)\<rparr>"

fun bits_ones_loop :: "(nat \<Rightarrow> byte) \<Rightarrow> nat \<Rightarrow> nat" where
  "bits_ones_loop d 0 = 0"
| "bits_ones_loop d (Suc n) = bits_ones_loop d n + s_bit_count ! unat (d n)"

definition ipr_bits_ones :: "ipr_bits \<Rightarrow> nat c_result" where
  "ipr_bits_ones self =
     (if \<not> bits_size self \<le> IPR_BITS_SIZE then Inl Assert_Failed
      else Inr (bits_ones_loop (bits_data self) (bits_size self)))"

text \<open>
  The loops of \<open>and\<close>, \<open>or\<close>, \<open>xor\<close> and \<open>not\<close> walk the array eight bytes at a time.
  A bitwise operation on an \<^verbatim>\<open>int64_t\<close> is the operation on each of its eight bytes, whatever the
  byte order.  The loop returns the array and the final \<^verbatim>\<open>cur_size\<close>.
\<close>

function bits_word_loop ::
    "(byte \<Rightarrow> byte \<Rightarrow> byte) \<Rightarrow> (nat \<Rightarrow> byte) \<Rightarrow> nat \<Rightarrow> nat \<Rightarrow> (nat \<Rightarrow> byte) \<Rightarrow> (nat \<Rightarrow> byte) \<times> nat" where
  "bits_word_loop f src limit cur d =
     (if cur < limit
      then bits_word_loop f src limit (cur + 8)
             (\<lambda>i. if cur \<le> i \<and> i < cur + 8 then f (d i) (src i) else d i)
      else (d, cur))"
  by pat_completeness auto
termination
  by (relation "measure (\<lambda>(f, src, limit, cur, d). limit - cur)") auto

declare bits_word_loop.simps [simp del]

definition ipr_bits_and :: "ipr_bits \<Rightarrow> ipr_bits \<Rightarrow> ipr_bits c_result" where
  "ipr_bits_and self source =
     (if \<not> bits_size source \<le> IPR_BITS_SIZE then Inl Assert_Failed
      else let (d, cur_size) = bits_word_loop (AND) (bits_data source)
                 (min (bits_size self) (bits_size source)) 0 (bits_data self)
           in Inr (self\<lparr>bits_data := c_memset cur_size 0 (IPR_BITS_SIZE - cur_size) d\<rparr>))"

definition ipr_bits_or :: "ipr_bits \<Rightarrow> ipr_bits \<Rightarrow> ipr_bits c_result" where
  "ipr_bits_or self source =
     (if \<not> bits_size source \<le> IPR_BITS_SIZE then Inl Assert_Failed
      else let data_size = max (bits_size self) (bits_size source);
               (d, cur_size) = bits_word_loop (OR) (bits_data source) data_size 0 (bits_data self)
           in Inr (self\<lparr>bits_data := d, bits_size := data_size\<rparr>))"

definition ipr_bits_xor :: "ipr_bits \<Rightarrow> ipr_bits \<Rightarrow> ipr_bits c_result" where
  "ipr_bits_xor self source =
     (if \<not> bits_size source \<le> IPR_BITS_SIZE then Inl Assert_Failed
      else let data_size = max (bits_size self) (bits_size source);
               (d, cur_size) = bits_word_loop (XOR) (bits_data source) data_size 0 (bits_data self)
           in Inr (self\<lparr>bits_data := d, bits_size := data_size\<rparr>))"

definition ipr_bits_not :: "ipr_bits \<Rightarrow> ipr_bits c_result" where
  "ipr_bits_not self =
     (if \<not> bits_size self \<le> IPR_BITS_SIZE then Inl Assert_Failed
      else let (d, cur_size) = bits_word_loop (\<lambda>x _. NOT x) (bits_data self)
                 (bits_size self) 0 (bits_data self)
           in Inr (self\<lparr>bits_data := c_memset cur_size 0xFF (IPR_BITS_SIZE - cur_size) d,
                        bits_size := IPR_BITS_SIZE\<rparr>))"

text \<open>
  The scanning loops \<^verbatim>\<open>while (cur_byte == skip && byte_nbr < self->size)\<close>.  Going up, the loop
  reads \<^verbatim>\<open>data [++byte_nbr]\<close>, which leaves the array when \<^verbatim>\<open>size\<close> is the full 16384 bytes and
  nothing is found.  Going down, \<^verbatim>\<open>--byte_nbr\<close> on the unsigned 0 gives \<^verbatim>\<open>0xFFFFFFFF\<close>, again
  outside.
\<close>

function bits_scan_up ::
    "byte \<Rightarrow> (nat \<Rightarrow> byte) \<Rightarrow> nat \<Rightarrow> byte \<Rightarrow> nat \<Rightarrow> (byte \<times> nat) c_result" where
  "bits_scan_up skip d limit cur_byte byte_nbr =
     (if cur_byte = skip \<and> byte_nbr < limit
      then if byte_nbr + 1 < IPR_BITS_SIZE
           then bits_scan_up skip d limit (d (byte_nbr + 1)) (byte_nbr + 1)
           else Inl Out_Of_Bounds
      else Inr (cur_byte, byte_nbr))"
  by pat_completeness auto
termination
  by (relation "measure (\<lambda>(skip, d, limit, c, n). limit - n)") auto

declare bits_scan_up.simps [simp del]

fun bits_scan_down ::
    "byte \<Rightarrow> (nat \<Rightarrow> byte) \<Rightarrow> nat \<Rightarrow> byte \<Rightarrow> nat \<Rightarrow> (byte \<times> nat) c_result" where
  "bits_scan_down skip d limit cur_byte 0 =
     (if cur_byte = skip \<and> 0 < limit then Inl Out_Of_Bounds else Inr (cur_byte, 0))"
| "bits_scan_down skip d limit cur_byte (Suc n) =
     (if cur_byte = skip \<and> Suc n < limit
      then bits_scan_down skip d limit (d n) n
      else Inr (cur_byte, Suc n))"

definition ipr_bits_next :: "ipr_bits \<Rightarrow> nat \<Rightarrow> int c_result" where
  "ipr_bits_next self index =
     (let byte_nbr = index div 8; bit_nbr = index mod 8
      in if \<not> index < IPR_BITS_SIZE_BITS then Inl Assert_Failed
         else c_bind (bits_scan_up 0 (bits_data self) (bits_size self)
                        (bits_data self byte_nbr AND clear_trailing_bits ! bit_nbr) byte_nbr)
                (\<lambda>(cur_byte, byte_nbr).
                   if cur_byte > 0 then Inr (int (byte_nbr * 8 + s_first_bit_on ! unat cur_byte))
                   else Inr (- 1)))"

definition ipr_bits_prev :: "ipr_bits \<Rightarrow> nat \<Rightarrow> int c_result" where
  "ipr_bits_prev self index =
     (let byte_nbr = index div 8; bit_nbr = index mod 8
      in if \<not> index < IPR_BITS_SIZE_BITS then Inl Assert_Failed
         else c_bind (bits_scan_down 0 (bits_data self) (bits_size self)
                        (bits_data self byte_nbr AND clear_leading_bits ! bit_nbr) byte_nbr)
                (\<lambda>(cur_byte, byte_nbr).
                   if cur_byte > 0 then Inr (int (byte_nbr * 8 + s_first_bit_on ! unat cur_byte))
                   else Inr (- 1)))"

definition ipr_bits_next_zero :: "ipr_bits \<Rightarrow> nat \<Rightarrow> int c_result" where
  "ipr_bits_next_zero self index =
     (let byte_nbr = index div 8; bit_nbr = index mod 8
      in if \<not> index < IPR_BITS_SIZE_BITS then Inl Assert_Failed
         else c_bind (bits_scan_up 255 (bits_data self) (bits_size self)
                        (bits_data self byte_nbr OR set_trailing_bits ! bit_nbr) byte_nbr)
                (\<lambda>(cur_byte, byte_nbr).
                   if cur_byte < 255 then Inr (int (byte_nbr * 8 + s_first_bit_off ! unat cur_byte))
                   else Inr (- 1)))"

definition ipr_bits_prev_zero :: "ipr_bits \<Rightarrow> nat \<Rightarrow> int c_result" where
  "ipr_bits_prev_zero self index =
     (let byte_nbr = index div 8; bit_nbr = index mod 8
      in if \<not> index < IPR_BITS_SIZE_BITS then Inl Assert_Failed
         else c_bind (bits_scan_down 255 (bits_data self) (bits_size self)
                        (bits_data self byte_nbr OR set_leading_bits ! bit_nbr) byte_nbr)
                (\<lambda>(cur_byte, byte_nbr).
                   if cur_byte < 255 then Inr (int (byte_nbr * 8 + s_first_bit_off ! unat cur_byte))
                   else Inr (- 1)))"

definition ipr_bits_first :: "ipr_bits \<Rightarrow> int c_result" where
  "ipr_bits_first self =
     c_bind (ipr_bits_test self 0)
       (\<lambda>t. if t \<noteq> 0 then Inr 0 else ipr_bits_next self 0)"

definition ipr_bits_last :: "ipr_bits \<Rightarrow> int c_result" where
  "ipr_bits_last self =
     c_bind (ipr_bits_test self (IPR_BITS_SIZE_BITS - 1))
       (\<lambda>t. if t \<noteq> 0 then Inr 0 else ipr_bits_prev self (IPR_BITS_SIZE_BITS - 1))"

section \<open>What the tables hold\<close>

lemma s_bit_set_byte [table_facts]: "i < 8 \<Longrightarrow> s_bit_set ! i = 2 ^ i"
proof -
  have "list_all (\<lambda>i. s_bit_set ! i = 2 ^ i) [0..<8]" by code_simp
  then show "i < 8 \<Longrightarrow> s_bit_set ! i = 2 ^ i" by (rule list_all_lessI)
qed

lemma s_bit_clear_byte [table_facts]: "i < 8 \<Longrightarrow> s_bit_clear ! i = NOT (2 ^ i)"
proof -
  have "list_all (\<lambda>i. s_bit_clear ! i = NOT (2 ^ i)) [0..<8]" by code_simp
  then show "i < 8 \<Longrightarrow> s_bit_clear ! i = NOT (2 ^ i)" by (rule list_all_lessI)
qed

definition byte_bits :: "byte \<Rightarrow> nat list" where
  "byte_bits w = filter (bit w) [0..<8]"

lemma s_bit_count_byte [table_facts]: "s_bit_count ! unat w = length (byte_bits w)"
  by (rule list_all_byteI [where w = w]) code_simp

lemma s_first_bit_on_byte [table_facts]:
  "w \<noteq> 0 \<longrightarrow> s_first_bit_on ! unat w = hd (byte_bits w)"
  by (rule list_all_byteI [where w = w]) code_simp

lemma s_first_bit_off_byte [table_facts]:
  "w \<noteq> 255 \<longrightarrow> s_first_bit_off ! unat w = hd (byte_bits (NOT w))"
  by (rule list_all_byteI [where w = w]) code_simp

lemma clear_trailing_bits_byte [table_facts]:
  "i < 8 \<Longrightarrow> byte_bits (clear_trailing_bits ! i) = [Suc i..<8]"
proof -
  have "list_all (\<lambda>i. byte_bits (clear_trailing_bits ! i) = [Suc i..<8]) [0..<8]" by code_simp
  then show "i < 8 \<Longrightarrow> byte_bits (clear_trailing_bits ! i) = [Suc i..<8]" by (rule list_all_lessI)
qed

section \<open>Meaning and invariant\<close>

definition bits_abs :: "ipr_bits \<Rightarrow> nat set" where
  "bits_abs self = {k. k < IPR_BITS_SIZE_BITS \<and> bit (bits_data self (k div 8)) (k mod 8)}"

definition bits_inv :: "ipr_bits \<Rightarrow> bool" where
  "bits_inv self \<longleftrightarrow> bits_size self \<le> IPR_BITS_SIZE \<and>
     (\<forall>i. bits_size self \<le> i \<and> i < IPR_BITS_SIZE \<longrightarrow> bits_data self i = 0)"

lemma div8_bound: "k < IPR_BITS_SIZE_BITS \<longleftrightarrow> k div 8 < IPR_BITS_SIZE"
  unfolding IPR_BITS_SIZE_BITS_def IPR_BITS_SIZE_def by presburger

lemma finite_bits_abs [simp]: "finite (bits_abs self)"
  by (rule finite_subset [of _ "{..<IPR_BITS_SIZE_BITS}"]) (auto simp: bits_abs_def)

lemma bits_abs_bound: "k \<in> bits_abs self \<Longrightarrow> k < IPR_BITS_SIZE_BITS"
  by (simp add: bits_abs_def)

lemma bits_new_abs [simp]: "bits_abs ipr_bits_new = {}"
  by (simp add: bits_abs_def ipr_bits_new_def)

lemma bits_new_inv [simp]: "bits_inv ipr_bits_new"
  by (simp add: bits_inv_def ipr_bits_new_def)

lemma byte_bits_iff: "k \<in> set (byte_bits w) \<longleftrightarrow> bit w k"
  by (auto simp: byte_bits_def dest: bit_imp_le_length)

lemma bit_push_one: "bit (2 ^ n :: byte) k \<longleftrightarrow> n = k \<and> k < 8"
  by (auto simp: bit_simps)

lemma bits_set_abs:
  assumes "ipr_bits_set self n = Inr self'"
  shows "bits_abs self' = insert n (bits_abs self)"
proof -
  from assms have n: "n < IPR_BITS_SIZE_BITS"
    and self': "bits_data self' = (bits_data self)(n div 8 := bits_data self (n div 8) OR 2 ^ (n mod 8))"
    by (auto simp: ipr_bits_set_def Let_def s_bit_set_byte split: if_splits)
  have eq: "k = n" if "k div 8 = n div 8" "n mod 8 = k mod 8" for k
    using that by (metis div_mult_mod_eq)
  show ?thesis
    using n unfolding bits_abs_def self' by (auto simp: bit_or_iff bit_push_one dest: eq)
qed

lemma bits_clear_abs:
  assumes "ipr_bits_clear self n = Inr self'"
  shows "bits_abs self' = bits_abs self - {n}"
proof -
  from assms have n: "n < IPR_BITS_SIZE_BITS"
    and self': "bits_data self' = (bits_data self)(n div 8 := bits_data self (n div 8) AND NOT (2 ^ (n mod 8)))"
    by (auto simp: ipr_bits_clear_def Let_def s_bit_clear_byte split: if_splits)
  have eq: "k = n \<longleftrightarrow> n div 8 = k div 8 \<and> n mod 8 = k mod 8" for k
    by (metis div_mult_mod_eq)
  show ?thesis
    using n unfolding bits_abs_def self' by (auto simp: bit_and_iff bit_not_iff bit_push_one eq)
qed

lemma bits_set_inv:
  assumes "ipr_bits_set self n = Inr self'" and "bits_inv self"
  shows "bits_inv self'"
  using assms div8_bound [of n]
  by (auto simp: ipr_bits_set_def bits_inv_def Let_def split: if_splits)

lemma bits_clear_inv:
  assumes "ipr_bits_clear self n = Inr self'" and "bits_inv self"
  shows "bits_inv self'"
  using assms by (auto simp: ipr_bits_clear_def bits_inv_def Let_def split: if_splits)

lemma bits_set_defined: "n < IPR_BITS_SIZE_BITS \<Longrightarrow> \<exists>self'. ipr_bits_set self n = Inr self'"
  by (simp add: ipr_bits_set_def Let_def)

lemma bits_test_abs:
  "n < IPR_BITS_SIZE_BITS \<Longrightarrow> ipr_bits_test self n = Inr (of_bool (n \<in> bits_abs self))"
proof -
  show "n < IPR_BITS_SIZE_BITS \<Longrightarrow> ipr_bits_test self n = Inr (of_bool (n \<in> bits_abs self))"
    by (simp add: ipr_bits_test_def Let_def s_bit_set_byte bits_abs_def and_exp_eq_0_iff_not_bit)
qed

section \<open>Searching\<close>

lemma scan_up_step:
  "n < sz \<Longrightarrow> bits_scan_up skip d sz skip n =
     (if Suc n < IPR_BITS_SIZE then bits_scan_up skip d sz (d (Suc n)) (Suc n) else Inl Out_Of_Bounds)"
  by (simp add: bits_scan_up.simps [of skip d sz skip n])

lemma scan_up_stop: "c \<noteq> skip \<or> sz \<le> n \<Longrightarrow> bits_scan_up skip d sz c n = Inr (c, n)"
  by (auto simp: bits_scan_up.simps [of skip d sz c n])

lemma scan_up_result:
  "bits_scan_up skip d sz c n = Inr (c', n') \<Longrightarrow>
   (n' = n \<and> c' = c \<or>
    n < n' \<and> n' < IPR_BITS_SIZE \<and> c = skip \<and> c' = d n' \<and> (\<forall>i. n < i \<and> i < n' \<longrightarrow> d i = skip)) \<and>
   (c' = skip \<longrightarrow> sz \<le> n')"
proof (induction skip d sz c n rule: bits_scan_up.induct)
  case (1 skip d sz c n)
  show ?case
  proof (cases "c = skip \<and> n < sz")
    case True
    then have lt: "Suc n < IPR_BITS_SIZE"
      and rec: "bits_scan_up skip d sz (d (Suc n)) (Suc n) = Inr (c', n')"
      using 1(2) by (auto simp: scan_up_step split: if_splits)
    have ih: "(n' = Suc n \<and> c' = d (Suc n) \<or>
        Suc n < n' \<and> n' < IPR_BITS_SIZE \<and> d (Suc n) = skip \<and> c' = d n' \<and>
        (\<forall>i. Suc n < i \<and> i < n' \<longrightarrow> d i = skip)) \<and> (c' = skip \<longrightarrow> sz \<le> n')"
      using "1.IH" [OF True] lt rec by simp
    have "n < n' \<and> n' < IPR_BITS_SIZE \<and> c' = d n' \<and> (\<forall>i. n < i \<and> i < n' \<longrightarrow> d i = skip)"
    proof (cases "n' = Suc n")
      case True
      with ih lt show ?thesis by auto
    next
      case False
      with ih have "Suc n < n'" "n' < IPR_BITS_SIZE" "d (Suc n) = skip" "c' = d n'"
        "\<forall>i. Suc n < i \<and> i < n' \<longrightarrow> d i = skip" by simp_all
      then show ?thesis by (metis Suc_lessD Suc_lessI)
    qed
    with True ih show ?thesis by blast
  next
    case False
    with 1(2) show ?thesis by (auto simp: scan_up_stop)
  qed
qed

lemma scan_up_defined:
  "sz < IPR_BITS_SIZE \<or> (\<exists>j>n. j < IPR_BITS_SIZE \<and> d j \<noteq> skip) \<Longrightarrow> n < IPR_BITS_SIZE \<Longrightarrow>
   \<exists>c' n'. bits_scan_up skip d sz c n = Inr (c', n')"
proof (induction skip d sz c n rule: bits_scan_up.induct)
  case (1 skip d sz c n)
  show ?case
  proof (cases "c = skip \<and> n < sz")
    case True
    with 1(2,3) have lt: "Suc n < IPR_BITS_SIZE" by auto
    show ?thesis
    proof (cases "d (Suc n) = skip")
      case skip: True
      with 1(2) have "sz < IPR_BITS_SIZE \<or> (\<exists>j>Suc n. j < IPR_BITS_SIZE \<and> d j \<noteq> skip)"
        by (metis Suc_lessI)
      with "1.IH" [OF True] lt True show ?thesis by (simp add: scan_up_step)
    next
      case False
      with lt True show ?thesis by (simp add: scan_up_step scan_up_stop)
    qed
  next
    case False
    then show ?thesis by (auto simp: scan_up_stop)
  qed
qed

lemma byte_bits_hd:
  assumes "w \<noteq> (0::byte)"
  shows "bit w (hd (byte_bits w))" and "\<forall>j. bit w j \<longrightarrow> hd (byte_bits w) \<le> j"
proof -
  have ne: "byte_bits w \<noteq> []"
    using assms by (metis bit_eqI bit_0_eq bot_apply byte_bits_iff empty_iff list.set(1) bot_bool_def)
  then show "bit w (hd (byte_bits w))" by (metis byte_bits_iff hd_in_set)
  have "sorted (byte_bits w)" by (simp add: byte_bits_def sorted_wrt_filter)
  with ne show "\<forall>j. bit w j \<longrightarrow> hd (byte_bits w) \<le> j"
    by (cases "byte_bits w") (auto simp flip: byte_bits_iff)
qed

lemma same_byte_less: "i div 8 = j div 8 \<Longrightarrow> i < j \<longleftrightarrow> i mod 8 < (j mod 8 :: nat)"
  by (metis div_mult_mod_eq nat_add_left_cancel_less)

text \<open>
  What the scan of \<^verbatim>\<open>ipr_bits_next\<close> has established when it stops at byte \<open>n\<close> with the
  (possibly masked) byte \<open>c\<close>: bits of earlier bytes after \<open>i\<close> are off, \<open>c\<close> holds exactly the
  bits of byte \<open>n\<close> after \<open>i\<close>, and if \<open>c\<close> is 0 the used part of the string is exhausted.
\<close>

lemma bits_next_scanE:
  assumes "ipr_bits_next self i = Inr r"
  obtains c n where
    "r = (if c = 0 then - 1 else int (n * 8 + hd (byte_bits c)))"
    "n < IPR_BITS_SIZE" "c = 0 \<Longrightarrow> bits_size self \<le> n"
    "\<And>j. i < j \<Longrightarrow> j div 8 < n \<Longrightarrow> \<not> bit (bits_data self (j div 8)) (j mod 8)"
    "\<And>h. h < 8 \<Longrightarrow> bit c h \<longleftrightarrow> bit (bits_data self n) h \<and> i < n * 8 + h"
proof -
  let ?b = "i div 8" and ?m = "clear_trailing_bits ! (i mod 8)" and ?d = "bits_data self"
  have mask: "bit (?d ?b AND ?m) j \<longleftrightarrow> bit (?d ?b) j \<and> i mod 8 < j" for j
    using clear_trailing_bits_byte [of "i mod 8"] byte_bits_iff [of j ?m] bit_imp_le_length [of "?d ?b" j]
    by (auto simp: bit_and_iff)
  from assms obtain c n where i: "i < IPR_BITS_SIZE_BITS"
    and scan: "bits_scan_up 0 ?d (bits_size self) (?d ?b AND ?m) ?b = Inr (c, n)"
    and r: "r = (if c = 0 then - 1 else int (n * 8 + hd (byte_bits c)))"
    by (auto simp: ipr_bits_next_def Let_def c_bind_Inr_iff s_first_bit_on_byte word_gt_0 split: if_splits)
  have res: "n = ?b \<and> c = ?d ?b AND ?m \<or>
      ?b < n \<and> n < IPR_BITS_SIZE \<and> ?d ?b AND ?m = 0 \<and> c = ?d n \<and> (\<forall>j. ?b < j \<and> j < n \<longrightarrow> ?d j = 0)"
    and fin: "c = 0 \<longrightarrow> bits_size self \<le> n"
    using scan_up_result [OF scan] by auto
  have below: "\<not> bit (?d (j div 8)) (j mod 8)" if "i < j" "j div 8 < n" for j
  proof (cases "j div 8 = ?b")
    case True
    with that res mask [of "j mod 8"] same_byte_less [of i j] show ?thesis by auto
  next
    case False
    with that have "?b < j div 8" by (metis div_le_mono le_neq_implies_less less_imp_le)
    with that res show ?thesis by auto
  qed
  have here: "bit c h \<longleftrightarrow> bit (?d n) h \<and> i < n * 8 + h" if "h < 8" for h
  proof (cases "n = ?b")
    case True
    with that res mask [of h] same_byte_less [of i "?b * 8 + h"] show ?thesis by auto
  next
    case False
    with res have "i < n * 8 + h" by auto
    with False res show ?thesis by auto
  qed
  from res i div8_bound have "n < IPR_BITS_SIZE" by auto
  with r fin below here that show ?thesis by blast
qed

lemma bits_next_hit:
  assumes "ipr_bits_next self i = Inr r" and "r \<noteq> - 1"
  obtains k where "r = int k" "i < k" "k \<in> bits_abs self" "\<forall>j\<in>bits_abs self. i < j \<longrightarrow> k \<le> j"
proof (rule bits_next_scanE [OF assms(1)])
  fix c n
  assume r: "r = (if c = 0 then - 1 else int (n * 8 + hd (byte_bits c)))"
    and n: "n < IPR_BITS_SIZE"
    and below: "\<And>j. i < j \<Longrightarrow> j div 8 < n \<Longrightarrow> \<not> bit (bits_data self (j div 8)) (j mod 8)"
    and here: "\<And>h. h < 8 \<Longrightarrow> bit c h \<longleftrightarrow> bit (bits_data self n) h \<and> i < n * 8 + h"
  from r assms(2) have c: "c \<noteq> 0" by auto
  define h where "h = hd (byte_bits c)"
  have h: "bit c h" "\<forall>j. bit c j \<longrightarrow> h \<le> j" using byte_bits_hd [OF c] by (auto simp: h_def)
  then have h8: "h < 8" using bit_imp_le_length by fastforce
  then have dm: "(n * 8 + h) div 8 = n" "(n * 8 + h) mod 8 = h" by auto
  have "n * 8 + h \<in> bits_abs self"
    using here [OF h8] h(1) h8 n div8_bound [of "n * 8 + h"] by (simp add: bits_abs_def)
  moreover have "n * 8 + h \<le> j" if "j \<in> bits_abs self" "i < j" for j
  proof -
    from that(1) have bit: "bit (bits_data self (j div 8)) (j mod 8)" by (simp add: bits_abs_def)
    with below that(2) have "n \<le> j div 8" by (meson not_less)
    moreover have "h \<le> j mod 8" if "j div 8 = n"
      using here [of "j mod 8"] bit h(2) that \<open>i < j\<close> by (metis div_mult_mod_eq mod_less_divisor zero_less_numeral)
    moreover have "j = j div 8 * 8 + j mod 8" by simp
    ultimately show ?thesis
      using h8 by (cases "j div 8 = n") linarith+
  qed
  ultimately show ?thesis
    using that [of "n * 8 + h"] r c here [OF h8] h(1) by (simp add: h_def)
qed

lemma bits_next_miss:
  assumes "ipr_bits_next self i = Inr (- 1)" and "bits_inv self" and "j \<in> bits_abs self"
  shows "j \<le> i"
proof (rule bits_next_scanE [OF assms(1)])
  fix c n
  assume r: "- 1 = (if c = 0 then - 1 else int (n * 8 + hd (byte_bits c)))"
    and sz: "c = 0 \<Longrightarrow> bits_size self \<le> n"
    and below: "\<And>j. i < j \<Longrightarrow> j div 8 < n \<Longrightarrow> \<not> bit (bits_data self (j div 8)) (j mod 8)"
    and here: "\<And>h. h < 8 \<Longrightarrow> bit c h \<longleftrightarrow> bit (bits_data self n) h \<and> i < n * 8 + h"
  from r have c: "c = 0" by (simp split: if_splits)
  from assms(3) have bit: "bit (bits_data self (j div 8)) (j mod 8)" and j: "j div 8 < IPR_BITS_SIZE"
    using div8_bound by (auto simp: bits_abs_def)
  then have "j div 8 < bits_size self"
    using assms(2) by (metis bits_inv_def bit_0_eq bot_apply bot_bool_def linorder_not_le)
  with sz [OF c] have lt: "j div 8 < n" by simp
  show "j \<le> i" using below [of j] lt bit by (meson not_less)
qed

lemma bits_next_defined:
  assumes "i < IPR_BITS_SIZE_BITS" and "bits_size self < IPR_BITS_SIZE"
  shows "\<exists>r. ipr_bits_next self i = Inr r"
proof -
  let ?c = "bits_data self (i div 8) AND clear_trailing_bits ! (i mod 8)"
  obtain c n where "bits_scan_up 0 (bits_data self) (bits_size self) ?c (i div 8) = Inr (c, n)"
    using scan_up_defined [of "bits_size self" "i div 8"] assms div8_bound by blast
  with assms show ?thesis by (simp add: ipr_bits_next_def Let_def)
qed


section \<open>Walking over the set bits\<close>

lemma bits_next_progress:
  assumes "ipr_bits_next self i = Inr r" and "r \<noteq> - 1"
  shows "int i < r \<and> r < int IPR_BITS_SIZE_BITS"
proof -
  from bits_next_hit [OF assms] obtain k where "r = int k" "i < k" "k \<in> bits_abs self" by metis
  then show ?thesis using bits_abs_bound by simp
qed

text \<open>
  The loop \<^verbatim>\<open>while (nbr >= 0) { ...; nbr = ipr_bits_next (bits, nbr); }\<close> that the exchanges run
  over a bitmap, returning the numbers it visits.  It stops because each step moves up.
\<close>

function ipr_bits_walk :: "ipr_bits \<Rightarrow> int \<Rightarrow> nat list c_result" where
  "ipr_bits_walk self nbr =
     (if nbr < 0 then Inr []
      else case ipr_bits_next self (nat nbr) of
             Inl e \<Rightarrow> Inl e
           | Inr r \<Rightarrow> c_bind (ipr_bits_walk self r) (\<lambda>ns. Inr (nat nbr # ns)))"
  by pat_completeness auto
termination
proof (relation "measure (\<lambda>(self, nbr). if nbr < 0 then 0 else Suc IPR_BITS_SIZE_BITS - nat nbr)", goal_cases)
  case (2 self nbr r)
  then have "nat nbr < IPR_BITS_SIZE_BITS"
    by (auto simp: ipr_bits_next_def Let_def split: if_splits)
  with 2 show ?case
    using bits_next_progress [of self "nat nbr" r] by (cases "r = - 1") auto
qed simp

declare ipr_bits_walk.simps [simp del]

lemma bits_walk_from:
  assumes "bits_inv self" and "bits_size self < IPR_BITS_SIZE" and "n \<in> bits_abs self"
  shows "ipr_bits_walk self (int n) = Inr (sorted_list_of_set {k \<in> bits_abs self. n \<le> k})"
  using assms(3)
proof (induction "IPR_BITS_SIZE_BITS - n" arbitrary: n rule: less_induct)
  case less
  let ?A = "{k \<in> bits_abs self. n \<le> k}"
  have A: "sorted_list_of_set ?A = n # sorted_list_of_set (?A - {n})"
    using less.prems by (intro sorted_list_of_set_insert_Min) auto
  obtain r where r: "ipr_bits_next self n = Inr r"
    using bits_next_defined assms(2) bits_abs_bound [OF less.prems] by blast
  show ?case
  proof (cases "r = - 1")
    case True
    with bits_next_miss [OF _ assms(1)] r have "?A - {n} = {}" by fastforce
    then have "sorted_list_of_set ?A = [n]" using A by (metis sorted_list_of_set_empty)
    then show ?thesis
      using r True by (simp add: ipr_bits_walk.simps [of self "int n"] ipr_bits_walk.simps [of self "- 1"])
  next
    case False
    from bits_next_hit [OF r False] obtain k where k: "r = int k" "n < k" "k \<in> bits_abs self"
      "\<forall>j\<in>bits_abs self. n < j \<longrightarrow> k \<le> j" by blast
    then have eq: "?A - {n} = {j \<in> bits_abs self. k \<le> j}" by auto
    have "ipr_bits_walk self (int k) = Inr (sorted_list_of_set {j \<in> bits_abs self. k \<le> j})"
      using less.hyps [of k] k bits_abs_bound [OF k(3)] by simp
    then show ?thesis
      using A r k(1) by (simp add: ipr_bits_walk.simps [of self "int n"] eq)
  qed
qed

definition ipr_bits_members :: "ipr_bits \<Rightarrow> nat list c_result" where
  "ipr_bits_members self = c_bind (ipr_bits_first self) (ipr_bits_walk self)"

lemma bits_members_sorted:
  assumes "bits_inv self" and "bits_size self < IPR_BITS_SIZE"
  shows "ipr_bits_members self = Inr (sorted_list_of_set (bits_abs self))"
proof (cases "0 \<in> bits_abs self")
  case True
  then have "ipr_bits_first self = Inr 0"
    by (simp add: ipr_bits_first_def bits_test_abs bits_abs_bound)
  with bits_walk_from [OF assms True] show ?thesis by (simp add: ipr_bits_members_def)
next
  case False
  have "0 < IPR_BITS_SIZE_BITS" by (simp add: IPR_BITS_SIZE_BITS_def IPR_BITS_SIZE_def)
  with False have first: "ipr_bits_first self = ipr_bits_next self 0"
    by (simp add: ipr_bits_first_def bits_test_abs)
  obtain r where r: "ipr_bits_next self 0 = Inr r"
    using bits_next_defined assms(2) \<open>0 < IPR_BITS_SIZE_BITS\<close> by blast
  show ?thesis
  proof (cases "r = - 1")
    case True
    with bits_next_miss [OF _ assms(1)] r have "bits_abs self \<subseteq> {0}" by fastforce
    with False have "bits_abs self = {}" by auto
    with first r True show ?thesis
      by (simp add: ipr_bits_members_def ipr_bits_walk.simps [of self "- 1"])
  next
    case neq: False
    from bits_next_hit [OF r neq] obtain k where k: "r = int k" "k \<in> bits_abs self"
      "\<forall>j\<in>bits_abs self. 0 < j \<longrightarrow> k \<le> j" by blast
    with False have "{j \<in> bits_abs self. k \<le> j} = bits_abs self" by (auto intro: gr0I)
    with first r k bits_walk_from [OF assms k(2)] show ?thesis by (simp add: ipr_bits_members_def)
  qed
qed

section \<open>Counting and combining\<close>

lemma bits_ones_loop_card:
  "bits_ones_loop d n = card {k. k < n * 8 \<and> bit (d (k div 8)) (k mod 8)}"
proof (induction n)
  case (Suc n)
  let ?S = "\<lambda>n. {k. k < n * 8 \<and> bit (d (k div 8)) (k mod 8)}"
  have split: "?S (Suc n) = ?S n \<union> (\<lambda>h. n * 8 + h) ` set (byte_bits (d n))"
  proof (intro equalityI subsetI)
    fix k assume k: "k \<in> ?S (Suc n)"
    show "k \<in> ?S n \<union> (\<lambda>h. n * 8 + h) ` set (byte_bits (d n))"
    proof (cases "k < n * 8")
      case False
      with k have "k div 8 = n" by auto
      with k have "k = n * 8 + k mod 8" "bit (d n) (k mod 8)" by (auto simp flip: div_mult_mod_eq)
      then show ?thesis by (auto simp: byte_bits_iff)
    qed (use k in auto)
  next
    fix k assume "k \<in> ?S n \<union> (\<lambda>h. n * 8 + h) ` set (byte_bits (d n))"
    then show "k \<in> ?S (Suc n)" by (auto simp: byte_bits_def)
  qed
  have "card (?S (Suc n)) = card (?S n) + card ((\<lambda>h. n * 8 + h) ` set (byte_bits (d n)))"
    unfolding split by (rule card_Un_disjoint) auto
  moreover have "card ((\<lambda>h. n * 8 + h) ` set (byte_bits (d n))) = length (byte_bits (d n))"
    by (subst card_image) (simp_all add: byte_bits_def distinct_card del: set_filter)
  ultimately show ?case using Suc.IH by (simp add: s_bit_count_byte)
qed simp

lemma bits_word_loop_result:
  "cur mod 8 = 0 \<Longrightarrow>
   bits_word_loop f src limit cur d =
     (\<lambda>i. if cur \<le> i \<and> i < max cur ((limit + 7) div 8 * 8) then f (d i) (src i) else d i,
      max cur ((limit + 7) div 8 * 8))"
proof (induction f src limit cur d rule: bits_word_loop.induct)
  case (1 f src limit cur d)
  show ?case
  proof (cases "cur < limit")
    case True
    let ?e = "(limit + 7) div 8 * 8"
    from True 1(2) have e: "cur + 8 \<le> ?e" by presburger
    have "bits_word_loop f src limit cur d =
      bits_word_loop f src limit (cur + 8) (\<lambda>i. if cur \<le> i \<and> i < cur + 8 then f (d i) (src i) else d i)"
      using True by (simp add: bits_word_loop.simps [of f src limit cur d])
    with "1.IH" [OF True] 1(2) e show ?thesis by (auto simp: fun_eq_iff max_def)
  next
    case False
    with 1(2) have "(limit + 7) div 8 * 8 \<le> cur" by presburger
    with False show ?thesis
      by (auto simp: bits_word_loop.simps [of f src limit cur d] max_def fun_eq_iff)
  qed
qed


lemma round8_le: "n \<le> IPR_BITS_SIZE \<Longrightarrow> (n + 7) div 8 * 8 \<le> IPR_BITS_SIZE"
  unfolding IPR_BITS_SIZE_def by presburger

lemma round8_ge: "n \<le> (n + 7) div 8 * 8" for n :: nat
  by presburger

lemma bits_abs_eqI:
  assumes "\<And>i k. i < IPR_BITS_SIZE \<Longrightarrow> k < 8 \<Longrightarrow> bit (bits_data b i) k \<longleftrightarrow> P (i * 8 + k)"
  shows "bits_abs b = {k. k < IPR_BITS_SIZE_BITS \<and> P k}"
  using assms [of "k div 8" "k mod 8" for k] by (auto simp: bits_abs_def div8_bound)

lemma bits_abs_iff: "i < IPR_BITS_SIZE \<Longrightarrow> k < 8 \<Longrightarrow> i * 8 + k \<in> bits_abs b \<longleftrightarrow> bit (bits_data b i) k"
  by (simp add: bits_abs_def div8_bound)

lemma bits_data_0: "bits_inv b \<Longrightarrow> bits_size b \<le> i \<Longrightarrow> i < IPR_BITS_SIZE \<Longrightarrow> bits_data b i = 0"
  by (simp add: bits_inv_def)

lemma bits_size_le: "bits_inv b \<Longrightarrow> bits_size b \<le> IPR_BITS_SIZE"
  by (simp add: bits_inv_def)

lemma bits_and_data:
  assumes "bits_inv a" "bits_inv b"
  obtains c where "ipr_bits_and a b = Inr c" "bits_size c = bits_size a"
    "\<And>i. i < IPR_BITS_SIZE \<Longrightarrow> bits_data c i = bits_data a i AND bits_data b i"
proof -
  let ?m = "min (bits_size a) (bits_size b)"
  let ?e = "(?m + 7) div 8 * 8"
  note sz = bits_size_le [OF assms(1)] bits_size_le [OF assms(2)]
  have e: "?e \<le> IPR_BITS_SIZE" "?m \<le> ?e" using sz round8_le [of ?m] round8_ge [of ?m] by auto
  have zero: "bits_data a i AND bits_data b i = 0" if "?e \<le> i" "i < IPR_BITS_SIZE" for i
    using that e bits_data_0 [OF assms(1), of i] bits_data_0 [OF assms(2), of i] by (auto simp: min_def split: if_splits)
  define c where "c = a\<lparr>bits_data := c_memset ?e 0 (IPR_BITS_SIZE - ?e)
     (\<lambda>i. if i < ?e then bits_data a i AND bits_data b i else bits_data a i)\<rparr>"
  have "ipr_bits_and a b = Inr c"
    using sz by (simp add: ipr_bits_and_def bits_word_loop_result c_def)
  moreover have "bits_data c i = bits_data a i AND bits_data b i" if "i < IPR_BITS_SIZE" for i
    using that e zero [of i] by (auto simp: c_def c_memset_def)
  ultimately show ?thesis using that [of c] by (simp add: c_def)
qed

lemma bits_merge_data:
  assumes "bits_inv a" "bits_inv b" and "\<And>x. f x 0 = x" and "i < IPR_BITS_SIZE"
  shows "fst (bits_word_loop f (bits_data b) (max (bits_size a) (bits_size b)) 0 (bits_data a)) i =
    f (bits_data a i) (bits_data b i)"
proof -
  let ?m = "max (bits_size a) (bits_size b)"
  have "bits_data b i = 0" if "(?m + 7) div 8 * 8 \<le> i"
    using that assms(4) round8_ge [of ?m] bits_data_0 [OF assms(2), of i] by auto
  with assms(3) show ?thesis by (auto simp: bits_word_loop_result)
qed

lemma bits_or_data:
  assumes "bits_inv a" "bits_inv b"
  obtains c where "ipr_bits_or a b = Inr c" "bits_size c = max (bits_size a) (bits_size b)"
    "\<And>i. i < IPR_BITS_SIZE \<Longrightarrow> bits_data c i = bits_data a i OR bits_data b i"
  using that [of "the (case ipr_bits_or a b of Inr c \<Rightarrow> Some c)"] bits_size_le [OF assms(2)]
    bits_merge_data [OF assms, of "(OR)"]
  by (simp add: ipr_bits_or_def Let_def case_prod_unfold)

lemma bits_xor_data:
  assumes "bits_inv a" "bits_inv b"
  obtains c where "ipr_bits_xor a b = Inr c" "bits_size c = max (bits_size a) (bits_size b)"
    "\<And>i. i < IPR_BITS_SIZE \<Longrightarrow> bits_data c i = bits_data a i XOR bits_data b i"
  using that [of "the (case ipr_bits_xor a b of Inr c \<Rightarrow> Some c)"] bits_size_le [OF assms(2)]
    bits_merge_data [OF assms, of "(XOR)"]
  by (simp add: ipr_bits_xor_def Let_def case_prod_unfold)

lemma bits_not_data:
  assumes "bits_inv a"
  obtains c where "ipr_bits_not a = Inr c" "bits_size c = IPR_BITS_SIZE"
    "\<And>i. i < IPR_BITS_SIZE \<Longrightarrow> bits_data c i = NOT (bits_data a i)"
proof -
  let ?e = "(bits_size a + 7) div 8 * 8"
  note sz = bits_size_le [OF assms]
  have e: "?e \<le> IPR_BITS_SIZE" "bits_size a \<le> ?e" using sz round8_le round8_ge by auto
  have zero: "bits_data a i = 0" if "?e \<le> i" "i < IPR_BITS_SIZE" for i
    using that e(2) bits_data_0 [OF assms, of i] by auto
  define c where "c = a\<lparr>bits_data := c_memset ?e 0xFF (IPR_BITS_SIZE - ?e)
     (\<lambda>i. if i < ?e then NOT (bits_data a i) else bits_data a i), bits_size := IPR_BITS_SIZE\<rparr>"
  have "ipr_bits_not a = Inr c"
    using sz by (simp add: ipr_bits_not_def bits_word_loop_result c_def)
  moreover have "bits_data c i = NOT (bits_data a i)" if "i < IPR_BITS_SIZE" for i
    using that e zero [of i] by (auto simp: c_def c_memset_def)
  ultimately show ?thesis using that [of c] by (simp add: c_def)
qed


text \<open>The four bitwise operations keep the invariant and act on the set of bits.\<close>

lemma bits_combine:
  assumes "bits_size c \<le> IPR_BITS_SIZE" and "\<And>i. i < IPR_BITS_SIZE \<Longrightarrow> bits_data c i = f i"
    and "\<And>i. bits_size c \<le> i \<Longrightarrow> i < IPR_BITS_SIZE \<Longrightarrow> f i = 0"
    and "\<And>i k. i < IPR_BITS_SIZE \<Longrightarrow> k < 8 \<Longrightarrow> bit (f i) k \<longleftrightarrow> i * 8 + k \<in> A"
  shows "bits_inv c \<and> bits_abs c = {k. k < IPR_BITS_SIZE_BITS \<and> k \<in> A}"
proof
  show "bits_inv c" using assms(1-3) by (simp add: bits_inv_def)
  show "bits_abs c = {k. k < IPR_BITS_SIZE_BITS \<and> k \<in> A}"
    using assms(2,4) by (intro bits_abs_eqI) simp
qed

lemma bits_overrun:
  assumes "bits_size self = IPR_BITS_SIZE" and "i < IPR_BITS_SIZE_BITS" and "\<forall>k\<in>bits_abs self. k \<le> i"
  shows "ipr_bits_next self i = Inl Out_Of_Bounds"
proof (cases "ipr_bits_next self i")
  case (Inr r)
  show ?thesis
  proof (cases "r = - 1")
    case True
    from Inr show ?thesis
      by (rule bits_next_scanE) (use True assms(1) in \<open>auto split: if_splits\<close>)
  next
    case False
    from bits_next_hit [OF Inr False] assms(3) show ?thesis by (metis linorder_not_le)
  qed
next
  case (Inl e)
  have "bits_scan_up skip d sz c n = Inl e \<Longrightarrow> e = Out_Of_Bounds" for skip d sz c n
    by (induction skip d sz c n rule: bits_scan_up.induct)
      (metis bits_scan_up.simps sum.inject(1) sum.distinct(1))
  with Inl assms(2) show ?thesis
    by (auto simp: ipr_bits_next_def Let_def c_bind_def split: sum.splits if_splits)
qed

section \<open>Properties\<close>

definition selftest_bits :: ipr_bits where
  "selftest_bits = \<lparr>bits_size = 2, bits_data = (\<lambda>_. 0)(1 := 6)\<rparr>"

lemma selftest_bits_built:
  "c_bind (ipr_bits_set ipr_bits_new 9) (\<lambda>b. ipr_bits_set b 10) = Inr selftest_bits"
  by (simp add: ipr_bits_set_def ipr_bits_new_def selftest_bits_def IPR_BITS_SIZE_BITS_def
      IPR_BITS_SIZE_def s_bit_set_def)

lemma selftest_bits_facts [simp]:
  "bits_inv selftest_bits" "bits_size selftest_bits < IPR_BITS_SIZE" "9 < IPR_BITS_SIZE_BITS"
  by (simp_all add: selftest_bits_def bits_inv_def IPR_BITS_SIZE_def IPR_BITS_SIZE_BITS_def)

text \<open>
  Setting and clearing a bit inside the string succeed, keep the object's invariant, change
  exactly that bit, and the change is what \<^verbatim>\<open>ipr_bits_test\<close> reads back at every position.
\<close>

theorem bits_set_clear_test:
  assumes "bits_inv b" and "n < IPR_BITS_SIZE_BITS"
  shows "\<exists>s c. ipr_bits_set b n = Inr s \<and> ipr_bits_clear b n = Inr c \<and> bits_inv s \<and> bits_inv c \<and>
    (\<forall>k<IPR_BITS_SIZE_BITS. ipr_bits_test s k = Inr (of_bool (k = n \<or> k \<in> bits_abs b))) \<and>
    (\<forall>k<IPR_BITS_SIZE_BITS. ipr_bits_test c k = Inr (of_bool (k \<noteq> n \<and> k \<in> bits_abs b)))"
proof -
  obtain s where s: "ipr_bits_set b n = Inr s" using bits_set_defined [OF assms(2)] by blast
  obtain c where c: "ipr_bits_clear b n = Inr c"
    using assms(2) by (simp add: ipr_bits_clear_def Let_def)
  show ?thesis
    using s c bits_set_inv [OF s assms(1)] bits_clear_inv [OF c assms(1)]
    by (auto simp: bits_test_abs bits_set_abs [OF s] bits_clear_abs [OF c])
qed

theorem bits_set_clear_test_witness:
  "bits_inv selftest_bits \<and> 9 < IPR_BITS_SIZE_BITS \<and>
   (\<exists>s c. ipr_bits_set selftest_bits 9 = Inr s \<and> ipr_bits_clear selftest_bits 9 = Inr c \<and>
      ipr_bits_test s 9 = Inr 1 \<and> ipr_bits_test c 9 = Inr 0)"
  using bits_set_clear_test [of selftest_bits 9] by fastforce

text \<open>
  \<^verbatim>\<open>ipr_bits_next\<close> returns the least set bit after the given one, and -1 exactly when there
  is none, for every string that does not use its last byte.
\<close>

theorem bits_next_correct:
  assumes "bits_inv b" and "bits_size b < IPR_BITS_SIZE" and "i < IPR_BITS_SIZE_BITS"
  shows "ipr_bits_next b i =
    Inr (if \<exists>k\<in>bits_abs b. i < k then int (Min {k \<in> bits_abs b. i < k}) else - 1)"
proof -
  obtain r where r: "ipr_bits_next b i = Inr r" using bits_next_defined assms(2,3) by blast
  show ?thesis
  proof (cases "r = - 1")
    case True
    with bits_next_miss [OF _ assms(1)] r show ?thesis by fastforce
  next
    case False
    from bits_next_hit [OF r False] obtain k where k: "r = int k" "i < k" "k \<in> bits_abs b"
      "\<forall>j\<in>bits_abs b. i < j \<longrightarrow> k \<le> j" by blast
    then have "Min {j \<in> bits_abs b. i < j} = k" by (intro Min_eqI) auto
    with r k show ?thesis by auto
  qed
qed

theorem bits_next_correct_witness:
  "bits_inv selftest_bits \<and> bits_size selftest_bits < IPR_BITS_SIZE \<and> 9 < IPR_BITS_SIZE_BITS \<and>
   ipr_bits_next selftest_bits 9 =
     Inr (if \<exists>k\<in>bits_abs selftest_bits. 9 < k then int (Min {k \<in> bits_abs selftest_bits. 9 < k}) else - 1)"
  using bits_next_correct [of selftest_bits 9] by simp

text \<open>
  C29. The first/next loop over a bitmap that does not use the last of its bytes terminates and visits every
  set bit exactly once, in increasing order.
\<close>

theorem bits_members_enumerates:
  assumes "bits_inv b" and "bits_size b < IPR_BITS_SIZE"
  shows "ipr_bits_members b = Inr (sorted_list_of_set (bits_abs b))"
  using assms by (rule bits_members_sorted)

theorem bits_members_enumerates_witness:
  "bits_inv selftest_bits \<and> bits_size selftest_bits < IPR_BITS_SIZE \<and>
   ipr_bits_members selftest_bits = Inr (sorted_list_of_set (bits_abs selftest_bits))"
  using bits_members_enumerates [of selftest_bits] by simp

text \<open>
  A set bit in the last byte of the string makes the same loop read one byte beyond the
  array: the scan tests \<^verbatim>\<open>byte_nbr < size\<close> and then reads \<^verbatim>\<open>data [++byte_nbr]\<close>.
\<close>

theorem bits_next_overruns:
  assumes "bits_inv b" and "n \<in> bits_abs b" and "(IPR_BITS_SIZE - 1) * 8 \<le> n"
  shows "ipr_bits_next b (Max (bits_abs b)) = Inl Out_Of_Bounds"
proof -
  have ne: "bits_abs b \<noteq> {}" using assms(2) by auto
  then have M: "Max (bits_abs b) \<in> bits_abs b" by simp
  have "n < IPR_BITS_SIZE_BITS" using assms(2) by (rule bits_abs_bound)
  with assms(3) have "n div 8 = IPR_BITS_SIZE - 1"
    unfolding IPR_BITS_SIZE_BITS_def IPR_BITS_SIZE_def by presburger
  then have "bits_data b (IPR_BITS_SIZE - 1) \<noteq> 0" using assms(2) by (auto simp: bits_abs_def)
  then have "bits_size b = IPR_BITS_SIZE"
    using bits_data_0 [OF assms(1), of "IPR_BITS_SIZE - 1"] bits_size_le [OF assms(1)]
    by (cases "bits_size b \<le> IPR_BITS_SIZE - 1") (auto simp: IPR_BITS_SIZE_def)
  then show ?thesis using bits_abs_bound [OF M] by (intro bits_overrun) auto
qed

definition last_bits :: ipr_bits where
  "last_bits = \<lparr>bits_size = IPR_BITS_SIZE, bits_data = (\<lambda>_. 0)(IPR_BITS_SIZE - 1 := 1)\<rparr>"

theorem bits_next_overruns_witness:
  "bits_inv last_bits \<and> 131064 \<in> bits_abs last_bits \<and> (IPR_BITS_SIZE - 1) * 8 \<le> 131064 \<and>
   ipr_bits_next last_bits (Max (bits_abs last_bits)) = Inl Out_Of_Bounds"
proof -
  have h: "bits_inv last_bits" "131064 \<in> bits_abs last_bits" "(IPR_BITS_SIZE - 1) * 8 \<le> 131064"
    by (auto simp: last_bits_def bits_inv_def bits_abs_def IPR_BITS_SIZE_def IPR_BITS_SIZE_BITS_def)
  with bits_next_overruns [OF h] show ?thesis by simp
qed

text \<open>
  \<^verbatim>\<open>ipr_bits_ones\<close> counts the set bits: the 256-entry table holds the number of set bits of
  every byte, and bytes past \<^verbatim>\<open>size\<close> contribute none.
\<close>

theorem bits_ones_counts:
  assumes "bits_inv b"
  shows "ipr_bits_ones b = Inr (card (bits_abs b))"
proof -
  have "{k. k < bits_size b * 8 \<and> bit (bits_data b (k div 8)) (k mod 8)} = bits_abs b"
    (is "?L = _")
  proof (intro equalityI subsetI)
    fix k assume "k \<in> ?L"
    with bits_size_le [OF assms] show "k \<in> bits_abs b"
      by (auto simp: bits_abs_def IPR_BITS_SIZE_BITS_def)
  next
    fix k assume k: "k \<in> bits_abs b"
    then have "k div 8 < bits_size b"
      using bits_data_0 [OF assms, of "k div 8"] by (auto simp: bits_abs_def div8_bound intro: ccontr)
    with k show "k \<in> ?L" by (auto simp: bits_abs_def)
  qed
  with bits_size_le [OF assms] show ?thesis by (simp add: ipr_bits_ones_def bits_ones_loop_card)
qed

theorem bits_ones_counts_witness:
  "bits_inv selftest_bits \<and> ipr_bits_ones selftest_bits = Inr (card (bits_abs selftest_bits)) \<and>
   ipr_bits_ones selftest_bits = Inr 2"
proof -
  have "ipr_bits_ones selftest_bits = Inr 2" by code_simp
  with bits_ones_counts [of selftest_bits] show ?thesis by simp
qed

lemma bits_and_abs:
  assumes "bits_inv a" and "bits_inv b"
  shows "\<exists>c. ipr_bits_and a b = Inr c \<and> bits_inv c \<and> bits_abs c = bits_abs a \<inter> bits_abs b"
proof -
  obtain c where c: "ipr_bits_and a b = Inr c" "bits_size c = bits_size a"
    "\<And>i. i < IPR_BITS_SIZE \<Longrightarrow> bits_data c i = bits_data a i AND bits_data b i"
    by (rule bits_and_data [OF assms]) blast
  then have "bits_inv c \<and> bits_abs c = {k. k < IPR_BITS_SIZE_BITS \<and> k \<in> bits_abs a \<inter> bits_abs b}"
    using bits_size_le [OF assms(1)] bits_size_le [OF assms(2)]
    by (intro bits_combine [OF _ c(3)])
      (auto simp: bit_and_iff bits_abs_iff bits_data_0 [OF assms(1)] bits_data_0 [OF assms(2)])
  with c(1) show ?thesis using bits_abs_bound by auto
qed

lemma bits_or_abs:
  assumes "bits_inv a" and "bits_inv b"
  shows "\<exists>c. ipr_bits_or a b = Inr c \<and> bits_inv c \<and> bits_abs c = bits_abs a \<union> bits_abs b"
proof -
  obtain c where c: "ipr_bits_or a b = Inr c" "bits_size c = max (bits_size a) (bits_size b)"
    "\<And>i. i < IPR_BITS_SIZE \<Longrightarrow> bits_data c i = bits_data a i OR bits_data b i"
    by (rule bits_or_data [OF assms]) blast
  then have "bits_inv c \<and> bits_abs c = {k. k < IPR_BITS_SIZE_BITS \<and> k \<in> bits_abs a \<union> bits_abs b}"
    using bits_size_le [OF assms(1)] bits_size_le [OF assms(2)]
    by (intro bits_combine [OF _ c(3)])
      (auto simp: bit_or_iff bits_abs_iff bits_data_0 [OF assms(1)] bits_data_0 [OF assms(2)])
  with c(1) show ?thesis using bits_abs_bound by auto
qed

lemma bits_xor_abs:
  assumes "bits_inv a" and "bits_inv b"
  shows "\<exists>c. ipr_bits_xor a b = Inr c \<and> bits_inv c \<and> bits_abs c = (bits_abs a - bits_abs b) \<union> (bits_abs b - bits_abs a)"
proof -
  obtain c where c: "ipr_bits_xor a b = Inr c" "bits_size c = max (bits_size a) (bits_size b)"
    "\<And>i. i < IPR_BITS_SIZE \<Longrightarrow> bits_data c i = bits_data a i XOR bits_data b i"
    by (rule bits_xor_data [OF assms]) blast
  then have "bits_inv c \<and> bits_abs c = {k. k < IPR_BITS_SIZE_BITS \<and> k \<in> (bits_abs a - bits_abs b) \<union> (bits_abs b - bits_abs a)}"
    using bits_size_le [OF assms(1)] bits_size_le [OF assms(2)]
    by (intro bits_combine [OF _ c(3)])
      (auto simp: bit_xor_iff bits_abs_iff bits_data_0 [OF assms(1)] bits_data_0 [OF assms(2)])
  with c(1) show ?thesis using bits_abs_bound by auto
qed

lemma bits_not_abs:
  assumes "bits_inv a"
  shows "\<exists>c. ipr_bits_not a = Inr c \<and> bits_inv c \<and> bits_abs c = {..<IPR_BITS_SIZE_BITS} - bits_abs a"
proof -
  obtain c where c: "ipr_bits_not a = Inr c" "bits_size c = IPR_BITS_SIZE"
    "\<And>i. i < IPR_BITS_SIZE \<Longrightarrow> bits_data c i = NOT (bits_data a i)"
    by (rule bits_not_data [OF assms]) blast
  then have "bits_inv c \<and> bits_abs c =
      {k. k < IPR_BITS_SIZE_BITS \<and> k \<in> {..<IPR_BITS_SIZE_BITS} - bits_abs a}"
    by (intro bits_combine [OF _ c(3)]) (auto simp: bit_not_iff bits_abs_iff div8_bound)
  with c(1) show ?thesis by auto
qed

text \<open>
  The word-wise \<^verbatim>\<open>and\<close>, \<^verbatim>\<open>or\<close>, \<^verbatim>\<open>xor\<close> and \<^verbatim>\<open>not\<close> succeed on well-formed strings, keep them
  well-formed, and are intersection, union, symmetric difference and complement of the bits.
\<close>

theorem bits_boolean_ops:
  assumes "bits_inv a" and "bits_inv b"
  shows "(\<exists>c. ipr_bits_and a b = Inr c \<and> bits_inv c \<and> bits_abs c = bits_abs a \<inter> bits_abs b) \<and>
    (\<exists>c. ipr_bits_or a b = Inr c \<and> bits_inv c \<and> bits_abs c = bits_abs a \<union> bits_abs b) \<and>
    (\<exists>c. ipr_bits_xor a b = Inr c \<and> bits_inv c \<and>
       bits_abs c = (bits_abs a - bits_abs b) \<union> (bits_abs b - bits_abs a)) \<and>
    (\<exists>c. ipr_bits_not a = Inr c \<and> bits_inv c \<and> bits_abs c = {..<IPR_BITS_SIZE_BITS} - bits_abs a)"
  using bits_and_abs [OF assms] bits_or_abs [OF assms] bits_xor_abs [OF assms] bits_not_abs [OF assms(1)]
  by simp

theorem bits_boolean_ops_witness:
  "bits_inv selftest_bits \<and> bits_inv ipr_bits_new \<and>
   (\<exists>c. ipr_bits_xor selftest_bits ipr_bits_new = Inr c \<and> bits_inv c \<and> bits_abs c = bits_abs selftest_bits)"
  using bits_boolean_ops [of selftest_bits ipr_bits_new] by auto

text \<open>
  \<^verbatim>\<open>ipr_bits_reset\<close> passes \<^verbatim>\<open>memset\<close> its length and fill value in the wrong order, so it
  clears no bit at all; only the recorded size becomes 0.
\<close>

theorem bits_reset_clears_nothing:
  "bits_abs (ipr_bits_reset b) = bits_abs b \<and> bits_size (ipr_bits_reset b) = 0"
  by (simp add: ipr_bits_reset_def bits_abs_def c_memset_def)

text \<open>
  \<^verbatim>\<open>ipr_bits_last\<close> finds no bit in a string that does not use its last byte, whatever is
  set: its downward scan runs only while \<^verbatim>\<open>byte_nbr < size\<close> and it starts at the top byte.
\<close>

theorem bits_last_finds_nothing:
  assumes "bits_inv b" and "bits_size b < IPR_BITS_SIZE"
  shows "ipr_bits_last b = Inr (- 1)"
proof -
  let ?t = "IPR_BITS_SIZE - 1"
  have arith: "(IPR_BITS_SIZE_BITS - 1) div 8 = ?t" "0 < IPR_BITS_SIZE_BITS"
    by (simp_all add: IPR_BITS_SIZE_BITS_def IPR_BITS_SIZE_def)
  have z: "bits_data b ?t = 0" using assms by (intro bits_data_0) auto
  have scan: "bits_scan_down 0 d n c m = Inr (c, m)" if "n \<le> m" for d n c m
    using that by (cases m) auto
  show ?thesis
    using arith z assms(2)
    by (simp add: ipr_bits_last_def ipr_bits_test_def ipr_bits_prev_def Let_def scan)
qed

theorem bits_last_finds_nothing_witness:
  "bits_inv selftest_bits \<and> bits_size selftest_bits < IPR_BITS_SIZE \<and>
   ipr_bits_test selftest_bits 10 = Inr 1 \<and> ipr_bits_last selftest_bits = Inr (- 1)"
proof -
  have "ipr_bits_test selftest_bits 10 = Inr 1"
    by (simp add: ipr_bits_test_def selftest_bits_def s_bit_set_def IPR_BITS_SIZE_BITS_def IPR_BITS_SIZE_def)
  with bits_last_finds_nothing [of selftest_bits] show ?thesis by simp
qed

section \<open>The bitstring provides the bitmap interface\<close>

text \<open>
  The capacity is one byte short of the array: the last byte cannot be used because of the
  overrun above.
\<close>

definition BITS_CAP :: nat where
  "BITS_CAP = (IPR_BITS_SIZE - 1) * 8"

definition bits_wf :: "ipr_bits \<Rightarrow> bool" where
  "bits_wf b \<longleftrightarrow> bits_inv b \<and> bits_size b < IPR_BITS_SIZE"

interpretation bm: bitmap ipr_bits_new ipr_bits_set ipr_bits_members bits_abs bits_wf BITS_CAP
proof unfold_locales
  show "bits_wf ipr_bits_new" by (simp add: bits_wf_def) (simp add: ipr_bits_new_def IPR_BITS_SIZE_def)
  fix b n
  show "bits_wf b \<Longrightarrow> n < BITS_CAP \<Longrightarrow>
    \<exists>b'. ipr_bits_set b n = Inr b' \<and> bits_wf b' \<and> bits_abs b' = insert n (bits_abs b)"
  proof -
    assume b: "bits_wf b" and n: "n < BITS_CAP"
    then have "n < IPR_BITS_SIZE_BITS"
      by (simp add: BITS_CAP_def IPR_BITS_SIZE_BITS_def)
    then obtain b' where b': "ipr_bits_set b n = Inr b'" using bits_set_defined by blast
    then have "bits_size b' \<le> max (bits_size b) (n div 8 + 1)"
      by (auto simp: ipr_bits_set_def Let_def split: if_splits)
    moreover have "n div 8 + 1 < IPR_BITS_SIZE"
      using n unfolding BITS_CAP_def IPR_BITS_SIZE_def by presburger
    ultimately show ?thesis
      using b b' bits_set_inv [OF b'] bits_set_abs [OF b'] by (auto simp: bits_wf_def)
  qed
  show "bits_wf b \<Longrightarrow> ipr_bits_members b = Inr (sorted_list_of_set (bits_abs b))"
    by (simp add: bits_wf_def bits_members_sorted)
qed simp_all

end
