(* ===== verification/Ipr_Index.thy ===== *)
theory Ipr_Index
  imports Ipr_Bits
begin

text \<open>
  The object index of the iPR runtime, \<^verbatim>\<open>tooling/base2/ipr/ipr_index.c\<close>: a table of pointers
  in which an object is put at the first free slot after a hashed start.  The broker numbers its
  bindings with it; the numbers are the bit positions of the bitmaps.

  A pointer is a natural number, 0 the null pointer that marks a free slot.
\<close>

section \<open>The table and its operations\<close>

definition IPR_INDEX_MAX :: nat where
  "IPR_INDEX_MAX = IPR_BITS_SIZE_BITS"

record ipr_index =
  ix_size :: nat
  ix_data :: "nat \<Rightarrow> nat"

definition ipr_index_new :: ipr_index where
  "ipr_index_new = \<lparr>ix_size = 0, ix_data = (\<lambda>_. 0)\<rparr>"

text \<open>
  The probing loop wraps from the last slot to slot 0 and has no other exit than a free slot, so
  on a table without one it would not return: the model's result is then \<open>None\<close>.
\<close>

partial_function (option) ipr_index_probe :: "(nat \<Rightarrow> nat) \<Rightarrow> nat \<Rightarrow> nat option" where
  "ipr_index_probe d hash_index =
     (if d hash_index \<noteq> 0
      then ipr_index_probe d (if hash_index + 1 = IPR_INDEX_MAX then 0 else hash_index + 1)
      else Some hash_index)"

definition ipr_index_start :: "nat \<Rightarrow> nat \<Rightarrow> nat" where
  "ipr_index_start sz object =
     (let hash_range = sz * 2;
          hash_range = (if hash_range > IPR_INDEX_MAX then IPR_INDEX_MAX
                        else if hash_range < 16 then 16 else hash_range)
      in object mod (hash_range - 1) + 1)"

definition ipr_index_insert :: "ipr_index \<Rightarrow> nat \<Rightarrow> (ipr_index \<times> nat) c_result option" where
  "ipr_index_insert self object =
     (if \<not> ix_size self < IPR_INDEX_MAX then Some (Inl Assert_Failed)
      else case ipr_index_probe (ix_data self) (ipr_index_start (ix_size self) object) of
             None \<Rightarrow> None
           | Some hash_index \<Rightarrow>
               Some (Inr (if hash_index \<noteq> 0
                          then self\<lparr>ix_data := (ix_data self)(hash_index := object),
                                    ix_size := ix_size self + 1\<rparr>
                          else self,
                          hash_index)))"

definition ipr_index_delete :: "ipr_index \<Rightarrow> nat \<Rightarrow> ipr_index c_result" where
  "ipr_index_delete self index =
     (if \<not> (index > 0 \<and> index < IPR_INDEX_MAX) then Inl Assert_Failed
      else Inr (if ix_size self > 0
                then self\<lparr>ix_data := (ix_data self)(index := 0), ix_size := ix_size self - 1\<rparr>
                else self))"

section \<open>Invariant\<close>

definition ix_used :: "ipr_index \<Rightarrow> nat set" where
  "ix_used self = {i. i < IPR_INDEX_MAX \<and> ix_data self i \<noteq> 0}"

definition ix_inv :: "ipr_index \<Rightarrow> bool" where
  "ix_inv self \<longleftrightarrow> ix_data self 0 = 0 \<and> ix_size self = card (ix_used self)"

lemma index_max_pos: "16 < IPR_INDEX_MAX"
  by (simp add: IPR_INDEX_MAX_def IPR_BITS_SIZE_BITS_def IPR_BITS_SIZE_def)

lemma finite_ix_used [simp]: "finite (ix_used self)"
  by (rule finite_subset [of _ "{..<IPR_INDEX_MAX}"]) (auto simp: ix_used_def)

lemma ix_new_inv: "ix_inv ipr_index_new"
  by (simp add: ix_inv_def ipr_index_new_def ix_used_def)

lemma ix_size_less:
  assumes "ix_inv self"
  shows "ix_size self < IPR_INDEX_MAX"
proof -
  have "ix_used self \<subseteq> {1..<IPR_INDEX_MAX}"
    using assms by (auto simp: ix_used_def ix_inv_def Suc_le_eq) (metis gr0I less_irrefl)
  then have "card (ix_used self) \<le> IPR_INDEX_MAX - 1"
    using card_mono [of "{1..<IPR_INDEX_MAX}"] by simp
  with assms index_max_pos show ?thesis by (simp add: ix_inv_def)
qed

lemma ipr_index_start_range: "0 < ipr_index_start sz object \<and> ipr_index_start sz object < IPR_INDEX_MAX"
proof -
  have "object mod (r - 1) + 1 < IPR_INDEX_MAX" if "16 \<le> r" "r \<le> IPR_INDEX_MAX" for r
  proof -
    have "object mod (r - 1) < r - 1" using that by simp
    with that show ?thesis by linarith
  qed
  then show ?thesis using index_max_pos by (simp add: ipr_index_start_def Let_def)
qed

text \<open>
  Slot 0 is never filled, so the loop stops there at the latest: it finds the first free slot
  from the start upwards, or slot 0 when every slot up to the end of the table is taken.
\<close>

lemma probe_result:
  assumes "d 0 = 0" and "s < IPR_INDEX_MAX"
  shows "\<exists>h. ipr_index_probe d s = Some h \<and> d h = 0 \<and>
    (h = 0 \<and> (\<forall>j. s \<le> j \<and> j < IPR_INDEX_MAX \<and> 0 < j \<longrightarrow> d j \<noteq> 0) \<or>
     s \<le> h \<and> h < IPR_INDEX_MAX \<and> (\<forall>j. s \<le> j \<and> j < h \<longrightarrow> d j \<noteq> 0))"
  using assms(2)
proof (induction "IPR_INDEX_MAX - s" arbitrary: s rule: less_induct)
  case less
  show ?case
  proof (cases "d s = 0")
    case True
    then show ?thesis using less.prems by (auto simp: ipr_index_probe.simps [of d s])
  next
    case False
    show ?thesis
    proof (cases "s + 1 = IPR_INDEX_MAX")
      case True
      then have "ipr_index_probe d s = Some 0"
        using False assms(1) by (simp add: ipr_index_probe.simps [of d s] ipr_index_probe.simps [of d 0])
      moreover have "j = s" if "s \<le> j" "j < IPR_INDEX_MAX" for j using that True by simp
      ultimately show ?thesis using assms(1) False by metis
    next
      case neq: False
      then have step: "ipr_index_probe d s = ipr_index_probe d (s + 1)"
        using False by (simp add: ipr_index_probe.simps [of d s])
      obtain h where h: "ipr_index_probe d (s + 1) = Some h" "d h = 0"
        "h = 0 \<and> (\<forall>j. s + 1 \<le> j \<and> j < IPR_INDEX_MAX \<and> 0 < j \<longrightarrow> d j \<noteq> 0) \<or>
         s + 1 \<le> h \<and> h < IPR_INDEX_MAX \<and> (\<forall>j. s + 1 \<le> j \<and> j < h \<longrightarrow> d j \<noteq> 0)"
        using less.hyps [of "s + 1"] less.prems neq by (auto simp: diff_less_mono2)
      have ext: "s \<le> j \<longleftrightarrow> j = s \<or> s + 1 \<le> j" for j by auto
      from h False step show ?thesis by (metis ext)
    qed
  qed
qed

lemma index_insert_cases:
  assumes "ix_inv self"
  obtains (full) "ipr_index_insert self object = Some (Inr (self, 0))"
      "\<forall>j. ipr_index_start (ix_size self) object \<le> j \<and> j < IPR_INDEX_MAX \<longrightarrow> ix_data self j \<noteq> 0"
    | (slot) r where
      "ipr_index_insert self object = Some (Inr (self\<lparr>ix_data := (ix_data self)(r := object),
          ix_size := ix_size self + 1\<rparr>, r))"
      "0 < r" "r < IPR_INDEX_MAX" "ix_data self r = 0" "ipr_index_start (ix_size self) object \<le> r"
      "\<forall>j. ipr_index_start (ix_size self) object \<le> j \<and> j < r \<longrightarrow> ix_data self j \<noteq> 0"
proof -
  let ?s = "ipr_index_start (ix_size self) object"
  note range = ipr_index_start_range [of "ix_size self" object]
  have z: "ix_data self 0 = 0" using assms by (simp add: ix_inv_def)
  from probe_result [of "ix_data self" ?s] range z
  obtain h where h: "ipr_index_probe (ix_data self) ?s = Some h" "ix_data self h = 0"
    "h = 0 \<and> (\<forall>j. ?s \<le> j \<and> j < IPR_INDEX_MAX \<and> 0 < j \<longrightarrow> ix_data self j \<noteq> 0) \<or>
     ?s \<le> h \<and> h < IPR_INDEX_MAX \<and> (\<forall>j. ?s \<le> j \<and> j < h \<longrightarrow> ix_data self j \<noteq> 0)" by auto
  show ?thesis
  proof (cases "h = 0")
    case True
    with h range ix_size_less [OF assms] show ?thesis
      by (intro full) (auto simp: ipr_index_insert_def)
  next
    case False
    with h range ix_size_less [OF assms] show ?thesis
      by (intro slot [of h]) (auto simp: ipr_index_insert_def)
  qed
qed

text \<open>A table that is filled to less than a third has a free slot close behind the start.\<close>

lemma index_free_slot:
  assumes "ix_inv self" "3 * ix_size self + 17 \<le> c" "c \<le> IPR_INDEX_MAX"
  shows "\<exists>j. ipr_index_start (ix_size self) object \<le> j \<and> j < c \<and> ix_data self j = 0"
proof (rule ccontr)
  let ?s = "ipr_index_start (ix_size self) object"
  assume "\<nexists>j. ?s \<le> j \<and> j < c \<and> ix_data self j = 0"
  then have "{?s..<c} \<subseteq> ix_used self" using assms(3) by (auto simp: ix_used_def)
  from card_mono [OF finite_ix_used this] assms(1) have "c - ?s \<le> ix_size self" by (simp add: ix_inv_def)
  moreover have "object mod (r - 1) + 1 \<le> 2 * ix_size self + 16" if "16 \<le> r" "r \<le> 2 * ix_size self + 16" for r
  proof -
    have "object mod (r - 1) < r - 1" using that by simp
    with that show ?thesis by linarith
  qed
  then have "?s \<le> 2 * ix_size self + 16"
    using index_max_pos by (auto simp: ipr_index_start_def Let_def)
  ultimately show False using assms(2) by linarith
qed

lemma index_insert_inv:
  assumes "ix_inv self" and "0 < r" and "r < IPR_INDEX_MAX" and "ix_data self r = 0" and "object \<noteq> 0"
  shows "ix_inv (self\<lparr>ix_data := (ix_data self)(r := object), ix_size := ix_size self + 1\<rparr>)"
proof -
  have "ix_used (self\<lparr>ix_data := (ix_data self)(r := object), ix_size := ix_size self + 1\<rparr>) =
    insert r (ix_used self)"
    using assms(3,5) by (auto simp: ix_used_def)
  moreover have "r \<notin> ix_used self" using assms(4) by (simp add: ix_used_def)
  ultimately show ?thesis using assms(1,2) by (simp add: ix_inv_def)
qed

lemma index_delete_inv:
  assumes "ix_inv self" and "ipr_index_delete self r = Inr self'" and "ix_data self r \<noteq> 0"
  shows "ix_inv self' \<and> ix_data self' = (ix_data self)(r := 0)"
proof -
  from assms(2) have r: "0 < r" "r < IPR_INDEX_MAX" by (auto simp: ipr_index_delete_def split: if_splits)
  with assms(3) have used: "r \<in> ix_used self" by (simp add: ix_used_def)
  then have pos: "0 < ix_size self" using assms(1) by (auto simp: ix_inv_def card_gt_0_iff)
  then have self': "self' = self\<lparr>ix_data := (ix_data self)(r := 0), ix_size := ix_size self - 1\<rparr>"
    using assms(2) r by (simp add: ipr_index_delete_def)
  have "ix_used self' = ix_used self - {r}" by (auto simp: ix_used_def self')
  then show ?thesis using assms(1) r used by (simp add: ix_inv_def self')
qed

section \<open>Properties\<close>

text \<open>
  C30. Inserting an object into a well-formed table always returns, and keeps the table well-formed: the
  object goes into the first free slot from its hashed start on, whose number is returned, every other
  entry unchanged; if there is no free slot up to the end of the table, the number is 0 and the table
  unchanged.  A table of which less than a third is used, but for 17 slots, has room for every object.
\<close>

theorem index_insert_correct:
  assumes "ix_inv ix" and "object \<noteq> 0"
  shows "\<exists>ix' r. ipr_index_insert ix object = Some (Inr (ix', r)) \<and> ix_inv ix' \<and>
    (if \<exists>j. ipr_index_start (ix_size ix) object \<le> j \<and> j < IPR_INDEX_MAX \<and> ix_data ix j = 0
     then 0 < r \<and> ipr_index_start (ix_size ix) object \<le> r \<and> r < IPR_INDEX_MAX \<and> ix_data ix r = 0 \<and>
       (\<forall>j. ipr_index_start (ix_size ix) object \<le> j \<and> j < r \<longrightarrow> ix_data ix j \<noteq> 0) \<and>
       ix_data ix' = (ix_data ix)(r := object) \<and> ix_size ix' = ix_size ix + 1
     else r = 0 \<and> ix' = ix) \<and>
    (3 * ix_size ix + 17 \<le> IPR_INDEX_MAX \<longrightarrow> r \<noteq> 0)"
  using assms(1)
proof (cases rule: index_insert_cases [where object = object])
  case full
  have "\<not> 3 * ix_size ix + 17 \<le> IPR_INDEX_MAX"
    using index_free_slot [OF assms(1) _ le_refl, of object] full(2) by blast
  with full assms(1) show ?thesis by auto
next
  case (slot r)
  have "\<exists>j. ipr_index_start (ix_size ix) object \<le> j \<and> j < IPR_INDEX_MAX \<and> ix_data ix j = 0"
    using slot(3-5) by blast
  with slot index_insert_inv [OF assms(1) slot(2-4) assms(2)] show ?thesis by auto
qed

theorem index_insert_correct_witness:
  "\<exists>ix' r. ipr_index_insert ipr_index_new 77 = Some (Inr (ix', r)) \<and> ix_inv ix' \<and> 0 < r \<and> r < IPR_INDEX_MAX \<and>
     ix_data ix' = (\<lambda>_. 0)(r := 77) \<and> ix_size ix' = 1"
proof -
  have "\<exists>j. ipr_index_start (ix_size ipr_index_new) 77 \<le> j \<and> j < IPR_INDEX_MAX \<and> ix_data ipr_index_new j = 0"
    using ipr_index_start_range [of 0 77] by (auto simp: ipr_index_new_def)
  with index_insert_correct [OF ix_new_inv, of 77] show ?thesis by (auto simp: ipr_index_new_def)
qed

text \<open>
  Removing the number an insertion returned gives the table's entries back as they were.
\<close>

theorem index_insert_delete:
  assumes "ix_inv ix" and "object \<noteq> 0"
    and "ipr_index_insert ix object = Some (Inr (ix', r))" and "r \<noteq> 0"
  shows "\<exists>ix''. ipr_index_delete ix' r = Inr ix'' \<and> ix_inv ix'' \<and> ix_data ix'' = ix_data ix"
  using assms(1)
proof (cases rule: index_insert_cases [where object = object])
  case full
  with assms(3,4) show ?thesis by simp
next
  case (slot s)
  with assms(3) have s: "s = r"
    and ix': "ix' = ix\<lparr>ix_data := (ix_data ix)(r := object), ix_size := ix_size ix + 1\<rparr>" by auto
  have "ix_inv ix'" unfolding ix' using assms slot s by (intro index_insert_inv) auto
  moreover have "ix_data ix' r \<noteq> 0" using assms(2) by (simp add: ix')
  moreover obtain ix'' where del: "ipr_index_delete ix' r = Inr ix''"
    using slot s by (simp add: ipr_index_delete_def)
  ultimately have "ix_inv ix'' \<and> ix_data ix'' = (ix_data ix')(r := 0)" by (blast dest: index_delete_inv)
  with del show ?thesis using slot(4) s by (simp add: ix' fun_upd_idem)
qed

theorem index_insert_delete_witness:
  "ix_inv ipr_index_new \<and> (77::nat) \<noteq> 0 \<and>
   (let ix' = \<lparr>ix_size = 1, ix_data = (\<lambda>_. 0)(3 := 77)\<rparr> in
    ipr_index_insert ipr_index_new 77 = Some (Inr (ix', 3)) \<and>
    (\<exists>ix''. ipr_index_delete ix' 3 = Inr ix'' \<and> ix_inv ix'' \<and> ix_data ix'' = ix_data ipr_index_new))"
proof -
  let ?ix' = "\<lparr>ix_size = 1, ix_data = (\<lambda>_. 0)(3 := 77)\<rparr>"
  have ins: "ipr_index_insert ipr_index_new 77 = Some (Inr (?ix', 3))"
    using index_max_pos
    by (simp add: ipr_index_insert_def ipr_index_new_def ipr_index_start_def
        ipr_index_probe.simps [of "\<lambda>_. 0"])
  from index_insert_delete [OF ix_new_inv _ this] ins show ?thesis by (simp add: ix_new_inv)
qed

text \<open>
  A return value of 0 does not mean the table is full, as the comment on
  \<^verbatim>\<open>ipr_index_insert\<close> says: a half-full table whose last slot is taken refuses an object that
  hashes to that slot, because the probe stops at slot 0 instead of going on from slot 1.
\<close>

theorem index_refuses_when_not_full:
  assumes "ix_inv ix" and "IPR_INDEX_MAX \<le> ix_size ix * 2"
    and "ix_data ix (IPR_INDEX_MAX - 1) \<noteq> 0" and "object mod (IPR_INDEX_MAX - 1) = IPR_INDEX_MAX - 2"
  shows "ipr_index_insert ix object = Some (Inr (ix, 0))"
proof -
  have "ipr_index_start (ix_size ix) object = IPR_INDEX_MAX - 1"
    using assms(2,4) index_max_pos by (auto simp: ipr_index_start_def Let_def)
  then have none: "\<not> (\<exists>j. ipr_index_start (ix_size ix) object \<le> j \<and> j < IPR_INDEX_MAX \<and> ix_data ix j = 0)"
    using assms(3) by (metis Suc_pred' le_antisym less_Suc_eq_le not_less_zero gr0I)
  from assms(1) show ?thesis
    by (cases rule: index_insert_cases [where object = object]) (use none in auto)
qed

definition half_full :: ipr_index where
  "half_full = \<lparr>ix_size = 65536, ix_data = (\<lambda>i. if 65536 \<le> i \<and> i < 131072 then 1 else 0)\<rparr>"

theorem index_refuses_when_not_full_witness:
  "ix_inv half_full \<and> ix_data half_full 1 = 0 \<and>
   ipr_index_insert half_full 131070 = Some (Inr (half_full, 0))"
proof -
  have max: "IPR_INDEX_MAX = 131072"
    by (simp add: IPR_INDEX_MAX_def IPR_BITS_SIZE_BITS_def IPR_BITS_SIZE_def)
  have "ix_used half_full = {65536..<131072}"
    by (auto simp: ix_used_def half_full_def max)
  then have inv: "ix_inv half_full" by (simp add: ix_inv_def) (simp add: half_full_def)
  have "ipr_index_insert half_full 131070 = Some (Inr (half_full, 0))"
    by (rule index_refuses_when_not_full [OF inv]) (simp_all add: max half_full_def)
  with inv show ?thesis by (simp add: half_full_def)
qed

end
