(* ===== verification/Icl_Shortstr.thy ===== *)
theory Icl_Shortstr
  imports Amq_Prelude
begin

text \<open>
  Short strings of the iCL runtime, \<^verbatim>\<open>tooling/base2/icl/icl_shortstr.c\<close>: C strings held in a
  buffer of 256 bytes.  A C string is the list of its characters before the terminating null; a
  null source pointer is \<open>None\<close>.  Each function returns the new destination and the number of
  characters copied.
\<close>

definition ICL_SHORTSTR_MAX :: nat where
  "ICL_SHORTSTR_MAX = 255"

text \<open>The copying loop: stop at the end of the source, of the room, or of the given length.\<close>

fun shortstr_loop :: "string \<Rightarrow> nat \<Rightarrow> nat option \<Rightarrow> string \<Rightarrow> string \<times> nat" where
  "shortstr_loop [] remaining sz dest = (dest, 0)"
| "shortstr_loop (c # from) remaining sz dest =
     (if remaining = 0 \<or> sz = Some 0 then (dest, 0)
      else let (d, n) = shortstr_loop from (remaining - 1) (map_option (\<lambda>k. k - 1) sz) (dest @ [c])
           in (d, Suc n))"

definition icl_shortstr_cpy :: "string option \<Rightarrow> string \<times> nat" where
  "icl_shortstr_cpy src =
     (case src of None \<Rightarrow> ([], 0) | Some s \<Rightarrow> shortstr_loop s ICL_SHORTSTR_MAX None [])"

definition icl_shortstr_cat :: "string \<Rightarrow> string option \<Rightarrow> string \<times> nat" where
  "icl_shortstr_cat dest src =
     (case src of None \<Rightarrow> (dest, 0)
      | Some s \<Rightarrow> shortstr_loop s (ICL_SHORTSTR_MAX - length dest) None dest)"

definition icl_shortstr_ncpy :: "string option \<Rightarrow> nat \<Rightarrow> string \<times> nat" where
  "icl_shortstr_ncpy src sz =
     (case src of None \<Rightarrow> ([], 0) | Some s \<Rightarrow> shortstr_loop s ICL_SHORTSTR_MAX (Some sz) [])"

definition icl_shortstr_ncat :: "string \<Rightarrow> string option \<Rightarrow> nat \<Rightarrow> string \<times> nat" where
  "icl_shortstr_ncat dest src sz =
     (case src of None \<Rightarrow> (dest, 0)
      | Some s \<Rightarrow> shortstr_loop s (ICL_SHORTSTR_MAX - length dest) (Some sz) dest)"

lemma shortstr_loop_take:
  "shortstr_loop s r sz dest =
     (let n = min (case sz of None \<Rightarrow> r | Some k \<Rightarrow> min r k) (length s) in (dest @ take n s, n))"
proof (induction s r sz dest rule: shortstr_loop.induct)
  case (2 c "from" remaining sz dest)
  show ?case
  proof (cases "remaining = 0 \<or> sz = Some 0")
    case True
    then show ?thesis by (auto split: option.splits)
  next
    case False
    let ?sz = "map_option (\<lambda>k. k - 1) sz"
    have n: "min (case sz of None \<Rightarrow> remaining | Some k \<Rightarrow> min remaining k) (length (c # from)) =
      Suc (min (case ?sz of None \<Rightarrow> remaining - 1 | Some k \<Rightarrow> min (remaining - 1) k) (length from))"
      using False by (auto split: option.splits simp: min_def)
    from "2.IH" [OF False] False show ?thesis unfolding n by (simp add: Let_def)
  qed
qed auto

text \<open>
  The four short-string copies never leave the 255 characters of the buffer: each result is
  the destination followed by the longest prefix of the source that fits (and, for the counted
  variants, is no longer than asked), and the returned count is the length of that prefix.
\<close>

theorem shortstr_copies_fit:
  assumes "length dest \<le> ICL_SHORTSTR_MAX"
  shows "icl_shortstr_cpy (Some s) = (take ICL_SHORTSTR_MAX s, min ICL_SHORTSTR_MAX (length s)) \<and>
    icl_shortstr_ncpy (Some s) k = (take (min ICL_SHORTSTR_MAX k) s, min (min ICL_SHORTSTR_MAX k) (length s)) \<and>
    icl_shortstr_cat dest (Some s) =
      (take ICL_SHORTSTR_MAX (dest @ s), min (ICL_SHORTSTR_MAX - length dest) (length s)) \<and>
    icl_shortstr_ncat dest (Some s) k =
      (take ICL_SHORTSTR_MAX (dest @ take k s), min (min (ICL_SHORTSTR_MAX - length dest) k) (length s))"
  using assms
  by (auto simp: icl_shortstr_cpy_def icl_shortstr_ncpy_def icl_shortstr_cat_def icl_shortstr_ncat_def
      shortstr_loop_take Let_def min_def)

theorem shortstr_copies_fit_witness:
  "length ''Hel'' \<le> ICL_SHORTSTR_MAX \<and> fst (icl_shortstr_ncat ''Hel'' (Some ''local'') 2) = ''Hello''"
proof -
  have h: "length ''Hel'' \<le> ICL_SHORTSTR_MAX" by (simp add: ICL_SHORTSTR_MAX_def)
  have "fst (icl_shortstr_ncat ''Hel'' (Some ''local'') 2) =
      take ICL_SHORTSTR_MAX (''Hel'' @ take 2 ''local'')"
    using shortstr_copies_fit [OF h, of "''local''" 2] by simp
  then show ?thesis using h by (simp add: ICL_SHORTSTR_MAX_def)
qed

end
