(* ===== verification/Icl_Longstr.thy ===== *)
theory Icl_Longstr
  imports Amq_Prelude
begin

text \<open>
  Long strings of the iCL runtime, \<^verbatim>\<open>tooling/base2/icl/icl_longstr.c\<close>: a counted block of bytes
  with a capacity.  The record holds the current size and the allocated bytes, so \<open>max_size\<close> is
  the length of the data.  What freshly allocated memory holds is unknown: it is the parameter
  \<open>junk\<close> of every operation that allocates, and the theorems hold for all of its values.
  Formatting calls \<^verbatim>\<open>apr_vsnprintf\<close> of the APR library; a call of it with a fixed format and
  arguments is the parameter \<open>vsn\<close>, which maps the room given to the bytes it writes and the
  number it returns.  Search is the Sunday variant of the Boyer-Moore algorithm, proved equal to
  looking for the first occurrence.
\<close>

section \<open>The object\<close>

record icl_longstr =
  cur_size :: nat
  ls_data :: "byte list"

definition max_size :: "icl_longstr \<Rightarrow> nat" where
  "max_size self = length (ls_data self)"

text \<open>The bytes in use: what a reader of \<open>cur_size\<close> bytes from \<open>data\<close> sees.\<close>

definition contents :: "icl_longstr \<Rightarrow> byte list" where
  "contents self = take (cur_size self) (ls_data self)"

definition longstr_ok :: "icl_longstr \<Rightarrow> bool" where
  "longstr_ok self \<longleftrightarrow> cur_size self \<le> max_size self"

type_synonym memory_junk = "nat \<Rightarrow> byte"
type_synonym formatter = "nat \<Rightarrow> byte list \<times> nat"

definition icl_longstr_new :: "memory_junk \<Rightarrow> byte list option \<Rightarrow> nat \<Rightarrow> icl_longstr c_result" where
  "icl_longstr_new junk data sz =
     (case data of
        None \<Rightarrow> Inr \<lparr>cur_size = 0, ls_data = map junk [0..<sz]\<rparr>
      | Some d \<Rightarrow> c_bind (mem_get d 0 sz) (\<lambda>bs. Inr \<lparr>cur_size = sz, ls_data = bs\<rparr>))"

definition icl_longstr_resize :: "memory_junk \<Rightarrow> icl_longstr \<Rightarrow> nat \<Rightarrow> icl_longstr" where
  "icl_longstr_resize junk self sz = \<lparr>cur_size = 0, ls_data = map junk [0..<sz]\<rparr>"

definition icl_longstr_eq :: "icl_longstr option \<Rightarrow> icl_longstr option \<Rightarrow> bool c_result" where
  "icl_longstr_eq self second =
     (case (self, second) of
        (Some s, Some t) \<Rightarrow>
          if cur_size s = cur_size t then
            c_bind (mem_get (ls_data s) 0 (cur_size s)) (\<lambda>a.
            c_bind (mem_get (ls_data t) 0 (cur_size s)) (\<lambda>b. Inr (a = b)))
          else Inr False
      | (None, None) \<Rightarrow> Inr True
      | _ \<Rightarrow> Inr False)"

definition icl_longstr_dup :: "memory_junk \<Rightarrow> icl_longstr option \<Rightarrow> icl_longstr option c_result" where
  "icl_longstr_dup junk self =
     (case self of
        None \<Rightarrow> Inr None
      | Some s \<Rightarrow> c_bind (icl_longstr_new junk (Some (ls_data s)) (cur_size s)) (\<lambda>d. Inr (Some d)))"

section \<open>Formatting\<close>

text \<open>Sizes are \<^verbatim>\<open>size_t\<close>: their difference wraps around.\<close>

definition size_sub :: "nat \<Rightarrow> nat \<Rightarrow> nat" where
  "size_sub a b = (if b \<le> a then a - b else 2 ^ 64 - (b - a))"

definition icl_longstr_fmt :: "memory_junk \<Rightarrow> formatter \<Rightarrow> icl_longstr \<Rightarrow> icl_longstr c_result" where
  "icl_longstr_fmt junk vsn self =
     (let (bs, n) = vsn (max_size self) in
      c_bind (mem_put (ls_data self) 0 bs) (\<lambda>d.
        if max_size self \<le> n then
          let self' = icl_longstr_resize junk self (n * 2); (bs', n') = vsn (max_size self') in
          c_bind (mem_put (ls_data self') 0 bs') (\<lambda>d'. Inr \<lparr>cur_size = n', ls_data = d'\<rparr>)
        else Inr \<lparr>cur_size = n, ls_data = d\<rparr>))"

definition icl_longstr_cat :: "memory_junk \<Rightarrow> formatter \<Rightarrow> icl_longstr \<Rightarrow> icl_longstr c_result" where
  "icl_longstr_cat junk vsn self =
     (let (bs, cat_size) = vsn (size_sub (max_size self) (cur_size self)) in
      c_bind (mem_put (ls_data self) (cur_size self) bs) (\<lambda>d.
        if max_size self < cur_size self + cat_size + 1 then
          let self' = icl_longstr_resize junk self ((cur_size self + cat_size) * 2);
              (bs', cat_size') = vsn (size_sub (max_size self') (cur_size self')) in
          c_bind (mem_put (ls_data self') (cur_size self') bs') (\<lambda>d'.
            Inr \<lparr>cur_size = cur_size self' + cat_size', ls_data = d'\<rparr>)
        else Inr \<lparr>cur_size = cur_size self + cat_size, ls_data = d\<rparr>))"

section \<open>Search\<close>

text \<open>
  The second loop that fills the shift table: the remaining length of the pattern is
  \<open>patsize - byte_nbr\<close>.
\<close>

fun shift_fill :: "byte list \<Rightarrow> nat list \<Rightarrow> nat list" where
  "shift_fill [] shift = shift"
| "shift_fill (b # pattern) shift = shift_fill pattern (shift[unat b := length (b # pattern)])"

definition shift_table :: "byte list \<Rightarrow> nat list" where
  "shift_table pattern = shift_fill pattern (replicate 256 (length pattern + 1))"

text \<open>The comparison at one alignment.\<close>

fun longstr_match :: "byte list \<Rightarrow> nat \<Rightarrow> byte list \<Rightarrow> bool c_result" where
  "longstr_match data i [] = Inr True"
| "longstr_match data i (p # pattern) =
     c_bind (c_read data i) (\<lambda>c. if c = p then longstr_match data (Suc i) pattern else Inr False)"

lemma unat_neq: "a \<noteq> b \<Longrightarrow> unat (a :: byte) \<noteq> unat b"
  using unsigned_word_eqI by blast

lemma shift_fill_facts:
  "length (shift_fill pattern shift) = length shift \<and>
   (unat b < length shift \<longrightarrow> shift_fill pattern shift ! unat b =
      (if b \<in> set pattern then LEAST d. 0 < d \<and> d \<le> length pattern \<and> pattern ! (length pattern - d) = b
       else shift ! unat b))"
proof (induction pattern arbitrary: shift)
  case (Cons p pattern)
  let ?P = "\<lambda>ps d. 0 < d \<and> d \<le> length ps \<and> ps ! (length ps - d) = b"
  have in_tail: "(LEAST d. ?P (p # pattern) d) = (LEAST d. ?P pattern d)" if "b \<in> set pattern"
  proof -
    from that obtain i where i: "i < length pattern" "pattern ! i = b" by (auto simp: in_set_conv_nth)
    then have ex: "?P pattern (length pattern - i)" by simp
    have iff: "?P (p # pattern) d \<longleftrightarrow> ?P pattern d" if "d \<le> length pattern" for d
      using that by (cases d) (auto simp: nth_Cons' Suc_diff_le)
    let ?m = "LEAST d. ?P pattern d"
    have m: "?P pattern ?m" using ex by (rule LeastI)
    show ?thesis
    proof (rule Least_equality)
      show "?P (p # pattern) ?m" using m iff by blast
      show "?m \<le> d" if "?P (p # pattern) d" for d
      proof (cases "d \<le> length pattern")
        case True
        then show ?thesis using that iff by (auto intro: Least_le)
      qed (use m in simp)
    qed
  qed
  have at_head: "(LEAST d. ?P (b # pattern) d) = Suc (length pattern)" if "b \<notin> set pattern"
  proof (rule Least_equality)
    show "Suc (length pattern) \<le> d" if "?P (b # pattern) d" for d
    proof (rule ccontr)
      assume "\<not> Suc (length pattern) \<le> d"
      with that have "pattern ! (length pattern - d) = b" "length pattern - d < length pattern"
        by (auto simp: nth_Cons' Suc_diff_le)
      with \<open>b \<notin> set pattern\<close> show False by (auto simp: in_set_conv_nth)
    qed
  qed simp
  show ?case
    using Cons.IH [of "shift[unat p := length (p # pattern)]"] in_tail at_head
    by (auto simp: nth_list_update unat_neq)
qed simp

lemma length_shift_table [simp]: "length (shift_table pattern) = 256"
  using shift_fill_facts [of pattern] by (simp add: shift_table_def)

lemma shift_table_nth:
  "shift_table pattern ! unat (b :: byte) =
     (if b \<in> set pattern then LEAST d. 0 < d \<and> d \<le> length pattern \<and> pattern ! (length pattern - d) = b
      else length pattern + 1)"
proof -
  have "unat b < 256" using unsigned_less [of b, where ?'a = nat] by simp
  then show ?thesis using shift_fill_facts [of pattern "replicate 256 (length pattern + 1)" b]
    by (simp add: shift_table_def)
qed

lemma shift_least:
  assumes "b \<in> set pattern"
  defines "d \<equiv> shift_table pattern ! unat (b :: byte)"
  shows "0 < d" and "d \<le> length pattern" and "pattern ! (length pattern - d) = b"
    and "\<And>e. \<lbrakk>0 < e; e < d\<rbrakk> \<Longrightarrow> pattern ! (length pattern - e) \<noteq> b"
proof -
  let ?P = "\<lambda>d. 0 < d \<and> d \<le> length pattern \<and> pattern ! (length pattern - d) = b"
  have d: "d = (LEAST d. ?P d)" using assms shift_table_nth by simp
  from assms(1) obtain i where "i < length pattern" "pattern ! i = b" by (auto simp: in_set_conv_nth)
  then have "?P (length pattern - i)" by simp
  then have P: "?P d" unfolding d by (rule LeastI)
  then show "0 < d" "d \<le> length pattern" "pattern ! (length pattern - d) = b" by auto
  show "pattern ! (length pattern - e) \<noteq> b" if "0 < e" "e < d" for e
    using that P not_less_Least [of e ?P] unfolding d by auto
qed

lemma shift_positive: "0 < shift_table pattern ! unat (b :: byte)"
  using shift_least(1) [of b pattern] shift_table_nth [of pattern b] by (cases "b \<in> set pattern") simp_all

text \<open>
  The outer loop.  The step that moves on reads the byte after the alignment and is made also
  after a match; only then is the loop condition looked at.
\<close>

function longstr_search :: "byte list \<Rightarrow> byte list \<Rightarrow> nat \<Rightarrow> nat \<Rightarrow> nat option c_result" where
  "longstr_search data pattern limit match_base =
     (if match_base < limit then
        c_bind (longstr_match data match_base pattern) (\<lambda>found.
        c_bind (c_read data (match_base + length pattern)) (\<lambda>c.
          if found then Inr (Some match_base)
          else longstr_search data pattern limit (match_base + shift_table pattern ! unat c)))
      else Inr None)"
  by pat_completeness auto
termination
  by (relation "measure (\<lambda>(data, pattern, limit, match_base). limit - match_base)")
    (use shift_positive in \<open>auto intro: diff_less_mono2\<close>)

declare longstr_search.simps [simp del]

definition icl_longstr_find :: "icl_longstr \<Rightarrow> nat \<Rightarrow> byte list \<Rightarrow> nat option c_result" where
  "icl_longstr_find self offset pattern =
     (if pattern = [] then Inr (Some offset)
      else if length pattern \<le> cur_size self then
        longstr_search (ls_data self) pattern
          (offset + (cur_size self - length pattern + 1)) offset
      else Inr None)"

text \<open>The reference: the first place at or after \<open>i\<close> where the pattern stands in the bytes.\<close>

definition occurs_at :: "'a list \<Rightarrow> 'a list \<Rightarrow> nat \<Rightarrow> bool" where
  "occurs_at pattern bs i \<longleftrightarrow> i + length pattern \<le> length bs \<and> take (length pattern) (drop i bs) = pattern"

fun first_occurrence :: "'a list \<Rightarrow> 'a list \<Rightarrow> nat option" where
  "first_occurrence pattern bs =
     (case filter (occurs_at pattern bs) [0..<Suc (length bs)] of [] \<Rightarrow> None | i # _ \<Rightarrow> Some i)"

lemma occurs_at_nth:
  "occurs_at pattern bs i \<longleftrightarrow>
     i + length pattern \<le> length bs \<and> (\<forall>k<length pattern. bs ! (i + k) = pattern ! k)"
  by (auto simp: occurs_at_def list_eq_iff_nth_eq)

lemma longstr_match_occurs:
  "i + length pattern \<le> length data \<Longrightarrow>
     longstr_match data i pattern = Inr (occurs_at pattern data i)"
proof (induction data i pattern rule: longstr_match.induct)
  case (2 data i p pattern)
  then show ?case
    by (auto simp: occurs_at_nth less_Suc_eq_0_disj all_conj_distrib)
qed (simp add: occurs_at_def)

lemma shift_skips:
  assumes "0 < d" and "d < shift_table pattern ! unat (data ! (i + length pattern))"
    and "i + length pattern < length data"
  shows "\<not> occurs_at pattern data (i + d)"
proof
  assume occ: "occurs_at pattern data (i + d)"
  let ?c = "data ! (i + length pattern)"
  have d: "d \<le> length pattern"
  proof (cases "?c \<in> set pattern")
    case True
    then show ?thesis using assms(2) shift_least(2) [of ?c pattern] by simp
  next
    case False
    then show ?thesis using assms(2) by (simp add: shift_table_nth)
  qed
  then have "length pattern - d < length pattern" using assms(1) by simp
  with occ have "data ! (i + d + (length pattern - d)) = pattern ! (length pattern - d)"
    unfolding occurs_at_nth by blast
  then have eq: "?c = pattern ! (length pattern - d)" using d by simp
  then have "?c \<in> set pattern" using \<open>length pattern - d < length pattern\<close> by simp
  from shift_least(4) [OF this assms(1,2)] eq show False by simp
qed

lemma upt_split: "i < n \<Longrightarrow> [0..<n] = [0..<i] @ i # [Suc i..<n]"
  using upt_add_eq_append [of 0 i "n - i"] by (simp add: upt_conv_Cons)

lemma longstr_search_first:
  assumes "n < length data" and "0 < length pattern" and "length pattern \<le> n"
    and "\<forall>j<i. \<not> occurs_at pattern (take n data) j"
  shows "longstr_search data pattern (n - length pattern + 1) i =
     Inr (first_occurrence pattern (take n data))"
  using assms
proof (induction data pattern "n - length pattern + 1" i rule: longstr_search.induct)
  case (1 data pattern i)
  let ?m = "length pattern"
  let ?occ = "occurs_at pattern (take n data)"
  have occ_le: "j + ?m \<le> n" if "?occ j" for j using that "1.prems" by (simp add: occurs_at_def)
  show ?case
  proof (cases "i < n - ?m + 1")
    case False
    have "\<not> ?occ j" for j
    proof
      assume "?occ j"
      with occ_le have "j + ?m \<le> n" by blast
      with False have "j < i" by simp
      with "1.prems"(4) \<open>?occ j\<close> show False by blast
    qed
    then show ?thesis using False by (simp add: longstr_search.simps filter_empty_conv)
  next
    case True
    let ?c = "data ! (i + ?m)"
    have im: "i + ?m \<le> n" using True "1.prems"(3) by simp
    then have in_data: "i + ?m < length data" using "1.prems"(1) by simp
    have occ: "?occ j \<longleftrightarrow> j + ?m \<le> n \<and> occurs_at pattern data j" for j
      using "1.prems"(1) by (auto simp: occurs_at_nth)
    have found: "longstr_match data i pattern = Inr (?occ i)"
      using longstr_match_occurs [of i pattern data] in_data occ im by simp
    show ?thesis
    proof (cases "?occ i")
      case True
      have "[0..<Suc (length (take n data))] = [0..<i] @ i # [Suc i..<Suc (length (take n data))]"
        using im "1.prems"(1) by (intro upt_split) simp
      moreover have "filter ?occ [0..<i] = []" using "1.prems"(4) by (simp add: filter_empty_conv)
      ultimately have "first_occurrence pattern (take n data) = Some i"
        using True by simp
      then show ?thesis using True found in_data \<open>i < n - ?m + 1\<close> 
        by (simp add: longstr_search.simps [of data pattern _ i])
    next
      case False
      have "\<forall>j<i + shift_table pattern ! unat ?c. \<not> ?occ j"
      proof (intro allI impI)
        fix j
        assume j: "j < i + shift_table pattern ! unat ?c"
        consider "j < i" | "j = i" | d where "j = i + d" "0 < d" by (metis less_imp_add_positive nat_neq_iff)
        then show "\<not> ?occ j"
          using "1.prems"(4) False j shift_skips [OF _ _ in_data] occ by cases auto
      qed
      with "1.hyps" [of False ?c] True found in_data False "1.prems"(1-3)
      show ?thesis by (simp add: longstr_search.simps [of data pattern _ i] c_bind_def)
    qed
  qed
qed

section \<open>Properties\<close>

text \<open>
  C28. Searching a long string that has at least one byte of room after its contents returns the
  place where the pattern first occurs in the contents, and null if it does not occur: the shift
  table never jumps over an occurrence, and the search ends.
\<close>

theorem longstr_find_first:
  assumes "cur_size self < max_size self"
  shows "icl_longstr_find self 0 pattern = Inr (first_occurrence pattern (contents self))"
proof (cases "pattern = [] \<or> cur_size self < length pattern")
  case True
  have "filter (occurs_at [] bs) [0..<Suc (length bs)] = 0 # filter (occurs_at [] bs) [1..<Suc (length bs)]"
    for bs :: "byte list"
    by (subst upt_conv_Cons) (auto simp: occurs_at_def)
  moreover have "\<not> occurs_at pattern (contents self) j" if "cur_size self < length pattern" for j
    using that assms by (simp add: occurs_at_def contents_def max_size_def)
  ultimately show ?thesis using True by (auto simp: icl_longstr_find_def filter_empty_conv simp del: upt_Suc)
next
  case False
  then show ?thesis
    using assms longstr_search_first [of "cur_size self" "ls_data self" pattern 0]
    by (simp add: icl_longstr_find_def contents_def max_size_def)
qed

theorem longstr_find_first_witness:
  "icl_longstr_find \<lparr>cur_size = 4, ls_data = [1, 2, 1, 3, 0]\<rparr> 0 [1, 3] = Inr (Some 2)"
  using longstr_find_first [of "\<lparr>cur_size = 4, ls_data = [1, 2, 1, 3, 0]\<rparr>" "[1, 3]"]
  by (simp add: max_size_def contents_def occurs_at_def upt_rec)

text \<open>
  Without that room the search reads past the block: in a string that fills its block, a
  pattern of the length of the string always makes it read the byte after the end, match or no
  match.  With an offset it looks at places beyond the contents, because the limit is moved by
  the offset and not reduced by it.
\<close>

theorem longstr_find_overruns:
  assumes "cur_size self = max_size self" and "length pattern = cur_size self" and "pattern \<noteq> []"
  shows "icl_longstr_find self 0 pattern = Inl Out_Of_Bounds \<and>
    icl_longstr_find \<lparr>cur_size = 2, ls_data = [1, 1, 7, 0]\<rparr> 1 [7] = Inr (Some 2)"
proof
  show "icl_longstr_find self 0 pattern = Inl Out_Of_Bounds"
    using assms
    by (simp add: icl_longstr_find_def longstr_search.simps longstr_match_occurs max_size_def c_read_def)
  have "occurs_at [7] [1, 1, 7, 0 :: byte] 1 = False" "occurs_at [7] [1, 1, 7, 0 :: byte] 2 = True"
    by (simp_all add: occurs_at_def)
  then show "icl_longstr_find \<lparr>cur_size = 2, ls_data = [1, 1, 7, 0]\<rparr> 1 [7] = Inr (Some 2)"
    by (simp add: icl_longstr_find_def longstr_search.simps shift_table_def c_read_def)
qed

theorem longstr_find_overruns_witness:
  "icl_longstr_find \<lparr>cur_size = 2, ls_data = [1, 2]\<rparr> 0 [1, 2] = Inl Out_Of_Bounds"
  using longstr_find_overruns [of "\<lparr>cur_size = 2, ls_data = [1, 2]\<rparr>" "[1, 2]"]
  by (simp add: max_size_def)

text \<open>
  Appending to a long string keeps its contents only when the text fits.  Whatever
  \<^verbatim>\<open>apr_vsnprintf\<close> does, if the number it returns does not fit the block, the string is
  reallocated, its contents are lost, and the result is what a second call writes at the start of
  the new block.
\<close>

theorem longstr_cat_contents:
  assumes "longstr_ok self" and "vsn (max_size self - cur_size self) = (bs, n)"
    and "length bs \<le> max_size self - cur_size self"
  shows "if cur_size self + n + 1 \<le> max_size self
    then \<exists>r. icl_longstr_cat junk vsn self = Inr r \<and> longstr_ok r \<and>
      contents r = contents self @ take n (bs @ drop (cur_size self + length bs) (ls_data self))
    else \<forall>bs' n'. vsn ((cur_size self + n) * 2) = (bs', n') \<and> length bs' \<le> (cur_size self + n) * 2 \<longrightarrow>
      (\<exists>r. icl_longstr_cat junk vsn self = Inr r \<and> cur_size r = n' \<and>
        (\<exists>rest. ls_data r = bs' @ rest))"
  using assms
  by (auto simp: icl_longstr_cat_def size_sub_def longstr_ok_def max_size_def mem_put_def
      icl_longstr_resize_def contents_def Let_def)

theorem longstr_cat_contents_witness:
  "\<exists>r. icl_longstr_cat (\<lambda>_. 0) (\<lambda>room. (take room [66, 0], 1)) \<lparr>cur_size = 1, ls_data = [65, 0]\<rparr> = Inr r \<and>
     cur_size r = 1 \<and> (\<exists>rest. ls_data r = [66, 0] @ rest)"
  using longstr_cat_contents [of "\<lparr>cur_size = 1, ls_data = [65, 0]\<rparr>" "\<lambda>room. (take room [66, 0], 1)" "[66]" 1
      "\<lambda>_. 0"]
  by (simp add: longstr_ok_def max_size_def)

lemma longstr_dup_contents:
  assumes "longstr_ok s"
  shows "icl_longstr_dup junk (Some s) = Inr (Some \<lparr>cur_size = cur_size s, ls_data = contents s\<rparr>)"
  using assms
  by (simp add: icl_longstr_dup_def icl_longstr_new_def mem_get_def longstr_ok_def max_size_def contents_def)

lemma longstr_eq_contents:
  assumes "longstr_ok s" and "longstr_ok t"
  shows "icl_longstr_eq (Some s) (Some t) = Inr (contents s = contents t)"
  using assms
  by (auto simp: icl_longstr_eq_def mem_get_def longstr_ok_def max_size_def contents_def
      dest: arg_cong [of _ _ length])

end
