(* ===== verification/Ipr_Hash.thy ===== *)
theory Ipr_Hash
  imports Icl_Shortstr
begin

text \<open>
  Hash tables of the iPR runtime: the items, \<^verbatim>\<open>tooling/base2/ipr/ipr_hash.c\<close>, and the container,
  \<^verbatim>\<open>ipr_hash_table.c\<close>.  The same container code is generated for every table of the broker (queues,
  exchanges, consumers, routing indices).

  The heap maps addresses to items and to tables; freed memory is not in the map and every access to
  it fails.  A loop along a chain of items ends only if the chain does, so the loops are partial: a
  result \<open>None\<close> is a loop that does not return, \<open>Some (Inl e)\<close> a failure, \<open>Some (Inr x)\<close> a return.
\<close>

section \<open>Results of loops\<close>

definition l_bind :: "'a c_result option \<Rightarrow> ('a \<Rightarrow> 'b c_result option) \<Rightarrow> 'b c_result option" where
  "l_bind r f = (case r of None \<Rightarrow> None | Some (Inl e) \<Rightarrow> Some (Inl e) | Some (Inr x) \<Rightarrow> f x)"

lemma l_bind_simps [simp]:
  "l_bind None f = None" "l_bind (Some (Inl e)) f = Some (Inl e)" "l_bind (Some (Inr x)) f = f x"
  by (simp_all add: l_bind_def)

section \<open>The heap\<close>

record ipr_hash =
  h_links :: nat
  h_zombie :: bool
  h_table_head :: "nat option"
  h_table_next :: "nat option"
  h_table_index :: nat
  h_key :: string
  h_data :: "nat option"

record ipr_hash_table =
  t_links :: nat
  t_zombie :: bool
  t_nbr_items :: nat
  t_max_items :: nat
  t_table_items :: "nat option list"

record hash_heap =
  hash_at :: "nat \<rightharpoonup> ipr_hash"
  table_at :: "nat \<rightharpoonup> ipr_hash_table"
  hash_free :: nat

definition get_hash :: "nat \<Rightarrow> hash_heap \<Rightarrow> ipr_hash c_result" where
  "get_hash p s = (case hash_at s p of None \<Rightarrow> Inl Dangling_Pointer | Some i \<Rightarrow> Inr i)"

definition get_table :: "nat \<Rightarrow> hash_heap \<Rightarrow> ipr_hash_table c_result" where
  "get_table t s = (case table_at s t of None \<Rightarrow> Inl Dangling_Pointer | Some i \<Rightarrow> Inr i)"

definition put_hash :: "nat \<Rightarrow> ipr_hash \<Rightarrow> hash_heap \<Rightarrow> hash_heap" where
  "put_hash p i s = s\<lparr>hash_at := (hash_at s)(p \<mapsto> i)\<rparr>"

definition put_table :: "nat \<Rightarrow> ipr_hash_table \<Rightarrow> hash_heap \<Rightarrow> hash_heap" where
  "put_table t i s = s\<lparr>table_at := (table_at s)(t \<mapsto> i)\<rparr>"

definition mod_hash :: "nat \<Rightarrow> (ipr_hash \<Rightarrow> ipr_hash) \<Rightarrow> hash_heap \<Rightarrow> hash_heap c_result" where
  "mod_hash p f s = c_bind (get_hash p s) (\<lambda>i. Inr (put_hash p (f i) s))"

definition slot_get :: "ipr_hash_table \<Rightarrow> nat \<Rightarrow> nat option c_result" where
  "slot_get tab k = (if k < length (t_table_items tab) then Inr (t_table_items tab ! k) else Inl Out_Of_Bounds)"

section \<open>Keys\<close>

text \<open>The characters are signed, as on the machines the broker runs on.\<close>

fun key_hash_loop :: "string \<Rightarrow> qbyte \<Rightarrow> qbyte" where
  "key_hash_loop [] key_hash = key_hash"
| "key_hash_loop (c # key) key_hash = key_hash_loop key (key_hash * 33 + scast (of_char c :: byte))"

definition s_key_hash :: "string \<Rightarrow> nat \<Rightarrow> nat" where
  "s_key_hash key hash_size = unat (key_hash_loop key 0) mod hash_size"

section \<open>The container, locks in place\<close>

definition IPR_HASH_TABLE_INITIAL_SIZE :: nat where
  "IPR_HASH_TABLE_INITIAL_SIZE = 255"

definition IPR_HASH_TABLE_LOAD_FACTOR :: nat where
  "IPR_HASH_TABLE_LOAD_FACTOR = 75"

definition IPR_HASH_TABLE_GROWTH_FACTOR :: nat where
  "IPR_HASH_TABLE_GROWTH_FACTOR = 200"

text \<open>Moving the items of one slot to the new table, and of all slots.\<close>

partial_function (option) rehash_chain ::
    "nat \<Rightarrow> nat option \<Rightarrow> nat option list \<Rightarrow> hash_heap \<Rightarrow> (nat option list \<times> hash_heap) c_result option" where
  "rehash_chain new_max_items current_item new_items s =
     (case current_item of
        None \<Rightarrow> Some (Inr (new_items, s))
      | Some p \<Rightarrow>
          (case get_hash p s of
             Inl e \<Rightarrow> Some (Inl e)
           | Inr i \<Rightarrow>
               let new_index = s_key_hash (h_key i) new_max_items in
               rehash_chain new_max_items (h_table_next i) (new_items[new_index := Some p])
                 (put_hash p (i\<lparr>h_table_index := new_index, h_table_next := new_items ! new_index\<rparr>) s)))"

declare rehash_chain.simps [code]

fun rehash_slots ::
    "nat \<Rightarrow> nat option list \<Rightarrow> nat option list \<Rightarrow> hash_heap \<Rightarrow> (nat option list \<times> hash_heap) c_result option" where
  "rehash_slots new_max_items [] new_items s = Some (Inr (new_items, s))"
| "rehash_slots new_max_items (slot # slots) new_items s =
     l_bind (rehash_chain new_max_items slot new_items s) (\<lambda>(new_items, s).
     rehash_slots new_max_items slots new_items s)"

definition hash_table_grow :: "nat \<Rightarrow> ipr_hash_table \<Rightarrow> hash_heap \<Rightarrow> (ipr_hash_table \<times> hash_heap) c_result option" where
  "hash_table_grow self tab s =
     (if t_max_items tab * IPR_HASH_TABLE_LOAD_FACTOR div 100 \<le> t_nbr_items tab then
        let new_max_items = t_max_items tab * IPR_HASH_TABLE_GROWTH_FACTOR div 100 in
        l_bind (rehash_slots new_max_items (t_table_items tab) (replicate new_max_items None) s) (\<lambda>(new_items, s).
        let tab = tab\<lparr>t_table_items := new_items, t_max_items := new_max_items\<rparr>
        in Some (Inr (tab, put_table self tab s)))
      else Some (Inr (tab, s)))"

text \<open>The loop that looks for a key along a chain.\<close>

partial_function (option) key_search :: "string \<Rightarrow> nat option \<Rightarrow> hash_heap \<Rightarrow> nat option c_result option" where
  "key_search key item s =
     (case item of
        None \<Rightarrow> Some (Inr None)
      | Some p \<Rightarrow>
          (case get_hash p s of
             Inl e \<Rightarrow> Some (Inl e)
           | Inr i \<Rightarrow> if h_key i = key then Some (Inr (Some p)) else key_search key (h_table_next i) s))"

declare key_search.simps [code]

definition s_ipr_hash_table_insert :: "nat \<Rightarrow> nat option \<Rightarrow> string \<Rightarrow> hash_heap \<Rightarrow> (int \<times> hash_heap) c_result option" where
  "s_ipr_hash_table_insert self item key s =
     l_bind (Some (get_table self s)) (\<lambda>tab.
     l_bind (hash_table_grow self tab s) (\<lambda>(tab, s).
     let index = s_key_hash key (t_max_items tab) in
     l_bind (Some (slot_get tab index)) (\<lambda>slot.
     l_bind (key_search key slot s) (\<lambda>found.
     case found of
       Some _ \<Rightarrow> Some (Inr (- 1, s))
     | None \<Rightarrow>
         (case item of
            None \<Rightarrow> Some (Inl Null_Pointer)
          | Some p \<Rightarrow>
              l_bind (Some (mod_hash p (\<lambda>i. i\<lparr>h_table_head := Some self, h_table_index := index, h_table_next := slot,
                  h_key := fst (icl_shortstr_cpy (Some key))\<rparr>) s)) (\<lambda>s.
              Some (Inr (0, put_table self (tab\<lparr>t_table_items := (t_table_items tab)[index := Some p],
                t_nbr_items := t_nbr_items tab + 1\<rparr>) s))))))))"

definition s_ipr_hash_table_lookup :: "nat \<Rightarrow> string \<Rightarrow> hash_heap \<Rightarrow> nat option c_result option" where
  "s_ipr_hash_table_lookup self key s =
     l_bind (Some (get_table self s)) (\<lambda>tab.
     l_bind (Some (slot_get tab (s_key_hash key (t_max_items tab)))) (\<lambda>slot.
     key_search key slot s))"

text \<open>
  Removal looks for the place that points to the item: the slot of the table (\<open>None\<close>) or the item
  before it.
\<close>

partial_function (option) place_search ::
    "nat \<Rightarrow> nat option \<Rightarrow> nat option \<Rightarrow> hash_heap \<Rightarrow> (nat option \<times> nat option) c_result option" where
  "place_search item prev_item current_item s =
     (case current_item of
        None \<Rightarrow> Some (Inr (prev_item, None))
      | Some p \<Rightarrow>
          if p = item then Some (Inr (prev_item, Some p))
          else (case get_hash p s of
                  Inl e \<Rightarrow> Some (Inl e)
                | Inr i \<Rightarrow> place_search item (Some p) (h_table_next i) s))"

declare place_search.simps [code]

definition s_ipr_hash_table_remove :: "nat \<Rightarrow> hash_heap \<Rightarrow> hash_heap c_result option" where
  "s_ipr_hash_table_remove item s =
     l_bind (Some (get_hash item s)) (\<lambda>i.
     case h_table_head i of
       None \<Rightarrow> Some (Inl Null_Pointer)
     | Some t \<Rightarrow>
         l_bind (Some (get_table t s)) (\<lambda>tab.
         l_bind (Some (slot_get tab (h_table_index i))) (\<lambda>slot.
         l_bind (place_search item None slot s) (\<lambda>(prev_item, current_item).
         if current_item \<noteq> Some item then Some (Inl Assert_Failed)
         else
           let tab = tab\<lparr>t_nbr_items := t_nbr_items tab - 1\<rparr>;
               cleared = i\<lparr>h_table_head := None, h_table_index := 0, h_table_next := None, h_key := []\<rparr>
           in case prev_item of
                None \<Rightarrow>
                  Some (Inr (put_hash item cleared (put_table t
                    (tab\<lparr>t_table_items := (t_table_items tab)[h_table_index i := h_table_next i]\<rparr>) s)))
              | Some q \<Rightarrow>
                  l_bind (Some (mod_hash q (\<lambda>j. j\<lparr>h_table_next := h_table_next i\<rparr>) (put_table t tab s))) (\<lambda>s.
                  Some (Inr (put_hash item cleared s)))))))"

section \<open>Items\<close>

definition ipr_hash_free :: "nat \<Rightarrow> hash_heap \<Rightarrow> hash_heap c_result" where
  "ipr_hash_free p s = c_bind (get_hash p s) (\<lambda>_. Inr (s\<lparr>hash_at := (hash_at s)(p := None)\<rparr>))"

definition ipr_hash_link :: "nat \<Rightarrow> hash_heap \<Rightarrow> hash_heap c_result" where
  "ipr_hash_link p s = mod_hash p (\<lambda>i. i\<lparr>h_links := h_links i + 1\<rparr>) s"

text \<open>
  The last link annihilates, which removes the item from its table, which unlinks again.  That inner
  unlink has no link left to give up and stops the program, so it never annihilates; its annihilation
  is one that fails.
\<close>

definition hash_unlink_with :: "(nat \<Rightarrow> hash_heap \<Rightarrow> hash_heap c_result option) \<Rightarrow> nat \<Rightarrow> hash_heap \<Rightarrow> hash_heap c_result option" where
  "hash_unlink_with annihilate p s =
     l_bind (Some (get_hash p s)) (\<lambda>i.
     if h_links i = 0 then Some (Inl Assert_Failed)
     else
       let i = i\<lparr>h_links := h_links i - 1\<rparr>; s = put_hash p i s in
       if h_links i = 0 then
         l_bind (if h_zombie i then Some (Inr s) else annihilate p (put_hash p (i\<lparr>h_zombie := True\<rparr>) s)) (\<lambda>s.
         Some (ipr_hash_free p s))
       else Some (Inr s))"

definition hash_remove_with :: "(nat \<Rightarrow> hash_heap \<Rightarrow> hash_heap c_result option) \<Rightarrow> nat \<Rightarrow> hash_heap \<Rightarrow> hash_heap c_result option" where
  "hash_remove_with unlink item s =
     l_bind (Some (get_hash item s)) (\<lambda>i.
     case h_table_head i of
       None \<Rightarrow> Some (Inr s)
     | Some _ \<Rightarrow> l_bind (s_ipr_hash_table_remove item s) (unlink item))"

definition ipr_hash_annihilate :: "nat \<Rightarrow> hash_heap \<Rightarrow> hash_heap c_result option" where
  "ipr_hash_annihilate = hash_remove_with (hash_unlink_with (\<lambda>_ _. Some (Inl Assert_Failed)))"

definition ipr_hash_unlink :: "nat \<Rightarrow> hash_heap \<Rightarrow> hash_heap c_result option" where
  "ipr_hash_unlink = hash_unlink_with ipr_hash_annihilate"

definition ipr_hash_table_remove :: "nat \<Rightarrow> hash_heap \<Rightarrow> hash_heap c_result option" where
  "ipr_hash_table_remove = hash_remove_with ipr_hash_unlink"

definition ipr_hash_destroy :: "nat \<Rightarrow> hash_heap \<Rightarrow> hash_heap c_result option" where
  "ipr_hash_destroy p s =
     l_bind (Some (get_hash p s)) (\<lambda>i.
     l_bind (if h_zombie i then Some (Inr s) else ipr_hash_annihilate p (put_hash p (i\<lparr>h_zombie := True\<rparr>) s)) (\<lambda>s.
     l_bind (Some (get_hash p s)) (\<lambda>i.
     if h_links i = 0 then Some (Inl Assert_Failed)
     else
       let i = i\<lparr>h_links := h_links i - 1\<rparr>; s = put_hash p i s
       in if h_links i = 0 then Some (ipr_hash_free p s) else Some (Inr s))))"

section \<open>The methods of the table\<close>

definition ipr_hash_table_new :: "hash_heap \<Rightarrow> nat \<times> hash_heap" where
  "ipr_hash_table_new s =
     (hash_free s,
      put_table (hash_free s)
        \<lparr>t_links = 1, t_zombie = False, t_nbr_items = 0, t_max_items = IPR_HASH_TABLE_INITIAL_SIZE,
         t_table_items = replicate IPR_HASH_TABLE_INITIAL_SIZE None\<rparr>
        (s\<lparr>hash_free := Suc (hash_free s)\<rparr>))"

text \<open>
  An item that is already in the table is removed first; the macro that gives up its link also clears
  the pointer, and the code goes on with the null pointer.
\<close>

definition ipr_hash_table_insert :: "nat \<Rightarrow> string \<Rightarrow> nat \<Rightarrow> hash_heap \<Rightarrow> (int \<times> hash_heap) c_result option" where
  "ipr_hash_table_insert self key item s =
     l_bind (Some (get_table self s)) (\<lambda>tab.
     if t_zombie tab then Some (Inr (- 1, s))
     else
       l_bind (Some (get_hash item s)) (\<lambda>i.
       l_bind (case h_table_head i of
                 None \<Rightarrow> Some (Inr (Some item, s))
               | Some t \<Rightarrow>
                   if t \<noteq> self then Some (Inl Assert_Failed)
                   else l_bind (s_ipr_hash_table_remove item s) (\<lambda>s.
                        l_bind (ipr_hash_unlink item s) (\<lambda>s. Some (Inr (None, s))))) (\<lambda>(item, s).
       l_bind (s_ipr_hash_table_insert self item key s) (\<lambda>(rc, s).
       case item of
         None \<Rightarrow> Some (Inl Null_Pointer)
       | Some p \<Rightarrow>
           l_bind (Some (get_hash p s)) (\<lambda>i.
           if h_table_head i \<noteq> None then l_bind (Some (ipr_hash_link p s)) (\<lambda>s. Some (Inr (rc, s)))
           else Some (Inr (rc, s)))))))"

definition ipr_hash_table_search :: "nat \<Rightarrow> string option \<Rightarrow> hash_heap \<Rightarrow> (nat option \<times> hash_heap) c_result option" where
  "ipr_hash_table_search self key s =
     l_bind (Some (get_table self s)) (\<lambda>_.
     l_bind (case key of None \<Rightarrow> Some (Inr None) | Some k \<Rightarrow> s_ipr_hash_table_lookup self k s) (\<lambda>item.
     case item of
       None \<Rightarrow> Some (Inr (None, s))
     | Some p \<Rightarrow> l_bind (Some (ipr_hash_link p s)) (\<lambda>s. Some (Inr (item, s)))))"

partial_function (option) apply_chain ::
    "(nat \<Rightarrow> 'a \<Rightarrow> hash_heap \<Rightarrow> ('a \<times> hash_heap) c_result) \<Rightarrow> nat option \<Rightarrow> 'a \<Rightarrow> hash_heap \<Rightarrow> ('a \<times> hash_heap) c_result option" where
  "apply_chain callback item arg s =
     (case item of
        None \<Rightarrow> Some (Inr (arg, s))
      | Some p \<Rightarrow>
          (case callback p arg s of
             Inl e \<Rightarrow> Some (Inl e)
           | Inr (arg, s) \<Rightarrow>
               (case get_hash p s of
                  Inl e \<Rightarrow> Some (Inl e)
                | Inr i \<Rightarrow> apply_chain callback (h_table_next i) arg s)))"

declare apply_chain.simps [code]

text \<open>The slots are read one by one, as the callback may change the table.\<close>

fun apply_slots ::
    "(nat \<Rightarrow> 'a \<Rightarrow> hash_heap \<Rightarrow> ('a \<times> hash_heap) c_result) \<Rightarrow> nat \<Rightarrow> nat list \<Rightarrow> 'a \<Rightarrow> hash_heap \<Rightarrow> ('a \<times> hash_heap) c_result option" where
  "apply_slots callback self [] arg s = Some (Inr (arg, s))"
| "apply_slots callback self (pos # rest) arg s =
     l_bind (Some (get_table self s)) (\<lambda>tab.
     l_bind (Some (slot_get tab pos)) (\<lambda>slot.
     l_bind (apply_chain callback slot arg s) (\<lambda>(arg, s). apply_slots callback self rest arg s)))"

definition ipr_hash_table_apply ::
    "(nat \<Rightarrow> 'a \<Rightarrow> hash_heap \<Rightarrow> ('a \<times> hash_heap) c_result) \<Rightarrow> nat \<Rightarrow> 'a \<Rightarrow> hash_heap \<Rightarrow> ('a \<times> hash_heap) c_result option" where
  "ipr_hash_table_apply callback self arg s =
     l_bind (Some (get_table self s)) (\<lambda>tab. apply_slots callback self [0..<t_max_items tab] arg s)"

partial_function (option) purge_chain :: "nat option \<Rightarrow> hash_heap \<Rightarrow> hash_heap c_result option" where
  "purge_chain current_item s =
     (case current_item of
        None \<Rightarrow> Some (Inr s)
      | Some p \<Rightarrow>
          (case get_hash p s of
             Inl e \<Rightarrow> Some (Inl e)
           | Inr i \<Rightarrow>
               (case l_bind (s_ipr_hash_table_remove p s) (ipr_hash_unlink p) of
                  None \<Rightarrow> None
                | Some (Inl e) \<Rightarrow> Some (Inl e)
                | Some (Inr s) \<Rightarrow> purge_chain (h_table_next i) s)))"

declare purge_chain.simps [code]

fun purge_slots :: "nat \<Rightarrow> nat list \<Rightarrow> hash_heap \<Rightarrow> hash_heap c_result option" where
  "purge_slots self [] s = Some (Inr s)"
| "purge_slots self (table_idx # rest) s =
     l_bind (Some (get_table self s)) (\<lambda>tab.
     l_bind (Some (slot_get tab table_idx)) (\<lambda>slot.
     l_bind (purge_chain slot s) (purge_slots self rest)))"

definition s_ipr_hash_table_purge :: "nat \<Rightarrow> hash_heap \<Rightarrow> hash_heap c_result option" where
  "s_ipr_hash_table_purge self s =
     l_bind (Some (get_table self s)) (\<lambda>tab. purge_slots self [0..<t_max_items tab] s)"

definition ipr_hash_table_destroy :: "nat \<Rightarrow> hash_heap \<Rightarrow> hash_heap c_result option" where
  "ipr_hash_table_destroy self s =
     l_bind (Some (get_table self s)) (\<lambda>tab.
     l_bind (if t_zombie tab then Some (Inr s)
             else s_ipr_hash_table_purge self (put_table self (tab\<lparr>t_zombie := True\<rparr>) s)) (\<lambda>s.
     l_bind (Some (get_table self s)) (\<lambda>tab.
     if t_links tab = 0 then Some (Inl Assert_Failed)
     else
       let tab = tab\<lparr>t_links := t_links tab - 1\<rparr>
       in if t_links tab = 0 then Some (Inr (s\<lparr>table_at := (table_at s)(self := None)\<rparr>))
          else Some (Inr (put_table self tab s)))))"

section \<open>The methods of the item that work on a table\<close>

definition ipr_hash_new :: "nat option \<Rightarrow> string \<Rightarrow> nat option \<Rightarrow> hash_heap \<Rightarrow> (nat option \<times> hash_heap) c_result option" where
  "ipr_hash_new table key data s =
     (let p = hash_free s;
          s = put_hash p \<lparr>h_links = 1, h_zombie = False, h_table_head = None, h_table_next = None, h_table_index = 0,
                h_key = [], h_data = data\<rparr> (s\<lparr>hash_free := Suc p\<rparr>)
      in case table of
           None \<Rightarrow> Some (Inr (Some p, s))
         | Some t \<Rightarrow>
             l_bind (ipr_hash_table_insert t key p s) (\<lambda>(rc, s).
             if rc \<noteq> 0 then l_bind (ipr_hash_destroy p s) (\<lambda>s. Some (Inr (None, s)))
             else Some (Inr (Some p, s))))"

definition ipr_hash_insert :: "nat \<Rightarrow> string \<Rightarrow> nat option \<Rightarrow> hash_heap \<Rightarrow> hash_heap c_result option" where
  "ipr_hash_insert table key data s =
     l_bind (ipr_hash_table_search table (Some key) s) (\<lambda>(found, s).
     if found \<noteq> None then Some (Inl Assert_Failed)
     else
       l_bind (ipr_hash_new (Some table) key data s) (\<lambda>(hash, s).
       case hash of None \<Rightarrow> Some (Inr s) | Some p \<Rightarrow> ipr_hash_unlink p s))"

definition ipr_hash_lookup :: "nat \<Rightarrow> string \<Rightarrow> hash_heap \<Rightarrow> (nat option \<times> hash_heap) c_result option" where
  "ipr_hash_lookup table key s =
     l_bind (ipr_hash_table_search table (Some key) s) (\<lambda>(hash, s).
     case hash of
       None \<Rightarrow> Some (Inr (None, s))
     | Some p \<Rightarrow>
         l_bind (Some (get_hash p s)) (\<lambda>i.
         l_bind (ipr_hash_unlink p s) (\<lambda>s. Some (Inr (h_data i, s)))))"

definition ipr_hash_delete :: "nat \<Rightarrow> string \<Rightarrow> hash_heap \<Rightarrow> hash_heap c_result option" where
  "ipr_hash_delete table key s =
     l_bind (ipr_hash_table_search table (Some key) s) (\<lambda>(hash, s).
     case hash of None \<Rightarrow> Some (Inl Assert_Failed) | Some p \<Rightarrow> ipr_hash_destroy p s)"

end
