(* ===== verification/Ipr_Hash_Map.thy ===== *)
theory Ipr_Hash_Map
  imports Ipr_Hash
begin

text \<open>
  The hash table implements a map from keys to items: the chains as lists, what rehashing does to
  them, and the refinement of the map operations, with the table growing as it fills.
\<close>

section \<open>Chains\<close>

fun chain :: "(nat \<rightharpoonup> ipr_hash) \<Rightarrow> nat option \<Rightarrow> nat list \<Rightarrow> bool" where
  "chain m p [] \<longleftrightarrow> p = None"
| "chain m p (a # xs) \<longleftrightarrow> p = Some a \<and> (\<exists>i. m a = Some i \<and> chain m (h_table_next i) xs)"

definition key_at :: "hash_heap \<Rightarrow> nat \<Rightarrow> string" where
  "key_at s a = h_key (the (hash_at s a))"

definition next_at :: "(nat \<rightharpoonup> ipr_hash) \<Rightarrow> nat \<Rightarrow> nat option option" where
  "next_at m a = map_option h_table_next (m a)"

lemma chain_frame:
  "chain m p xs \<Longrightarrow> (\<And>a. a \<in> set xs \<Longrightarrow> next_at m' a = next_at m a) \<Longrightarrow> chain m' p xs"
proof (induction m p xs rule: chain.induct)
  case (2 m p a xs)
  then obtain i where i: "p = Some a" "m a = Some i" "chain m (h_table_next i) xs" by auto
  have "next_at m' a = Some (h_table_next i)" using 2(3) [of a] i by (simp add: next_at_def)
  then obtain j where "m' a = Some j" "h_table_next j = h_table_next i" by (auto simp: next_at_def)
  with i 2 show ?case by auto
qed simp

lemma chain_mem: "chain m p xs \<Longrightarrow> a \<in> set xs \<Longrightarrow> \<exists>i. m a = Some i"
  by (induction m p xs rule: chain.induct) auto

lemma key_search_chain:
  "chain (hash_at s) p xs \<Longrightarrow> key_search key p s = Some (Inr (find (\<lambda>a. key_at s a = key) xs))"
proof (induction xs arbitrary: p)
  case (Cons a xs)
  then show ?case
    by (subst key_search.simps) (auto simp: get_hash_def key_at_def)
qed (subst key_search.simps, simp)

lemma place_search_chain:
  "chain (hash_at s) p (ys @ a # zs) \<Longrightarrow> a \<notin> set ys \<Longrightarrow>
   place_search a prev p s = Some (Inr (if ys = [] then prev else Some (last ys), Some a))"
proof (induction ys arbitrary: p prev)
  case Nil
  then show ?case by (subst place_search.simps) simp
next
  case (Cons y ys)
  then show ?case by (subst place_search.simps) (auto simp: get_hash_def)
qed

lemma chain_remove_first: "chain m p (a # zs) \<Longrightarrow> m a = Some i \<Longrightarrow> chain m (h_table_next i) zs"
  by auto

lemma chain_remove_inner:
  assumes "chain m p (ys @ a # zs)" "ys \<noteq> []" "distinct (ys @ a # zs)" "m a = Some i"
  shows "\<exists>j. m (last ys) = Some j \<and> chain (m(last ys \<mapsto> j\<lparr>h_table_next := h_table_next i\<rparr>)) p (ys @ zs)"
  using assms
proof (induction ys arbitrary: p)
  case (Cons y ys)
  then obtain iy where y: "p = Some y" "m y = Some iy" "chain m (h_table_next iy) (ys @ a # zs)" by auto
  show ?case
  proof (cases "ys = []")
    case True
    with y Cons.prems have "chain m (h_table_next i) zs" by auto
    then have "chain (m(y \<mapsto> iy\<lparr>h_table_next := h_table_next i\<rparr>)) (h_table_next i) zs"
      by (rule chain_frame) (use Cons.prems in \<open>auto simp: next_at_def\<close>)
    with True y show ?thesis by (simp del: fun_upd_apply add: fun_upd_same)
  next
    case False
    have "distinct (ys @ a # zs)" using Cons.prems by simp
    from Cons.IH [OF y(3) False this Cons.prems(4)] obtain j where j: "m (last ys) = Some j"
      "chain (m(last ys \<mapsto> j\<lparr>h_table_next := h_table_next i\<rparr>)) (h_table_next iy) (ys @ zs)" by blast
    moreover have "last ys \<noteq> y" using False Cons.prems by auto
    ultimately show ?thesis using False y by (auto simp del: fun_upd_apply simp: fun_upd_other)
  qed
qed simp

section \<open>Rehashing\<close>

text \<open>Moving items into buckets, each to the front of its bucket.\<close>

fun bucket_push :: "(nat \<Rightarrow> nat) \<Rightarrow> nat list \<Rightarrow> nat list list \<Rightarrow> nat list list" where
  "bucket_push f [] ns = ns"
| "bucket_push f (a # xs) ns = bucket_push f xs (ns[f a := a # ns ! f a])"

lemma bucket_push_length [simp]: "length (bucket_push f xs ns) = length ns"
  by (induction f xs ns rule: bucket_push.induct) simp_all

lemma bucket_push_append: "bucket_push f (xs @ ys) ns = bucket_push f ys (bucket_push f xs ns)"
  by (induction f xs ns rule: bucket_push.induct) simp_all

lemma mset_concat_update:
  "k < length ns \<Longrightarrow> mset (concat (ns[k := a # ns ! k])) = add_mset a (mset (concat ns))"
  by (induction ns arbitrary: k) (auto split: nat.splits)

lemma mset_bucket_push:
  "(\<And>a. f a < length ns) \<Longrightarrow> mset (concat (bucket_push f xs ns)) = mset xs + mset (concat ns)"
  by (induction f xs ns rule: bucket_push.induct) (simp_all add: mset_concat_update)

lemma bucket_push_mem:
  "(\<And>a. f a < length ns) \<Longrightarrow> j < length ns \<Longrightarrow>
   a \<in> set (bucket_push f xs ns ! j) \<longleftrightarrow> a \<in> set xs \<and> f a = j \<or> a \<in> set (ns ! j)"
proof (induction f xs ns rule: bucket_push.induct)
  case (2 f b xs ns)
  then show ?case by (cases "f b = j") auto
qed simp

text \<open>Rehashing changes the place of the items and nothing else.\<close>

definition moved :: "nat \<Rightarrow> nat set \<Rightarrow> hash_heap \<Rightarrow> hash_heap \<Rightarrow> bool" where
  "moved n X s s' \<longleftrightarrow> table_at s' = table_at s \<and> hash_free s' = hash_free s \<and>
     (\<forall>a. a \<notin> X \<longrightarrow> hash_at s' a = hash_at s a) \<and>
     (\<forall>a\<in>X. \<exists>i nx. hash_at s a = Some i \<and>
        hash_at s' a = Some (i\<lparr>h_table_index := s_key_hash (h_key i) n, h_table_next := nx\<rparr>))"

lemma moved_refl [simp]: "moved n {} s s"
  by (simp add: moved_def)

lemma moved_trans:
  assumes "moved n X s s1" "moved n Y s1 s2" "X \<inter> Y = {}"
  shows "moved n (X \<union> Y) s s2"
proof -
  have "hash_at s2 a = hash_at s a" if "a \<notin> X \<union> Y" for a
    using assms that by (simp add: moved_def)
  moreover have "\<exists>i nx. hash_at s a = Some i \<and>
      hash_at s2 a = Some (i\<lparr>h_table_index := s_key_hash (h_key i) n, h_table_next := nx\<rparr>)" if "a \<in> X \<union> Y" for a
    using assms that unfolding moved_def by (metis Un_iff disjoint_iff)
  ultimately show ?thesis using assms by (simp add: moved_def)
qed

lemma moved_key: "moved n X s s' \<Longrightarrow> key_at s' a = key_at s a"
  unfolding moved_def key_at_def by (cases "a \<in> X") force+

lemma chain_put_outside:
  "chain (hash_at s) p xs \<Longrightarrow> a \<notin> set xs \<Longrightarrow> chain (hash_at (put_hash a i s)) p xs"
  by (erule chain_frame) (auto simp: next_at_def put_hash_def)

lemma rehash_chain_spec:
  assumes "chain (hash_at s) p xs" "list_all2 (chain (hash_at s)) news ns" "distinct xs"
    "set xs \<inter> set (concat ns) = {}" "length ns = n" "0 < n"
  shows "\<exists>news' s'. rehash_chain n p news s = Some (Inr (news', s')) \<and>
    list_all2 (chain (hash_at s')) news' (bucket_push (\<lambda>a. s_key_hash (key_at s a) n) xs ns) \<and> moved n (set xs) s s'"
  using assms
proof (induction xs arbitrary: p news ns s)
  case Nil
  then show ?case by (subst rehash_chain.simps) auto
next
  case (Cons a xs)
  then obtain i where i: "p = Some a" "hash_at s a = Some i" "chain (hash_at s) (h_table_next i) xs" by auto
  let ?k = "s_key_hash (h_key i) n"
  let ?s = "put_hash a (i\<lparr>h_table_index := ?k, h_table_next := news ! ?k\<rparr>) s"
  have len: "length news = n" using Cons.prems by (auto dest: list_all2_lengthD)
  have k: "?k < n" using Cons.prems by (simp add: s_key_hash_def)
  have step: "rehash_chain n p news s = rehash_chain n (h_table_next i) (news[?k := Some a]) ?s"
    using i by (subst rehash_chain.simps) (simp add: get_hash_def Let_def)
  have one: "moved n {a} s ?s" using i by (auto simp: moved_def put_hash_def)
  have "list_all2 (chain (hash_at ?s)) news ns"
    using Cons.prems(2,4) by (auto simp: list_all2_conv_all_nth intro!: chain_put_outside)
  moreover have "chain (hash_at ?s) (Some a) (a # ns ! ?k)"
    using \<open>list_all2 (chain (hash_at ?s)) news ns\<close> k len by (auto simp: list_all2_conv_all_nth put_hash_def)
  ultimately have new: "list_all2 (chain (hash_at ?s)) (news[?k := Some a]) (ns[?k := a # ns ! ?k])"
    by (rule list_all2_update_cong)
  have other: "set xs \<inter> set (concat (ns[?k := a # ns ! ?k])) = {}"
  proof -
    have "set (concat (ns[?k := a # ns ! ?k])) = insert a (set (concat ns))"
      using arg_cong [OF mset_concat_update [of ?k ns a], of set_mset] k Cons.prems(5)
      by (simp only: set_mset_mset set_mset_add_mset_insert)
    then show ?thesis using Cons.prems by auto
  qed
  have "chain (hash_at ?s) (h_table_next i) xs"
    using i(3) Cons.prems(3) by (intro chain_put_outside) simp_all
  from Cons.IH [OF this new _ other] Cons.prems obtain news' s' where rest: "rehash_chain n (h_table_next i) (news[?k := Some a]) ?s = Some (Inr (news', s'))"
      "list_all2 (chain (hash_at s')) news' (bucket_push (\<lambda>b. s_key_hash (key_at ?s b) n) xs (ns[?k := a # ns ! ?k]))"
      "moved n (set xs) ?s s'"
    by (metis distinct.simps(2) length_list_update)
  have "key_at ?s = key_at s" using moved_key [OF one] by auto
  moreover have "moved n (set (a # xs)) s s'"
    using moved_trans [OF one rest(3)] Cons.prems by simp
  ultimately show ?case
    using rest step i by (simp add: key_at_def)
qed

lemma chains_moved:
  assumes "list_all2 (chain (hash_at s)) slots cs" "moved n X s s1" "set (concat cs) \<inter> X = {}"
  shows "list_all2 (chain (hash_at s1)) slots cs"
proof (rule list.rel_mono_strong [OF assms(1)])
  fix p ys assume ys: "ys \<in> set cs" "chain (hash_at s) p ys"
  show "chain (hash_at s1) p ys"
  proof (rule chain_frame [OF ys(2)])
    fix a assume "a \<in> set ys"
    with ys(1) assms(3) have "a \<notin> X" by auto
    with assms(2) show "next_at (hash_at s1) a = next_at (hash_at s) a" by (simp add: moved_def next_at_def)
  qed
qed

lemma rehash_slots_spec:
  assumes "list_all2 (chain (hash_at s)) slots cs" "list_all2 (chain (hash_at s)) news ns" "distinct (concat cs)"
    "set (concat cs) \<inter> set (concat ns) = {}" "length ns = n" "0 < n"
  shows "\<exists>news' s'. rehash_slots n slots news s = Some (Inr (news', s')) \<and>
    list_all2 (chain (hash_at s')) news' (bucket_push (\<lambda>a. s_key_hash (key_at s a) n) (concat cs) ns) \<and>
    moved n (set (concat cs)) s s'"
  using assms
proof (induction slots arbitrary: cs news ns s)
  case (Cons slot slots)
  then obtain xs cs' where cs: "cs = xs # cs'" "chain (hash_at s) slot xs" "list_all2 (chain (hash_at s)) slots cs'"
    by (auto simp: list_all2_Cons1)
  let ?f = "\<lambda>a. s_key_hash (key_at s a) n"
  from rehash_chain_spec [OF cs(2) Cons.prems(2) _ _ Cons.prems(5,6)] Cons.prems cs(1)
  obtain news1 s1 where s1: "rehash_chain n slot news s = Some (Inr (news1, s1))"
    "list_all2 (chain (hash_at s1)) news1 (bucket_push ?f xs ns)" "moved n (set xs) s s1" by auto
  have lt: "?f a < length ns" for a using Cons.prems by (simp add: s_key_hash_def)
  have f: "(\<lambda>a. s_key_hash (key_at s1 a) n) = ?f" using moved_key [OF s1(3)] by simp
  have old: "list_all2 (chain (hash_at s1)) slots cs'"
    using Cons.prems cs(1) by (intro chains_moved [OF cs(3) s1(3)]) auto
  have "set (concat (bucket_push ?f xs ns)) = set xs \<union> set (concat ns)"
    using mset_bucket_push [where f = ?f and ns = ns and xs = xs, OF lt] by (metis set_mset_mset set_mset_union)
  with Cons.prems cs(1) have apart: "set (concat cs') \<inter> set (concat (bucket_push ?f xs ns)) = {}" by auto
  have "distinct (concat cs')" using Cons.prems cs(1) by simp
  from Cons.IH [OF old s1(2) this apart] Cons.prems obtain news' s' where s':
    "rehash_slots n slots news1 s1 = Some (Inr (news', s'))"
    "list_all2 (chain (hash_at s')) news' (bucket_push ?f (concat cs') (bucket_push ?f xs ns))"
    "moved n (set (concat cs')) s1 s'"
    unfolding f by auto
  have "moved n (set (concat cs)) s s'"
    using moved_trans [OF s1(3) s'(3)] Cons.prems cs(1) by simp
  with s1(1) s'(1,2) cs(1) show ?case by (simp add: bucket_push_append)
qed simp

section \<open>The table\<close>

definition item_in :: "hash_heap \<Rightarrow> nat \<Rightarrow> nat \<Rightarrow> nat \<Rightarrow> nat \<Rightarrow> bool" where
  "item_in s t n j a \<longleftrightarrow> (\<exists>i. hash_at s a = Some i \<and> h_table_head i = Some t \<and> h_table_index i = j \<and>
     s_key_hash (h_key i) n = j \<and> 1 \<le> h_links i)"

text \<open>
  The invariant of the table at \<open>t\<close> with the items \<open>cs ! j\<close> in slot \<open>j\<close>: the slots head their
  chains, every item is in the slot of its key and knows where it is, no key occurs twice, the items
  that say they are in the table are the ones that are, they are counted, and the load is bounded.
\<close>

definition table_rep :: "hash_heap \<Rightarrow> nat \<Rightarrow> ipr_hash_table \<Rightarrow> nat list list \<Rightarrow> bool" where
  "table_rep s t tab cs \<longleftrightarrow> table_at s t = Some tab \<and> t_max_items tab = length cs \<and> 255 \<le> length cs \<and>
     list_all2 (chain (hash_at s)) (t_table_items tab) cs \<and> distinct (concat cs) \<and>
     (\<forall>j<length cs. \<forall>a\<in>set (cs ! j). item_in s t (length cs) j a) \<and> inj_on (key_at s) (set (concat cs)) \<and>
     (\<forall>a i. hash_at s a = Some i \<and> h_table_head i = Some t \<longrightarrow> a \<in> set (concat cs)) \<and>
     t_nbr_items tab = length (concat cs)"

definition load_ok :: "ipr_hash_table \<Rightarrow> bool" where
  "load_ok tab \<longleftrightarrow> t_nbr_items tab \<le> t_max_items tab * IPR_HASH_TABLE_LOAD_FACTOR div 100"

text \<open>What an item shows to the outside: all but its place in the table.\<close>

definition face :: "ipr_hash \<Rightarrow> ipr_hash" where
  "face i = i\<lparr>h_table_index := 0, h_table_next := None\<rparr>"

definition faces :: "hash_heap \<Rightarrow> nat \<rightharpoonup> ipr_hash" where
  "faces s a = map_option face (hash_at s a)"

lemma moved_faces: "moved n X s s' \<Longrightarrow> faces s' = faces s"
proof
  fix a assume "moved n X s s'"
  then show "faces s' a = faces s a"
    unfolding moved_def faces_def by (cases "a \<in> X") (force simp: face_def)+
qed

lemma concat_mem: "a \<in> set (concat cs) \<longleftrightarrow> (\<exists>j<length cs. a \<in> set (cs ! j))"
  by (metis UN_E UN_I in_set_conv_nth nth_mem set_concat)

lemma grow_spec:
  assumes rep: "table_rep s t tab cs" and load: "load_ok tab"
  shows "\<exists>tab' s' cs'. hash_table_grow t tab s = Some (Inr (tab', s')) \<and> table_rep s' t tab' cs' \<and>
    t_nbr_items tab' < t_max_items tab' * IPR_HASH_TABLE_LOAD_FACTOR div 100 \<and>
    t_links tab' = t_links tab \<and> t_zombie tab' = t_zombie tab \<and>
    faces s' = faces s \<and> hash_free s' = hash_free s \<and> (\<forall>u. u \<noteq> t \<longrightarrow> table_at s' u = table_at s u)"
proof (cases "t_max_items tab * IPR_HASH_TABLE_LOAD_FACTOR div 100 \<le> t_nbr_items tab")
  case False
  with rep show ?thesis by (auto simp: hash_table_grow_def)
next
  case True
  let ?n = "t_max_items tab * IPR_HASH_TABLE_GROWTH_FACTOR div 100"
  let ?f = "\<lambda>a. s_key_hash (key_at s a) ?n"
  let ?cs = "bucket_push ?f (concat cs) (replicate ?n [])"
  note r = rep [unfolded table_rep_def]
  have n: "?n = 2 * length cs" using r by (simp add: IPR_HASH_TABLE_GROWTH_FACTOR_def)
  have pos: "0 < ?n" unfolding n using r by auto
  have "list_all2 (chain (hash_at s)) (replicate ?n None) (replicate ?n [])"
    by (simp add: list_all2_conv_all_nth)
  from rehash_slots_spec [OF _ this _ _ _ pos, of "t_table_items tab" cs] r obtain new s' where s':
    "rehash_slots ?n (t_table_items tab) (replicate ?n None) s = Some (Inr (new, s'))"
    "list_all2 (chain (hash_at s')) new ?cs" "moved ?n (set (concat cs)) s s'" by auto
  let ?tab = "tab\<lparr>t_table_items := new, t_max_items := ?n\<rparr>"
  have lt: "?f a < length (replicate ?n [])" for a using pos by (simp add: s_key_hash_def)
  have ms: "mset (concat ?cs) = mset (concat cs)" using mset_bucket_push [where f = ?f and ns = "replicate ?n []" and xs = "concat cs", OF lt] by simp
  have key: "key_at (put_table t ?tab s') a = key_at s a" for a
    using moved_key [OF s'(3), of a] by (simp add: key_at_def put_table_def)
  have "item_in (put_table t ?tab s') t ?n j a" if "j < ?n" "a \<in> set (?cs ! j)" for j a
  proof -
    have a: "a \<in> set (concat cs)" "?f a = j" using that bucket_push_mem [where f = ?f and ns = "replicate ?n []" and xs = "concat cs" and j = j and a = a, OF lt] by auto
    from a(1) obtain j' where "j' < length cs" "a \<in> set (cs ! j')" unfolding concat_mem by blast
    then have "item_in s t (length cs) j' a" using r by blast
    with a s'(3) show ?thesis
      unfolding moved_def item_in_def key_at_def put_table_def by force
  qed
  moreover have "distinct (concat ?cs)" using ms r by (metis mset_eq_imp_distinct_iff)
  moreover have "inj_on (key_at (put_table t ?tab s')) (set (concat ?cs))"
    using key ms r by (metis inj_on_cong mset_eq_setD)
  moreover have "a \<in> set (concat ?cs)" if "hash_at s' a = Some i" "h_table_head i = Some t" for a i
  proof -
    have "\<exists>i'. hash_at s a = Some i' \<and> h_table_head i' = Some t"
      using that s'(3) unfolding moved_def by (cases "a \<in> set (concat cs)") force+
    then show ?thesis using r ms by (metis mset_eq_setD)
  qed
  moreover have "length (concat ?cs) = length (concat cs)" using ms by (metis size_mset)
  ultimately have "table_rep (put_table t ?tab s') t ?tab ?cs"
    using r s'(2) n unfolding table_rep_def by (simp add: put_table_def)
  moreover have "t_nbr_items tab < ?n * IPR_HASH_TABLE_LOAD_FACTOR div 100"
  proof -
    have "255 \<le> length cs" "t_max_items tab = length cs" using r by simp_all
    then have "length cs * 75 div 100 + 1 \<le> (length cs * 75 + 100) div 100"
        "length cs * 75 + 100 \<le> 2 * length cs * 75" by simp_all
    then have "length cs * 75 div 100 < 2 * length cs * 75 div 100"
      by (meson Suc_le_eq Suc_eq_plus1 div_le_mono le_trans order.strict_trans2 less_add_one)
    with load n \<open>t_max_items tab = length cs\<close> show ?thesis
      unfolding load_ok_def IPR_HASH_TABLE_LOAD_FACTOR_def by (metis le_less_trans)
  qed
  ultimately show ?thesis
    using True s' moved_faces [OF s'(3)]
    by (intro exI [of _ ?tab] exI [of _ "put_table t ?tab s'"] exI [of _ ?cs])
      (auto simp: hash_table_grow_def Let_def put_table_def faces_def moved_def fun_eq_iff)
qed

section \<open>The table as a map\<close>

definition entry :: "hash_heap \<Rightarrow> nat \<Rightarrow> string \<Rightarrow> nat \<Rightarrow> bool" where
  "entry s t k a \<longleftrightarrow> (\<exists>i. hash_at s a = Some i \<and> h_table_head i = Some t \<and> h_key i = k)"

definition is_table :: "hash_heap \<Rightarrow> nat \<Rightarrow> (string \<rightharpoonup> nat) \<Rightarrow> bool" where
  "is_table s t M \<longleftrightarrow> (\<exists>tab cs. table_rep s t tab cs \<and> load_ok tab \<and> \<not> t_zombie tab) \<and>
     (\<forall>k a. M k = Some a \<longleftrightarrow> entry s t k a)"

lemma face_simps [simp]:
  "h_table_head (face i) = h_table_head i" "h_key (face i) = h_key i" "h_links (face i) = h_links i"
  "h_zombie (face i) = h_zombie i" "h_data (face i) = h_data i"
  by (simp_all add: face_def)

lemma faces_SomeD:
  assumes "faces s' = faces s" "hash_at s a = Some i"
  obtains i' where "hash_at s' a = Some i'" "face i' = face i"
  using fun_cong [OF assms(1), of a] assms(2) by (auto simp: faces_def)

lemma entry_faces:
  assumes "faces s' = faces s" shows "entry s' t k a = entry s t k a"
proof -
  have "entry s t k a \<longleftrightarrow> (\<exists>f. faces s a = Some f \<and> h_table_head f = Some t \<and> h_key f = k)" for s
    by (auto simp: entry_def faces_def)
  then show ?thesis using assms by simp
qed

lemma rep_item:
  assumes "table_rep s t tab cs" "a \<in> set (concat cs)"
  obtains i where "hash_at s a = Some i" "h_table_head i = Some t" "h_table_index i = s_key_hash (h_key i) (length cs)"
    "a \<in> set (cs ! h_table_index i)" "h_table_index i < length cs" "1 \<le> h_links i"
proof -
  from assms(2) obtain j where j: "j < length cs" "a \<in> set (cs ! j)" unfolding concat_mem by blast
  with assms(1) have "item_in s t (length cs) j a" unfolding table_rep_def by blast
  then obtain i where "hash_at s a = Some i" "h_table_head i = Some t" "h_table_index i = j"
    "s_key_hash (h_key i) (length cs) = j" "1 \<le> h_links i" unfolding item_in_def by blast
  with j show thesis by (intro that [of i]) simp_all
qed

lemma rep_entry:
  assumes "table_rep s t tab cs"
  shows "entry s t k a \<longleftrightarrow> a \<in> set (cs ! s_key_hash k (length cs)) \<and> key_at s a = k"
proof
  assume "entry s t k a"
  then obtain i where i: "hash_at s a = Some i" "h_table_head i = Some t" "h_key i = k" unfolding entry_def by blast
  then have "a \<in> set (concat cs)" using assms unfolding table_rep_def by blast
  with assms show "a \<in> set (cs ! s_key_hash k (length cs)) \<and> key_at s a = k"
    by (rule rep_item) (use i in \<open>auto simp: key_at_def\<close>)
next
  assume a: "a \<in> set (cs ! s_key_hash k (length cs)) \<and> key_at s a = k"
  have "s_key_hash k (length cs) < length cs"
    using assms unfolding table_rep_def s_key_hash_def by (metis less_le_trans mod_less_divisor zero_less_numeral)
  with a have "a \<in> set (concat cs)" unfolding concat_mem by blast
  with assms show "entry s t k a" by (rule rep_item) (use a in \<open>auto simp: entry_def key_at_def\<close>)
qed

lemma rep_find:
  assumes rep: "table_rep s t tab cs" and M: "\<And>k a. M k = Some a \<longleftrightarrow> entry s t k a"
  shows "find (\<lambda>a. key_at s a = key) (cs ! s_key_hash key (length cs)) = M key"
proof (cases "find (\<lambda>a. key_at s a = key) (cs ! s_key_hash key (length cs))")
  case None
  then have "\<not> entry s t key a" for a unfolding rep_entry [OF rep] by (auto simp: find_None_iff)
  then show ?thesis using M None by (metis not_None_eq)
next
  case (Some a)
  then have "entry s t key a" unfolding rep_entry [OF rep] by (auto simp: find_Some_iff)
  then show ?thesis using M Some by metis
qed

lemma rep_slot:
  assumes "table_rep s t tab cs"
  shows "slot_get tab (s_key_hash key (t_max_items tab)) = Inr (t_table_items tab ! s_key_hash key (length cs))"
    and "chain (hash_at s) (t_table_items tab ! s_key_hash key (length cs)) (cs ! s_key_hash key (length cs))"
    and "s_key_hash key (length cs) < length cs"
proof -
  have pos: "0 < length cs" using assms by (auto simp: table_rep_def)
  then show k: "s_key_hash key (length cs) < length cs" by (simp add: s_key_hash_def)
  have "list_all2 (chain (hash_at s)) (t_table_items tab) cs" using assms by (simp add: table_rep_def)
  with k show "slot_get tab (s_key_hash key (t_max_items tab)) = Inr (t_table_items tab ! s_key_hash key (length cs))"
    and "chain (hash_at s) (t_table_items tab ! s_key_hash key (length cs)) (cs ! s_key_hash key (length cs))"
    using assms by (auto simp: slot_get_def table_rep_def list_all2_conv_all_nth)
qed

lemma rep_key_search:
  assumes "table_rep s t tab cs" "\<And>k a. M k = Some a \<longleftrightarrow> entry s t k a"
  shows "key_search key (t_table_items tab ! s_key_hash key (length cs)) s = Some (Inr (M key))"
  using key_search_chain [OF rep_slot(2) [OF assms(1)]] rep_find [OF assms] by simp

text \<open>Changes of items that leave their place alone, and of items that are not in the table.\<close>

lemma rep_same_place:
  assumes "table_rep s t tab cs" "hash_at s p = Some i" "hash_at s' = (hash_at s)(p \<mapsto> i\<lparr>h_links := l, h_zombie := z\<rparr>)"
    "table_at s' t = table_at s t" "h_table_head i = Some t \<Longrightarrow> 1 \<le> l"
  shows "table_rep s' t tab cs"
proof -
  have nx: "next_at (hash_at s') a = next_at (hash_at s) a" for a
    using assms(2,3) by (simp add: next_at_def)
  have "list_all2 (chain (hash_at s')) (t_table_items tab) cs"
    by (rule list.rel_mono [THEN predicate2D, of "chain (hash_at s)"])
      (use assms(1) chain_frame [OF _ nx] in \<open>auto simp: table_rep_def\<close>)
  moreover have "key_at s' = key_at s" using assms(2,3) by (auto simp: key_at_def fun_eq_iff)
  moreover have "item_in s' t (length cs) j a" if "item_in s t (length cs) j a" for j a
    using that assms(2,3,5) by (auto simp: item_in_def)
  moreover have "a \<in> set (concat cs)" if "hash_at s' a = Some i'" "h_table_head i' = Some t" for a i'
    using that assms(1,2,3) by (auto simp: table_rep_def split: if_splits)
  ultimately show ?thesis using assms(1,4) unfolding table_rep_def by auto
qed

lemma rep_outside:
  assumes "table_rep s t tab cs" "p \<notin> set (concat cs)" "\<And>a. a \<noteq> p \<Longrightarrow> hash_at s' a = hash_at s a"
    "table_at s' t = table_at s t" "\<And>i. hash_at s' p = Some i \<Longrightarrow> h_table_head i \<noteq> Some t"
  shows "table_rep s' t tab cs"
proof -
  have same: "hash_at s' a = hash_at s a" if "a \<in> set (concat cs)" for a
    using that assms(2,3) by metis
  have "list_all2 (chain (hash_at s')) (t_table_items tab) cs"
  proof (rule list.rel_mono_strong)
    show "list_all2 (chain (hash_at s)) (t_table_items tab) cs" using assms(1) by (simp add: table_rep_def)
    show "chain (hash_at s') q ys" if "ys \<in> set cs" "chain (hash_at s) q ys" for q ys
    proof (rule chain_frame [OF that(2)])
      fix a assume "a \<in> set ys"
      with that(1) have "a \<in> set (concat cs)" by auto
      then show "next_at (hash_at s') a = next_at (hash_at s) a" by (simp add: next_at_def same del: set_concat)
    qed
  qed
  moreover have "item_in s' t (length cs) j a" if "j < length cs" "a \<in> set (cs ! j)" "item_in s t (length cs) j a" for j a
    using that same [of a] unfolding item_in_def by (metis concat_mem)
  moreover have "inj_on (key_at s') (set (concat cs)) \<longleftrightarrow> inj_on (key_at s) (set (concat cs))"
    by (rule inj_on_cong) (simp add: key_at_def same del: set_concat)
  moreover have "a \<in> set (concat cs)" if "hash_at s' a = Some i" "h_table_head i = Some t" for a i
    using that assms(1,3,5) unfolding table_rep_def by metis
  ultimately show ?thesis using assms(1,4) unfolding table_rep_def by auto
qed

section \<open>Insertion\<close>

text \<open>The state after the new item has been hooked in at the head of its slot.\<close>

definition hooked :: "nat \<Rightarrow> nat \<Rightarrow> string \<Rightarrow> ipr_hash \<Rightarrow> ipr_hash_table \<Rightarrow> hash_heap \<Rightarrow> hash_heap" where
  "hooked t p key i tab s =
     (let k = s_key_hash key (t_max_items tab) in
      put_table t (tab\<lparr>t_table_items := (t_table_items tab)[k := Some p], t_nbr_items := t_nbr_items tab + 1\<rparr>)
        (put_hash p (i\<lparr>h_table_head := Some t, h_table_index := k, h_table_next := t_table_items tab ! k, h_key := key\<rparr>) s))"

lemma rep_hooked:
  assumes rep: "table_rep s t tab cs" and p: "hash_at s p = Some i" "h_table_head i \<noteq> Some t" "1 \<le> h_links i"
    and new: "\<And>a. \<not> entry s t key a"
  defines "k \<equiv> s_key_hash key (length cs)"
  shows "table_rep (hooked t p key i tab s) t
    (tab\<lparr>t_table_items := (t_table_items tab)[k := Some p], t_nbr_items := t_nbr_items tab + 1\<rparr>) (cs[k := p # cs ! k])"
proof -
  let ?s = "hooked t p key i tab s"
  have max: "t_max_items tab = length cs" using rep by (simp add: table_rep_def)
  have out: "p \<notin> set (concat cs)"
    using rep_item [OF rep, of p] p by (metis option.inject)
  have k: "k < length cs" unfolding k_def using rep_slot(3) [OF rep] .
  have at: "hash_at ?s = (hash_at s)(p \<mapsto> i\<lparr>h_table_head := Some t, h_table_index := k, h_table_next := t_table_items tab ! k, h_key := key\<rparr>)"
    by (simp add: hooked_def Let_def put_table_def put_hash_def max k_def)
  have ms: "mset (concat (cs[k := p # cs ! k])) = add_mset p (mset (concat cs))"
    by (rule mset_concat_update [OF k])
  then have mem: "set (concat (cs[k := p # cs ! k])) = insert p (set (concat cs))"
    by (metis set_mset_add_mset_insert set_mset_mset)
  have old: "list_all2 (chain (hash_at ?s)) (t_table_items tab) cs"
  proof (rule list.rel_mono_strong)
    show "list_all2 (chain (hash_at s)) (t_table_items tab) cs" using rep by (simp add: table_rep_def)
    show "chain (hash_at ?s) q ys" if "ys \<in> set cs" "chain (hash_at s) q ys" for q ys
      by (rule chain_frame [OF that(2)]) (use that(1) out in \<open>auto simp: next_at_def at\<close>)
  qed
  moreover have "chain (hash_at ?s) (Some p) (p # cs ! k)"
    using old k by (simp add: at list_all2_conv_all_nth)
  ultimately have "list_all2 (chain (hash_at ?s)) ((t_table_items tab)[k := Some p]) (cs[k := p # cs ! k])"
    by (rule list_all2_update_cong)
  moreover have "distinct (concat (cs[k := p # cs ! k]))"
    using rep out ms unfolding table_rep_def by (metis distinct.simps(2) mset.simps(2) mset_eq_imp_distinct_iff)
  moreover have "item_in ?s t (length cs) j a" if "j < length cs" "a \<in> set (cs[k := p # cs ! k] ! j)" for j a
  proof (cases "a = p")
    case True
    with that out have "j = k" by (metis concat_mem nth_list_update_neq)
    with True p(3) show ?thesis by (simp add: item_in_def at k_def)
  next
    case False
    with that have "a \<in> set (cs ! j)" by (metis nth_list_update_eq nth_list_update_neq set_ConsD)
    with that(1) rep have "item_in s t (length cs) j a" by (simp add: table_rep_def)
    with False show ?thesis by (simp add: item_in_def at)
  qed
  moreover have "inj_on (key_at ?s) (insert p (set (concat cs)))"
  proof -
    have same: "key_at ?s a = key_at s a" if "a \<in> set (concat cs)" for a
      using that out by (auto simp: key_at_def at)
    have "key_at s a \<noteq> key" if "a \<in> set (concat cs)" for a
      using rep_item [OF rep that] new [of a] unfolding entry_def key_at_def by (metis option.sel)
    moreover have "key_at ?s p = key" by (simp add: key_at_def at)
    moreover have "inj_on (key_at ?s) (set (concat cs))"
      using rep same unfolding table_rep_def by (metis inj_on_cong)
    ultimately show ?thesis unfolding inj_on_insert using same by (auto simp del: set_concat)
  qed
  moreover have "a \<in> insert p (set (concat cs))" if "hash_at ?s a = Some i'" "h_table_head i' = Some t" for a i'
    using that rep by (cases "a = p") (auto simp: table_rep_def at)
  moreover have "length (concat (cs[k := p # cs ! k])) = Suc (length (concat cs))"
    using arg_cong [OF ms, of size] by (simp only: size_mset size_add_mset)
  ultimately show ?thesis
    using rep unfolding table_rep_def mem by (simp add: hooked_def Let_def put_table_def max k_def)
qed

lemma shortstr_cpy_fits: "length key \<le> 255 \<Longrightarrow> fst (icl_shortstr_cpy (Some key)) = key"
  by (simp add: icl_shortstr_cpy_def shortstr_loop_take ICL_SHORTSTR_MAX_def Let_def)

lemma faces_hooked:
  "faces (hooked t p key i tab s) = (faces s)(p \<mapsto> (face i)\<lparr>h_table_head := Some t, h_key := key\<rparr>)"
  by (auto simp: faces_def hooked_def Let_def put_table_def put_hash_def face_def fun_eq_iff)

text \<open>Only the items and the table itself change.\<close>

definition elsewhere_same :: "nat \<Rightarrow> hash_heap \<Rightarrow> hash_heap \<Rightarrow> bool" where
  "elsewhere_same t s s' \<longleftrightarrow> hash_free s' = hash_free s \<and> (\<forall>u. u \<noteq> t \<longrightarrow> table_at s' u = table_at s u)"

lemma s_insert_spec:
  assumes M: "is_table s t M" and p: "hash_at s p = Some i" "h_table_head i \<noteq> Some t" "1 \<le> h_links i"
    and key: "length key \<le> 255"
  shows "\<exists>s'. s_ipr_hash_table_insert t (Some p) key s = Some (Inr (if M key = None then 0 else - 1, s')) \<and>
    elsewhere_same t s s' \<and>
    (if M key = None
     then is_table s' t (M(key \<mapsto> p)) \<and> faces s' = (faces s)(p \<mapsto> (face i)\<lparr>h_table_head := Some t, h_key := key\<rparr>)
     else is_table s' t M \<and> faces s' = faces s)"
proof -
  from M obtain tab cs where rep: "table_rep s t tab cs" "load_ok tab" "\<not> t_zombie tab"
    and ent: "\<And>k a. M k = Some a \<longleftrightarrow> entry s t k a" unfolding is_table_def by blast
  from grow_spec [OF rep(1,2)] obtain tab1 s1 cs1 where g: "hash_table_grow t tab s = Some (Inr (tab1, s1))"
    "table_rep s1 t tab1 cs1" "t_nbr_items tab1 < t_max_items tab1 * IPR_HASH_TABLE_LOAD_FACTOR div 100"
    "t_zombie tab1 = t_zombie tab" "faces s1 = faces s" "elsewhere_same t s s1"
    unfolding elsewhere_same_def by blast
  have ent1: "M k = Some a \<longleftrightarrow> entry s1 t k a" for k a using ent entry_faces [OF g(5)] by simp
  obtain i1 where i1: "hash_at s1 p = Some i1" "face i1 = face i"
    using p(1) g(5) by (metis faces_SomeD)
  have tab: "get_table t s = Inr tab" using rep(1) by (simp add: table_rep_def get_table_def)
  have max1: "t_max_items tab1 = length cs1" using g(2) by (simp add: table_rep_def)
  show ?thesis
  proof (cases "M key")
    case (Some a)
    have "s_ipr_hash_table_insert t (Some p) key s = Some (Inr (- 1, s1))"
      using g(1) tab rep_slot(1) [OF g(2), of key] rep_key_search [OF g(2) ent1, of key] Some
      by (simp add: s_ipr_hash_table_insert_def max1)
    moreover have "is_table s1 t M"
      using g ent1 rep(3) unfolding is_table_def load_ok_def by (metis less_imp_le)
    ultimately show ?thesis using Some g(5,6) by simp
  next
    case None
    let ?k = "s_key_hash key (length cs1)"
    let ?tab = "tab1\<lparr>t_table_items := (t_table_items tab1)[?k := Some p], t_nbr_items := t_nbr_items tab1 + 1\<rparr>"
    have "s_ipr_hash_table_insert t (Some p) key s = Some (Inr (0, hooked t p key i1 tab1 s1))"
      using g(1) tab rep_slot(1) [OF g(2), of key] rep_key_search [OF g(2) ent1, of key] None i1(1) shortstr_cpy_fits [OF key]
      by (simp add: s_ipr_hash_table_insert_def max1 mod_hash_def get_hash_def hooked_def Let_def)
    moreover have head: "h_table_head i1 \<noteq> Some t" "1 \<le> h_links i1"
      using p i1(2) by (metis face_simps(1), metis face_simps(3))
    have "table_rep (hooked t p key i1 tab1 s1) t ?tab (cs1[?k := p # cs1 ! ?k])"
      using ent1 None by (intro rep_hooked [OF g(2) i1(1) head]) (metis option.distinct(1))
    moreover have "load_ok ?tab" using g(3) by (simp add: load_ok_def)
    moreover have fc: "faces (hooked t p key i1 tab1 s1) = (faces s)(p \<mapsto> (face i)\<lparr>h_table_head := Some t, h_key := key\<rparr>)"
      using faces_hooked [of t p key i1 tab1 s1] g(5) i1(2) by simp
    moreover have "(M(key \<mapsto> p)) k = Some a \<longleftrightarrow> entry (hooked t p key i1 tab1 s1) t k a" for k a
    proof -
      have "hash_at (hooked t p key i1 tab1 s1) = (hash_at s1)(p \<mapsto> i1\<lparr>h_table_head := Some t, h_table_index := ?k,
          h_table_next := t_table_items tab1 ! ?k, h_key := key\<rparr>)"
        by (simp add: hooked_def Let_def put_table_def put_hash_def max1)
      moreover have "\<not> entry s1 t k' p" for k' using i1(1) head(1) by (simp add: entry_def)
      moreover have "\<not> entry s1 t key a" using ent1 None by (metis option.distinct(1))
      ultimately show ?thesis using ent1 [of k a] by (auto simp: entry_def)
    qed
    moreover have "elsewhere_same t s (hooked t p key i1 tab1 s1)"
      using g(6) by (simp add: elsewhere_same_def hooked_def Let_def put_table_def put_hash_def)
    ultimately show ?thesis
      using None rep(3) g(4) unfolding is_table_def
      by (intro exI [of _ "hooked t p key i1 tab1 s1"]) (auto simp del: fun_upd_apply)
  qed
qed

section \<open>Removal\<close>

definition cleared :: "ipr_hash \<Rightarrow> ipr_hash" where
  "cleared i = i\<lparr>h_table_head := None, h_table_index := 0, h_table_next := None, h_key := []\<rparr>"

lemma mset_concat_remove:
  "j < length cs \<Longrightarrow> a \<in> set (cs ! j) \<Longrightarrow> add_mset a (mset (concat (cs[j := remove1 a (cs ! j)]))) = mset (concat cs)"
  by (induction cs arbitrary: j) (auto split: nat.splits)

lemma concat_remove:
  assumes "distinct (concat cs)" "j < length cs" "a \<in> set (cs ! j)"
  shows "set (concat (cs[j := remove1 a (cs ! j)])) = set (concat cs) - {a}"
    and "distinct (concat (cs[j := remove1 a (cs ! j)]))"
    and "length (concat (cs[j := remove1 a (cs ! j)])) = length (concat cs) - 1"
proof -
  let ?cs = "concat (cs[j := remove1 a (cs ! j)])"
  have ms: "mset (a # ?cs) = mset (concat cs)" using mset_concat_remove [OF assms(2,3)] by simp
  then have d: "distinct (a # ?cs)" using assms(1) by (metis mset_eq_imp_distinct_iff)
  moreover have "set (a # ?cs) = set (concat cs)" using ms by (metis mset_eq_setD)
  ultimately show "set ?cs = set (concat cs) - {a}" by (metis Diff_insert_absorb distinct.simps(2) list.simps(15))
  show "distinct ?cs" using d by simp
  show "length ?cs = length (concat cs) - 1" using arg_cong [OF ms, of size] by (simp only: size_mset list.size)
qed

lemma rep_unhooked:
  assumes rep: "table_rep s t tab cs" and j: "j < length cs" "a \<in> set (cs ! j)"
    and a: "\<And>i. hash_at s' a = Some i \<Longrightarrow> h_table_head i \<noteq> Some t"
    and others: "\<And>b. b \<noteq> a \<Longrightarrow> map_option (h_table_next_update (\<lambda>_. None)) (hash_at s' b) =
        map_option (h_table_next_update (\<lambda>_. None)) (hash_at s b)"
    and tab: "table_at s' t = Some tab'" "t_max_items tab' = t_max_items tab" "t_nbr_items tab' = t_nbr_items tab - 1"
    and chains: "list_all2 (chain (hash_at s')) (t_table_items tab') (cs[j := remove1 a (cs ! j)])"
  shows "table_rep s' t tab' (cs[j := remove1 a (cs ! j)])"
proof -
  let ?cs = "cs[j := remove1 a (cs ! j)]"
  have dist: "distinct (concat cs)" using rep by (simp add: table_rep_def)
  note cc = concat_remove [OF dist j]
  have other: "\<exists>i'. hash_at s' b = Some i' \<and> h_table_head i' = h_table_head i \<and> h_table_index i' = h_table_index i \<and>
      h_key i' = h_key i \<and> h_links i' = h_links i" if b: "b \<noteq> a" and i: "hash_at s b = Some i" for b i
  proof -
    obtain i' where "hash_at s' b = Some i'" "i'\<lparr>h_table_next := None\<rparr> = i\<lparr>h_table_next := None\<rparr>"
      using others [OF b] i by auto
    then show ?thesis by (cases i; cases i') simp
  qed
  have "item_in s' t (length ?cs) k b" if k: "k < length ?cs" "b \<in> set (?cs ! k)" for k b
  proof -
    have "b \<in> set (concat ?cs)" using k unfolding concat_mem by blast
    then have "b \<noteq> a" using cc(1) by auto
    moreover have "b \<in> set (cs ! k)" using k by (cases "k = j") (auto dest: subsetD [OF set_remove1_subset])
    then have "item_in s t (length cs) k b" using rep k by (simp add: table_rep_def)
    ultimately show ?thesis using other [of b] unfolding item_in_def by auto
  qed
  moreover have "inj_on (key_at s') (set (concat ?cs))"
  proof -
    have "key_at s' b = key_at s b" if b: "b \<in> set (concat cs) - {a}" for b
    proof -
      from b rep_item [OF rep, of b] obtain i where "hash_at s b = Some i" by blast
      with other [of b i] b show ?thesis by (auto simp: key_at_def)
    qed
    then have "inj_on (key_at s') (set (concat cs) - {a}) = inj_on (key_at s) (set (concat cs) - {a})"
      by (rule inj_on_cong)
    with rep show ?thesis unfolding cc(1) table_rep_def by (metis Diff_subset inj_on_subset)
  qed
  moreover have "b \<in> set (concat ?cs)" if b: "hash_at s' b = Some i'" "h_table_head i' = Some t" for b i'
  proof -
    have "b \<noteq> a" using a b by blast
    moreover from others [OF this] b(1) obtain i where "hash_at s b = Some i"
      "i'\<lparr>h_table_next := None\<rparr> = i\<lparr>h_table_next := None\<rparr>"
      by (cases "hash_at s b") auto
    then have "hash_at s b = Some i" "h_table_head i = Some t" using b(2) by (cases i; cases i'; simp)+
    then have "b \<in> set (concat cs)" using rep unfolding table_rep_def by blast
    ultimately show ?thesis using cc(1) by simp
  qed
  ultimately show ?thesis
    using rep tab chains cc(2,3) unfolding table_rep_def by simp
qed

lemma rep_slot_unique:
  "table_rep s t tab cs \<Longrightarrow> k < length cs \<Longrightarrow> b \<in> set (cs ! k) \<Longrightarrow> j < length cs \<Longrightarrow> b \<in> set (cs ! j) \<Longrightarrow> k = j"
  unfolding table_rep_def item_in_def by (metis option.inject)

lemma s_remove_spec:
  assumes rep: "table_rep s t tab cs" and a: "a \<in> set (concat cs)" "hash_at s a = Some i"
  defines "cs' \<equiv> cs[h_table_index i := remove1 a (cs ! h_table_index i)]"
  shows "\<exists>s' tab'. s_ipr_hash_table_remove a s = Some (Inr s') \<and> table_rep s' t tab' cs' \<and>
    t_max_items tab' = t_max_items tab \<and> t_zombie tab' = t_zombie tab \<and> t_links tab' = t_links tab \<and>
    t_nbr_items tab' = t_nbr_items tab - 1 \<and>
    hash_at s' a = Some (cleared i) \<and> faces s' = (faces s)(a \<mapsto> face (cleared i)) \<and> elsewhere_same t s s'"
proof -
  let ?j = "h_table_index i"
  from rep_item [OF rep a(1)] a(2) have i: "h_table_head i = Some t" "a \<in> set (cs ! ?j)" "?j < length cs"
    by (metis option.inject)+
  note r = rep [unfolded table_rep_def]
  have dist: "distinct (cs ! ?j)" using r i(3) by (auto simp: distinct_concat_iff)
  from i(2) obtain ys zs where split: "cs ! ?j = ys @ a # zs" by (meson split_list)
  with dist have ya: "a \<notin> set ys" and dys: "distinct (ys @ a # zs)" by auto
  have rem: "remove1 a (cs ! ?j) = ys @ zs" using ya unfolding split by (simp add: remove1_append)
  have chain: "chain (hash_at s) (t_table_items tab ! ?j) (ys @ a # zs)"
    using r i(3) split by (auto simp: list_all2_conv_all_nth)
  have slot: "slot_get tab ?j = Inr (t_table_items tab ! ?j)"
    using r i(3) by (auto simp: slot_get_def list_all2_lengthD)
  let ?tab = "tab\<lparr>t_nbr_items := t_nbr_items tab - 1\<rparr>"
  have place: "place_search a None (t_table_items tab ! ?j) s = Some (Inr (if ys = [] then None else Some (last ys), Some a))"
    by (rule place_search_chain [OF chain ya])
  have tab: "get_table t s = Inr tab" and self: "get_hash a s = Inr i"
    using r a(2) by (simp_all add: get_table_def get_hash_def)
  define m where "m = (if ys = [] then hash_at s else (hash_at s)(last ys \<mapsto> (the (hash_at s (last ys)))\<lparr>h_table_next := h_table_next i\<rparr>))"
  define items where "items = (if ys = [] then (t_table_items tab)[?j := h_table_next i] else t_table_items tab)"
  define s' where "s' = s\<lparr>hash_at := m(a \<mapsto> cleared i), table_at := (table_at s)(t \<mapsto> ?tab\<lparr>t_table_items := items\<rparr>)\<rparr>"
  have last: "last ys \<noteq> a" if "ys \<noteq> []" using that ya by (metis last_in_set)
  have run: "s_ipr_hash_table_remove a s = Some (Inr s')"
  proof (cases "ys = []")
    case True
    then show ?thesis
      using tab self i(1) slot place
      by (simp add: s_ipr_hash_table_remove_def Let_def s'_def m_def items_def cleared_def put_hash_def put_table_def)
  next
    case False
    then obtain jq where "hash_at s (last ys) = Some jq"
      using chain_mem [OF chain, of "last ys"] by auto
    with False show ?thesis
      using tab self i(1) slot place
      by (simp add: s_ipr_hash_table_remove_def Let_def s'_def m_def items_def cleared_def put_hash_def put_table_def
          mod_hash_def get_hash_def)
  qed
  have cs': "cs' = cs[?j := ys @ zs]" by (simp add: cs'_def rem)
  have "list_all2 (chain (hash_at s')) items cs'"
  proof (rule list_all2_all_nthI)
    show len: "length items = length cs'"
      using r by (auto simp: items_def cs'_def dest: list_all2_lengthD)
    fix k assume "k < length items"
    then have k: "k < length cs" using len by (simp add: cs'_def)
    have "chain m (items ! k) (cs' ! k)"
    proof (cases "k = ?j")
      case True
      show ?thesis
      proof (cases "ys = []")
        case True
        with \<open>k = ?j\<close> chain a(2) show ?thesis
          using k r by (auto simp: m_def items_def cs' dest: list_all2_lengthD)
      next
        case False
        from chain_remove_inner [OF chain False dys a(2)] obtain jq where
          "hash_at s (last ys) = Some jq" "chain ((hash_at s)(last ys \<mapsto> jq\<lparr>h_table_next := h_table_next i\<rparr>)) (t_table_items tab ! ?j) (ys @ zs)"
          by blast
        with False \<open>k = ?j\<close> i(3) show ?thesis by (simp add: m_def items_def cs' del: fun_upd_apply)
      qed
    next
      case False
      have "chain (hash_at s) (t_table_items tab ! k) (cs ! k)"
        using r k by (auto simp: list_all2_conv_all_nth)
      then have "chain m (t_table_items tab ! k) (cs ! k)"
      proof (rule chain_frame)
        fix b assume b: "b \<in> set (cs ! k)"
        have "b \<noteq> last ys" if "ys \<noteq> []"
          using that rep_slot_unique [OF rep k b i(3)] split False by auto
        then show "next_at m b = next_at (hash_at s) b" by (simp add: m_def next_at_def)
      qed
      with False show ?thesis by (simp add: items_def cs')
    qed
    moreover have "a \<notin> set (cs' ! k)"
      using rep_slot_unique [OF rep i(3,2) k] dys i(3) by (cases "k = ?j") (auto simp: cs')
    ultimately show "chain (hash_at s') (items ! k) (cs' ! k)"
      by (elim chain_frame) (auto simp: s'_def next_at_def)
  qed
  moreover have "map_option (h_table_next_update (\<lambda>_. None)) (hash_at s' b) = map_option (h_table_next_update (\<lambda>_. None)) (hash_at s b)"
    if "b \<noteq> a" for b
    using that chain_mem [OF chain, of "last ys"] by (auto simp: s'_def m_def)
  ultimately have "table_rep s' t (?tab\<lparr>t_table_items := items\<rparr>) cs'"
    unfolding cs'_def by (intro rep_unhooked [OF rep i(3,2)]) (auto simp: s'_def cleared_def)
  moreover have "faces s' = (faces s)(a \<mapsto> face (cleared i))"
  proof
    fix b show "faces s' b = ((faces s)(a \<mapsto> face (cleared i))) b"
      using chain_mem [OF chain, of "last ys"] by (auto simp: s'_def m_def faces_def face_def)
  qed
  ultimately show ?thesis
    using run by (intro exI [of _ s'] exI [of _ "?tab\<lparr>t_table_items := items\<rparr>"]) (simp add: s'_def elsewhere_same_def)
qed

end
