(* ===== verification/Ipr_Hash_Properties.thy ===== *)
theory Ipr_Hash_Properties
  imports Ipr_Hash_Map
begin

text \<open>
  What the hash table promises to its callers: search, insertion and removal are those of a map, with
  the link counts of the items in step, and the item methods \<^verbatim>\<open>insert\<close>, \<^verbatim>\<open>lookup\<close> and \<^verbatim>\<open>delete\<close> are a
  store of data by key for any sequence of calls.  And two ways to break it.
\<close>

section \<open>Link counts\<close>

lemma is_table_same_place:
  assumes "is_table s t M" "hash_at s p = Some i" "h_table_head i = Some t \<Longrightarrow> 1 \<le> l"
  shows "is_table (put_hash p (i\<lparr>h_links := l, h_zombie := z\<rparr>) s) t M"
proof -
  let ?s = "put_hash p (i\<lparr>h_links := l, h_zombie := z\<rparr>) s"
  have "entry ?s t k a \<longleftrightarrow> entry s t k a" for k a
    using assms(2) by (auto simp: entry_def put_hash_def)
  moreover have "table_rep ?s t tab cs" if "table_rep s t tab cs" for tab cs
    using assms by (intro rep_same_place [OF that assms(2)]) (simp_all add: put_hash_def)
  ultimately show ?thesis using assms(1) unfolding is_table_def by blast
qed

lemma is_table_links:
  assumes "is_table s t M" "hash_at s p = Some i" "h_table_head i = Some t \<Longrightarrow> 1 \<le> l"
  shows "is_table (put_hash p (i\<lparr>h_links := l\<rparr>) s) t M"
proof -
  have "i\<lparr>h_links := l\<rparr> = i\<lparr>h_links := l, h_zombie := h_zombie i\<rparr>" by (cases i) simp
  with is_table_same_place [OF assms] show ?thesis by metis
qed

lemma is_table_outside:
  assumes "is_table s t M" "\<And>i. hash_at s p = Some i \<Longrightarrow> h_table_head i \<noteq> Some t"
    "\<And>a. a \<noteq> p \<Longrightarrow> hash_at s' a = hash_at s a" "table_at s' t = table_at s t"
    "\<And>i. hash_at s' p = Some i \<Longrightarrow> h_table_head i \<noteq> Some t"
  shows "is_table s' t M"
proof -
  have "entry s' t k a \<longleftrightarrow> entry s t k a" for k a
    using assms(2,3,5) unfolding entry_def by metis
  moreover have "table_rep s' t tab cs" if rep: "table_rep s t tab cs" for tab cs
  proof (rule rep_outside [OF rep _ assms(3,4,5)])
    show "p \<notin> set (concat cs)" using rep_item [OF rep, of p] assms(2) by metis
  qed
  ultimately show ?thesis using assms(1) unfolding is_table_def by blast
qed

lemma is_table_mem:
  assumes "is_table s t M" "M k = Some a"
  obtains i where "hash_at s a = Some i" "h_table_head i = Some t" "h_key i = k" "1 \<le> h_links i"
proof -
  from assms obtain tab cs where rep: "table_rep s t tab cs" and e: "entry s t k a" unfolding is_table_def by blast
  from e obtain i where i: "hash_at s a = Some i" "h_table_head i = Some t" "h_key i = k" unfolding entry_def by blast
  moreover have "a \<in> set (concat cs)" using rep i unfolding table_rep_def by blast
  with rep have "1 \<le> h_links i" by (rule rep_item) (use i in auto)
  ultimately show thesis using that by blast
qed

lemma hash_unlink_keeps:
  "hash_at s p = Some i \<Longrightarrow> 2 \<le> h_links i \<Longrightarrow>
   hash_unlink_with ann p s = Some (Inr (put_hash p (i\<lparr>h_links := h_links i - 1\<rparr>) s))"
  by (simp add: hash_unlink_with_def get_hash_def Let_def)

definition freed_hash :: "nat \<Rightarrow> hash_heap \<Rightarrow> hash_heap" where
  "freed_hash p s = s\<lparr>hash_at := (hash_at s)(p := None)\<rparr>"

lemma hash_unlink_frees:
  "hash_at s p = Some i \<Longrightarrow> h_links i = 1 \<Longrightarrow> h_table_head i = None \<Longrightarrow>
   ipr_hash_unlink p s = Some (Inr (freed_hash p s))"
  by (simp add: ipr_hash_unlink_def hash_unlink_with_def ipr_hash_annihilate_def hash_remove_with_def get_hash_def
      Let_def put_hash_def ipr_hash_free_def freed_hash_def)

section \<open>Search and removal\<close>

lemma search_spec:
  assumes "is_table s t M"
  shows "ipr_hash_table_search t (Some k) s = Some (Inr (M k,
    case M k of None \<Rightarrow> s | Some a \<Rightarrow> put_hash a ((the (hash_at s a))\<lparr>h_links := h_links (the (hash_at s a)) + 1\<rparr>) s))"
proof -
  from assms obtain tab cs where rep: "table_rep s t tab cs" and ent: "\<And>k a. M k = Some a \<longleftrightarrow> entry s t k a"
    unfolding is_table_def by blast
  have tab: "get_table t s = Inr tab" using rep by (simp add: table_rep_def get_table_def)
  have "s_ipr_hash_table_lookup t k s = Some (Inr (M k))"
    using tab rep_slot(1) [OF rep, of k] rep_key_search [OF rep ent, of k]
    by (simp add: s_ipr_hash_table_lookup_def)
  moreover have "\<exists>i. hash_at s a = Some i" if "M k = Some a" for a
    using is_table_mem [OF assms that] by blast
  ultimately show ?thesis
    using tab by (auto simp: ipr_hash_table_search_def ipr_hash_link_def mod_hash_def get_hash_def split: option.splits)
qed

lemma entry_by_face: "entry s t k a \<longleftrightarrow> (\<exists>f. faces s a = Some f \<and> h_table_head f = Some t \<and> h_key f = k)"
  by (auto simp: entry_def faces_def)

lemma remove_entry:
  assumes M: "is_table s t M" "M k = Some a" and i: "hash_at s a = Some i"
  shows "\<exists>s'. s_ipr_hash_table_remove a s = Some (Inr s') \<and> is_table s' t (M(k := None)) \<and>
    hash_at s' a = Some (cleared i) \<and> faces s' = (faces s)(a \<mapsto> face (cleared i)) \<and> elsewhere_same t s s'"
proof -
  from M(1) obtain tab cs where rep: "table_rep s t tab cs" "load_ok tab" "\<not> t_zombie tab"
    and ent: "\<And>k a. M k = Some a \<longleftrightarrow> entry s t k a" unfolding is_table_def by blast
  have ia: "h_table_head i = Some t" "h_key i = k"
    using is_table_mem [OF M] i by (metis option.inject)+
  then have "a \<in> set (concat cs)" using rep(1) i unfolding table_rep_def by blast
  from s_remove_spec [OF rep(1) this i] obtain s' tab' cs' where s': "s_ipr_hash_table_remove a s = Some (Inr s')"
    "table_rep s' t tab' cs'" "t_max_items tab' = t_max_items tab" "t_zombie tab' = t_zombie tab"
    "t_nbr_items tab' = t_nbr_items tab - 1" "hash_at s' a = Some (cleared i)"
    "faces s' = (faces s)(a \<mapsto> face (cleared i))" "elsewhere_same t s s'" by blast
  have "(M(k := None)) k' = Some b \<longleftrightarrow> entry s' t k' b" for k' b
  proof -
    have e: "entry s' t k' b \<longleftrightarrow> b \<noteq> a \<and> entry s t k' b"
    proof (cases "b = a")
      case False
      then have "faces s' b = faces s b" using s'(7) by simp
      then show ?thesis using False by (simp add: entry_by_face)
    qed (simp add: entry_def s'(6) cleared_def)
    show ?thesis
    proof (cases "k' = k")
      case True
      have "b = a" if "entry s t k b" using that ent M(2) by (metis option.inject)
      with True e show ?thesis by auto
    next
      case False
      have "\<not> entry s t k' a" using False i ia(2) by (simp add: entry_def)
      with False e ent [of k' b] show ?thesis by (cases "b = a") simp_all
    qed
  qed
  moreover have "load_ok tab'" using rep(2) s'(3,5) by (simp add: load_ok_def)
  ultimately have "is_table s' t (M(k := None))"
    using s'(2,4) rep(3) unfolding is_table_def by blast
  with s' show ?thesis by blast
qed

lemma elsewhere_trans: "elsewhere_same t s s1 \<Longrightarrow> elsewhere_same t s1 s2 \<Longrightarrow> elsewhere_same t s s2"
  by (simp add: elsewhere_same_def)

text \<open>Giving up the link of the table after the item has left it.\<close>

lemma unlink_removed:
  assumes "is_table s t M" "hash_at s a = Some (cleared i)" "1 \<le> h_links i"
  shows "\<exists>s'. ipr_hash_unlink a s = Some (Inr s') \<and> is_table s' t M \<and> elsewhere_same t s s' \<and>
    faces s' = (faces s)(a := if h_links i = 1 then None else Some (face (cleared i\<lparr>h_links := h_links i - 1\<rparr>)))"
proof (cases "h_links i = 1")
  case True
  then have "ipr_hash_unlink a s = Some (Inr (freed_hash a s))"
    using hash_unlink_frees [OF assms(2)] by (simp add: cleared_def)
  moreover have "is_table (freed_hash a s) t M"
    by (rule is_table_outside [OF assms(1), of a]) (use assms(2) in \<open>auto simp: freed_hash_def cleared_def\<close>)
  ultimately show ?thesis
    using True by (auto simp: freed_hash_def elsewhere_same_def faces_def fun_eq_iff)
next
  case False
  let ?i = "cleared i\<lparr>h_links := h_links i - 1\<rparr>"
  have "ipr_hash_unlink a s = Some (Inr (put_hash a ?i s))"
    using hash_unlink_keeps [OF assms(2)] False assms(3) by (simp add: ipr_hash_unlink_def cleared_def)
  moreover have "is_table (put_hash a ?i s) t M"
    by (rule is_table_outside [OF assms(1), of a]) (use assms(2) in \<open>auto simp: put_hash_def cleared_def\<close>)
  ultimately show ?thesis
    using False by (auto simp: put_hash_def elsewhere_same_def faces_def fun_eq_iff)
qed

lemma table_remove_spec:
  assumes M: "is_table s t M" "M k = Some a" and i: "hash_at s a = Some i"
  shows "\<exists>s'. ipr_hash_table_remove a s = Some (Inr s') \<and> is_table s' t (M(k := None)) \<and> elsewhere_same t s s' \<and>
    faces s' = (faces s)(a := if h_links i = 1 then None else Some (face (cleared i\<lparr>h_links := h_links i - 1\<rparr>)))"
proof -
  have ia: "h_table_head i = Some t" "1 \<le> h_links i" using is_table_mem [OF M] i by (metis option.inject)+
  from remove_entry [OF M i] obtain s1 where s1: "s_ipr_hash_table_remove a s = Some (Inr s1)"
    "is_table s1 t (M(k := None))" "hash_at s1 a = Some (cleared i)" "faces s1 = (faces s)(a \<mapsto> face (cleared i))"
    "elsewhere_same t s s1" by blast
  from unlink_removed [OF s1(2,3) ia(2)] obtain s2 where s2: "ipr_hash_unlink a s1 = Some (Inr s2)"
    "is_table s2 t (M(k := None))" "elsewhere_same t s1 s2"
    "faces s2 = (faces s1)(a := if h_links i = 1 then None else Some (face (cleared i\<lparr>h_links := h_links i - 1\<rparr>)))" by blast
  have "ipr_hash_table_remove a s = Some (Inr s2)"
    using s1(1) s2(1) i ia(1) by (simp add: ipr_hash_table_remove_def hash_remove_with_def get_hash_def)
  with s1 s2 elsewhere_trans show ?thesis by (auto simp del: fun_upd_apply)
qed

section \<open>Insertion\<close>

lemma table_insert_spec:
  assumes M: "is_table s t M" and p: "hash_at s p = Some i" "h_table_head i = None" "1 \<le> h_links i"
    and key: "length key \<le> 255"
  shows "\<exists>s'. ipr_hash_table_insert t key p s = Some (Inr (if M key = None then 0 else - 1, s')) \<and> elsewhere_same t s s' \<and>
    (if M key = None
     then is_table s' t (M(key \<mapsto> p)) \<and>
          faces s' = (faces s)(p \<mapsto> (face i)\<lparr>h_table_head := Some t, h_key := key, h_links := h_links i + 1\<rparr>)
     else is_table s' t M \<and> faces s' = faces s)"
proof -
  from M obtain tab where tab: "get_table t s = Inr tab" "\<not> t_zombie tab"
    unfolding is_table_def table_rep_def get_table_def by force
  have self: "get_hash p s = Inr i" using p by (simp add: get_hash_def)
  from s_insert_spec [OF M p(1) _ p(3) key] p(2) obtain s1 where
    s1: "s_ipr_hash_table_insert t (Some p) key s = Some (Inr (if M key = None then 0 else - 1, s1))" "elsewhere_same t s s1"
    and out: "if M key = None
      then is_table s1 t (M(key \<mapsto> p)) \<and> faces s1 = (faces s)(p \<mapsto> (face i)\<lparr>h_table_head := Some t, h_key := key\<rparr>)
      else is_table s1 t M \<and> faces s1 = faces s" by auto
  show ?thesis
  proof (cases "M key")
    case None
    with out have o: "is_table s1 t (M(key \<mapsto> p))" "faces s1 = (faces s)(p \<mapsto> (face i)\<lparr>h_table_head := Some t, h_key := key\<rparr>)"
      by simp_all
    from fun_cong [OF o(2), of p] obtain i1 where i1: "hash_at s1 p = Some i1"
      "face i1 = (face i)\<lparr>h_table_head := Some t, h_key := key\<rparr>" by (auto simp: faces_def)
    have head: "h_table_head i1 = Some t" "h_links i1 = h_links i"
      using arg_cong [OF i1(2), of h_table_head] arg_cong [OF i1(2), of h_links] by simp_all
    let ?s = "put_hash p (i1\<lparr>h_links := h_links i1 + 1\<rparr>) s1"
    have "ipr_hash_table_insert t key p s = Some (Inr (0, ?s))"
      using tab self s1(1) None p(2) i1(1) head(1)
      by (simp add: ipr_hash_table_insert_def ipr_hash_link_def mod_hash_def get_hash_def)
    moreover have "is_table ?s t (M(key \<mapsto> p))"
      using is_table_links [OF o(1) i1(1)] by simp
    moreover have "faces ?s = (faces s1)(p \<mapsto> (face i1)\<lparr>h_links := h_links i1 + 1\<rparr>)"
      by (auto simp: faces_def put_hash_def face_def)
    moreover have "elsewhere_same t s ?s"
      using s1(2) by (simp add: elsewhere_same_def put_hash_def)
    ultimately show ?thesis using None o(2) i1(2) head(2) by (auto simp del: fun_upd_apply)
  next
    case (Some a)
    with out have o: "is_table s1 t M" "faces s1 = faces s" by simp_all
    from p(1) o(2) obtain i1 where i1: "hash_at s1 p = Some i1" "face i1 = face i" by (metis faces_SomeD)
    then have "h_table_head i1 = None" using p(2) by (metis face_simps(1))
    then have "ipr_hash_table_insert t key p s = Some (Inr (- 1, s1))"
      using tab self s1(1) Some p(2) i1(1) by (simp add: ipr_hash_table_insert_def get_hash_def)
    with Some o s1(2) show ?thesis by simp
  qed
qed

section \<open>A new table\<close>

definition fresh_heap :: "hash_heap \<Rightarrow> bool" where
  "fresh_heap s \<longleftrightarrow> (\<forall>a\<ge>hash_free s. hash_at s a = None) \<and> (\<forall>a i. hash_at s a = Some i \<longrightarrow> h_table_head i \<noteq> Some (hash_free s))"

lemma table_new_spec:
  assumes "fresh_heap s"
  shows "is_table (snd (ipr_hash_table_new s)) (fst (ipr_hash_table_new s)) Map.empty"
proof -
  let ?t = "hash_free s" and ?s = "snd (ipr_hash_table_new s)"
  let ?tab = "\<lparr>t_links = 1, t_zombie = False, t_nbr_items = 0, t_max_items = IPR_HASH_TABLE_INITIAL_SIZE,
    t_table_items = replicate IPR_HASH_TABLE_INITIAL_SIZE None\<rparr>"
  have at: "hash_at ?s = hash_at s" "table_at ?s ?t = Some ?tab"
    by (simp_all add: ipr_hash_table_new_def put_table_def)
  have "list_all2 (chain (hash_at s)) (replicate 255 None) (replicate 255 [])"
    by (simp add: list_all2_conv_all_nth)
  then have "table_rep ?s ?t ?tab (replicate 255 [])"
    using at assms by (auto simp: table_rep_def IPR_HASH_TABLE_INITIAL_SIZE_def fresh_heap_def)
  moreover have "\<not> entry ?s ?t k a" for k a
    using at assms by (auto simp: entry_def fresh_heap_def)
  ultimately show ?thesis
    unfolding is_table_def by (auto simp: ipr_hash_table_new_def load_ok_def)
qed

text \<open>
  C11. The hash table is a map.  On a table that stands for a map from keys to items, searching a key
  returns its item with a link taken, or null; inserting an item that is in no table under a key of at
  most 255 characters adds it with a link taken, or returns -1 and adds nothing if the key is there;
  removing an item takes out its key.  In each case the loops end, nothing outside the blocks is
  accessed, the result stands for the new map again, also when the table had to grow, and no other
  table changes.
\<close>

theorem hash_table_refines_map:
  assumes "is_table s t M"
  shows "(\<exists>s'. ipr_hash_table_search t (Some k) s = Some (Inr (M k, s')) \<and> is_table s' t M \<and> elsewhere_same t s s') \<and>
    (hash_at s p = Some i \<and> h_table_head i = None \<and> 1 \<le> h_links i \<and> length k \<le> 255 \<longrightarrow>
      (\<exists>s'. ipr_hash_table_insert t k p s = Some (Inr (if M k = None then 0 else - 1, s')) \<and>
         is_table s' t (if M k = None then M(k \<mapsto> p) else M) \<and> elsewhere_same t s s')) \<and>
    (M k = Some a \<longrightarrow> (\<exists>s'. ipr_hash_table_remove a s = Some (Inr s') \<and> is_table s' t (M(k := None)) \<and> elsewhere_same t s s'))"
proof (intro conjI impI)
  show "\<exists>s'. ipr_hash_table_search t (Some k) s = Some (Inr (M k, s')) \<and> is_table s' t M \<and> elsewhere_same t s s'"
  proof (cases "M k")
    case (Some a)
    with assms obtain i where "hash_at s a = Some i" by (rule is_table_mem)
    then show ?thesis
      using search_spec [OF assms, of k] is_table_links [OF assms, of a i "h_links i + 1"] Some
      by (simp add: elsewhere_same_def put_hash_def)
  qed (use search_spec [OF assms, of k] assms in \<open>simp add: elsewhere_same_def\<close>)
  assume "hash_at s p = Some i \<and> h_table_head i = None \<and> 1 \<le> h_links i \<and> length k \<le> 255"
  with table_insert_spec [OF assms, of p i k]
  show "\<exists>s'. ipr_hash_table_insert t k p s = Some (Inr (if M k = None then 0 else - 1, s')) \<and>
      is_table s' t (if M k = None then M(k \<mapsto> p) else M) \<and> elsewhere_same t s s'"
    by (auto simp del: fun_upd_apply split: if_splits)
next
  assume "M k = Some a"
  moreover from is_table_mem [OF assms this] obtain i where "hash_at s a = Some i" by blast
  ultimately show "\<exists>s'. ipr_hash_table_remove a s = Some (Inr s') \<and> is_table s' t (M(k := None)) \<and> elsewhere_same t s s'"
    using table_remove_spec [OF assms] by blast
qed

definition empty_hash_heap :: hash_heap where
  "empty_hash_heap = \<lparr>hash_at = Map.empty, table_at = Map.empty, hash_free = 1\<rparr>"

theorem hash_table_refines_map_witness:
  "\<exists>s'. ipr_hash_table_search 1 (Some ''queue'') (snd (ipr_hash_table_new empty_hash_heap)) = Some (Inr (None, s')) \<and>
     is_table s' 1 Map.empty"
  using hash_table_refines_map [OF table_new_spec [of empty_hash_heap], of "''queue''"]
  by (auto simp: empty_hash_heap_def fresh_heap_def ipr_hash_table_new_def)

section \<open>Destroying an item\<close>

lemma destroy_spec:
  assumes M: "is_table s t M" "M k = Some a" and i: "hash_at s a = Some i" "h_links i = 2" "\<not> h_zombie i"
  shows "\<exists>s'. ipr_hash_destroy a s = Some (Inr s') \<and> is_table s' t (M(k := None)) \<and> elsewhere_same t s s' \<and>
    faces s' = (faces s)(a := None)"
proof -
  let ?i = "i\<lparr>h_zombie := True\<rparr>" and ?s = "put_hash a (i\<lparr>h_zombie := True\<rparr>) s"
  have "i\<lparr>h_links := 2, h_zombie := True\<rparr> = ?i" using i(2) by (cases i) simp
  with is_table_same_place [OF M(1) i(1), of 2 True] have z: "is_table ?s t M" by simp
  have at: "hash_at ?s a = Some ?i" by (simp add: put_hash_def)
  have head: "h_table_head i = Some t" using is_table_mem [OF M] i by (metis option.inject)
  from remove_entry [OF z M(2) at] obtain s1 where s1: "s_ipr_hash_table_remove a ?s = Some (Inr s1)"
    "is_table s1 t (M(k := None))" "hash_at s1 a = Some (cleared ?i)" "faces s1 = (faces ?s)(a \<mapsto> face (cleared ?i))"
    "elsewhere_same t ?s s1" by blast
  let ?s2 = "put_hash a (cleared ?i\<lparr>h_links := 1\<rparr>) s1"
  have "hash_unlink_with (\<lambda>_ _. Some (Inl Assert_Failed)) a s1 = Some (Inr ?s2)"
    using hash_unlink_keeps [OF s1(3)] i(2) by (simp add: cleared_def)
  then have "ipr_hash_annihilate a ?s = Some (Inr ?s2)"
    using s1(1) at head by (simp add: ipr_hash_annihilate_def hash_remove_with_def get_hash_def)
  then have "ipr_hash_destroy a s = Some (Inr (freed_hash a ?s2))"
    using i by (simp add: ipr_hash_destroy_def get_hash_def put_hash_def ipr_hash_free_def freed_hash_def Let_def)
  moreover have "is_table (freed_hash a ?s2) t (M(k := None))"
    by (rule is_table_outside [OF s1(2), of a]) (use s1(3) in \<open>auto simp: freed_hash_def put_hash_def cleared_def\<close>)
  moreover have "faces (freed_hash a ?s2) = (faces s)(a := None)"
  proof
    fix b show "faces (freed_hash a ?s2) b = ((faces s)(a := None)) b"
      using fun_cong [OF s1(4), of b] by (auto simp: faces_def freed_hash_def put_hash_def split: if_splits)
  qed
  moreover have "elsewhere_same t s (freed_hash a ?s2)"
    using s1(5) by (simp add: elsewhere_same_def freed_hash_def put_hash_def)
  ultimately show ?thesis by blast
qed

end
