(* ===== verification/Ipr_Hash_Store.thy ===== *)
theory Ipr_Hash_Store
  imports Ipr_Hash_Properties
begin

text \<open>
  The store of data by key that \<^verbatim>\<open>ipr_hash_insert\<close>, \<^verbatim>\<open>ipr_hash_lookup\<close> and \<^verbatim>\<open>ipr_hash_delete\<close> offer, as
  an interface, its consequence for sequences of calls, and the proof that the hash table provides it.
\<close>

section \<open>The interface\<close>

datatype 'd store_op = Put string 'd | Del string

text \<open>A sequence of calls, on the implementation and on a map.\<close>

fun run_ops :: "(string \<Rightarrow> 'd \<Rightarrow> 'h \<Rightarrow> 'h c_result option) \<Rightarrow> (string \<Rightarrow> 'h \<Rightarrow> 'h c_result option) \<Rightarrow>
    'd store_op list \<Rightarrow> 'h \<Rightarrow> 'h c_result option" where
  "run_ops ins del [] h = Some (Inr h)"
| "run_ops ins del (Put k d # ops) h = l_bind (ins k d h) (run_ops ins del ops)"
| "run_ops ins del (Del k # ops) h = l_bind (del k h) (run_ops ins del ops)"

fun map_ops :: "'d store_op list \<Rightarrow> (string \<rightharpoonup> 'd) \<Rightarrow> (string \<rightharpoonup> 'd)" where
  "map_ops [] D = D"
| "map_ops (Put k d # ops) D = map_ops ops (D(k \<mapsto> d))"
| "map_ops (Del k # ops) D = map_ops ops (D(k := None))"

text \<open>A caller puts only new keys of legal length and deletes only keys that are there.\<close>

fun legal_ops :: "(string \<Rightarrow> bool) \<Rightarrow> 'd store_op list \<Rightarrow> (string \<rightharpoonup> 'd) \<Rightarrow> bool" where
  "legal_ops ok [] D \<longleftrightarrow> True"
| "legal_ops ok (Put k d # ops) D \<longleftrightarrow> ok k \<and> D k = None \<and> legal_ops ok ops (D(k \<mapsto> d))"
| "legal_ops ok (Del k # ops) D \<longleftrightarrow> D k \<noteq> None \<and> legal_ops ok ops (D(k := None))"

locale keyed_store =
  fixes ins :: "string \<Rightarrow> 'd \<Rightarrow> 'h \<Rightarrow> 'h c_result option"
    and look :: "string \<Rightarrow> 'h \<Rightarrow> ('d option \<times> 'h) c_result option"
    and del :: "string \<Rightarrow> 'h \<Rightarrow> 'h c_result option"
    and holds :: "'h \<Rightarrow> (string \<rightharpoonup> 'd) \<Rightarrow> bool"
    and ok :: "string \<Rightarrow> bool"
  assumes ins_new: "holds h D \<Longrightarrow> D k = None \<Longrightarrow> ok k \<Longrightarrow> \<exists>h'. ins k d h = Some (Inr h') \<and> holds h' (D(k \<mapsto> d))"
    and ins_old: "holds h D \<Longrightarrow> D k \<noteq> None \<Longrightarrow> ins k d h = Some (Inl Assert_Failed)"
    and look_up: "holds h D \<Longrightarrow> look k h = Some (Inr (D k, h))"
    and del_old: "holds h D \<Longrightarrow> D k \<noteq> None \<Longrightarrow> \<exists>h'. del k h = Some (Inr h') \<and> holds h' (D(k := None))"
    and del_new: "holds h D \<Longrightarrow> D k = None \<Longrightarrow> del k h = Some (Inl Assert_Failed)"
begin

lemma run_legal:
  "holds h D \<Longrightarrow> legal_ops ok ops D \<Longrightarrow> \<exists>h'. run_ops ins del ops h = Some (Inr h') \<and> holds h' (map_ops ops D)"
proof (induction ops D arbitrary: h rule: map_ops.induct)
  case (2 k d ops D)
  with ins_new [of h D k d] obtain h1 where "ins k d h = Some (Inr h1)" "holds h1 (D(k \<mapsto> d))" by auto
  with 2 show ?case by (simp del: fun_upd_apply)
next
  case (3 k ops D)
  with del_old [of h D k] obtain h1 where "del k h = Some (Inr h1)" "holds h1 (D(k := None))" by auto
  with 3 show ?case by (simp del: fun_upd_apply)
qed simp

text \<open>A call that is not legal stops the program.\<close>

lemma run_illegal:
  "holds h D \<Longrightarrow> legal_ops ok ops D \<Longrightarrow> map_ops ops D k \<noteq> None \<Longrightarrow>
   run_ops ins del (ops @ [Put k d]) h = Some (Inl Assert_Failed)"
proof (induction ops D arbitrary: h rule: map_ops.induct)
  case (1 D)
  then show ?case by (simp add: ins_old)
next
  case (2 k' d' ops D)
  with ins_new [of h D k' d'] obtain h1 where "ins k' d' h = Some (Inr h1)" "holds h1 (D(k' \<mapsto> d'))" by auto
  with 2 show ?case by (simp del: fun_upd_apply)
next
  case (3 k' ops D)
  with del_old [of h D k'] obtain h1 where "del k' h = Some (Inr h1)" "holds h1 (D(k' := None))" by auto
  with 3 show ?case by (simp del: fun_upd_apply)
qed

lemma run_then_look:
  assumes "holds h D" "legal_ops ok ops D"
  shows "\<exists>h'. run_ops ins del ops h = Some (Inr h') \<and> look k h' = Some (Inr (map_ops ops D k, h'))"
  using run_legal [OF assms] look_up by blast

end

section \<open>The hash table as a store\<close>

definition stores :: "nat \<Rightarrow> hash_heap \<Rightarrow> (string \<rightharpoonup> nat) \<Rightarrow> bool" where
  "stores t s D \<longleftrightarrow> (\<exists>M. is_table s t M \<and> (\<forall>k. M k = None \<longleftrightarrow> D k = None) \<and> (\<forall>a\<ge>hash_free s. hash_at s a = None) \<and>
     (\<forall>k a. M k = Some a \<longrightarrow> (\<exists>f. faces s a = Some f \<and> h_data f = D k \<and> h_links f = 1 \<and> \<not> h_zombie f)))"

lemma put_hash_twice [simp]: "put_hash a j (put_hash a i s) = put_hash a j s"
  by (simp add: put_hash_def)

lemma put_hash_same: "hash_at s a = Some i \<Longrightarrow> put_hash a i s = s"
  by (cases s) (simp add: put_hash_def fun_upd_idem)

lemma stores_item:
  assumes "is_table s t M" "M k = Some a" "faces s a = Some f" "h_data f = D k" "h_links f = 1" "\<not> h_zombie f"
  obtains i where "hash_at s a = Some i" "h_data i = D k" "h_links i = 1" "\<not> h_zombie i"
  using assms by (auto simp: faces_def)

lemma store_lookup:
  assumes "stores t s D"
  shows "ipr_hash_lookup t k s = Some (Inr (D k, s))"
proof -
  from assms obtain M where M: "is_table s t M" "\<And>k. M k = None \<longleftrightarrow> D k = None"
    "\<And>k a. M k = Some a \<Longrightarrow> \<exists>f. faces s a = Some f \<and> h_data f = D k \<and> h_links f = 1 \<and> \<not> h_zombie f"
    unfolding stores_def by blast
  show ?thesis
  proof (cases "M k")
    case None
    then show ?thesis using M(2) [of k] search_spec [OF M(1), of k] by (simp add: ipr_hash_lookup_def)
  next
    case (Some a)
    from M(3) [OF Some] obtain i where i: "hash_at s a = Some i" "h_data i = D k" "h_links i = 1" by (auto simp: faces_def)
    let ?s = "put_hash a (i\<lparr>h_links := Suc (Suc 0)\<rparr>) s"
    have "hash_at ?s a = Some (i\<lparr>h_links := Suc (Suc 0)\<rparr>)" by (simp add: put_hash_def)
    from hash_unlink_keeps [OF this] have "ipr_hash_unlink a ?s = Some (Inr (put_hash a (i\<lparr>h_links := 1\<rparr>) s))"
      by (simp add: ipr_hash_unlink_def)
    moreover have "i\<lparr>h_links := 1\<rparr> = i" using i(3) by (cases i) simp
    ultimately have "ipr_hash_unlink a ?s = Some (Inr s)" using put_hash_same [OF i(1)] by simp
    moreover have "ipr_hash_table_search t (Some k) s = Some (Inr (Some a, ?s))"
      using search_spec [OF M(1), of k] Some i by simp
    ultimately show ?thesis using i(2) by (simp add: ipr_hash_lookup_def get_hash_def put_hash_def)
  qed
qed

lemma store_search_old:
  assumes "stores t s D" "D k \<noteq> None"
  shows "\<exists>a s'. ipr_hash_table_search t (Some k) s = Some (Inr (Some a, s'))"
proof -
  from assms obtain M a where "is_table s t M" "M k = Some a" unfolding stores_def by (metis not_None_eq)
  with search_spec [of s t M k] show ?thesis by simp
qed

lemma store_search_new:
  assumes "stores t s D" "D k = None"
  shows "ipr_hash_table_search t (Some k) s = Some (Inr (None, s))"
proof -
  from assms obtain M where "is_table s t M" "M k = None" unfolding stores_def by blast
  with search_spec [of s t M k] show ?thesis by simp
qed

lemma store_insert_old: "stores t s D \<Longrightarrow> D k \<noteq> None \<Longrightarrow> ipr_hash_insert t k d s = Some (Inl Assert_Failed)"
  using store_search_old [of t s D k] by (auto simp: ipr_hash_insert_def)

lemma store_delete_new: "stores t s D \<Longrightarrow> D k = None \<Longrightarrow> ipr_hash_delete t k s = Some (Inl Assert_Failed)"
  using store_search_new [of t s D k] by (simp add: ipr_hash_delete_def)

lemma store_delete:
  assumes "stores t s D" "D k \<noteq> None"
  shows "\<exists>s'. ipr_hash_delete t k s = Some (Inr s') \<and> stores t s' (D(k := None))"
proof -
  from assms obtain M where M: "is_table s t M" "\<And>k. M k = None \<longleftrightarrow> D k = None" "\<forall>a\<ge>hash_free s. hash_at s a = None"
    "\<And>k a. M k = Some a \<Longrightarrow> \<exists>f. faces s a = Some f \<and> h_data f = D k \<and> h_links f = 1 \<and> \<not> h_zombie f"
    unfolding stores_def by blast
  obtain a where a: "M k = Some a" using assms(2) M(2) [of k] by auto
  from M(4) [OF a] obtain i where i: "hash_at s a = Some i" "h_links i = 1" "\<not> h_zombie i" by (auto simp: faces_def)
  let ?s = "put_hash a (i\<lparr>h_links := Suc (Suc 0)\<rparr>) s"
  have "is_table ?s t M" by (rule is_table_links [OF M(1) i(1)]) simp
  from destroy_spec [OF this a] i(3) obtain s' where s': "ipr_hash_destroy a ?s = Some (Inr s')"
    "is_table s' t (M(k := None))" "elsewhere_same t ?s s'" "faces s' = (faces ?s)(a := None)"
    by (auto simp: put_hash_def)
  have run: "ipr_hash_delete t k s = Some (Inr s')"
    using search_spec [OF M(1), of k] a i s'(1) by (simp add: ipr_hash_delete_def)
  have fc: "faces s' = (faces s)(a := None)" unfolding s'(4) by (auto simp: faces_def put_hash_def)
  have "hash_free s' = hash_free s" using s'(3) by (simp add: elsewhere_same_def put_hash_def)
  have "hash_at s' b = None" if "hash_free s' \<le> b" for b
    using fun_cong [OF fc, of b] M(3) that \<open>hash_free s' = hash_free s\<close> by (auto simp: faces_def split: if_splits)
  moreover have "\<exists>f. faces s' b = Some f \<and> h_data f = (D(k := None)) k' \<and> h_links f = 1 \<and> \<not> h_zombie f"
    if "(M(k := None)) k' = Some b" for k' b
  proof -
    have "k' \<noteq> k" "M k' = Some b" using that by (auto split: if_splits)
    moreover have "b \<noteq> a"
      using is_table_mem [OF M(1) \<open>M k' = Some b\<close>] is_table_mem [OF M(1) a] \<open>k' \<noteq> k\<close> by (metis option.inject)
    ultimately show ?thesis using M(4) [of k' b] fc by simp
  qed
  moreover have "(M(k := None)) k' = None \<longleftrightarrow> (D(k := None)) k' = None" for k' using M(2) by simp
  ultimately show ?thesis using run s'(2) unfolding stores_def by blast
qed

lemma hash_insert_run:
  assumes "ipr_hash_table_search t (Some k) s = Some (Inr (None, s))"
    "ipr_hash_table_insert t k (hash_free s) (put_hash (hash_free s)
       \<lparr>h_links = 1, h_zombie = False, h_table_head = None, h_table_next = None, h_table_index = 0, h_key = [], h_data = d\<rparr>
       (s\<lparr>hash_free := Suc (hash_free s)\<rparr>)) = Some (Inr (0, s1))"
  shows "ipr_hash_insert t k d s = ipr_hash_unlink (hash_free s) s1"
  using assms by (simp add: ipr_hash_insert_def ipr_hash_new_def Let_def)

lemma store_insert:
  assumes "stores t s D" "D k = None" "length k \<le> 255"
  shows "\<exists>s'. ipr_hash_insert t k (Some d) s = Some (Inr s') \<and> stores t s' (D(k \<mapsto> d))"
proof -
  from assms obtain M where M: "is_table s t M" "\<And>k. M k = None \<longleftrightarrow> D k = None" "\<forall>a\<ge>hash_free s. hash_at s a = None"
    "\<And>k a. M k = Some a \<Longrightarrow> \<exists>f. faces s a = Some f \<and> h_data f = D k \<and> h_links f = 1 \<and> \<not> h_zombie f"
    unfolding stores_def by blast
  let ?p = "hash_free s"
  let ?i = "\<lparr>h_links = 1, h_zombie = False, h_table_head = None, h_table_next = None, h_table_index = 0, h_key = [], h_data = Some d\<rparr>"
  define s0 where "s0 = put_hash ?p ?i (s\<lparr>hash_free := Suc ?p\<rparr>)"
  have none: "hash_at s ?p = None" using M(3) by simp
  have "is_table s0 t M"
    by (rule is_table_outside [OF M(1), of ?p]) (use none in \<open>auto simp: s0_def put_hash_def\<close>)
  moreover have "hash_at s0 ?p = Some ?i" by (simp add: s0_def put_hash_def)
  moreover have Mk: "M k = None" using M(2) assms(2) by blast
  ultimately obtain s1 where s1: "ipr_hash_table_insert t k ?p s0 = Some (Inr (0, s1))" "elsewhere_same t s0 s1"
    "is_table s1 t (M(k \<mapsto> ?p))" "faces s1 = (faces s0)(?p \<mapsto> (face ?i)\<lparr>h_table_head := Some t, h_key := k, h_links := 2\<rparr>)"
    using table_insert_spec [of s0 t M ?p ?i k] assms(3) by (auto simp: numeral_2_eq_2 simp del: fun_upd_apply)
  from fun_cong [OF s1(4), of ?p] obtain i1 where i1: "hash_at s1 ?p = Some i1"
    "face i1 = (face ?i)\<lparr>h_table_head := Some t, h_key := k, h_links := 2\<rparr>" by (auto simp: faces_def)
  have l: "h_links i1 = 2" "h_data i1 = Some d" "\<not> h_zombie i1"
    using arg_cong [OF i1(2), of h_links] arg_cong [OF i1(2), of h_data] arg_cong [OF i1(2), of h_zombie] by simp_all
  let ?s2 = "put_hash ?p (i1\<lparr>h_links := 1\<rparr>) s1"
  have "ipr_hash_unlink ?p s1 = Some (Inr ?s2)"
    using hash_unlink_keeps [OF i1(1)] l(1) by (simp add: ipr_hash_unlink_def)
  then have run: "ipr_hash_insert t k (Some d) s = Some (Inr ?s2)"
    using hash_insert_run [OF store_search_new [OF assms(1,2)] s1(1) [unfolded s0_def]] by simp
  have new: "is_table ?s2 t (M(k \<mapsto> ?p))" by (rule is_table_links [OF s1(3) i1(1)]) simp
  have fc: "faces ?s2 b = faces s b" if "b \<noteq> ?p" for b
    using fun_cong [OF s1(4), of b] that by (simp add: faces_def put_hash_def s0_def)
  have "hash_free ?s2 = Suc ?p" using s1(2) by (simp add: elsewhere_same_def put_hash_def s0_def)
  then have "hash_at ?s2 b = None" if "hash_free ?s2 \<le> b" for b
    using fc [of b] M(3) that by (auto simp: faces_def)
  moreover have "\<exists>f. faces ?s2 b = Some f \<and> h_data f = (D(k \<mapsto> d)) k' \<and> h_links f = 1 \<and> \<not> h_zombie f"
    if b: "(M(k \<mapsto> ?p)) k' = Some b" for k' b
  proof (cases "k' = k")
    case True
    with b l show ?thesis by (simp add: faces_def put_hash_def)
  next
    case False
    with b M(4) [of k' b] obtain f where f: "faces s b = Some f" "h_data f = D k'" "h_links f = 1" "\<not> h_zombie f" by auto
    then have "b \<noteq> ?p" using none by (auto simp: faces_def)
    with f fc [of b] False show ?thesis by simp
  qed
  moreover have "(M(k \<mapsto> ?p)) k' = None \<longleftrightarrow> (D(k \<mapsto> d)) k' = None" for k' using M(2) by simp
  ultimately show ?thesis using run new unfolding stores_def by blast
qed

interpretation hash_store: keyed_store "\<lambda>k d. ipr_hash_insert t k (Some d)" "ipr_hash_lookup t" "ipr_hash_delete t"
    "stores t" "\<lambda>k. length k \<le> 255" for t
  by unfold_locales (simp_all add: store_insert store_insert_old store_lookup store_delete store_delete_new del: fun_upd_apply)

lemma stores_new:
  assumes "fresh_heap s"
  shows "stores (fst (ipr_hash_table_new s)) (snd (ipr_hash_table_new s)) Map.empty"
  using table_new_spec [OF assms] assms unfolding stores_def
  by (intro exI [of _ Map.empty]) (auto simp: ipr_hash_table_new_def put_table_def fresh_heap_def)

text \<open>
  C16. Whatever sequence of insertions of new keys and deletions of present keys is run on a new hash
  table, the run ends without failing, and a lookup then returns for every key exactly the datum the
  sequence leaves under it, or null, and leaves the table as it is.
\<close>

theorem hash_store_correct:
  assumes "fresh_heap s" "legal_ops (\<lambda>k. length k \<le> 255) ops Map.empty"
  shows "\<exists>s'. run_ops (\<lambda>k d. ipr_hash_insert (fst (ipr_hash_table_new s)) k (Some d)) (ipr_hash_delete (fst (ipr_hash_table_new s)))
       ops (snd (ipr_hash_table_new s)) = Some (Inr s') \<and>
     ipr_hash_lookup (fst (ipr_hash_table_new s)) k s' = Some (Inr (map_ops ops Map.empty k, s'))"
  by (rule hash_store.run_then_look [OF stores_new [OF assms(1)] assms(2)])

theorem hash_store_correct_witness:
  "\<exists>s'. run_ops (\<lambda>k d. ipr_hash_insert 1 k (Some d)) (ipr_hash_delete 1)
       [Put ''a'' 10, Put ''b'' 20, Del ''a''] (snd (ipr_hash_table_new empty_hash_heap)) = Some (Inr s') \<and>
     ipr_hash_lookup 1 ''b'' s' = Some (Inr (Some 20, s'))"
  using hash_store_correct [of empty_hash_heap "[Put ''a'' 10, Put ''b'' 20, Del ''a'']" "''b''"]
  by (simp add: empty_hash_heap_def fresh_heap_def ipr_hash_table_new_def)

section \<open>Misuse and long keys\<close>

text \<open>
  Inserting an item again into the table it is in, which the code provides for, ends in an access
  through a null pointer: giving up the link of the table clears the pointer to the item.
\<close>

theorem hash_reinsert_fails:
  assumes "is_table s t M" "M k = Some a"
  shows "ipr_hash_table_insert t key a s = Some (Inl Null_Pointer)"
proof -
  from is_table_mem [OF assms] obtain i where i: "hash_at s a = Some i" "h_table_head i = Some t" "1 \<le> h_links i" by blast
  from assms(1) obtain tab where tab: "get_table t s = Inr tab" "\<not> t_zombie tab"
    unfolding is_table_def table_rep_def get_table_def by force
  from remove_entry [OF assms i(1)] obtain s1 where s1: "s_ipr_hash_table_remove a s = Some (Inr s1)"
    "is_table s1 t (M(k := None))" "hash_at s1 a = Some (cleared i)" by blast
  from unlink_removed [OF s1(2,3) i(3)] obtain s2 where s2: "ipr_hash_unlink a s1 = Some (Inr s2)"
    "is_table s2 t (M(k := None))" by blast
  have "\<exists>r s3. s_ipr_hash_table_insert t None key s2 = Some (Inr (r, s3)) \<or> s_ipr_hash_table_insert t None key s2 = Some (Inl Null_Pointer)"
  proof -
    from s2(2) obtain tab2 cs where rep: "table_rep s2 t tab2 cs" "load_ok tab2"
      and ent: "\<And>k' b. (M(k := None)) k' = Some b \<longleftrightarrow> entry s2 t k' b" unfolding is_table_def by blast
    from grow_spec [OF rep] obtain tab3 s3 cs3 where g: "hash_table_grow t tab2 s2 = Some (Inr (tab3, s3))"
      "table_rep s3 t tab3 cs3" "faces s3 = faces s2" by blast
    have ent3: "(M(k := None)) k' = Some b \<longleftrightarrow> entry s3 t k' b" for k' b using ent entry_faces [OF g(3)] by simp
    have "get_table t s2 = Inr tab2" using rep(1) by (simp add: table_rep_def get_table_def)
    then show ?thesis
      using g(1) rep_slot(1) [OF g(2), of key] rep_key_search [OF g(2) ent3, of key] g(2)
      by (simp add: s_ipr_hash_table_insert_def table_rep_def Let_def split: option.splits)
  qed
  then show ?thesis
    using tab i(1,2) s1(1) s2(1) by (auto simp: ipr_hash_table_insert_def get_hash_def)
qed

theorem hash_reinsert_fails_witness:
  "\<exists>s a. run_ops (\<lambda>k d. ipr_hash_insert 1 k (Some d)) (ipr_hash_delete 1) [Put ''a'' 10]
       (snd (ipr_hash_table_new empty_hash_heap)) = Some (Inr s) \<and>
     ipr_hash_table_insert 1 ''b'' a s = Some (Inl Null_Pointer)"
proof -
  let ?h = "snd (ipr_hash_table_new empty_hash_heap)"
  have "fresh_heap empty_hash_heap" by (simp add: fresh_heap_def empty_hash_heap_def)
  then have "stores 1 ?h Map.empty"
    using stores_new [of empty_hash_heap] by (simp add: ipr_hash_table_new_def empty_hash_heap_def)
  from store_insert [OF this, of "''a''" 10] obtain s where s: "ipr_hash_insert 1 ''a'' (Some 10) ?h = Some (Inr s)"
    "stores 1 s [''a'' \<mapsto> 10]" by auto
  from s(2) obtain M a where "is_table s 1 M" "M ''a'' = Some a"
    unfolding stores_def by (metis fun_upd_same not_None_eq)
  from hash_reinsert_fails [OF this] s(1) show ?thesis by auto
qed

text \<open>
  A key of more than 255 characters is cut when it is stored but not when it is looked for: a datum
  put into a new table under such a key is not found under it.
\<close>

theorem hash_long_key_lost:
  assumes "fresh_heap s" "255 < length key"
  shows "\<exists>s'. ipr_hash_insert (fst (ipr_hash_table_new s)) key (Some d) (snd (ipr_hash_table_new s)) = Some (Inr s') \<and>
    ipr_hash_lookup (fst (ipr_hash_table_new s)) key s' = Some (Inr (None, s'))"
proof -
  let ?t = "fst (ipr_hash_table_new s)" and ?s = "snd (ipr_hash_table_new s)"
  define p where "p = hash_free ?s"
  define k where "k = s_key_hash key 255"
  define tab where "tab = \<lparr>t_links = 1, t_zombie = False, t_nbr_items = 0, t_max_items = 255, t_table_items = replicate 255 None\<rparr>"
  have k: "k < 255" by (simp add: k_def s_key_hash_def)
  have tab: "table_at ?s ?t = Some tab"
    by (simp add: ipr_hash_table_new_def put_table_def tab_def IPR_HASH_TABLE_INITIAL_SIZE_def)
  have search: "ipr_hash_table_search ?t (Some key) ?s = Some (Inr (None, ?s))"
    by (rule store_search_new [OF stores_new [OF assms(1)]]) simp
  let ?i = "\<lparr>h_links = 1, h_zombie = False, h_table_head = None, h_table_next = None, h_table_index = 0, h_key = [], h_data = Some d\<rparr>"
  let ?j = "?i\<lparr>h_table_head := Some ?t, h_table_index := k, h_key := take 255 key\<rparr>"
  let ?tab = "tab\<lparr>t_table_items := (replicate 255 None)[k := Some p], t_nbr_items := 1\<rparr>"
  define s0 where "s0 = put_hash p ?i (?s\<lparr>hash_free := Suc p\<rparr>)"
  define s1 where "s1 = put_table ?t ?tab (put_hash p ?j s0)"
  have cut: "fst (icl_shortstr_cpy (Some key)) = take 255 key"
    using assms(2) by (simp add: icl_shortstr_cpy_def shortstr_loop_take ICL_SHORTSTR_MAX_def Let_def)
  have at0: "hash_at s0 p = Some ?i" "table_at s0 ?t = Some tab"
    using tab by (simp_all add: s0_def put_hash_def)
  have grow: "hash_table_grow ?t tab s0 = Some (Inr (tab, s0))"
    by (simp add: hash_table_grow_def tab_def IPR_HASH_TABLE_LOAD_FACTOR_def)
  have slot: "slot_get tab k = Inr None" using k by (simp add: slot_get_def tab_def)
  have none: "key_search key None st = Some (Inr None)" for st by (subst key_search.simps) simp
  have max: "t_max_items tab = 255" by (simp add: tab_def)
  have "s_ipr_hash_table_insert ?t (Some p) key s0 = Some (Inr (0, s1))"
    unfolding s_ipr_hash_table_insert_def
    using at0 grow slot none max cut
    by (simp add: get_table_def k_def [symmetric] mod_hash_def get_hash_def s1_def)
      (simp add: tab_def)
  then have ins: "ipr_hash_table_insert ?t key p s0 = Some (Inr (0, put_hash p (?j\<lparr>h_links := 2\<rparr>) s1))"
    using at0 by (simp add: ipr_hash_table_insert_def get_table_def get_hash_def ipr_hash_link_def mod_hash_def s1_def
        put_hash_def put_table_def tab_def numeral_2_eq_2)
  let ?s2 = "put_hash p ?j s1"
  have "ipr_hash_unlink p (put_hash p (?j\<lparr>h_links := 2\<rparr>) s1) = Some (Inr ?s2)"
    using hash_unlink_keeps [of "put_hash p (?j\<lparr>h_links := 2\<rparr>) s1" p "?j\<lparr>h_links := 2\<rparr>"]
    by (simp add: ipr_hash_unlink_def put_hash_def)
  then have run: "ipr_hash_insert ?t key (Some d) ?s = Some (Inr ?s2)"
    using hash_insert_run [OF search ins [unfolded s0_def p_def]] unfolding p_def by simp
  have "key_search key (Some p) ?s2 = Some (Inr None)"
    using assms(2) none by (subst key_search.simps) (auto simp: get_hash_def put_hash_def)
  then have "ipr_hash_table_search ?t (Some key) ?s2 = Some (Inr (None, ?s2))"
    using k by (simp add: ipr_hash_table_search_def s_ipr_hash_table_lookup_def get_table_def slot_get_def s1_def
        put_hash_def put_table_def k_def [symmetric] tab_def)
  with run show ?thesis by (simp add: ipr_hash_lookup_def)
qed

theorem hash_long_key_lost_witness:
  "\<exists>s'. ipr_hash_insert 1 (replicate 300 CHR ''x'') (Some 5) (snd (ipr_hash_table_new empty_hash_heap)) = Some (Inr s') \<and>
     ipr_hash_lookup 1 (replicate 300 CHR ''x'') s' = Some (Inr (None, s'))"
  using hash_long_key_lost [of empty_hash_heap "replicate 300 CHR ''x''" 5]
  by (simp add: empty_hash_heap_def fresh_heap_def ipr_hash_table_new_def)

end
