(* ===== verification/Ipr_Hash_Destroy.thy ===== *)
theory Ipr_Hash_Destroy
  imports Ipr_Hash_Store
begin

text \<open>
  The operations on a whole hash table: destroying it, where every item leaves it and the items nobody
  else holds are freed, and applying a callback to every item.
\<close>

section \<open>Purging\<close>

definition let_go :: "ipr_hash option \<Rightarrow> ipr_hash option" where
  "let_go f = (case f of None \<Rightarrow> None
     | Some i \<Rightarrow> if h_links i = 1 then None
         else Some (i\<lparr>h_table_head := None, h_key := [], h_links := h_links i - 1\<rparr>))"

lemma chain_head: "chain m p xs \<Longrightarrow> p = (case xs of [] \<Rightarrow> None | a # _ \<Rightarrow> Some a)"
  by (cases xs) auto

lemma unlink_left:
  assumes "table_rep s t tab cs" "hash_at s a = Some (cleared i)" "1 \<le> h_links i" "a \<notin> set (concat cs)"
  shows "\<exists>s'. ipr_hash_unlink a s = Some (Inr s') \<and> table_rep s' t tab cs \<and> elsewhere_same t s s' \<and>
    faces s' = (faces s)(a := let_go (Some (face i)))"
proof (cases "h_links i = 1")
  case True
  then have "ipr_hash_unlink a s = Some (Inr (freed_hash a s))"
    using hash_unlink_frees [OF assms(2)] by (simp add: cleared_def)
  moreover have "table_rep (freed_hash a s) t tab cs"
    by (rule rep_outside [OF assms(1,4)]) (auto simp: freed_hash_def)
  ultimately show ?thesis
    using True by (auto simp: freed_hash_def elsewhere_same_def faces_def fun_eq_iff let_go_def)
next
  case False
  let ?i = "cleared i\<lparr>h_links := h_links i - 1\<rparr>"
  have "ipr_hash_unlink a s = Some (Inr (put_hash a ?i s))"
    using hash_unlink_keeps [OF assms(2)] False assms(3) by (simp add: ipr_hash_unlink_def cleared_def)
  moreover have "table_rep (put_hash a ?i s) t tab cs"
    by (rule rep_outside [OF assms(1,4)]) (auto simp: put_hash_def cleared_def)
  moreover have "face ?i = (face i)\<lparr>h_table_head := None, h_key := [], h_links := h_links i - 1\<rparr>"
    by (simp add: face_def cleared_def)
  ultimately show ?thesis
    using False by (auto simp: put_hash_def elsewhere_same_def faces_def fun_eq_iff let_go_def)
qed

definition dropped_all :: "nat set \<Rightarrow> hash_heap \<Rightarrow> hash_heap \<Rightarrow> bool" where
  "dropped_all X s s' \<longleftrightarrow> faces s' = (\<lambda>a. if a \<in> X then let_go (faces s a) else faces s a)"

lemma dropped_all_trans:
  "dropped_all X s s1 \<Longrightarrow> dropped_all Y s1 s2 \<Longrightarrow> X \<inter> Y = {} \<Longrightarrow> dropped_all (X \<union> Y) s s2"
  by (auto simp: dropped_all_def fun_eq_iff)

definition same_table :: "ipr_hash_table \<Rightarrow> ipr_hash_table \<Rightarrow> bool" where
  "same_table tab tab' \<longleftrightarrow> t_max_items tab' = t_max_items tab \<and> t_zombie tab' = t_zombie tab \<and> t_links tab' = t_links tab"

lemma purge_step:
  assumes rep: "table_rep s t tab cs" and j: "j < length cs" "cs ! j = a # xs"
  shows "\<exists>i s' tab'. get_hash a s = Inr i \<and> l_bind (s_ipr_hash_table_remove a s) (ipr_hash_unlink a) = Some (Inr s') \<and>
    table_rep s' t tab' (cs[j := xs]) \<and> h_table_next i = t_table_items tab' ! j \<and> same_table tab tab' \<and>
    elsewhere_same t s s' \<and> dropped_all {a} s s'"
proof -
  have mem: "a \<in> set (concat cs)" using j unfolding concat_mem by auto
  from rep_item [OF rep mem] obtain i where i: "hash_at s a = Some i" "a \<in> set (cs ! h_table_index i)"
    "h_table_index i < length cs" "1 \<le> h_links i" by metis
  then have idx: "h_table_index i = j" using rep_slot_unique [OF rep i(3,2) j(1)] j(2) by simp
  have rem: "remove1 a (cs ! j) = xs" using j(2) by simp
  from s_remove_spec [OF rep mem i(1)] obtain s1 tab1 where s1: "s_ipr_hash_table_remove a s = Some (Inr s1)"
    "table_rep s1 t tab1 (cs[j := xs])" "same_table tab tab1" "hash_at s1 a = Some (cleared i)"
    "faces s1 = (faces s)(a \<mapsto> face (cleared i))" "elsewhere_same t s s1"
    unfolding idx rem same_table_def by blast
  have out: "a \<notin> set (concat (cs[j := xs]))"
  proof
    assume "a \<in> set (concat (cs[j := xs]))"
    with s1(2) obtain i' where "hash_at s1 a = Some i'" "h_table_head i' = Some t" by (rule rep_item)
    with s1(4) show False by (simp add: cleared_def)
  qed
  from unlink_left [OF s1(2,4) i(4) out] obtain s2 where s2: "ipr_hash_unlink a s1 = Some (Inr s2)"
    "table_rep s2 t tab1 (cs[j := xs])" "elsewhere_same t s1 s2" "faces s2 = (faces s1)(a := let_go (Some (face i)))" by blast
  have "chain (hash_at s) (h_table_next i) xs"
  proof -
    have "chain (hash_at s) (t_table_items tab ! j) (a # xs)"
      using rep j by (auto simp: table_rep_def list_all2_conv_all_nth)
    with i(1) show ?thesis by auto
  qed
  moreover have "chain (hash_at s2) (t_table_items tab1 ! j) xs"
    using s2(2) j(1) by (auto simp: table_rep_def list_all2_conv_all_nth)
  ultimately have "h_table_next i = t_table_items tab1 ! j" by (metis chain_head)
  moreover have "dropped_all {a} s s2"
    unfolding dropped_all_def s2(4) s1(5) using i(1) by (auto simp: faces_def fun_eq_iff)
  ultimately show ?thesis
    using s1 s2 i(1) elsewhere_trans by (auto simp: get_hash_def)
qed

lemma same_table_trans: "same_table a b \<Longrightarrow> same_table b c \<Longrightarrow> same_table a c"
  by (simp add: same_table_def)

lemma purge_chain_spec:
  assumes "table_rep s t tab cs" "j < length cs" "cs ! j = xs" "distinct xs"
  shows "\<exists>s' tab'. purge_chain (t_table_items tab ! j) s = Some (Inr s') \<and> table_rep s' t tab' (cs[j := []]) \<and>
    same_table tab tab' \<and> elsewhere_same t s s' \<and> dropped_all (set xs) s s'"
  using assms
proof (induction xs arbitrary: s tab cs)
  case Nil
  then have "t_table_items tab ! j = None"
    using chain_head [of "hash_at s" "t_table_items tab ! j" "[]"] by (auto simp: table_rep_def list_all2_conv_all_nth)
  moreover have "cs[j := []] = cs" using Nil by (metis list_update_id)
  ultimately show ?case
    using Nil(1) by (subst purge_chain.simps) (auto simp: same_table_def elsewhere_same_def dropped_all_def)
next
  case (Cons a xs)
  from purge_step [OF Cons.prems(1,2,3)] obtain i s1 tab1 where s1: "get_hash a s = Inr i"
    "l_bind (s_ipr_hash_table_remove a s) (ipr_hash_unlink a) = Some (Inr s1)" "table_rep s1 t tab1 (cs[j := xs])"
    "h_table_next i = t_table_items tab1 ! j" "same_table tab tab1" "elsewhere_same t s s1" "dropped_all {a} s s1" by blast
  from Cons.IH [OF s1(3)] Cons.prems obtain s2 tab2 where s2: "purge_chain (t_table_items tab1 ! j) s1 = Some (Inr s2)"
    "table_rep s2 t tab2 (cs[j := []])" "same_table tab1 tab2" "elsewhere_same t s1 s2" "dropped_all (set xs) s1 s2" by auto
  have "t_table_items tab ! j = Some a"
    using Cons.prems chain_head [of "hash_at s" "t_table_items tab ! j" "a # xs"] by (auto simp: table_rep_def list_all2_conv_all_nth)
  then have "purge_chain (t_table_items tab ! j) s = Some (Inr s2)"
    using s1(1,2,4) s2(1) by (subst purge_chain.simps) simp
  moreover have "dropped_all (set (a # xs)) s s2"
    using dropped_all_trans [OF s1(7) s2(5)] Cons.prems(4) by simp
  ultimately show ?case
    using s2(2) same_table_trans [OF s1(5) s2(3)] elsewhere_trans [OF s1(6) s2(4)] by blast
qed

lemma purge_slots_spec:
  assumes "table_rep s t tab cs" "j \<le> length cs" "\<forall>k<j. cs ! k = []"
  shows "\<exists>s' tab'. purge_slots t [j..<length cs] s = Some (Inr s') \<and> table_rep s' t tab' (replicate (length cs) []) \<and>
    same_table tab tab' \<and> elsewhere_same t s s' \<and> dropped_all (set (concat cs)) s s'"
  using assms
proof (induction "length cs - j" arbitrary: j s tab cs)
  case 0
  then have "cs = replicate (length cs) []" by (intro nth_equalityI) auto
  moreover have "concat (replicate n []) = []" for n by (induction n) auto
  ultimately have "concat cs = []" by metis
  with 0 \<open>cs = replicate (length cs) []\<close> show ?case
    by (intro exI [of _ s] exI [of _ tab]) (simp add: same_table_def elsewhere_same_def dropped_all_def)
next
  case (Suc n)
  then have j: "j < length cs" by simp
  have tab: "get_table t s = Inr tab" using Suc.prems by (simp add: table_rep_def get_table_def)
  have slot: "slot_get tab j = Inr (t_table_items tab ! j)"
    using Suc.prems(1) j by (auto simp: slot_get_def table_rep_def list_all2_lengthD)
  have dist: "distinct (concat cs)" using Suc.prems(1) by (simp add: table_rep_def)
  then have "distinct (cs ! j)" using j by (simp add: distinct_concat_iff)
  from purge_chain_spec [OF Suc.prems(1) j refl this] obtain s1 tab1 where s1:
    "purge_chain (t_table_items tab ! j) s = Some (Inr s1)" "table_rep s1 t tab1 (cs[j := []])" "same_table tab tab1"
    "elsewhere_same t s s1" "dropped_all (set (cs ! j)) s s1" by blast
  have ih: "n = length (cs[j := []]) - Suc j" "Suc j \<le> length (cs[j := []])" "\<forall>k<Suc j. cs[j := []] ! k = []"
    using Suc.hyps(2) Suc.prems(3) j by (auto simp: less_Suc_eq nth_list_update)
  from Suc.hyps(1) [OF ih(1) s1(2) ih(2,3)] obtain s2 tab2 where s2: "purge_slots t [Suc j..<length cs] s1 = Some (Inr s2)"
    "table_rep s2 t tab2 (replicate (length cs) [])" "same_table tab1 tab2" "elsewhere_same t s1 s2"
    "dropped_all (set (concat (cs[j := []]))) s1 s2" by auto
  have split: "mset (concat cs) = mset (cs ! j) + mset (concat (cs[j := []]))"
    using j by (induction cs arbitrary: j) (auto split: nat.splits)
  then have mem: "set (concat cs) = set (cs ! j) \<union> set (concat (cs[j := []]))"
    by (metis set_mset_mset set_mset_union)
  have "set (cs ! j) \<inter> set (concat (cs[j := []])) = {}"
  proof -
    have "mset (concat cs) = mset (cs ! j @ concat (cs[j := []]))" using split by simp
    with dist have "distinct (cs ! j @ concat (cs[j := []]))" by (metis mset_eq_imp_distinct_iff)
    then show ?thesis by simp
  qed
  from dropped_all_trans [OF s1(5) s2(5) this] have "dropped_all (set (concat cs)) s s2" unfolding mem .
  moreover have "purge_slots t [j..<length cs] s = Some (Inr s2)"
    using j tab slot s1(1) s2(1) by (simp add: upt_conv_Cons)
  ultimately show ?case
    using s2(2) same_table_trans [OF s1(3) s2(3)] elsewhere_trans [OF s1(4) s2(4)] by blast
qed

lemma rep_ran:
  assumes rep: "table_rep s t tab cs" and ent: "\<And>k a. M k = Some a \<longleftrightarrow> entry s t k a"
  shows "ran M = set (concat cs)"
proof (rule set_eqI)
  fix a show "a \<in> ran M \<longleftrightarrow> a \<in> set (concat cs)"
  proof
    assume "a \<in> ran M"
    then obtain k where "entry s t k a" using ent by (auto simp: ran_def)
    then show "a \<in> set (concat cs)" using rep unfolding entry_def table_rep_def by blast
  next
    assume "a \<in> set (concat cs)"
    with rep obtain i where "hash_at s a = Some i" "h_table_head i = Some t" by (rule rep_item)
    then show "a \<in> ran M" using ent by (auto simp: entry_def ran_def)
  qed
qed

text \<open>
  C21. Destroying a hash table ends without failing: every item it held has left it, with one link less,
  and is freed if the table was the last to hold it; every other item is as before; and the table itself
  is freed with its last link.
\<close>

theorem hash_table_destroy_releases:
  assumes "is_table s t M" "table_at s t = Some tab" "1 \<le> t_links tab"
  shows "\<exists>s'. ipr_hash_table_destroy t s = Some (Inr s') \<and> dropped_all (ran M) s s' \<and> (t_links tab = 1 \<longrightarrow> table_at s' t = None)"
proof -
  from assms(1) obtain tab0 cs where rep0: "table_rep s t tab0 cs" "\<not> t_zombie tab0"
    and ent: "\<And>k a. M k = Some a \<longleftrightarrow> entry s t k a" unfolding is_table_def by blast
  have "tab0 = tab" using rep0(1) assms(2) by (simp add: table_rep_def)
  with rep0 have rep: "table_rep s t tab cs" "\<not> t_zombie tab" by simp_all
  let ?tab = "tab\<lparr>t_zombie := True\<rparr>" and ?s = "put_table t (tab\<lparr>t_zombie := True\<rparr>) s"
  have "item_in ?s t n j a = item_in s t n j a" "key_at ?s = key_at s" for n j a
    by (simp_all add: item_in_def key_at_def put_table_def fun_eq_iff)
  with rep(1) have rep': "table_rep ?s t ?tab cs" by (simp add: table_rep_def) (simp add: put_table_def)
  from purge_slots_spec [OF rep', of 0] obtain s1 tab1 where s1: "purge_slots t [0..<length cs] ?s = Some (Inr s1)"
    "table_rep s1 t tab1 (replicate (length cs) [])" "same_table ?tab tab1" "dropped_all (set (concat cs)) ?s s1" by auto
  have "s_ipr_hash_table_purge t ?s = Some (Inr s1)"
    using s1(1) rep(1) by (simp add: s_ipr_hash_table_purge_def get_table_def put_table_def table_rep_def)
  moreover have "table_at s1 t = Some tab1" using s1(2) by (simp add: table_rep_def)
  moreover have "t_links tab1 = t_links tab" using s1(3) by (simp add: same_table_def)
  ultimately have run: "ipr_hash_table_destroy t s = Some (Inr (if t_links tab = 1 then s1\<lparr>table_at := (table_at s1)(t := None)\<rparr>
      else put_table t (tab1\<lparr>t_links := t_links tab - 1\<rparr>) s1))"
    using assms(2,3) rep(2) by (simp add: ipr_hash_table_destroy_def get_table_def Let_def)
  have "ran M = set (concat cs)" by (rule rep_ran [OF rep(1) ent])
  moreover have "faces ?s = faces s" by (simp add: faces_def put_table_def fun_eq_iff)
  moreover have "faces (s1\<lparr>table_at := x\<rparr>) = faces s1" "faces (put_table t y s1) = faces s1" for x y
    by (simp_all add: faces_def put_table_def fun_eq_iff)
  ultimately show ?thesis
    using run s1(4) by (auto simp: dropped_all_def)
qed

theorem hash_table_destroy_releases_witness:
  "\<exists>s'. ipr_hash_table_destroy 1 (snd (ipr_hash_table_new empty_hash_heap)) = Some (Inr s') \<and> table_at s' 1 = None"
proof -
  have "fresh_heap empty_hash_heap" by (simp add: fresh_heap_def empty_hash_heap_def)
  from hash_table_destroy_releases [OF table_new_spec [OF this]] show ?thesis
    by (simp add: ipr_hash_table_new_def empty_hash_heap_def put_table_def) blast
qed

section \<open>Visiting every item\<close>

lemma apply_chain_fold:
  "chain (hash_at s) p xs \<Longrightarrow> apply_chain (\<lambda>p arg s. Inr (f p arg, s)) p arg s = Some (Inr (fold f xs arg, s))"
proof (induction xs arbitrary: p arg)
  case (Cons a xs)
  then show ?case by (subst apply_chain.simps) (auto simp: get_hash_def)
qed (subst apply_chain.simps, simp)

lemma apply_slots_fold:
  assumes "table_rep s t tab cs" "set ks \<subseteq> {..<length cs}"
  shows "apply_slots (\<lambda>p arg s. Inr (f p arg, s)) t ks arg s = Some (Inr (fold f (concat (map ((!) cs) ks)) arg, s))"
  using assms(2)
proof (induction ks arbitrary: arg)
  case (Cons k ks)
  then have k: "k < length cs" by simp
  have "chain (hash_at s) (t_table_items tab ! k) (cs ! k)" "slot_get tab k = Inr (t_table_items tab ! k)"
    "get_table t s = Inr tab"
    using assms(1) k by (auto simp: table_rep_def slot_get_def get_table_def list_all2_conv_all_nth)
  with Cons show ?case by (simp add: apply_chain_fold)
qed simp

text \<open>
  C22. Applying a callback that leaves the table alone visits every item of the table exactly once.
\<close>

theorem hash_table_apply_visits:
  assumes "is_table s t M"
  shows "\<exists>xs. distinct xs \<and> set xs = ran M \<and>
    ipr_hash_table_apply (\<lambda>p arg s. Inr (f p arg, s)) t arg s = Some (Inr (fold f xs arg, s))"
proof -
  from assms obtain tab cs where rep: "table_rep s t tab cs" and ent: "\<And>k a. M k = Some a \<longleftrightarrow> entry s t k a"
    unfolding is_table_def by blast
  have "get_table t s = Inr tab" "t_max_items tab = length cs" "distinct (concat cs)"
    using rep by (simp_all add: table_rep_def get_table_def)
  then show ?thesis
    using apply_slots_fold [OF rep, of "[0..<length cs]" f arg] rep_ran [OF rep ent]
    by (auto simp: ipr_hash_table_apply_def map_nth atLeast0LessThan intro!: exI [of _ "concat cs"])
qed

theorem hash_table_apply_visits_witness:
  "\<exists>xs. distinct xs \<and> set xs = {} \<and>
    ipr_hash_table_apply (\<lambda>p arg s. Inr (arg + 1, s)) 1 (0 :: nat) (snd (ipr_hash_table_new empty_hash_heap)) =
      Some (Inr (fold (\<lambda>p arg. arg + 1) xs 0, snd (ipr_hash_table_new empty_hash_heap)))"
proof -
  have "fresh_heap empty_hash_heap" by (simp add: fresh_heap_def empty_hash_heap_def)
  from table_new_spec [OF this] have "is_table (snd (ipr_hash_table_new empty_hash_heap)) 1 Map.empty"
    by (simp add: ipr_hash_table_new_def empty_hash_heap_def)
  from hash_table_apply_visits [OF this, of "\<lambda>p arg. arg + 1 :: nat" 0] show ?thesis by simp
qed

end
