(* ===== verification/Asl_Object.thy ===== *)
theory Asl_Object
  imports Icl_Longstr
begin

text \<open>
  Objects with link counts and the doubly linked list that holds them, from the generated code of
  \<^verbatim>\<open>tooling/base2/asl/asl_field.c\<close> and \<^verbatim>\<open>asl_field_list.c\<close>: the instance, for AMQP fields, of the
  reference counting and of the list container that every iCL class of the broker shares.

  The heap maps addresses to objects.  The list object starts with an embedded field, the sentinel
  of its ring; the sentinel of the list at address \<open>l\<close> is the field at the same address \<open>l\<close>, so a
  pointer to the sentinel is the pointer to the list.  Freed memory is not in the map, and every
  access to it fails.  An operation that the code asserts against, or that hits freed memory, is a
  left value.  Link counts are natural numbers: reaching the limit of their 32 bits would take as
  many pointers in memory.
\<close>

section \<open>The heap\<close>

type_synonym addr = nat

record asl_field =
  links :: nat
  zombie :: bool
  list_head :: "addr option"
  list_prev :: addr
  list_next :: addr
  field_name :: "byte list"
  field_type :: byte
  decimals :: byte
  field_string :: "icl_longstr option"
  field_integer :: int

record asl_field_list =
  list_links :: nat
  list_zombie :: bool

record asl_heap =
  field_at :: "addr \<Rightarrow> asl_field option"
  list_at :: "addr \<Rightarrow> asl_field_list option"
  next_free :: addr

definition get_field :: "addr \<Rightarrow> asl_heap \<Rightarrow> asl_field c_result" where
  "get_field p s = (case field_at s p of None \<Rightarrow> Inl Dangling_Pointer | Some f \<Rightarrow> Inr f)"

definition get_list :: "addr \<Rightarrow> asl_heap \<Rightarrow> asl_field_list c_result" where
  "get_list l s = (case list_at s l of None \<Rightarrow> Inl Dangling_Pointer | Some f \<Rightarrow> Inr f)"

definition put_field :: "addr \<Rightarrow> asl_field \<Rightarrow> asl_heap \<Rightarrow> asl_heap" where
  "put_field p f s = s\<lparr>field_at := (field_at s)(p \<mapsto> f)\<rparr>"

definition mod_field :: "addr \<Rightarrow> (asl_field \<Rightarrow> asl_field) \<Rightarrow> asl_heap \<Rightarrow> asl_heap c_result" where
  "mod_field p g s = c_bind (get_field p s) (\<lambda>f. Inr (put_field p (g f) s))"

definition mod_list :: "addr \<Rightarrow> (asl_field_list \<Rightarrow> asl_field_list) \<Rightarrow> asl_heap \<Rightarrow> asl_heap c_result" where
  "mod_list l g s = c_bind (get_list l s) (\<lambda>f. Inr (s\<lparr>list_at := (list_at s)(l \<mapsto> g f)\<rparr>))"

section \<open>Pointers of the ring\<close>

definition asl_field_list_rehook :: "addr \<Rightarrow> addr \<Rightarrow> addr \<Rightarrow> asl_heap \<Rightarrow> asl_heap c_result" where
  "asl_field_list_rehook item left right s =
     c_bind (get_field left s) (\<lambda>l.
     c_bind (get_field item s) (\<lambda>i.
     c_bind (mod_field left (list_next_update (\<lambda>_. list_next i)) s) (\<lambda>s.
     c_bind (mod_field item (list_next_update (\<lambda>_. list_next l)) s) (\<lambda>s.
     c_bind (get_field item s) (\<lambda>i.
     c_bind (get_field right s) (\<lambda>r.
     c_bind (mod_field item (list_prev_update (\<lambda>_. list_prev r)) s) (\<lambda>s.
     c_bind (mod_field right (list_prev_update (\<lambda>_. list_prev i)) s) (\<lambda>s.
     c_bind (get_field left s) (\<lambda>l.
       mod_field item (list_head_update (\<lambda>_. list_head l)) s)))))))))"

definition asl_field_list_unhook :: "addr \<Rightarrow> asl_heap \<Rightarrow> asl_heap c_result" where
  "asl_field_list_unhook item s =
     c_bind (get_field item s) (\<lambda>i.
     c_bind (asl_field_list_rehook item (list_prev i) (list_next i) s) (\<lambda>s.
       mod_field item (list_head_update (\<lambda>_. None)) s))"

section \<open>Link counts and destruction\<close>

definition asl_field_new :: "asl_heap \<Rightarrow> addr \<times> asl_heap" where
  "asl_field_new s =
     (let p = next_free s in
      (p, put_field p \<lparr>links = 1, zombie = False, list_head = None, list_prev = p, list_next = p,
            field_name = [], field_type = 0, decimals = 0, field_string = None, field_integer = 0\<rparr>
          (s\<lparr>next_free := Suc p\<rparr>)))"

definition asl_field_free :: "addr \<Rightarrow> asl_heap \<Rightarrow> asl_heap c_result" where
  "asl_field_free p s = c_bind (get_field p s) (\<lambda>_. Inr (s\<lparr>field_at := (field_at s)(p := None)\<rparr>))"

definition asl_field_link :: "addr option \<Rightarrow> asl_heap \<Rightarrow> asl_heap c_result" where
  "asl_field_link self s =
     (case self of None \<Rightarrow> Inr s | Some p \<Rightarrow> mod_field p (links_update Suc) s)"

text \<open>
  Unlinking, removing from a list and annihilating call each other: the last link annihilates, which
  removes the object from its list, which unlinks.  That inner unlink finds the zombie flag already
  set and does not annihilate again, so the knot is tied by passing the annihilation as an argument
  and giving the inner call one that fails; \<open>asl_field_unlink_inner\<close> below shows that it is not
  reached.
\<close>

definition unlink_with :: "(addr \<Rightarrow> asl_heap \<Rightarrow> asl_heap c_result) \<Rightarrow> addr option \<Rightarrow> asl_heap \<Rightarrow> asl_heap c_result" where
  "unlink_with annihilate self s =
     (case self of
        None \<Rightarrow> Inr s
      | Some p \<Rightarrow>
          c_bind (get_field p s) (\<lambda>f.
          if links f = 0 then Inl Assert_Failed
          else
            c_bind (mod_field p (links_update (\<lambda>n. n - 1)) s) (\<lambda>s.
            if links f - 1 = 0 then
              c_bind (if zombie f then Inr s
                      else c_bind (mod_field p (zombie_update (\<lambda>_. True)) s) (annihilate p))
                (asl_field_free p)
            else Inr s)))"

definition list_remove_with :: "(addr option \<Rightarrow> asl_heap \<Rightarrow> asl_heap c_result) \<Rightarrow> addr \<Rightarrow> asl_heap \<Rightarrow> asl_heap c_result" where
  "list_remove_with unlink item s =
     c_bind (get_field item s) (\<lambda>i.
     case list_head i of
       None \<Rightarrow> Inr s
     | Some _ \<Rightarrow> c_bind (asl_field_list_unhook item s) (unlink (Some item)))"

definition asl_field_annihilate :: "addr \<Rightarrow> asl_heap \<Rightarrow> asl_heap c_result" where
  "asl_field_annihilate p s =
     c_bind (get_field p s) (\<lambda>_.
     c_bind (list_remove_with (unlink_with (\<lambda>_ _. Inl Assert_Failed)) p s)
       (mod_field p (field_string_update (\<lambda>_. None))))"

definition asl_field_unlink :: "addr option \<Rightarrow> asl_heap \<Rightarrow> asl_heap c_result" where
  "asl_field_unlink = unlink_with asl_field_annihilate"

definition asl_field_list_remove :: "addr \<Rightarrow> asl_heap \<Rightarrow> asl_heap c_result" where
  "asl_field_list_remove = list_remove_with asl_field_unlink"

definition asl_field_destroy :: "addr option \<Rightarrow> asl_heap \<Rightarrow> asl_heap c_result" where
  "asl_field_destroy self s =
     (case self of
        None \<Rightarrow> Inr s
      | Some p \<Rightarrow>
          c_bind (get_field p s) (\<lambda>f.
          c_bind (if zombie f then Inr s
                  else c_bind (mod_field p (zombie_update (\<lambda>_. True)) s) (asl_field_annihilate p)) (\<lambda>s.
          c_bind (get_field p s) (\<lambda>f.
          if links f = 0 then Inl Assert_Failed
          else
            c_bind (mod_field p (links_update (\<lambda>n. n - 1)) s) (\<lambda>s.
            if links f - 1 = 0 then asl_field_free p s else Inr s)))))"

section \<open>The list container\<close>

definition asl_field_list_isempty :: "addr \<Rightarrow> asl_heap \<Rightarrow> int c_result" where
  "asl_field_list_isempty l s =
     c_bind (get_list l s) (\<lambda>lo.
     if list_zombie lo then Inr (- 1)
     else c_bind (get_field l s) (\<lambda>n. Inr (if list_next n = l then 1 else 0)))"

text \<open>
  What \<^verbatim>\<open>push\<close>, \<^verbatim>\<open>queue\<close> and \<^verbatim>\<open>relink_before\<close> do first: take a link for an item that is in no list,
  refuse one that is in another list, and take the item out of its place.
\<close>

definition list_claim :: "addr \<Rightarrow> addr \<Rightarrow> asl_heap \<Rightarrow> asl_heap c_result" where
  "list_claim l item s =
     c_bind (get_field item s) (\<lambda>i.
     c_bind (case list_head i of
               None \<Rightarrow> asl_field_link (Some item) s
             | Some h \<Rightarrow> if h = l then Inr s else Inl Assert_Failed)
       (asl_field_list_unhook item))"

definition asl_field_list_push :: "addr \<Rightarrow> addr \<Rightarrow> asl_heap \<Rightarrow> (int \<times> asl_heap) c_result" where
  "asl_field_list_push l item s =
     c_bind (get_list l s) (\<lambda>lo.
     if list_zombie lo then Inr (- 1, s)
     else
       c_bind (list_claim l item s) (\<lambda>s.
       c_bind (get_field l s) (\<lambda>n.
       c_bind (asl_field_list_rehook item l (list_next n) s) (\<lambda>s. Inr (0, s)))))"

definition asl_field_list_queue :: "addr \<Rightarrow> addr \<Rightarrow> asl_heap \<Rightarrow> (int \<times> asl_heap) c_result" where
  "asl_field_list_queue l item s =
     c_bind (get_list l s) (\<lambda>lo.
     if list_zombie lo then Inr (- 1, s)
     else
       c_bind (list_claim l item s) (\<lambda>s.
       c_bind (get_field l s) (\<lambda>n.
       c_bind (asl_field_list_rehook item (list_prev n) l s) (\<lambda>s. Inr (0, s)))))"

definition asl_field_list_relink_before :: "addr \<Rightarrow> addr \<Rightarrow> asl_heap \<Rightarrow> (int \<times> asl_heap) c_result" where
  "asl_field_list_relink_before item there s =
     c_bind (get_field there s) (\<lambda>w.
     case list_head w of
       None \<Rightarrow> Inl Null_Pointer
     | Some l \<Rightarrow>
         c_bind (get_list l s) (\<lambda>lo.
         if list_zombie lo then Inr (- 1, s)
         else
           c_bind (list_claim l item s) (\<lambda>s.
           c_bind (get_field there s) (\<lambda>w.
           c_bind (asl_field_list_rehook item (list_prev w) there s) (\<lambda>s. Inr (0, s))))))"

definition asl_field_list_pop :: "addr \<Rightarrow> asl_heap \<Rightarrow> (addr option \<times> asl_heap) c_result" where
  "asl_field_list_pop l s =
     c_bind (get_list l s) (\<lambda>lo.
     if list_zombie lo then Inr (None, s)
     else
       c_bind (get_field l s) (\<lambda>n.
       if list_next n = l then Inr (None, s)
       else c_bind (asl_field_list_unhook (list_next n) s) (\<lambda>s. Inr (Some (list_next n), s))))"

definition asl_field_list_first :: "addr \<Rightarrow> asl_heap \<Rightarrow> (addr option \<times> asl_heap) c_result" where
  "asl_field_list_first l s =
     c_bind (get_list l s) (\<lambda>lo.
     if list_zombie lo then Inr (None, s)
     else
       c_bind (get_field l s) (\<lambda>n.
       if list_next n = l then Inr (None, s)
       else c_bind (asl_field_link (Some (list_next n)) s) (\<lambda>s. Inr (Some (list_next n), s))))"

definition asl_field_list_last :: "addr \<Rightarrow> asl_heap \<Rightarrow> (addr option \<times> asl_heap) c_result" where
  "asl_field_list_last l s =
     c_bind (get_list l s) (\<lambda>lo.
     if list_zombie lo then Inr (None, s)
     else
       c_bind (get_field l s) (\<lambda>n.
       if list_prev n = l then Inr (None, s)
       else c_bind (asl_field_link (Some (list_prev n)) s) (\<lambda>s. Inr (Some (list_prev n), s))))"

definition asl_field_list_next :: "addr \<Rightarrow> asl_heap \<Rightarrow> (addr option \<times> asl_heap) c_result" where
  "asl_field_list_next item s =
     c_bind (get_field item s) (\<lambda>i.
     let nxt = (case list_head i of None \<Rightarrow> None
                | Some l \<Rightarrow> if list_next i = l then None else Some (list_next i)) in
     c_bind (asl_field_link nxt s) (\<lambda>s.
     c_bind (asl_field_unlink (Some item) s) (\<lambda>s. Inr (nxt, s))))"

definition asl_field_list_prev :: "addr \<Rightarrow> asl_heap \<Rightarrow> (addr option \<times> asl_heap) c_result" where
  "asl_field_list_prev item s =
     c_bind (get_field item s) (\<lambda>i.
     let prv = (case list_head i of None \<Rightarrow> None
                | Some l \<Rightarrow> if list_prev i = l then None else Some (list_prev i)) in
     c_bind (asl_field_link prv s) (\<lambda>s.
     c_bind (asl_field_unlink (Some item) s) (\<lambda>s. Inr (prv, s))))"

text \<open>A new list without a field table: the sentinel is its own neighbour.\<close>

definition asl_field_list_create :: "asl_heap \<Rightarrow> addr \<times> asl_heap" where
  "asl_field_list_create s =
     (let l = next_free s in
      (l, put_field l \<lparr>links = 0, zombie = False, list_head = Some l, list_prev = l, list_next = l,
            field_name = [], field_type = 0, decimals = 0, field_string = None, field_integer = 0\<rparr>
          (s\<lparr>next_free := Suc l, list_at := (list_at s)(l \<mapsto> \<lparr>list_links = 1, list_zombie = False\<rparr>)\<rparr>)))"

definition asl_field_list_free :: "addr \<Rightarrow> asl_heap \<Rightarrow> asl_heap c_result" where
  "asl_field_list_free l s =
     c_bind (get_list l s) (\<lambda>_.
       Inr (s\<lparr>list_at := (list_at s)(l := None), field_at := (field_at s)(l := None)\<rparr>))"

definition asl_field_list_link :: "addr option \<Rightarrow> asl_heap \<Rightarrow> asl_heap c_result" where
  "asl_field_list_link self s =
     (case self of None \<Rightarrow> Inr s | Some l \<Rightarrow> mod_list l (list_links_update Suc) s)"

text \<open>
  The loop that empties the list: take the first item out and unlink it, until the sentinel points
  to itself.  A loop that did not end would have no value.
\<close>

partial_function (option) list_annihilate_loop :: "addr \<Rightarrow> asl_heap \<Rightarrow> asl_heap c_result option" where
  "list_annihilate_loop l s =
     (case get_field l s of
        Inl e \<Rightarrow> Some (Inl e)
      | Inr n \<Rightarrow>
          if list_next n = l then Some (Inr s)
          else
            (case c_bind (asl_field_list_unhook (list_next n) s) (asl_field_unlink (Some (list_next n))) of
               Inl e \<Rightarrow> Some (Inl e)
             | Inr s' \<Rightarrow> list_annihilate_loop l s'))"

declare list_annihilate_loop.simps [code]

definition asl_field_list_annihilate :: "addr \<Rightarrow> asl_heap \<Rightarrow> asl_heap c_result option" where
  "asl_field_list_annihilate l s =
     (case get_list l s of Inl e \<Rightarrow> Some (Inl e) | Inr _ \<Rightarrow> list_annihilate_loop l s)"

text \<open>Give back one link of the list object, and free it with the last.\<close>

definition list_release :: "addr \<Rightarrow> asl_heap \<Rightarrow> asl_heap c_result" where
  "list_release l s =
     c_bind (get_list l s) (\<lambda>lo.
     if list_links lo = 0 then Inl Assert_Failed
     else
       c_bind (mod_list l (list_links_update (\<lambda>n. n - 1)) s) (\<lambda>s.
       if list_links lo - 1 = 0 then asl_field_list_free l s else Inr s))"

definition asl_field_list_destroy :: "addr option \<Rightarrow> asl_heap \<Rightarrow> asl_heap c_result option" where
  "asl_field_list_destroy self s =
     (case self of
        None \<Rightarrow> Some (Inr s)
      | Some l \<Rightarrow>
          (case get_list l s of
             Inl e \<Rightarrow> Some (Inl e)
           | Inr lo \<Rightarrow>
               map_option (\<lambda>r. c_bind r (list_release l))
                 (if list_zombie lo then Some (Inr s)
                  else
                    (case mod_list l (list_zombie_update (\<lambda>_. True)) s of
                       Inl e \<Rightarrow> Some (Inl e)
                     | Inr s \<Rightarrow> asl_field_list_annihilate l s))))"

definition asl_field_list_unlink :: "addr option \<Rightarrow> asl_heap \<Rightarrow> asl_heap c_result option" where
  "asl_field_list_unlink self s =
     (case self of
        None \<Rightarrow> Some (Inr s)
      | Some l \<Rightarrow>
          (case get_list l s of
             Inl e \<Rightarrow> Some (Inl e)
           | Inr lo \<Rightarrow>
               if list_links lo = 0 then Some (Inl Assert_Failed)
               else
                 (case mod_list l (list_links_update (\<lambda>n. n - 1)) s of
                    Inl e \<Rightarrow> Some (Inl e)
                  | Inr s \<Rightarrow>
                      if list_links lo - 1 = 0 then
                        map_option (\<lambda>r. c_bind r (asl_field_list_free l))
                          (if list_zombie lo then Some (Inr s)
                           else
                             (case mod_list l (list_zombie_update (\<lambda>_. True)) s of
                                Inl e \<Rightarrow> Some (Inl e)
                              | Inr s \<Rightarrow> asl_field_list_annihilate l s))
                      else Some (Inr s))))"

end
