(* ===== verification/Asl_Ring.thy ===== *)
theory Asl_Ring
  imports Asl_Object
begin

text \<open>
  Ground for the correctness of the list container: segments of a doubly linked ring and what
  cutting out and splicing in do to them, the exact effect of the pointer assignments of
  \<^verbatim>\<open>asl_field_list_rehook\<close> and \<^verbatim>\<open>asl_field_list_unhook\<close>, the relation \<open>heap_rep\<close> between a heap and
  the item sequences its lists stand for, and the effect of taking and giving up links.
\<close>

section \<open>Segments of a ring\<close>

definition nx :: "asl_heap \<Rightarrow> addr \<Rightarrow> addr" where
  "nx s a = list_next (the (field_at s a))"

definition pv :: "asl_heap \<Rightarrow> addr \<Rightarrow> addr" where
  "pv s a = list_prev (the (field_at s a))"

definition owner :: "asl_heap \<Rightarrow> addr \<Rightarrow> addr option" where
  "owner s a = list_head (the (field_at s a))"

fun seg :: "(addr \<Rightarrow> addr) \<Rightarrow> (addr \<Rightarrow> addr) \<Rightarrow> addr \<Rightarrow> addr list \<Rightarrow> addr \<Rightarrow> bool" where
  "seg n p a [] b \<longleftrightarrow> n a = b \<and> p b = a"
| "seg n p a (x # xs) b \<longleftrightarrow> n a = x \<and> p x = a \<and> seg n p x xs b"

lemma seg_append: "seg n p a (xs @ y # ys) b \<longleftrightarrow> seg n p a xs y \<and> seg n p y ys b"
  by (induction xs arbitrary: a) auto

lemma seg_cong:
  assumes "\<forall>x\<in>set (a # xs). n' x = n x" and "\<forall>x\<in>set (xs @ [b]). p' x = p x"
  shows "seg n' p' a xs b \<longleftrightarrow> seg n p a xs b"
  using assms by (induction xs arbitrary: a) auto

lemma seg_ends:
  "seg n p a xs b \<Longrightarrow> n a = hd (xs @ [b]) \<and> p b = last (a # xs)"
  by (induction xs arbitrary: a) auto

lemma seg_inner:
  "seg n p a xs b \<Longrightarrow> n (last (a # xs)) = b \<and> p (hd (xs @ [b])) = a"
  by (induction xs arbitrary: a) auto

lemma seg_joint:
  "seg n p a (xs @ ys) b \<Longrightarrow> n (last (a # xs)) = hd (ys @ [b]) \<and> p (hd (ys @ [b])) = last (a # xs)"
  by (induction xs arbitrary: a) (auto dest: seg_ends seg_inner)

lemma seg_retarget_start:
  assumes "seg n p a xs b" and "distinct xs" and "b \<notin> set xs" and "a \<notin> set xs" and "c \<notin> set xs"
  shows "seg (n(c := hd (xs @ [b]))) (p(hd (xs @ [b]) := c)) c xs b"
proof (cases xs)
  case (Cons x ys)
  have "seg (n(c := x)) (p(x := c)) x ys b \<longleftrightarrow> seg n p x ys b"
    using assms Cons by (intro seg_cong) auto
  then show ?thesis using assms Cons by simp
qed simp

lemma hd_snoc_in: "hd (xs @ [b]) \<in> insert b (set xs)"
  by (cases xs) auto

lemma seg_remove:
  assumes "seg n p a (as @ i # bs) b" and "distinct (a # as @ i # bs)" and "b \<notin> set (as @ i # bs)"
  shows "p i = last (a # as)" and "n i = hd (bs @ [b])"
    and "seg (n(last (a # as) := hd (bs @ [b]), i := i)) (p(i := i, hd (bs @ [b]) := last (a # as))) a (as @ bs) b"
proof -
  from assms(1) have "seg n p a as i" "seg n p i bs b" by (simp_all add: seg_append)
  then show "p i = last (a # as)" "n i = hd (bs @ [b])" by (simp_all add: seg_ends)
  show "seg (n(last (a # as) := hd (bs @ [b]), i := i)) (p(i := i, hd (bs @ [b]) := last (a # as))) a (as @ bs) b"
    using assms
  proof (induction as arbitrary: a)
    case Nil
    then have "seg (n(a := hd (bs @ [b]))) (p(hd (bs @ [b]) := a)) a bs b"
      by (intro seg_retarget_start [of n p i]) auto
    moreover have "seg (n(a := hd (bs @ [b]), i := i)) (p(i := i, hd (bs @ [b]) := a)) a bs b \<longleftrightarrow>
        seg (n(a := hd (bs @ [b]))) (p(hd (bs @ [b]) := a)) a bs b"
      using Nil by (intro seg_cong) auto
    ultimately show ?case by (simp only: append_Nil last_ConsL)
  next
    case (Cons x as)
    have "last (x # as) \<noteq> a" using Cons.prems(2) last_in_set [of "x # as"] by auto
    moreover have "hd (bs @ [b]) \<noteq> x" using Cons.prems(2,3) hd_snoc_in [of bs b] by auto
    ultimately show ?case using Cons by auto
  qed
qed

lemma seg_insert:
  assumes "seg n p a (as @ bs) b" and "distinct (a # as @ bs)" and "b \<notin> set (as @ bs)"
    and "i \<notin> set (a # as @ bs)" and "i \<noteq> b"
  shows "seg (n(last (a # as) := i, i := hd (bs @ [b]))) (p(i := last (a # as), hd (bs @ [b]) := i))
    a (as @ i # bs) b"
  using assms
proof (induction as arbitrary: a)
  case Nil
  let ?n = "n(a := i, i := hd (bs @ [b]))" and ?p = "p(i := a, hd (bs @ [b]) := i)"
  have "hd (bs @ [b]) \<noteq> i" using Nil hd_snoc_in [of bs b] by auto
  moreover have "seg ?n ?p i bs b \<longleftrightarrow> seg (n(i := hd (bs @ [b]))) (p(hd (bs @ [b]) := i)) i bs b"
    using Nil by (intro seg_cong) auto
  moreover have "seg (n(i := hd (bs @ [b]))) (p(hd (bs @ [b]) := i)) i bs b"
    using Nil by (intro seg_retarget_start [of n p a]) auto
  ultimately show ?case by (simp only: append_Nil last_ConsL seg.simps) (use Nil in simp)
next
  case (Cons x as)
  have "last (x # as) \<noteq> a" using Cons.prems(2) last_in_set [of "x # as"] by auto
  moreover have "hd (bs @ [b]) \<noteq> x" using Cons.prems(2,3) hd_snoc_in [of bs b] by auto
  ultimately show ?case using Cons by auto
qed

section \<open>What the pointer updates do\<close>

text \<open>The part of a field that the list pointers do not touch, and heaps that agree on it.\<close>

definition core :: "asl_field \<Rightarrow> asl_field" where
  "core f = f\<lparr>list_head := None, list_prev := 0, list_next := 0\<rparr>"

definition same_core :: "asl_heap \<Rightarrow> asl_heap \<Rightarrow> bool" where
  "same_core s s' \<longleftrightarrow> (\<forall>a. map_option core (field_at s' a) = map_option core (field_at s a)) \<and>
     list_at s' = list_at s \<and> next_free s' = next_free s"

lemma same_core_dom: "same_core s s' \<Longrightarrow> dom (field_at s') = dom (field_at s)"
  unfolding same_core_def dom_def by (metis option.map_disc_iff)

lemma same_core_refl [simp]: "same_core s s"
  by (simp add: same_core_def)

lemma same_core_trans: "same_core s t \<Longrightarrow> same_core t u \<Longrightarrow> same_core s u"
  by (simp add: same_core_def)

lemma same_core_field:
  assumes "same_core s s'" and "field_at s a = Some f"
  obtains f' where "field_at s' a = Some f'" and "core f' = core f"
  using assms unfolding same_core_def by (metis map_option_eq_Some option.simps(9))

lemma core_links [simp]: "links (core f) = links f" "zombie (core f) = zombie f"
  by (simp_all add: core_def)

lemma core_eq_links: "core f = core g \<Longrightarrow> links f = links g \<and> zombie f = zombie g"
  by (metis core_links)

text \<open>The field at an address, and what one assignment to it changes.\<close>

definition at :: "asl_heap \<Rightarrow> addr \<Rightarrow> asl_field" where
  "at s a = the (field_at s a)"

lemma views: "nx s a = list_next (at s a)" "pv s a = list_prev (at s a)" "owner s a = list_head (at s a)"
  by (simp_all add: nx_def pv_def owner_def at_def)

lemma get_field_in: "p \<in> dom (field_at s) \<Longrightarrow> get_field p s = Inr (at s p)"
  by (auto simp: get_field_def at_def)

lemma mod_field_in: "p \<in> dom (field_at s) \<Longrightarrow> mod_field p g s = Inr (put_field p (g (at s p)) s)"
  by (simp add: mod_field_def get_field_in)

lemma put_field_at: "at (put_field p f s) = (at s)(p := f)"
  by (auto simp: put_field_def at_def)

lemma put_field_rest [simp]:
  "dom (field_at (put_field p f s)) = insert p (dom (field_at s))"
  "list_at (put_field p f s) = list_at s" "next_free (put_field p f s) = next_free s"
  by (auto simp: put_field_def)

lemma put_field_next [simp]:
  "nx (put_field p ((at s p)\<lparr>list_next := v\<rparr>) s) = (nx s)(p := v)"
  "pv (put_field p ((at s p)\<lparr>list_next := v\<rparr>) s) = pv s"
  "owner (put_field p ((at s p)\<lparr>list_next := v\<rparr>) s) = owner s"
  by (auto simp: views put_field_at)

lemma put_field_prev [simp]:
  "nx (put_field p ((at s p)\<lparr>list_prev := v\<rparr>) s) = nx s"
  "pv (put_field p ((at s p)\<lparr>list_prev := v\<rparr>) s) = (pv s)(p := v)"
  "owner (put_field p ((at s p)\<lparr>list_prev := v\<rparr>) s) = owner s"
  by (auto simp: views put_field_at)

lemma put_field_head [simp]:
  "nx (put_field p ((at s p)\<lparr>list_head := w\<rparr>) s) = nx s"
  "pv (put_field p ((at s p)\<lparr>list_head := w\<rparr>) s) = pv s"
  "owner (put_field p ((at s p)\<lparr>list_head := w\<rparr>) s) = (owner s)(p := w)"
  by (auto simp: views put_field_at)

lemma same_core_put:
  "p \<in> dom (field_at s) \<Longrightarrow> core f = core (at s p) \<Longrightarrow> same_core s (put_field p f s)"
  by (auto simp: same_core_def put_field_def at_def)

lemma core_pointers [simp]:
  "core (f\<lparr>list_next := v\<rparr>) = core f" "core (f\<lparr>list_prev := v\<rparr>) = core f" "core (f\<lparr>list_head := w\<rparr>) = core f"
  by (simp_all add: core_def)

lemma rehook_effect:
  assumes "item \<in> dom (field_at s)" and "left \<in> dom (field_at s)" and "right \<in> dom (field_at s)"
  obtains s' where "asl_field_list_rehook item left right s = Inr s'" and "same_core s s'"
    and "nx s' = (nx s)(left := nx s item, item := nx s left)"
    and "pv s' = (pv s)(item := pv s right, right := pv s item)"
    and "owner s' = (owner s)(item := owner s left)"
proof -
  define s1 where "s1 = put_field left ((at s left)\<lparr>list_next := nx s item\<rparr>) s"
  define s2 where "s2 = put_field item ((at s1 item)\<lparr>list_next := nx s left\<rparr>) s1"
  define s3 where "s3 = put_field item ((at s2 item)\<lparr>list_prev := pv s2 right\<rparr>) s2"
  define s4 where "s4 = put_field right ((at s3 right)\<lparr>list_prev := pv s2 item\<rparr>) s3"
  define s5 where "s5 = put_field item ((at s4 item)\<lparr>list_head := owner s4 left\<rparr>) s4"
  note defs = s1_def s2_def s3_def s4_def s5_def
  have d1: "dom (field_at s1) = dom (field_at s)" unfolding s1_def by (simp only: put_field_rest insert_absorb assms)
  have d2: "dom (field_at s2) = dom (field_at s)" unfolding s2_def by (simp only: put_field_rest insert_absorb assms d1)
  have d3: "dom (field_at s3) = dom (field_at s)" unfolding s3_def by (simp only: put_field_rest insert_absorb assms d2)
  have d4: "dom (field_at s4) = dom (field_at s)" unfolding s4_def by (simp only: put_field_rest insert_absorb assms d3)
  have run: "asl_field_list_rehook item left right s = Inr s5"
    unfolding asl_field_list_rehook_def
    by (simp only: get_field_in mod_field_in assms d1 d2 d3 d4 c_bind_simps views [symmetric] defs [symmetric])
  have "same_core s s1"
    unfolding s1_def using assms by (intro same_core_put) simp_all
  moreover have "same_core s1 s2"
    unfolding s2_def using assms d1 by (intro same_core_put) simp_all
  moreover have "same_core s2 s3"
    unfolding s3_def using assms d2 by (intro same_core_put) simp_all
  moreover have "same_core s3 s4"
    unfolding s4_def using assms d3 by (intro same_core_put) simp_all
  moreover have "same_core s4 s5"
    unfolding s5_def using assms d4 by (intro same_core_put) simp_all
  ultimately have same: "same_core s s5" by (meson same_core_trans)
  have "nx s5 = (nx s)(left := nx s item, item := nx s left)"
    "pv s5 = (pv s)(item := pv s right, right := pv s item)"
    "owner s5 = (owner s)(item := owner s left)"
    unfolding defs by (simp_all only: put_field_next put_field_prev put_field_head)
  then show ?thesis by (rule that [OF run same])
qed

lemma unhook_effect:
  assumes "item \<in> dom (field_at s)" and "pv s item \<in> dom (field_at s)" and "nx s item \<in> dom (field_at s)"
  obtains s' where "asl_field_list_unhook item s = Inr s'" and "same_core s s'"
    and "nx s' = (nx s)(pv s item := nx s item, item := nx s (pv s item))"
    and "pv s' = (pv s)(item := pv s (nx s item), nx s item := pv s item)"
    and "owner s' = (owner s)(item := None)"
proof -
  obtain t where t: "asl_field_list_rehook item (pv s item) (nx s item) s = Inr t" "same_core s t"
    "nx t = (nx s)(pv s item := nx s item, item := nx s (pv s item))"
    "pv t = (pv s)(item := pv s (nx s item), nx s item := pv s item)"
    "owner t = (owner s)(item := owner s (pv s item))"
    by (rule rehook_effect [OF assms])
  let ?s = "put_field item ((at t item)\<lparr>list_head := None\<rparr>) t"
  have d: "item \<in> dom (field_at t)" using assms(1) same_core_dom t(2) by blast
  have "asl_field_list_unhook item s = Inr ?s"
    using assms(1) d t(1) by (simp add: asl_field_list_unhook_def get_field_in mod_field_in views)
  moreover have "same_core s ?s"
    using t(2) same_core_put [OF d] by (simp add: same_core_trans)
  ultimately show ?thesis using t(3-5) by (intro that [of ?s]) simp_all
qed

section \<open>The heap represents lists\<close>

definition ring :: "asl_heap \<Rightarrow> addr \<Rightarrow> addr list \<Rightarrow> bool" where
  "ring s l xs \<longleftrightarrow> set (l # xs) \<subseteq> dom (field_at s) \<and> distinct (l # xs) \<and>
     seg (nx s) (pv s) l xs l \<and> (\<forall>a\<in>set (l # xs). owner s a = Some l)"

text \<open>
  The abstraction: \<open>L\<close> gives the items of every list object in order.  Each list is a ring through
  its sentinel, an item points to the list it is in, an item in no list is its own neighbour, and
  the addresses not yet handed out are free.
\<close>

definition heap_rep :: "asl_heap \<Rightarrow> (addr \<rightharpoonup> addr list) \<Rightarrow> bool" where
  "heap_rep s L \<longleftrightarrow> dom (list_at s) = dom L \<and> (\<forall>l xs. L l = Some xs \<longrightarrow> ring s l xs) \<and>
     (\<forall>a\<in>dom (field_at s). case owner s a of
        None \<Rightarrow> nx s a = a \<and> pv s a = a
      | Some l \<Rightarrow> \<exists>xs. L l = Some xs \<and> a \<in> set (l # xs)) \<and>
     (\<forall>a\<in>dom (field_at s) \<union> dom (list_at s). a < next_free s)"

lemma heap_rep_cong:
  assumes "nx s' = nx s" and "pv s' = pv s" and "owner s' = owner s"
    and "dom (field_at s') = dom (field_at s)" and "dom (list_at s') = dom (list_at s)"
    and "next_free s' = next_free s"
  shows "heap_rep s' L \<longleftrightarrow> heap_rep s L"
  by (simp only: heap_rep_def ring_def assms)

lemma heap_rep_ring: "heap_rep s L \<Longrightarrow> L l = Some xs \<Longrightarrow> ring s l xs"
  by (simp add: heap_rep_def)

lemma heap_rep_place:
  assumes "heap_rep s L" and "a \<in> dom (field_at s)"
  shows "case owner s a of None \<Rightarrow> nx s a = a \<and> pv s a = a
    | Some l \<Rightarrow> \<exists>xs. L l = Some xs \<and> a \<in> set (l # xs)"
  using assms unfolding heap_rep_def by blast

lemma heap_rep_owner:
  assumes "heap_rep s L" and "a \<in> dom (field_at s)"
  shows "owner s a = Some l \<longleftrightarrow> (\<exists>xs. L l = Some xs \<and> a \<in> set (l # xs))"
proof
  assume "owner s a = Some l"
  then show "\<exists>xs. L l = Some xs \<and> a \<in> set (l # xs)" using heap_rep_place [OF assms] by simp
next
  assume "\<exists>xs. L l = Some xs \<and> a \<in> set (l # xs)"
  then show "owner s a = Some l" using heap_rep_ring [OF assms(1)] unfolding ring_def by blast
qed

lemma heap_rep_detached:
  assumes "heap_rep s L" and "a \<in> dom (field_at s)" and "owner s a = None"
  shows "nx s a = a" and "pv s a = a"
  using heap_rep_place [OF assms(1,2)] assms(3) by simp_all

lemma ring_frame:
  assumes "ring s l xs" and "dom (field_at s') = dom (field_at s)"
    and "\<forall>a\<in>set (l # xs). nx s' a = nx s a \<and> pv s' a = pv s a \<and> owner s' a = owner s a"
  shows "ring s' l xs"
proof -
  have "seg (nx s') (pv s') l xs l \<longleftrightarrow> seg (nx s) (pv s) l xs l"
    using assms(3) by (intro seg_cong) auto
  then show ?thesis using assms by (simp add: ring_def)
qed

lemma heap_rep_change:
  assumes rep: "heap_rep s L" and l: "L l = Some xs" and same: "same_core s s'"
    and frame: "\<And>a. a \<notin> insert i (set (l # xs)) \<Longrightarrow>
      nx s' a = nx s a \<and> pv s' a = pv s a \<and> owner s' a = owner s a"
    and i: "i \<in> dom (field_at s)" "owner s i \<in> {None, Some l}" "i \<noteq> l"
    and ys: "ring s' l ys" "insert i (set ys) = insert i (set xs)"
    and out: "i \<notin> set ys \<Longrightarrow> owner s' i = None \<and> nx s' i = i \<and> pv s' i = i"
  shows "heap_rep s' (L(l \<mapsto> ys))"
proof -
  note dom = same_core_dom [OF same]
  have owned: "owner s a = Some l" if "a \<in> set (l # xs)" for a
    using heap_rep_ring [OF rep l] that unfolding ring_def by blast
  have "ring s' m zs" if m: "m \<noteq> l" "L m = Some zs" for m zs
  proof (rule ring_frame [OF heap_rep_ring [OF rep m(2)] dom])
    have "owner s a = Some m" if "a \<in> set (m # zs)" for a
      using heap_rep_ring [OF rep m(2)] that unfolding ring_def by blast
    then have "a \<notin> insert i (set (l # xs))" if "a \<in> set (m # zs)" for a
      using that owned i(2) m(1) by fastforce
    then show "\<forall>a\<in>set (m # zs). nx s' a = nx s a \<and> pv s' a = pv s a \<and> owner s' a = owner s a"
      using frame by blast
  qed
  then have rings: "ring s' m zs" if "(L(l \<mapsto> ys)) m = Some zs" for m zs
    using that ys(1) by (cases "m = l") auto
  have placed: "case owner s' a of None \<Rightarrow> nx s' a = a \<and> pv s' a = a
      | Some m \<Rightarrow> \<exists>zs. (L(l \<mapsto> ys)) m = Some zs \<and> a \<in> set (m # zs)" if a: "a \<in> dom (field_at s)" for a
  proof (cases "a \<in> insert i (set (l # xs))")
    case True
    show ?thesis
    proof (cases "a \<in> set (l # ys)")
      case True
      then have "owner s' a = Some l" using ys(1) unfolding ring_def by blast
      with True show ?thesis by simp
    next
      case False
      with True ys(2) have "a = i" by auto
      with False out show ?thesis by simp
    qed
  next
    case False
    note heap_rep_place [OF rep a]
    moreover have "owner s a \<noteq> Some l"
      using heap_rep_owner [OF rep a] False l by auto
    ultimately show ?thesis using frame [OF False] by (auto split: option.splits)
  qed
  show ?thesis
    using rep same l rings placed dom unfolding heap_rep_def same_core_def by auto
qed

lemma ring_in_dom: "ring s l xs \<Longrightarrow> a \<in> set (l # xs) \<Longrightarrow> a \<in> dom (field_at s)"
  by (auto simp: ring_def)

lemma unhook_member:
  assumes rep: "heap_rep s L" and l: "L l = Some (as @ i # bs)"
  obtains s' where "asl_field_list_unhook i s = Inr s'" and "same_core s s'"
    and "heap_rep s' (L(l \<mapsto> as @ bs))" and "owner s' = (owner s)(i := None)"
proof -
  let ?left = "last (l # as)" and ?right = "hd (bs @ [l])"
  note r = heap_rep_ring [OF rep l]
  then have sg: "seg (nx s) (pv s) l (as @ i # bs) l" and dist: "distinct (l # as @ i # bs)"
    and notin: "l \<notin> set (as @ i # bs)" by (auto simp: ring_def)
  note rm = seg_remove [OF sg dist notin]
  have left: "?left \<in> set (l # as)" by (rule last_in_set) simp
  have right: "?right \<in> insert l (set bs)" by (rule hd_snoc_in)
  have dom: "i \<in> dom (field_at s)" "?left \<in> dom (field_at s)" "?right \<in> dom (field_at s)"
    using left right by (auto intro!: ring_in_dom [OF r])
  have ends: "nx s ?left = i" "pv s ?right = i"
    using sg seg_inner unfolding seg_append by blast+
  from dom obtain s' where s': "asl_field_list_unhook i s = Inr s'" "same_core s s'"
    "nx s' = (nx s)(?left := ?right, i := i)" "pv s' = (pv s)(i := i, ?right := ?left)"
    "owner s' = (owner s)(i := None)"
    using unhook_effect [of i s] unfolding rm(1,2) ends by metis
  have "ring s' l (as @ bs)"
    using r rm(3) same_core_dom [OF s'(2)] dist s'(3-5) by (auto simp: ring_def)
  then have "heap_rep s' (L(l \<mapsto> as @ bs))"
    using dist left right r s'(3-5)
    by (intro heap_rep_change [OF rep l s'(2), of i]) (auto simp: ring_def)
  with s' show ?thesis by (intro that)
qed

lemma unhook_detached:
  assumes rep: "heap_rep s L" and i: "i \<in> dom (field_at s)" "owner s i = None"
  obtains s' where "asl_field_list_unhook i s = Inr s'" and "same_core s s'"
    and "heap_rep s' L" and "owner s' = owner s"
proof -
  note self = heap_rep_detached [OF rep i]
  obtain s' where s': "asl_field_list_unhook i s = Inr s'" "same_core s s'"
    "nx s' = nx s" "pv s' = pv s" "owner s' = owner s"
    using unhook_effect [of i s] unfolding self by (metis i fun_upd_triv self)
  have "heap_rep s' L"
    using rep heap_rep_cong [OF s'(3-5) same_core_dom [OF s'(2)]] s'(2) by (simp add: same_core_def)
  with s' show ?thesis by (intro that)
qed

lemma rehook_member:
  assumes rep: "heap_rep s L" and l: "L l = Some (as @ bs)"
    and i: "i \<in> dom (field_at s)" "owner s i = None"
    and ends: "left = last (l # as)" "right = hd (bs @ [l])"
  obtains s' where "asl_field_list_rehook i left right s = Inr s'" and "same_core s s'"
    and "heap_rep s' (L(l \<mapsto> as @ i # bs))" and "owner s' = (owner s)(i := Some l)"
proof -
  note r = heap_rep_ring [OF rep l]
  note self = heap_rep_detached [OF rep i]
  have new: "i \<notin> set (l # as @ bs)" using r i(2) unfolding ring_def by fastforce
  from r have sg: "seg (nx s) (pv s) l (as @ bs) l" and dist: "distinct (l # as @ bs)"
    by (auto simp: ring_def)
  have left: "left \<in> set (l # as)" unfolding ends by (rule last_in_set) simp
  have right: "right \<in> insert l (set bs)" unfolding ends by (rule hd_snoc_in)
  have dom: "left \<in> dom (field_at s)" "right \<in> dom (field_at s)"
    using left right by (auto intro!: ring_in_dom [OF r])
  have joint: "nx s left = right" "pv s right = left"
    using sg seg_joint [of "nx s" "pv s" l as bs l] by (simp_all add: ends)
  have own: "owner s left = Some l" using r left unfolding ring_def by auto
  obtain s' where s': "asl_field_list_rehook i left right s = Inr s'" "same_core s s'"
    "nx s' = (nx s)(left := i, i := right)" "pv s' = (pv s)(i := left, right := i)"
    "owner s' = (owner s)(i := Some l)"
    by (rule rehook_effect [OF i(1) dom]) (simp_all add: self joint own)
  have "seg (nx s') (pv s') l (as @ i # bs) l"
    unfolding s'(3,4) ends using sg dist new by (intro seg_insert) auto
  then have "ring s' l (as @ i # bs)"
    using r new dist i(1) same_core_dom [OF s'(2)] s'(5) by (auto simp: ring_def)
  then have "heap_rep s' (L(l \<mapsto> as @ i # bs))"
    using left right new i s'(3-5)
    by (intro heap_rep_change [OF rep l s'(2), of i]) auto
  with s' show ?thesis by (intro that)
qed

section \<open>Link counts\<close>

definition linked :: "addr \<Rightarrow> asl_heap \<Rightarrow> asl_heap" where
  "linked i s = put_field i (links_update Suc (at s i)) s"

definition unlinked :: "addr \<Rightarrow> asl_heap \<Rightarrow> asl_heap" where
  "unlinked i s = put_field i (links_update (\<lambda>n. n - 1) (at s i)) s"

definition freed :: "addr \<Rightarrow> asl_heap \<Rightarrow> asl_heap" where
  "freed i s = s\<lparr>field_at := (field_at s)(i := None)\<rparr>"

lemma heap_rep_put:
  assumes "i \<in> dom (field_at s)" and "list_next f = nx s i" and "list_prev f = pv s i" and "list_head f = owner s i"
  shows "heap_rep (put_field i f s) L \<longleftrightarrow> heap_rep s L"
  using assms by (intro heap_rep_cong) (auto simp: views put_field_at fun_eq_iff)

lemma linked_facts [simp]:
  "nx (linked i s) = nx s" "pv (linked i s) = pv s" "owner (linked i s) = owner s"
  "dom (field_at (linked i s)) = insert i (dom (field_at s))" "list_at (linked i s) = list_at s"
  "next_free (linked i s) = next_free s"
  "nx (unlinked i s) = nx s" "pv (unlinked i s) = pv s" "owner (unlinked i s) = owner s"
  "dom (field_at (unlinked i s)) = insert i (dom (field_at s))" "list_at (unlinked i s) = list_at s"
  "next_free (unlinked i s) = next_free s"
  by (auto simp: linked_def unlinked_def views put_field_at fun_eq_iff)

lemma heap_rep_linked [simp]:
  "i \<in> dom (field_at s) \<Longrightarrow> heap_rep (linked i s) L \<longleftrightarrow> heap_rep s L"
  "i \<in> dom (field_at s) \<Longrightarrow> heap_rep (unlinked i s) L \<longleftrightarrow> heap_rep s L"
  by (rule heap_rep_cong; auto)+

lemma link_in: "i \<in> dom (field_at s) \<Longrightarrow> asl_field_link (Some i) s = Inr (linked i s)"
  by (simp add: asl_field_link_def mod_field_in linked_def)

lemma heap_rep_freed:
  assumes rep: "heap_rep s L" and "owner s i = None"
  shows "heap_rep (freed i s) L"
proof -
  have at: "at (freed i s) a = at s a" if "a \<noteq> i" for a using that by (simp add: freed_def at_def)
  have "ring (freed i s) l xs" if "L l = Some xs" for l xs
  proof -
    have r: "ring s l xs" using rep that by (rule heap_rep_ring)
    then have "i \<notin> set (l # xs)" using assms(2) unfolding ring_def by fastforce
    then have v: "nx (freed i s) a = nx s a" "pv (freed i s) a = pv s a" "owner (freed i s) a = owner s a"
      if "a \<in> set (l # xs)" for a using at [of a] that by (metis views)+
    then have "seg (nx (freed i s)) (pv (freed i s)) l xs l \<longleftrightarrow> seg (nx s) (pv s) l xs l"
      by (intro seg_cong) auto
    with r \<open>i \<notin> set (l # xs)\<close> v show ?thesis by (auto simp: ring_def freed_def)
  qed
  moreover have "\<forall>a\<in>dom (field_at (freed i s)). case owner (freed i s) a of None \<Rightarrow> nx (freed i s) a = a \<and> pv (freed i s) a = a
      | Some l \<Rightarrow> \<exists>xs. L l = Some xs \<and> a \<in> set (l # xs)"
  proof
    fix a
    assume "a \<in> dom (field_at (freed i s))"
    then have "a \<noteq> i" "a \<in> dom (field_at s)" by (auto simp: freed_def)
    then show "case owner (freed i s) a of None \<Rightarrow> nx (freed i s) a = a \<and> pv (freed i s) a = a
      | Some l \<Rightarrow> \<exists>xs. L l = Some xs \<and> a \<in> set (l # xs)"
      using heap_rep_place [OF rep, of a] at [of a]
      by (simp only: views not_False_eq_True)
  qed
  moreover have "dom (list_at (freed i s)) = dom L" using rep by (simp add: heap_rep_def freed_def)
  moreover have "\<forall>a\<in>dom (field_at (freed i s)) \<union> dom (list_at (freed i s)). a < next_free (freed i s)"
  proof -
    have "\<forall>a\<in>dom (field_at s) \<union> dom (list_at s). a < next_free s" using rep by (simp add: heap_rep_def)
    moreover have "dom (field_at (freed i s)) \<subseteq> dom (field_at s)" by (auto simp: freed_def)
    moreover have "list_at (freed i s) = list_at s" "next_free (freed i s) = next_free s" by (simp_all add: freed_def)
    ultimately show ?thesis by (metis UnCI UnE subsetD)
  qed
  ultimately show ?thesis unfolding heap_rep_def by simp
qed

lemma asl_field_unlink_inner:
  assumes "zombie (at s p)" and "p \<in> dom (field_at s)"
  shows "unlink_with f (Some p) s = unlink_with g (Some p) s"
  using assms unfolding unlink_with_def option.case by (simp only: get_field_in c_bind_simps if_True)

lemma unlink_keeps:
  assumes "i \<in> dom (field_at s)" and "1 < links (at s i)"
  shows "asl_field_unlink (Some i) s = Inr (unlinked i s)"
  using assms by (simp add: asl_field_unlink_def unlink_with_def get_field_in mod_field_in unlinked_def)

lemma unlink_frees:
  assumes "i \<in> dom (field_at s)" and "links (at s i) = 1" and "owner s i = None \<or> zombie (at s i)"
  shows "asl_field_unlink (Some i) s = Inr (freed i s)"
proof -
  have "links (at s i) - 1 = 0" using assms(2) by simp
  then show ?thesis
    using assms
    by (auto simp: asl_field_unlink_def unlink_with_def get_field_in mod_field_in asl_field_annihilate_def
        list_remove_with_def asl_field_free_def freed_def put_field_at views)
      (simp_all add: put_field_def)
qed

end
