(* ===== verification/Asl_List.thy ===== *)
theory Asl_List
  imports Asl_Ring
begin

text \<open>
  The list container is correct: on a heap that represents an assignment of item sequences to list
  objects, every operation of the container acts on the sequence the way its name says, leaves all
  other lists alone and keeps the link counts in step.  The locale \<open>list_container\<close> is the contract
  its clients use.
\<close>

section \<open>The operations of the container\<close>

text \<open>
  The state of the container: the heap represents \<open>L\<close>, and the items of a list are held by at least
  the list's own link and are not zombies.
\<close>

definition list_state :: "asl_heap \<Rightarrow> (addr \<rightharpoonup> addr list) \<Rightarrow> bool" where
  "list_state s L \<longleftrightarrow> heap_rep s L \<and>
     (\<forall>l xs a. L l = Some xs \<and> a \<in> set xs \<longrightarrow> 1 \<le> links (at s a) \<and> \<not> zombie (at s a))"

definition live_list :: "asl_heap \<Rightarrow> addr \<Rightarrow> bool" where
  "live_list s l \<longleftrightarrow> (\<exists>lo. list_at s l = Some lo \<and> \<not> list_zombie lo)"

text \<open>An item that the list \<open>l\<close> may take: a live field, no sentinel, in no list or in \<open>l\<close> itself.\<close>

definition free_for :: "asl_heap \<Rightarrow> (addr \<rightharpoonup> addr list) \<Rightarrow> addr \<Rightarrow> addr \<Rightarrow> bool" where
  "free_for s L l i \<longleftrightarrow> i \<in> dom (field_at s) \<and> \<not> zombie (at s i) \<and> i \<notin> dom L \<and> owner s i \<in> {None, Some l}"

definition claimed :: "addr \<Rightarrow> addr list \<Rightarrow> asl_heap \<Rightarrow> asl_heap" where
  "claimed i xs s = (if i \<in> set xs then s else linked i s)"

lemma live_list_get: "live_list s l \<Longrightarrow> \<exists>lo. get_list l s = Inr lo \<and> \<not> list_zombie lo"
  by (auto simp: live_list_def get_list_def)

lemma same_core_live: "same_core s s' \<Longrightarrow> live_list s' l = live_list s l"
  by (simp add: same_core_def live_list_def)

lemma same_core_at:
  assumes "same_core s s'" and "a \<in> dom (field_at s)"
  shows "links (at s' a) = links (at s a)" and "zombie (at s' a) = zombie (at s a)"
proof -
  from assms(2) obtain f where f: "field_at s a = Some f" by blast
  with assms(1) obtain f' where "field_at s' a = Some f'" "core f' = core f" by (rule same_core_field)
  with f show "links (at s' a) = links (at s a)" "zombie (at s' a) = zombie (at s a)"
    using core_eq_links [of f' f] by (simp_all add: at_def)
qed

lemma list_stateI:
  assumes st: "list_state s L" and l: "L l = Some xs" and rep: "heap_rep s' (L(l \<mapsto> ys))"
    and same: "same_core (claimed i xs s) s'" and i: "i \<in> dom (field_at s)" "\<not> zombie (at s i)"
    and sub: "set ys \<subseteq> insert i (set xs)"
  shows "list_state s' (L(l \<mapsto> ys))"
proof -
  have dom: "dom (field_at (claimed i xs s)) = dom (field_at s)" using i(1) by (auto simp: claimed_def)
  have old: "1 \<le> links (at (claimed i xs s) a) \<and> \<not> zombie (at (claimed i xs s) a)"
    if "L m = Some zs" "a \<in> set zs" for m zs a
    using st that unfolding list_state_def claimed_def linked_def by (auto simp: put_field_at)
  have new: "1 \<le> links (at (claimed i xs s) i) \<and> \<not> zombie (at (claimed i xs s) i)"
    using old [OF l] i(2) by (auto simp: claimed_def linked_def put_field_at)
  have all: "1 \<le> links (at (claimed i xs s) a) \<and> \<not> zombie (at (claimed i xs s) a) \<and> a \<in> dom (field_at s)"
    if "(L(l \<mapsto> ys)) m = Some zs" "a \<in> set zs" for m zs a
  proof (cases "a = i")
    case False
    have "\<exists>zs'. L m = Some zs' \<and> a \<in> set zs'" using that l sub False by (auto split: if_splits)
    then obtain zs' where zs': "L m = Some zs'" "a \<in> set zs'" by blast
    moreover have "a \<in> dom (field_at s)"
      using st heap_rep_ring [of s L m zs'] ring_in_dom [of s m zs' a] zs' by (simp add: list_state_def)
    ultimately show ?thesis using old by blast
  qed (use new i in simp)
  have "1 \<le> links (at s' a) \<and> \<not> zombie (at s' a)" if "(L(l \<mapsto> ys)) m = Some zs" "a \<in> set zs" for m zs a
    using all [OF that] same_core_at [OF same] dom by simp
  with rep show ?thesis unfolding list_state_def by blast
qed

lemma list_claim_correct:
  assumes st: "list_state s L" and l: "L l = Some xs" and i: "free_for s L l i"
  obtains s' where "list_claim l i s = Inr s'" and "same_core (claimed i xs s) s'"
    and "heap_rep s' (L(l \<mapsto> remove1 i xs))" and "i \<in> dom (field_at s')" and "owner s' i = None"
proof (cases "i \<in> set xs")
  case True
  then obtain as bs where xs: "xs = as @ i # bs" and "i \<notin> set as" by (meson split_list_first)
  then have rm: "remove1 i xs = as @ bs" by (simp add: remove1_append)
  have own: "owner s i = Some l" and rep: "heap_rep s L"
    using st l True i heap_rep_owner [of s L i l] by (auto simp: list_state_def free_for_def)
  obtain s' where s': "asl_field_list_unhook i s = Inr s'" "same_core s s'" "heap_rep s' (L(l \<mapsto> as @ bs))"
    "owner s' = (owner s)(i := None)" using unhook_member [OF rep] l xs by blast
  then have "list_claim l i s = Inr s'"
    using i own by (simp add: list_claim_def free_for_def get_field_in views)
  then show ?thesis
    using s' i True same_core_dom [OF s'(2)] by (intro that) (auto simp: rm claimed_def free_for_def)
next
  case False
  have rep: "heap_rep s L" and dom: "i \<in> dom (field_at s)" using st i by (auto simp: list_state_def free_for_def)
  have own: "owner s i = None"
    using heap_rep_owner [OF rep dom, of l] l False i by (auto simp: free_for_def)
  obtain s' where s': "asl_field_list_unhook i (linked i s) = Inr s'" "same_core (linked i s) s'" "heap_rep s' L"
    "owner s' = owner (linked i s)"
    using unhook_detached [of "linked i s" L i] rep dom own by (metis heap_rep_linked(1) insert_iff linked_facts(3,4))
  then have "list_claim l i s = Inr s'"
    using dom own by (simp add: list_claim_def get_field_in views link_in)
  then show ?thesis
    using s' False own l dom same_core_dom [OF s'(2)]
    by (intro that [of s']) (auto simp: claimed_def remove1_idem map_upd_triv)
qed

lemma rehook_claimed:
  assumes st: "list_state s L" and l: "L l = Some xs" and i: "free_for s L l i"
    and run: "list_claim l i s = Inr t" and xs: "remove1 i xs = as @ bs"
    and ends: "left = last (l # as)" "right = hd (bs @ [l])"
    and t: "same_core (claimed i xs s) t" "heap_rep t (L(l \<mapsto> remove1 i xs))" "i \<in> dom (field_at t)" "owner t i = None"
  shows "\<exists>s'. asl_field_list_rehook i left right t = Inr s' \<and>
    list_state s' (L(l \<mapsto> as @ i # bs)) \<and> same_core (claimed i xs s) s'"
proof -
  have "(L(l \<mapsto> remove1 i xs)) l = Some (as @ bs)" by (simp add: xs)
  from rehook_member [OF t(2) this t(3,4) ends] obtain s' where
    s': "asl_field_list_rehook i left right t = Inr s'" "same_core t s'" "heap_rep s' (L(l \<mapsto> as @ i # bs))"
    by (metis fun_upd_upd)
  have same: "same_core (claimed i xs s) s'" using t(1) s'(2) by (rule same_core_trans)
  have "set (as @ bs) \<subseteq> set xs" using set_remove1_subset [of i xs] xs by simp
  then have "set (as @ i # bs) \<subseteq> insert i (set xs)" by auto
  with list_stateI [OF st l s'(3) same] i same s'(1) show ?thesis by (auto simp: free_for_def)
qed

lemma queue_correct:
  assumes "list_state s L" and "L l = Some xs" and "live_list s l" and "free_for s L l i"
  shows "\<exists>s'. asl_field_list_queue l i s = Inr (0, s') \<and>
    list_state s' (L(l \<mapsto> remove1 i xs @ [i])) \<and> same_core (claimed i xs s) s'"
proof -
  from assms(3) obtain lo where lo: "get_list l s = Inr lo" "\<not> list_zombie lo" using live_list_get by blast
  obtain t where t: "list_claim l i s = Inr t" "same_core (claimed i xs s) t"
    "heap_rep t (L(l \<mapsto> remove1 i xs))" "i \<in> dom (field_at t)" "owner t i = None"
    by (rule list_claim_correct [OF assms(1,2,4)])
  have r: "ring t l (remove1 i xs)" using t(3) by (rule heap_rep_ring) simp
  then have l: "get_field l t = Inr (at t l)" and left: "list_prev (at t l) = last (l # remove1 i xs)"
    using seg_ends [of "nx t" "pv t" l "remove1 i xs" l] by (auto simp: ring_def get_field_in views)
  show ?thesis
    using rehook_claimed [OF assms(1,2,4) t(1), of "remove1 i xs" "[]" "list_prev (at t l)" l] t lo l left
    by (auto simp: asl_field_list_queue_def)
qed

lemma push_correct:
  assumes "list_state s L" and "L l = Some xs" and "live_list s l" and "free_for s L l i"
  shows "\<exists>s'. asl_field_list_push l i s = Inr (0, s') \<and>
    list_state s' (L(l \<mapsto> i # remove1 i xs)) \<and> same_core (claimed i xs s) s'"
proof -
  from assms(3) obtain lo where lo: "get_list l s = Inr lo" "\<not> list_zombie lo" using live_list_get by blast
  obtain t where t: "list_claim l i s = Inr t" "same_core (claimed i xs s) t"
    "heap_rep t (L(l \<mapsto> remove1 i xs))" "i \<in> dom (field_at t)" "owner t i = None"
    by (rule list_claim_correct [OF assms(1,2,4)])
  have r: "ring t l (remove1 i xs)" using t(3) by (rule heap_rep_ring) simp
  then have l: "get_field l t = Inr (at t l)" and right: "list_next (at t l) = hd (remove1 i xs @ [l])"
    using seg_ends [of "nx t" "pv t" l "remove1 i xs" l] by (auto simp: ring_def get_field_in views)
  show ?thesis
    using rehook_claimed [OF assms(1,2,4) t(1), of "[]" "remove1 i xs" l "list_next (at t l)"] t lo l right
    by (auto simp: asl_field_list_push_def)
qed

lemma relink_before_correct:
  assumes "list_state s L" and "L l = Some xs" and "live_list s l" and "free_for s L l i"
    and "remove1 i xs = as @ w # bs" and "w \<noteq> i"
  shows "\<exists>s'. asl_field_list_relink_before i w s = Inr (0, s') \<and>
    list_state s' (L(l \<mapsto> as @ i # w # bs)) \<and> same_core (claimed i xs s) s'"
proof -
  from assms(3) obtain lo where lo: "get_list l s = Inr lo" "\<not> list_zombie lo" using live_list_get by blast
  obtain t where t: "list_claim l i s = Inr t" "same_core (claimed i xs s) t"
    "heap_rep t (L(l \<mapsto> remove1 i xs))" "i \<in> dom (field_at t)" "owner t i = None"
    by (rule list_claim_correct [OF assms(1,2,4)])
  have "w \<in> set xs" using assms(5) set_remove1_subset [of i xs] by auto
  with assms(1,2) have own: "list_head (at s w) = Some l" and w: "get_field w s = Inr (at s w)"
    using heap_rep_ring [of s L l xs] by (auto simp: list_state_def ring_def views intro!: get_field_in)
  have r: "ring t l (as @ w # bs)" using heap_rep_ring [OF t(3), of l] assms(5) by simp
  then have wt: "get_field w t = Inr (at t w)" and left: "list_prev (at t w) = last (l # as)"
    using seg_ends [of "nx t" "pv t" l as w] by (auto simp: ring_def get_field_in views seg_append)
  show ?thesis
    using rehook_claimed [OF assms(1,2,4) t(1) assms(5), of "list_prev (at t w)" w] t lo own w wt left
    by (auto simp: asl_field_list_relink_before_def)
qed

lemma list_state_ring: "list_state s L \<Longrightarrow> L l = Some xs \<Longrightarrow> ring s l xs"
  by (auto simp: list_state_def intro: heap_rep_ring)

lemma list_state_member:
  assumes "list_state s L" and "L l = Some xs" and "i \<in> set xs"
  shows "i \<in> dom (field_at s)" and "i \<noteq> l" and "owner s i = Some l" and "1 \<le> links (at s i)" and "\<not> zombie (at s i)"
proof -
  show "i \<in> dom (field_at s)" "i \<noteq> l" "owner s i = Some l"
    using list_state_ring [OF assms(1,2)] assms(3) by (auto simp: ring_def)
  show "1 \<le> links (at s i)" "\<not> zombie (at s i)" using assms unfolding list_state_def by blast+
qed

lemma unhook_state:
  assumes st: "list_state s L" and l: "L l = Some xs" and i: "i \<in> set xs"
  obtains s' where "asl_field_list_unhook i s = Inr s'" and "same_core s s'"
    and "list_state s' (L(l \<mapsto> remove1 i xs))" and "owner s' i = None"
proof -
  from i obtain as bs where xs: "xs = as @ i # bs" and "i \<notin> set as" by (meson split_list_first)
  then have rm: "remove1 i xs = as @ bs" by (simp add: remove1_append)
  from st have rep: "heap_rep s L" by (simp add: list_state_def)
  from unhook_member [OF rep l [unfolded xs]] obtain s' where
    s': "asl_field_list_unhook i s = Inr s'" "same_core s s'" "heap_rep s' (L(l \<mapsto> as @ bs))"
    "owner s' = (owner s)(i := None)" by blast
  note mem = list_state_member [OF st l i]
  have "list_state s' (L(l \<mapsto> as @ bs))"
    using list_stateI [OF st l s'(3), of i] s'(2) mem i xs by (auto simp: claimed_def)
  with s' show ?thesis by (intro that [of s']) (simp_all add: rm s'(4))
qed

lemma pop_correct:
  assumes st: "list_state s L" and l: "L l = Some xs" and live: "live_list s l"
  shows "case xs of
      [] \<Rightarrow> asl_field_list_pop l s = Inr (None, s)
    | x # ys \<Rightarrow> \<exists>s'. asl_field_list_pop l s = Inr (Some x, s') \<and> list_state s' (L(l \<mapsto> ys)) \<and>
        same_core s s' \<and> owner s' x = None"
proof -
  from live obtain lo where lo: "get_list l s = Inr lo" "\<not> list_zombie lo" using live_list_get by blast
  note r = list_state_ring [OF st l]
  have n: "get_field l s = Inr (at s l)" "list_next (at s l) = hd (xs @ [l])"
    using r seg_ends [of "nx s" "pv s" l xs l] by (auto simp: ring_def get_field_in views)
  show ?thesis
  proof (cases xs)
    case (Cons x ys)
    then have "x \<noteq> l" using r by (auto simp: ring_def)
    obtain s' where "asl_field_list_unhook x s = Inr s'" "same_core s s'"
      "list_state s' (L(l \<mapsto> remove1 x xs))" "owner s' x = None"
      using unhook_state [OF st l, of x] Cons by auto
    with lo n Cons \<open>x \<noteq> l\<close> show ?thesis by (simp add: asl_field_list_pop_def)
  qed (use lo n in \<open>simp add: asl_field_list_pop_def\<close>)
qed

text \<open>Giving up one link of a field that is in no list: the field goes with its last link.\<close>

definition dropped :: "addr \<Rightarrow> asl_heap \<Rightarrow> asl_heap" where
  "dropped i s = (if 1 < links (at s i) then unlinked i s else freed i s)"

lemma unlink_dropped:
  assumes "i \<in> dom (field_at s)" and "1 \<le> links (at s i)" and "owner s i = None"
  shows "asl_field_unlink (Some i) s = Inr (dropped i s)"
  using assms unlink_keeps [of i s] unlink_frees [of i s] by (auto simp: dropped_def)

lemma same_core_dropped:
  assumes "same_core s t" and "i \<in> dom (field_at s)"
  shows "same_core (dropped i s) (dropped i t)"
proof -
  from assms(2) obtain f where f: "field_at s i = Some f" by blast
  with assms(1) obtain g where g: "field_at t i = Some g" "core g = core f" by (rule same_core_field)
  then have "links g = links f" using core_eq_links by blast
  moreover have "core (links_update h g) = core (links_update h f)" for h
    using g(2) by (cases f, cases g) (simp add: core_def)
  ultimately show ?thesis
    using assms(1) f g
    by (auto simp: dropped_def unlinked_def freed_def same_core_def put_field_def at_def)
qed

lemma dropped_other:
  "a \<noteq> i \<Longrightarrow> field_at (dropped i s) a = field_at s a"
  "list_at (dropped i s) = list_at s" "next_free (dropped i s) = next_free s"
  by (simp_all add: dropped_def unlinked_def freed_def put_field_def)

lemma list_state_dropped:
  assumes st: "list_state s L" and i: "i \<in> dom (field_at s)" "owner s i = None"
  shows "list_state (dropped i s) L"
proof -
  have rep: "heap_rep s L" using st by (simp add: list_state_def)
  then have "heap_rep (dropped i s) L" using i heap_rep_freed [OF rep] by (simp add: dropped_def)
  moreover have "at (dropped i s) a = at s a" if "L l = Some xs" "a \<in> set xs" for l xs a
  proof -
    have "a \<noteq> i" using list_state_member(3) [OF st that] i(2) by auto
    then show ?thesis by (simp add: at_def dropped_other)
  qed
  ultimately show ?thesis using st unfolding list_state_def by metis
qed

lemma remove_correct:
  assumes st: "list_state s L" and l: "L l = Some xs" and i: "i \<in> set xs"
  shows "\<exists>s'. asl_field_list_remove i s = Inr s' \<and> list_state s' (L(l \<mapsto> remove1 i xs)) \<and>
    same_core (dropped i s) s'"
proof -
  note mem = list_state_member [OF st l i]
  obtain t where t: "asl_field_list_unhook i s = Inr t" "same_core s t"
    "list_state t (L(l \<mapsto> remove1 i xs))" "owner t i = None" by (rule unhook_state [OF st l i])
  have dom: "i \<in> dom (field_at t)" using mem(1) same_core_dom t(2) by blast
  have "1 \<le> links (at t i)" using mem same_core_at [OF t(2) mem(1)] by simp
  then have "asl_field_list_remove i s = Inr (dropped i t)"
    using unlink_dropped [OF dom _ t(4)] t(1) mem
    by (simp add: asl_field_list_remove_def list_remove_with_def get_field_in views)
  then show ?thesis using list_state_dropped [OF t(3) dom t(4)] same_core_dropped [OF t(2) mem(1)] by blast
qed

text \<open>
  Destroying a field in a list takes it out of the list and gives up the caller's link as well; with
  further links on it the field stays as a zombie without its string.
\<close>

definition destroyed :: "addr \<Rightarrow> asl_heap \<Rightarrow> asl_heap" where
  "destroyed i s =
     (if links (at s i) \<le> 2 then freed i s
      else put_field i ((at s i)\<lparr>zombie := True, field_string := None, links := links (at s i) - 2\<rparr>) s)"

lemma put_field_put [simp]:
  "put_field i f (put_field i g s) = put_field i f s" "freed i (put_field i f s) = freed i s"
  by (simp_all add: put_field_def freed_def)

lemma links_pred: "links_update (\<lambda>n. n - Suc 0) f = f\<lparr>links := links f - Suc 0\<rparr>"
  by (cases f) simp

lemma zombie_again: "zombie f \<Longrightarrow> f\<lparr>zombie := True, field_string := None, links := k\<rparr> = f\<lparr>field_string := None, links := k\<rparr>"
  by (cases f) simp

lemma core_destroyed:
  "core g = core (f\<lparr>zombie := True\<rparr>) \<Longrightarrow>
   core (g\<lparr>zombie := True, field_string := None, links := k\<rparr>) = core (f\<lparr>zombie := True, field_string := None, links := k\<rparr>)"
  by (cases f, cases g) (simp add: core_def)

lemma destroy_run:
  assumes i: "i \<in> dom (field_at s)" "\<not> zombie (at s i)" "owner s i = Some l" "2 \<le> links (at s i)"
    and t: "asl_field_list_unhook i (put_field i ((at s i)\<lparr>zombie := True\<rparr>) s) = Inr t"
      "same_core (put_field i ((at s i)\<lparr>zombie := True\<rparr>) s) t"
  shows "asl_field_destroy (Some i) s = Inr (destroyed i t)"
proof -
  let ?s = "put_field i ((at s i)\<lparr>zombie := True\<rparr>) s"
  have dom: "i \<in> dom (field_at t)" "i \<in> dom (field_at ?s)" using same_core_dom [OF t(2)] by simp_all
  have n: "links (at t i) = links (at s i)" "zombie (at t i)"
    using same_core_at [OF t(2)] dom by (simp_all add: put_field_at)
  have "asl_field_annihilate i ?s = Inr (put_field i ((at t i)\<lparr>links := links (at s i) - 1, field_string := None\<rparr>) t)"
    using dom i t(1) n
    by (simp add: asl_field_annihilate_def list_remove_with_def unlink_with_def get_field_in mod_field_in
        put_field_at views links_pred)
  moreover have "asl_field_free i (put_field i g t) = Inr (freed i t)" for g
    by (simp add: asl_field_free_def get_field_in flip: freed_def)
  ultimately show ?thesis
    using dom i n
    by (auto simp: asl_field_destroy_def get_field_in mod_field_in put_field_at destroyed_def links_pred
        zombie_again numeral_2_eq_2)
qed

lemma destroy_correct:
  assumes st: "list_state s L" and l: "L l = Some xs" and i: "i \<in> set xs" and two: "2 \<le> links (at s i)"
  shows "\<exists>s'. asl_field_destroy (Some i) s = Inr s' \<and> list_state s' (L(l \<mapsto> remove1 i xs)) \<and>
    same_core (destroyed i s) s'"
proof -
  let ?s = "put_field i ((at s i)\<lparr>zombie := True\<rparr>) s"
  note mem = list_state_member [OF st l i]
  from i obtain as bs where xs: "xs = as @ i # bs" and "i \<notin> set as" by (meson split_list_first)
  then have rm: "remove1 i xs = as @ bs" by (simp add: remove1_append)
  have rep: "heap_rep ?s L"
    using st mem(1) heap_rep_put [of i s] by (simp add: list_state_def views)
  from unhook_member [OF rep l [unfolded xs]] obtain t where
    t: "asl_field_list_unhook i ?s = Inr t" "same_core ?s t" "heap_rep t (L(l \<mapsto> as @ bs))"
    "owner t = (owner ?s)(i := None)" by blast
  have run: "asl_field_destroy (Some i) s = Inr (destroyed i t)"
    using destroy_run [OF mem(1,5,3) two t(1,2)] .
  have dom: "i \<in> dom (field_at t)" using same_core_dom [OF t(2)] by simp
  have rep': "heap_rep (destroyed i t) (L(l \<mapsto> as @ bs))"
  proof -
    have "heap_rep (freed i t) (L(l \<mapsto> as @ bs))" by (rule heap_rep_freed [OF t(3)]) (simp add: t(4))
    then show ?thesis using t(3) dom by (simp add: destroyed_def heap_rep_put views)
  qed
  have other: "at (destroyed i t) a = at t a" if "a \<noteq> i" for a
    using that by (simp add: destroyed_def put_field_at) (simp add: freed_def at_def)
  have "1 \<le> links (at (destroyed i t) a) \<and> \<not> zombie (at (destroyed i t) a)"
    if m: "(L(l \<mapsto> as @ bs)) m = Some ys" "a \<in> set ys" for m ys a
  proof -
    have "a \<in> set (m # ys)" using m(2) by simp
    then have "owner t a = Some m" using heap_rep_ring [OF t(3) m(1)] unfolding ring_def by blast
    then have a: "a \<noteq> i" using t(4) by auto
    have "\<exists>ys'. L m = Some ys' \<and> a \<in> set ys'" using m l xs by (auto split: if_splits)
    then have s: "a \<in> dom (field_at s)" "1 \<le> links (at s a)" "\<not> zombie (at s a)"
      using list_state_member [OF st] by blast+
    have "at ?s a = at s a" using a by (simp add: put_field_at)
    then show ?thesis using s same_core_at [OF t(2), of a] other [OF a] by simp
  qed
  with rep' have "list_state (destroyed i t) (L(l \<mapsto> as @ bs))" unfolding list_state_def by blast
  moreover have "same_core (destroyed i s) (destroyed i t)"
  proof -
    have "i \<in> dom (field_at ?s)" by simp
    then have n: "links (at t i) = links (at s i)" using same_core_at(1) [OF t(2)] by (simp add: put_field_at)
    have "field_at ?s i = Some ((at s i)\<lparr>zombie := True\<rparr>)" by (simp add: put_field_def)
    with t(2) obtain g where g: "field_at t i = Some g" "core g = core ((at s i)\<lparr>zombie := True\<rparr>)"
      by (rule same_core_field)
    then have "core ((at t i)\<lparr>zombie := True, field_string := None, links := k\<rparr>) =
        core ((at s i)\<lparr>zombie := True, field_string := None, links := k\<rparr>)" for k
      using core_destroyed [of g "at s i" k] by (simp add: at_def)
    moreover have "map_option core (field_at t a) = map_option core (field_at s a)" if "a \<noteq> i" for a
      using t(2) that by (simp add: same_core_def put_field_def)
    ultimately show ?thesis using t(2) n by (auto simp: destroyed_def same_core_def put_field_def freed_def)
  qed
  ultimately show ?thesis using run rm by auto
qed

lemma unlinked_linked [simp]: "i \<in> dom (field_at s) \<Longrightarrow> unlinked i (linked i s) = s"
  by (cases s) (auto simp: linked_def unlinked_def put_field_def at_def fun_eq_iff)

lemma unlinked_linked_other:
  "i \<in> dom (field_at s) \<Longrightarrow> i \<noteq> j \<Longrightarrow> unlinked i (linked j (linked i s)) = linked j s"
  by (cases s) (auto simp: linked_def unlinked_def put_field_def at_def fun_eq_iff)

lemma first_correct:
  assumes st: "list_state s L" and l: "L l = Some xs" and live: "live_list s l"
  shows "asl_field_list_first l s =
    Inr (case xs of [] \<Rightarrow> (None, s) | x # _ \<Rightarrow> (Some x, linked x s))"
proof -
  from live obtain lo where lo: "get_list l s = Inr lo" "\<not> list_zombie lo" using live_list_get by blast
  note r = list_state_ring [OF st l]
  have "get_field l s = Inr (at s l)" "list_next (at s l) = hd (xs @ [l])"
    using r seg_ends [of "nx s" "pv s" l xs l] by (auto simp: ring_def get_field_in views)
  then show ?thesis using lo list_state_member [OF st l]
    by (auto simp: asl_field_list_first_def link_in split: list.splits)
qed

lemma next_correct:
  assumes st: "list_state s L" and l: "L l = Some (as @ i # bs)"
  shows "asl_field_list_next i (linked i s) =
    Inr (case bs of [] \<Rightarrow> (None, s) | b # _ \<Rightarrow> (Some b, linked b s))"
proof -
  note mem = list_state_member [OF st l]
  have i: "i \<in> dom (field_at s)" "owner s i = Some l" "1 \<le> links (at s i)" using mem [of i] by auto
  have "nx s i = hd (bs @ [l])"
    using list_state_ring [OF st l] seg_ends [of "nx s" "pv s" i bs l] by (simp add: ring_def seg_append)
  then have at: "list_head (at (linked i s) i) = Some l" "list_next (at (linked i s) i) = hd (bs @ [l])"
    "1 < links (at (linked i s) i)"
    using i by (simp_all add: linked_def put_field_at views)
  show ?thesis
  proof (cases bs)
    case Nil
    then show ?thesis
      using i at unlink_keeps [of i "linked i s"]
      by (simp add: asl_field_list_next_def get_field_in asl_field_link_def Let_def)
  next
    case (Cons b cs)
    have b: "b \<noteq> l" "b \<in> dom (field_at s)" "b \<noteq> i"
      using mem [of b] Cons list_state_ring [OF st l] by (auto simp: ring_def)
    then have "links (at (linked b (linked i s)) i) = links (at (linked i s) i)"
      by (simp add: linked_def put_field_at)
    then show ?thesis
      using i at b Cons unlink_keeps [of i "linked b (linked i s)"] unlinked_linked_other [of i s b]
      by (simp add: asl_field_list_next_def get_field_in link_in Let_def)
  qed
qed

lemma last_correct:
  assumes st: "list_state s L" and l: "L l = Some xs" and live: "live_list s l"
  shows "asl_field_list_last l s =
    Inr (if xs = [] then (None, s) else (Some (last xs), linked (last xs) s))"
proof -
  from live obtain lo where lo: "get_list l s = Inr lo" "\<not> list_zombie lo" using live_list_get by blast
  note r = list_state_ring [OF st l]
  have "get_field l s = Inr (at s l)" "list_prev (at s l) = last (l # xs)"
    using r seg_ends [of "nx s" "pv s" l xs l] by (auto simp: ring_def get_field_in views)
  then show ?thesis using lo list_state_member [OF st l, of "last xs"]
    by (auto simp: asl_field_list_last_def link_in)
qed

lemma prev_correct:
  assumes st: "list_state s L" and l: "L l = Some (as @ i # bs)"
  shows "asl_field_list_prev i (linked i s) =
    Inr (if as = [] then (None, s) else (Some (last as), linked (last as) s))"
proof -
  note mem = list_state_member [OF st l]
  have i: "i \<in> dom (field_at s)" "owner s i = Some l" "1 \<le> links (at s i)" using mem [of i] by auto
  have "pv s i = last (l # as)"
    using list_state_ring [OF st l] seg_ends [of "nx s" "pv s" l as i] by (simp add: ring_def seg_append)
  then have at: "list_head (at (linked i s) i) = Some l" "list_prev (at (linked i s) i) = last (l # as)"
    "1 < links (at (linked i s) i)"
    using i by (simp_all add: linked_def put_field_at views)
  show ?thesis
  proof (cases "as = []")
    case True
    then show ?thesis
      using i at unlink_keeps [of i "linked i s"]
      by (simp add: asl_field_list_prev_def get_field_in asl_field_link_def Let_def)
  next
    case False
    let ?b = "last as"
    have "?b \<in> set as" using False by simp
    then have b: "?b \<noteq> l" "?b \<in> dom (field_at s)" "?b \<noteq> i"
      using mem [of ?b] list_state_ring [OF st l] by (auto simp: ring_def)
    then have "links (at (linked ?b (linked i s)) i) = links (at (linked i s) i)"
      by (simp add: linked_def put_field_at)
    then show ?thesis
      using i at b False unlink_keeps [of i "linked ?b (linked i s)"] unlinked_linked_other [of i s ?b]
      by (simp add: asl_field_list_prev_def get_field_in link_in Let_def)
  qed
qed

section \<open>Creating and destroying lists\<close>

lemma dropped_dom: "a \<noteq> i \<Longrightarrow> a \<in> dom (field_at (dropped i s)) \<longleftrightarrow> a \<in> dom (field_at s)"
  by (simp add: domIff dropped_other)

lemma dropped_sub: "x \<notin> set xs \<Longrightarrow> set xs \<subseteq> dom (field_at s) \<Longrightarrow> set xs \<subseteq> dom (field_at (dropped x s))"
  by (metis dropped_dom subset_iff)

lemma same_core_fold_dropped:
  assumes "same_core s t" and "distinct xs" and "set xs \<subseteq> dom (field_at s)"
  shows "same_core (fold dropped xs s) (fold dropped xs t)"
  using assms
proof (induction xs arbitrary: s t)
  case (Cons x xs)
  then have "set xs \<subseteq> dom (field_at (dropped x s))" using dropped_sub [of x xs s] by auto
  with Cons same_core_dropped [of s t x] show ?case by simp
qed simp

lemma annihilate_loop_correct:
  assumes "list_state s L" and "L l = Some xs"
  shows "\<exists>s'. list_annihilate_loop l s = Some (Inr s') \<and> list_state s' (L(l \<mapsto> [])) \<and>
    same_core (fold dropped xs s) s'"
  using assms
proof (induction xs arbitrary: s L)
  case Nil
  then have "get_field l s = Inr (at s l)" "list_next (at s l) = l"
    using list_state_ring [of s L l "[]"] by (auto simp: ring_def get_field_in views)
  with Nil show ?case by (simp add: list_annihilate_loop.simps map_upd_triv)
next
  case (Cons x xs)
  note r = list_state_ring [OF Cons.prems]
  have mem: "x \<in> dom (field_at s)" "x \<noteq> l" "1 \<le> links (at s x)"
    using list_state_member [OF Cons.prems, of x] by auto
  have n: "get_field l s = Inr (at s l)" "list_next (at s l) = x"
    using r by (auto simp: ring_def get_field_in views)
  obtain t where t: "asl_field_list_unhook x s = Inr t" "same_core s t"
    "list_state t (L(l \<mapsto> xs))" "owner t x = None"
    using unhook_state [OF Cons.prems, of x] by auto
  have x: "x \<in> dom (field_at t)" "1 \<le> links (at t x)"
    using mem same_core_dom [OF t(2)] same_core_at [OF t(2) mem(1)] by auto
  have "list_state (dropped x t) (L(l \<mapsto> xs))" by (rule list_state_dropped [OF t(3) x(1) t(4)])
  from Cons.IH [OF this] obtain s' where
    s': "list_annihilate_loop l (dropped x t) = Some (Inr s')" "list_state s' (L(l \<mapsto> []))"
    "same_core (fold dropped xs (dropped x t)) s'" by (metis fun_upd_same fun_upd_upd)
  have "set xs \<subseteq> dom (field_at (dropped x s))"
    using r dropped_sub [of x xs s] by (auto simp: ring_def)
  then have "same_core (fold dropped xs (dropped x s)) (fold dropped xs (dropped x t))"
    using r same_core_dropped [OF t(2) mem(1)] by (intro same_core_fold_dropped) (auto simp: ring_def)
  with s' show ?case
    using n mem t(1) unlink_dropped [OF x t(4)]
    by (subst list_annihilate_loop.simps) (auto intro: same_core_trans)
qed

definition list_freed :: "addr \<Rightarrow> asl_heap \<Rightarrow> asl_heap" where
  "list_freed l s = s\<lparr>list_at := (list_at s)(l := None), field_at := (field_at s)(l := None)\<rparr>"

lemma list_state_list_freed:
  assumes st: "list_state s L" and l: "L l = Some []"
  shows "list_state (list_freed l s) (L(l := None))"
proof -
  have rep: "heap_rep s L" using st by (simp add: list_state_def)
  have at: "at (list_freed l s) a = at s a" if "a \<noteq> l" for a using that by (simp add: list_freed_def at_def)
  have not_l: "l \<notin> set (m # xs)" if "m \<noteq> l" "L m = Some xs" for m xs
  proof
    assume "l \<in> set (m # xs)"
    then have "owner s l = Some m" using heap_rep_ring [OF rep that(2)] unfolding ring_def by blast
    then show False using heap_rep_ring [OF rep l] that(1) by (simp add: ring_def)
  qed
  have rings: "ring (list_freed l s) m xs" if "(L(l := None)) m = Some xs" for m xs
  proof -
    have m: "m \<noteq> l" "L m = Some xs" using that by (auto split: if_splits)
    note r = heap_rep_ring [OF rep m(2)]
    have v: "nx (list_freed l s) a = nx s a \<and> pv (list_freed l s) a = pv s a \<and> owner (list_freed l s) a = owner s a"
      if "a \<in> set (m # xs)" for a using at [of a] not_l [OF m] that by (metis views)
    then have "seg (nx (list_freed l s)) (pv (list_freed l s)) m xs m \<longleftrightarrow> seg (nx s) (pv s) m xs m"
      by (intro seg_cong) auto
    with r v not_l [OF m] show ?thesis by (auto simp: ring_def list_freed_def)
  qed
  have place: "\<forall>a\<in>dom (field_at (list_freed l s)). case owner (list_freed l s) a of
      None \<Rightarrow> nx (list_freed l s) a = a \<and> pv (list_freed l s) a = a
    | Some m \<Rightarrow> \<exists>xs. (L(l := None)) m = Some xs \<and> a \<in> set (m # xs)"
  proof
    fix a
    assume "a \<in> dom (field_at (list_freed l s))"
    then have a: "a \<noteq> l" "a \<in> dom (field_at s)" by (auto simp: list_freed_def)
    have "owner s a \<noteq> Some l" using heap_rep_owner [OF rep a(2), of l] l a(1) by simp
    then show "case owner (list_freed l s) a of
        None \<Rightarrow> nx (list_freed l s) a = a \<and> pv (list_freed l s) a = a
      | Some m \<Rightarrow> \<exists>xs. (L(l := None)) m = Some xs \<and> a \<in> set (m # xs)"
      using heap_rep_place [OF rep a(2)] at [OF a(1)] by (auto simp: views split: option.splits)
  qed
  have below: "\<forall>a\<in>dom (field_at (list_freed l s)) \<union> dom (list_at (list_freed l s)). a < next_free (list_freed l s)"
  proof -
    have "\<forall>a\<in>dom (field_at s) \<union> dom (list_at s). a < next_free s" using rep by (simp add: heap_rep_def)
    moreover have "dom (field_at (list_freed l s)) \<subseteq> dom (field_at s)"
      "dom (list_at (list_freed l s)) \<subseteq> dom (list_at s)" "next_free (list_freed l s) = next_free s"
      by (auto simp: list_freed_def)
    ultimately show ?thesis by (metis UnCI UnE subsetD)
  qed
  have "dom (list_at (list_freed l s)) = dom (L(l := None))"
    using rep by (simp add: heap_rep_def list_freed_def)
  with rings place below have "heap_rep (list_freed l s) (L(l := None))" unfolding heap_rep_def by blast
  moreover have "1 \<le> links (at (list_freed l s) a) \<and> \<not> zombie (at (list_freed l s) a)"
    if "(L(l := None)) m = Some xs" "a \<in> set xs" for m xs a
  proof -
    have m: "m \<noteq> l" "L m = Some xs" using that by (auto split: if_splits)
    then have "a \<noteq> l" using not_l [OF m] that(2) by auto
    then show ?thesis using list_state_member [OF st m(2) that(2)] at by simp
  qed
  ultimately show ?thesis unfolding list_state_def by blast
qed

lemma list_state_list_at:
  "dom f = dom (list_at s) \<Longrightarrow> list_state (s\<lparr>list_at := f\<rparr>) L \<longleftrightarrow> list_state s L"
proof -
  assume "dom f = dom (list_at s)"
  moreover have "nx (s\<lparr>list_at := f\<rparr>) = nx s" "pv (s\<lparr>list_at := f\<rparr>) = pv s" "owner (s\<lparr>list_at := f\<rparr>) = owner s"
    "at (s\<lparr>list_at := f\<rparr>) = at s"
    by (auto simp: nx_def pv_def owner_def at_def)
  ultimately show ?thesis using heap_rep_cong [of "s\<lparr>list_at := f\<rparr>" s L] by (simp add: list_state_def)
qed

text \<open>What emptying a list leaves of each field.\<close>

definition left_over :: "addr list \<Rightarrow> asl_heap \<Rightarrow> addr \<Rightarrow> asl_field option" where
  "left_over xs s a =
     (if a \<in> set xs then
        if links (at s a) = 1 then None else Some (links_update (\<lambda>n. n - 1) (at s a))
      else field_at s a)"

lemma field_at_fold_dropped:
  assumes "distinct xs" and "\<forall>a\<in>set xs. 1 \<le> links (at s a)"
  shows "field_at (fold dropped xs s) a = left_over xs s a"
  using assms
proof (induction xs arbitrary: s)
  case (Cons x xs)
  have at: "at (dropped x s) b = at s b" if "b \<noteq> x" for b using that by (simp add: at_def dropped_other)
  then have "\<forall>b\<in>set xs. 1 \<le> links (at (dropped x s) b)" using Cons.prems by (metis distinct.simps(2) list.set_intros(2))
  with Cons have "field_at (fold dropped (x # xs) s) a = left_over xs (dropped x s) a" by simp
  also have "\<dots> = left_over (x # xs) s a"
  proof (cases "a = x")
    case True
    moreover have "links (at s x) = 1 \<or> 1 < links (at s x)" using Cons.prems(2) by auto
    ultimately show ?thesis using Cons.prems(1)
      by (auto simp: left_over_def dropped_def unlinked_def freed_def put_field_def)
  next
    case False
    then show ?thesis using at [OF False] dropped_other(1) [OF False, of s] by (simp add: left_over_def)
  qed
  finally show ?case .
qed (simp add: left_over_def)

lemma list_at_fold_dropped: "list_at (fold dropped xs s) = list_at s"
  by (induction xs arbitrary: s) (simp_all add: dropped_other)

lemma list_destroy_correct:
  assumes st: "list_state s L" and l: "L l = Some xs" and lo: "list_at s l = Some \<lparr>list_links = 1, list_zombie = False\<rparr>"
  shows "\<exists>s'. asl_field_list_destroy (Some l) s = Some (Inr s') \<and> list_state s' (L(l := None)) \<and>
    (\<forall>a. a \<noteq> l \<longrightarrow> map_option core (field_at s' a) = map_option core (left_over xs s a))"
proof -
  define s1 where "s1 = s\<lparr>list_at := (list_at s)(l \<mapsto> \<lparr>list_links = 1, list_zombie = True\<rparr>)\<rparr>"
  have z: "mod_list l (list_zombie_update (\<lambda>_. True)) s = Inr s1" "get_list l s = Inr \<lparr>list_links = 1, list_zombie = False\<rparr>"
    using lo by (simp_all add: mod_list_def get_list_def s1_def)
  have "dom ((list_at s)(l \<mapsto> \<lparr>list_links = 1, list_zombie = True\<rparr>)) = dom (list_at s)" using lo by auto
  then have "list_state s1 L" unfolding s1_def using st by (simp add: list_state_list_at)
  from annihilate_loop_correct [OF this l] obtain t where
    t: "list_annihilate_loop l s1 = Some (Inr t)" "list_state t (L(l \<mapsto> []))" "same_core (fold dropped xs s1) t" by blast
  have lt: "list_at t l = Some \<lparr>list_links = 1, list_zombie = True\<rparr>"
    using t(3) by (simp add: same_core_def list_at_fold_dropped) (simp add: s1_def)
  have "list_release l t = Inr (list_freed l t)"
    using lt by (simp add: list_release_def get_list_def mod_list_def asl_field_list_free_def list_freed_def)
  then have "asl_field_list_destroy (Some l) s = Some (Inr (list_freed l t))"
    using z t(1) by (simp add: asl_field_list_destroy_def asl_field_list_annihilate_def) (simp add: get_list_def s1_def)
  moreover have "list_state (list_freed l t) (L(l := None))"
    using list_state_list_freed [OF t(2), of l] by simp
  moreover have "map_option core (field_at (list_freed l t) a) = map_option core (left_over xs s a)" if "a \<noteq> l" for a
  proof -
    have at: "at s1 = at s" "field_at s1 = field_at s" by (auto simp: s1_def at_def)
    have "field_at (fold dropped xs s1) a = left_over xs s1 a"
      using list_state_ring [OF st l] list_state_member(4) [OF st l] at
      by (intro field_at_fold_dropped) (auto simp: ring_def)
    then show ?thesis using t(3) that at by (simp add: same_core_def list_freed_def left_over_def)
  qed
  ultimately show ?thesis by blast
qed

lemma heap_rep_fresh:
  assumes "heap_rep s L" and "\<not> a < next_free s"
  shows "field_at s a = None" and "list_at s a = None" and "L a = None"
proof -
  have b: "\<forall>a\<in>dom (field_at s) \<union> dom (list_at s). a < next_free s" and d: "dom (list_at s) = dom L"
    using assms(1) by (simp_all add: heap_rep_def)
  then show "field_at s a = None" "list_at s a = None" using assms(2) by blast+
  with d show "L a = None" by blast
qed

lemma list_state_add:
  assumes st: "list_state s L" and p: "p = next_free s"
    and t: "field_at t = (field_at s)(p \<mapsto> f)" "next_free t = Suc p"
      "list_next f = p" "list_prev f = p"
    and case_p: "(list_head f = None \<and> L' = L \<and> list_at t = list_at s) \<or>
      (list_head f = Some p \<and> L' = L(p \<mapsto> []) \<and> list_at t = (list_at s)(p \<mapsto> g))"
  shows "list_state t L'"
proof -
  have rep: "heap_rep s L" using st by (simp add: list_state_def)
  have new: "field_at s p = None" "list_at s p = None" "L p = None"
    using heap_rep_fresh [OF rep, of p] p by auto
  have at: "at t a = (if a = p then f else at s a)" for a using t by (simp add: at_def)
  have old: "p \<notin> set (m # xs)" if "L m = Some xs" for m xs
    using heap_rep_ring [OF rep that] new(1) unfolding ring_def by (metis domIff subsetD)
  have r_old: "ring t m xs" if m: "L m = Some xs" for m xs
  proof -
    note r = heap_rep_ring [OF rep m]
    have v: "nx t a = nx s a \<and> pv t a = pv s a \<and> owner t a = owner s a" if "a \<in> set (m # xs)" for a
      using at [of a] old [OF m] that by (metis views)
    then have "seg (nx t) (pv t) m xs m \<longleftrightarrow> seg (nx s) (pv s) m xs m" by (intro seg_cong) auto
    with r v t(1) show ?thesis by (auto simp: ring_def)
  qed
  have rings: "ring t m xs" if "L' m = Some xs" for m xs
  proof (cases "L m = Some xs")
    case False
    with that case_p have "m = p" "xs = []" "list_head f = Some p" by (auto split: if_splits)
    with t show ?thesis by (simp add: ring_def views at)
  qed (rule r_old)
  have place: "\<forall>a\<in>dom (field_at t). case owner t a of None \<Rightarrow> nx t a = a \<and> pv t a = a
      | Some m \<Rightarrow> \<exists>xs. L' m = Some xs \<and> a \<in> set (m # xs)"
  proof
    fix a
    assume a: "a \<in> dom (field_at t)"
    show "case owner t a of None \<Rightarrow> nx t a = a \<and> pv t a = a | Some m \<Rightarrow> \<exists>xs. L' m = Some xs \<and> a \<in> set (m # xs)"
    proof (cases "a = p")
      case True
      with case_p t show ?thesis by (auto simp: views at)
    next
      case False
      with a t(1) have "a \<in> dom (field_at s)" by auto
      from heap_rep_place [OF rep this] False case_p new(3) show ?thesis
        by (auto simp: views at split: option.splits)
    qed
  qed
  have below: "\<forall>a\<in>dom (field_at t) \<union> dom (list_at t). a < next_free t"
  proof -
    have "\<forall>a\<in>dom (field_at s) \<union> dom (list_at s). a < next_free s" using rep by (simp add: heap_rep_def)
    moreover have "dom (field_at t) \<union> dom (list_at t) \<subseteq> insert p (dom (field_at s) \<union> dom (list_at s))"
      using t(1) case_p by auto
    ultimately show ?thesis using t(2) p by (metis insert_iff lessI less_SucI subsetD)
  qed
  have "dom (list_at s) = dom L" using rep by (simp add: heap_rep_def)
  then have "dom (list_at t) = dom L'" using case_p by (elim disjE) (simp_all only: dom_fun_upd option.simps if_False HOL.simp_thms)
  with rings place below have "heap_rep t L'" unfolding heap_rep_def by blast
  moreover have "1 \<le> links (at t a) \<and> \<not> zombie (at t a)" if "L' m = Some xs" "a \<in> set xs" for m xs a
  proof -
    have m: "L m = Some xs" using that case_p by (auto split: if_splits)
    then have "a \<noteq> p" using old that(2) by auto
    then show ?thesis using list_state_member [OF st m that(2)] at by simp
  qed
  ultimately show ?thesis unfolding list_state_def by blast
qed

lemma create_correct:
  assumes "list_state s L" and "asl_field_list_create s = (l, s')"
  shows "list_state s' (L(l \<mapsto> []))" and "l \<notin> dom L" and "live_list s' l"
    and "list_at s' l = Some \<lparr>list_links = 1, list_zombie = False\<rparr>"
    and "\<And>a. a \<noteq> l \<Longrightarrow> field_at s' a = field_at s a"
proof -
  have l: "l = next_free s" and s': "field_at s' = (field_at s)(l \<mapsto> at s' l)" "next_free s' = Suc l"
    "list_at s' = (list_at s)(l \<mapsto> \<lparr>list_links = 1, list_zombie = False\<rparr>)"
    "list_head (at s' l) = Some l" "list_next (at s' l) = l" "list_prev (at s' l) = l"
    using assms(2) by (auto simp: asl_field_list_create_def Let_def put_field_def at_def)
  show "list_state s' (L(l \<mapsto> []))"
    using list_state_add [OF assms(1) l s'(1,2,5,6)] s'(3,4) by blast
  show "l \<notin> dom L" using heap_rep_fresh(3) [of s L l] assms(1) l by (auto simp: list_state_def)
  show "live_list s' l" "list_at s' l = Some \<lparr>list_links = 1, list_zombie = False\<rparr>"
    "\<And>a. a \<noteq> l \<Longrightarrow> field_at s' a = field_at s a"
    using s'(1,3) by (simp_all add: live_list_def)
qed

lemma new_correct:
  assumes "list_state s L" and "asl_field_new s = (p, s')"
  shows "list_state s' L" and "free_for s' L l p" and "list_at s' = list_at s" and "p \<notin> dom (field_at s)"
    and "\<And>a. a \<noteq> p \<Longrightarrow> field_at s' a = field_at s a" and "links (at s' p) = 1"
proof -
  have p: "p = next_free s" and s': "field_at s' = (field_at s)(p \<mapsto> at s' p)" "next_free s' = Suc p"
    "list_at s' = list_at s" "list_head (at s' p) = None" "list_next (at s' p) = p" "list_prev (at s' p) = p"
    "links (at s' p) = 1" "\<not> zombie (at s' p)"
    using assms(2) by (auto simp: asl_field_new_def Let_def put_field_def at_def)
  have rep: "heap_rep s L" using assms(1) by (simp add: list_state_def)
  show "list_state s' L" using list_state_add [OF assms(1) p s'(1,2,5,6)] s'(3,4) by blast
  show "free_for s' L l p"
    using heap_rep_fresh(3) [OF rep, of p] p s'(1,4,8) by (auto simp: free_for_def views)
  show "list_at s' = list_at s" "\<And>a. a \<noteq> p \<Longrightarrow> field_at s' a = field_at s a" "links (at s' p) = 1" using s' by simp_all
  show "p \<notin> dom (field_at s)" using heap_rep_fresh(1) [OF rep, of p] p by auto
qed

section \<open>The container as an interface\<close>

text \<open>
  What a client of the container relies on: queueing appends, popping takes the first item, and both
  leave the invariant, the lists and the other items usable.  The client lemma is that the container
  is a first-in first-out queue.
\<close>

locale list_container =
  fixes inv :: "'s \<Rightarrow> ('l \<rightharpoonup> 'i list) \<Rightarrow> bool"
    and usable :: "'s \<Rightarrow> 'l \<Rightarrow> bool"
    and takes :: "'s \<Rightarrow> ('l \<rightharpoonup> 'i list) \<Rightarrow> 'l \<Rightarrow> 'i \<Rightarrow> bool"
    and queue :: "'l \<Rightarrow> 'i \<Rightarrow> 's \<Rightarrow> (int \<times> 's) c_result"
    and pop :: "'l \<Rightarrow> 's \<Rightarrow> ('i option \<times> 's) c_result"
  assumes queue_law: "\<lbrakk>inv s L; L l = Some xs; usable s l; takes s L l i; i \<notin> set xs\<rbrakk> \<Longrightarrow>
      \<exists>s'. queue l i s = Inr (0, s') \<and> inv s' (L(l \<mapsto> xs @ [i])) \<and> usable s' l \<and>
        (\<forall>j. j \<noteq> i \<and> takes s L l j \<longrightarrow> takes s' (L(l \<mapsto> xs @ [i])) l j)"
    and pop_law: "\<lbrakk>inv s L; L l = Some (x # xs); usable s l\<rbrakk> \<Longrightarrow>
      \<exists>s'. pop l s = Inr (Some x, s') \<and> inv s' (L(l \<mapsto> xs)) \<and> usable s' l"
    and pop_empty: "\<lbrakk>inv s L; L l = Some []; usable s l\<rbrakk> \<Longrightarrow> pop l s = Inr (None, s)"
begin

fun queue_all :: "'l \<Rightarrow> 'i list \<Rightarrow> 's \<Rightarrow> 's c_result" where
  "queue_all l [] s = Inr s"
| "queue_all l (i # is) s = c_bind (queue l i s) (\<lambda>(rc, s). queue_all l is s)"

fun pop_all :: "nat \<Rightarrow> 'l \<Rightarrow> 's \<Rightarrow> ('i option list \<times> 's) c_result" where
  "pop_all 0 l s = Inr ([], s)"
| "pop_all (Suc n) l s =
     c_bind (pop l s) (\<lambda>(i, s). c_bind (pop_all n l s) (\<lambda>(is, s). Inr (i # is, s)))"

lemma queue_all_appends:
  assumes "inv s L" and "L l = Some xs" and "usable s l" and "\<forall>i\<in>set is. takes s L l i"
    and "distinct is" and "set is \<inter> set xs = {}"
  shows "\<exists>s'. queue_all l is s = Inr s' \<and> inv s' (L(l \<mapsto> xs @ is)) \<and> usable s' l"
  using assms
proof (induction "is" arbitrary: s L xs)
  case Nil
  then show ?case by (simp add: map_upd_triv)
next
  case (Cons i "is")
  let ?L = "L(l \<mapsto> xs @ [i])"
  obtain t where t: "queue l i s = Inr (0, t)" "inv t ?L" "usable t l"
    "\<forall>j. j \<noteq> i \<and> takes s L l j \<longrightarrow> takes t ?L l j"
    using queue_law [of s L l xs i] Cons.prems by auto
  have "\<forall>j\<in>set is. takes t ?L l j" using t(4) Cons.prems(4,5) by auto
  moreover have "distinct is" "set is \<inter> set (xs @ [i]) = {}" using Cons.prems(5,6) by auto
  ultimately have "\<exists>s'. queue_all l is t = Inr s' \<and> inv s' (?L(l \<mapsto> (xs @ [i]) @ is)) \<and> usable s' l"
    using Cons.IH [OF t(2) fun_upd_same t(3)] by blast
  with t(1) show ?case unfolding fun_upd_upd by (simp del: fun_upd_apply)
qed

lemma pop_all_takes:
  assumes "inv s L" and "L l = Some (xs @ ys)" and "usable s l"
  shows "\<exists>s'. pop_all (length xs) l s = Inr (map Some xs, s') \<and> inv s' (L(l \<mapsto> ys)) \<and> usable s' l"
  using assms
proof (induction xs arbitrary: s L)
  case Nil
  then show ?case by (simp add: map_upd_triv)
next
  case (Cons x xs)
  obtain t where t: "pop l s = Inr (Some x, t)" "inv t (L(l \<mapsto> xs @ ys))" "usable t l"
    using pop_law [of s L l x "xs @ ys"] Cons.prems by auto
  have "\<exists>s'. pop_all (length xs) l t = Inr (map Some xs, s') \<and> inv s' (L(l \<mapsto> xs @ ys, l \<mapsto> ys)) \<and> usable s' l"
    by (rule Cons.IH [OF t(2) _ t(3)]) simp
  with t(1) show ?case unfolding fun_upd_upd by (auto simp del: fun_upd_apply)
qed

lemma fifo:
  assumes "inv s L" and "L l = Some []" and "usable s l" and "\<forall>i\<in>set is. takes s L l i" and "distinct is"
  shows "\<exists>s' s''. queue_all l is s = Inr s' \<and> pop_all (length is) l s' = Inr (map Some is, s'') \<and>
    inv s'' L \<and> pop l s'' = Inr (None, s'')"
proof -
  obtain s' where s': "queue_all l is s = Inr s'" "inv s' (L(l \<mapsto> is))" "usable s' l"
    using queue_all_appends [OF assms(1-5)] by auto
  then obtain s'' where s'': "pop_all (length is) l s' = Inr (map Some is, s'')" "inv s'' (L(l \<mapsto> []))" "usable s'' l"
    using pop_all_takes [of s' "L(l \<mapsto> is)" l "is" "[]"] unfolding fun_upd_upd by auto
  have "L(l \<mapsto> []) = L" using assms(2) by (simp add: map_upd_triv)
  with s' s'' pop_empty [of s'' L l] assms(2) show ?thesis by auto
qed

end

lemma free_for_keep:
  assumes st: "list_state s' (L(l \<mapsto> ys))" "list_state s L" "L l = Some xs" and ys: "set ys \<subseteq> insert i (set xs)"
    and same: "same_core (claimed i xs s) s'" and j: "j \<noteq> i" "free_for s L l j" and i: "i \<in> dom (field_at s)"
  shows "free_for s' (L(l \<mapsto> ys)) l j"
proof -
  have d: "dom (field_at s') = dom (field_at s)"
    using same_core_dom [OF same] i by (auto simp: claimed_def insert_absorb)
  have jd: "j \<in> dom (field_at s)" "j \<notin> dom L" and own: "owner s j \<in> {None, Some l}" using j(2) by (auto simp: free_for_def)
  have "zombie (at s' j) = zombie (at (claimed i xs s) j)"
    using same_core_at(2) [OF same, of j] jd by (simp add: claimed_def)
  then have z: "\<not> zombie (at s' j)"
    using j by (auto simp: free_for_def claimed_def linked_def put_field_at split: if_splits)
  have "owner s' j = Some m \<Longrightarrow> m = l" for m
  proof -
    assume "owner s' j = Some m"
    then obtain zs where zs: "(L(l \<mapsto> ys)) m = Some zs" "j \<in> set (m # zs)"
      using heap_rep_owner [of s' "L(l \<mapsto> ys)" j m] st(1) jd d by (auto simp: list_state_def)
    show "m = l"
    proof (rule ccontr)
      assume "m \<noteq> l"
      with zs have "L m = Some zs" "j \<in> set (m # zs)" by simp_all
      then have "owner s j = Some m"
        using heap_rep_owner [of s L j m] st(2) jd by (auto simp: list_state_def)
      with own \<open>m \<noteq> l\<close> show False by simp
    qed
  qed
  then have "owner s' j \<in> {None, Some l}" by (cases "owner s' j") auto
  with d jd z assms(3) show ?thesis by (auto simp: free_for_def)
qed

interpretation fields: list_container list_state live_list free_for asl_field_list_queue asl_field_list_pop
proof
  fix s L l xs i
  assume a: "list_state s L" "L l = Some xs" "live_list s l" "free_for s L l i" "i \<notin> set xs"
  then obtain s' where s': "asl_field_list_queue l i s = Inr (0, s')"
    "list_state s' (L(l \<mapsto> xs @ [i]))" "same_core (claimed i xs s) s'"
    using queue_correct [OF a(1-4)] by (auto simp: remove1_idem)
  have i: "i \<in> dom (field_at s)" using a(4) by (simp add: free_for_def)
  have "live_list s' l" using a(3) same_core_live [OF s'(3), of l] by (simp add: claimed_def live_list_def)
  with s' free_for_keep [OF s'(2) a(1,2) _ s'(3) _ _ i]
  show "\<exists>s'. asl_field_list_queue l i s = Inr (0, s') \<and> list_state s' (L(l \<mapsto> xs @ [i])) \<and> live_list s' l \<and>
      (\<forall>j. j \<noteq> i \<and> free_for s L l j \<longrightarrow> free_for s' (L(l \<mapsto> xs @ [i])) l j)"
    by auto
next
  fix s L l x xs
  assume "list_state s L" "L l = Some (x # xs)" "live_list s l"
  then show "\<exists>s'. asl_field_list_pop l s = Inr (Some x, s') \<and> list_state s' (L(l \<mapsto> xs)) \<and> live_list s' l"
    using pop_correct [of s L l "x # xs"] same_core_live by fastforce
next
  fix s L l
  assume "list_state s L" "L l = Some []" "live_list s l"
  then show "asl_field_list_pop l s = Inr (None, s)" using pop_correct [of s L l "[]"] by simp
qed

section \<open>Properties\<close>

definition empty_heap :: asl_heap where
  "empty_heap = \<lparr>field_at = Map.empty, list_at = Map.empty, next_free = 0\<rparr>"

text \<open>A heap with one list at address 0 and one field at address 1, not yet in the list.\<close>

definition small_heap :: asl_heap where
  "small_heap = snd (asl_field_new (snd (asl_field_list_create empty_heap)))"

lemma list_state_empty: "list_state empty_heap Map.empty"
  by (simp add: empty_heap_def list_state_def heap_rep_def)

lemma small_heap_state:
  "list_state small_heap [0 \<mapsto> []]" "live_list small_heap 0" "free_for small_heap [0 \<mapsto> []] 0 1"
  "list_at small_heap 0 = Some \<lparr>list_links = 1, list_zombie = False\<rparr>"
proof -
  obtain l s where s: "asl_field_list_create empty_heap = (l, s)" by fastforce
  have l: "l = 0" "next_free s = 1" using s by (auto simp: asl_field_list_create_def empty_heap_def Let_def put_field_def)
  note c = create_correct [OF list_state_empty s, unfolded l]
  obtain p t where t: "asl_field_new s = (p, t)" by fastforce
  then have p: "p = 1" "t = small_heap" using l by (auto simp: asl_field_new_def Let_def small_heap_def s)
  note n = new_correct [OF c(1) t, unfolded p]
  show "list_state small_heap [0 \<mapsto> []]" "live_list small_heap 0" "free_for small_heap [0 \<mapsto> []] 0 1"
    "list_at small_heap 0 = Some \<lparr>list_links = 1, list_zombie = False\<rparr>"
    using n c(3,4) by (simp_all add: live_list_def)
qed

text \<open>
  C24. On a heap that represents lists, the operations of the container act on the item sequences as
  their names say: queueing moves or appends the item to the end, pushing to the front, relinking
  in front of the given other item, and removing takes it out.  Every other list keeps its items,
  no object changes except the item's link count, which grows by one exactly when the item was in
  no list, and removing frees the item exactly when the list held its last link.
\<close>

theorem list_operations_refine:
  assumes "list_state s L" and "L l = Some xs" and "live_list s l" and "free_for s L l i"
  shows "(\<exists>s'. asl_field_list_queue l i s = Inr (0, s') \<and>
      list_state s' (L(l \<mapsto> remove1 i xs @ [i])) \<and> same_core (claimed i xs s) s') \<and>
    (\<exists>s'. asl_field_list_push l i s = Inr (0, s') \<and>
      list_state s' (L(l \<mapsto> i # remove1 i xs)) \<and> same_core (claimed i xs s) s') \<and>
    (\<forall>as w bs. remove1 i xs = as @ w # bs \<and> w \<noteq> i \<longrightarrow>
      (\<exists>s'. asl_field_list_relink_before i w s = Inr (0, s') \<and>
        list_state s' (L(l \<mapsto> as @ i # w # bs)) \<and> same_core (claimed i xs s) s')) \<and>
    (i \<in> set xs \<longrightarrow>
      (\<exists>s'. asl_field_list_remove i s = Inr s' \<and> list_state s' (L(l \<mapsto> remove1 i xs)) \<and>
        same_core (dropped i s) s'))"
  using queue_correct [OF assms] push_correct [OF assms] relink_before_correct [OF assms]
    remove_correct [OF assms(1,2)] by blast

theorem list_operations_refine_witness:
  "\<exists>s'. asl_field_list_queue 0 1 small_heap = Inr (0, s') \<and> list_state s' [0 \<mapsto> [1]]"
  using list_operations_refine [OF small_heap_state(1) _ small_heap_state(2,3), of "[]"] by auto

text \<open>
  The container is a first-in first-out queue: from an empty list, queueing any distinct free
  items one after the other and popping as many times gives exactly these items in the order they
  were queued, after which the list is empty again and a further pop returns null.
\<close>

theorem list_fifo:
  assumes "list_state s L" and "L l = Some []" and "live_list s l"
    and "\<forall>i\<in>set is. free_for s L l i" and "distinct is"
  shows "\<exists>s' s''. list_container.queue_all asl_field_list_queue l is s = Inr s' \<and>
    list_container.pop_all asl_field_list_pop (length is) l s' = Inr (map Some is, s'') \<and>
    list_state s'' L \<and> asl_field_list_pop l s'' = Inr (None, s'')"
  using assms by (rule fields.fifo)

theorem list_fifo_witness:
  "\<exists>s' s''. list_container.queue_all asl_field_list_queue 0 [1] small_heap = Inr s' \<and>
    list_container.pop_all asl_field_list_pop 1 0 s' = Inr ([Some 1], s'') \<and>
    list_state s'' [0 \<mapsto> []] \<and> asl_field_list_pop 0 s'' = Inr (None, s'')"
  using list_fifo [OF small_heap_state(1) _ small_heap_state(2), of "[1]"] small_heap_state(3) by simp

text \<open>
  C25. Destruction releases what the list owns and nothing else.  Destroying a field that its list and
  the caller hold takes it out of the list and frees it (with more links it stays as a zombie).
  Destroying a list object ends, removes the list, frees exactly the items the list was the last to
  hold, and leaves the others with one link less, in no list.
\<close>

theorem list_destroy_releases:
  assumes "list_state s L" and "L l = Some xs"
  shows "(\<forall>i\<in>set xs. 2 \<le> links (at s i) \<longrightarrow>
      (\<exists>s'. asl_field_destroy (Some i) s = Inr s' \<and> list_state s' (L(l \<mapsto> remove1 i xs)) \<and>
        same_core (destroyed i s) s')) \<and>
    (list_at s l = Some \<lparr>list_links = 1, list_zombie = False\<rparr> \<longrightarrow>
      (\<exists>s'. asl_field_list_destroy (Some l) s = Some (Inr s') \<and> list_state s' (L(l := None)) \<and>
        (\<forall>a. a \<noteq> l \<longrightarrow> map_option core (field_at s' a) = map_option core (left_over xs s a))))"
  using destroy_correct [OF assms] list_destroy_correct [OF assms] by blast

theorem list_destroy_releases_witness:
  "\<exists>s'. asl_field_list_destroy (Some 0) small_heap = Some (Inr s') \<and> list_state s' Map.empty"
  using list_destroy_releases [OF small_heap_state(1), of 0 "[]"] small_heap_state(4) by auto

text \<open>
  Relinking an item before itself loses it: the call reports success, but the item is in no list
  any more while it keeps the list's link, so nothing will free it.
\<close>

theorem relink_before_itself:
  assumes st: "list_state s L" and l: "L l = Some xs" and live: "live_list s l" and i: "i \<in> set xs"
  shows "\<exists>s'. asl_field_list_relink_before i i s = Inr (0, s') \<and>
    list_state s' (L(l \<mapsto> remove1 i xs)) \<and> same_core s s' \<and> owner s' i = None"
proof -
  from live obtain lo where lo: "get_list l s = Inr lo" "\<not> list_zombie lo" using live_list_get by blast
  note mem = list_state_member [OF st l i]
  obtain t where t: "asl_field_list_unhook i s = Inr t" "same_core s t"
    "list_state t (L(l \<mapsto> remove1 i xs))" "owner t i = None" by (rule unhook_state [OF st l i])
  have dom: "i \<in> dom (field_at t)" using mem(1) same_core_dom [OF t(2)] by simp
  have self: "nx t i = i" "pv t i = i"
    using heap_rep_detached [of t _ i] t(3,4) dom by (auto simp: list_state_def)
  obtain u where u: "asl_field_list_rehook i i i t = Inr u" "same_core t u" "nx u = nx t" "pv u = pv t" "owner u = owner t"
    by (rule rehook_effect [OF dom dom dom]) simp
  have "dom (list_at u) = dom (list_at t)" "next_free u = next_free t" using u(2) by (simp_all add: same_core_def)
  then have "heap_rep u (L(l \<mapsto> remove1 i xs))"
    using heap_rep_cong [OF u(3-5) same_core_dom [OF u(2)]] t(3) by (simp add: list_state_def)
  moreover have "1 \<le> links (at u a) \<and> \<not> zombie (at u a)"
    if "(L(l \<mapsto> remove1 i xs)) m = Some ys" "a \<in> set ys" for m ys a
    using list_state_member [OF t(3) that] same_core_at [OF u(2), of a] by simp
  ultimately have "list_state u (L(l \<mapsto> remove1 i xs))" unfolding list_state_def by blast
  moreover have "asl_field_list_relink_before i i s = Inr (0, u)"
    using lo mem t(1) dom self u(1)
    by (simp add: asl_field_list_relink_before_def list_claim_def get_field_in views)
  ultimately show ?thesis using t(2,4) u(2,5) same_core_trans by auto
qed

theorem relink_before_itself_witness:
  "\<exists>s s'. list_state s [0 \<mapsto> [1]] \<and> asl_field_list_relink_before 1 1 s = Inr (0, s') \<and> list_state s' [0 \<mapsto> []]"
proof -
  obtain s where s: "list_state s [0 \<mapsto> [1]]" "same_core (claimed 1 [] small_heap) s"
    using queue_correct [OF small_heap_state(1) _ small_heap_state(2,3), of "[]"] by auto
  have "live_list s 0" using same_core_live [OF s(2), of 0] small_heap_state(2) by (simp add: claimed_def live_list_def)
  with relink_before_itself [OF s(1), of 0 "[1]" 1] s(1) show ?thesis by auto
qed

end
