(* ===== verification/Asl_Field.thy ===== *)
theory Asl_Field
  imports Asl_List Icl_Shortstr
begin

text \<open>
  AMQP fields and field tables, \<^verbatim>\<open>tooling/base2/asl/asl_field.c\<close> and \<^verbatim>\<open>asl_field_list.c\<close>: typed
  name-value pairs that the broker keeps as lists and sends as byte strings.  This theory models
  the constructors, the wire format in both directions and the list-level operations on the heap of
  \<open>Asl_Object\<close>.  A C string is the list of its bytes without the terminating null.  Formatting
  (\<^verbatim>\<open>apr_vsnprintf\<close>) and the floating-point division of decimals are parameters.
\<close>

section \<open>Constants and byte order\<close>

definition ASL_FIELD_TYPE_STRING :: byte where "ASL_FIELD_TYPE_STRING = 83"
definition ASL_FIELD_TYPE_INTEGER :: byte where "ASL_FIELD_TYPE_INTEGER = 73"
definition ASL_FIELD_TYPE_DECIMAL :: byte where "ASL_FIELD_TYPE_DECIMAL = 68"
definition ASL_FIELD_TYPE_TIME :: byte where "ASL_FIELD_TYPE_TIME = 84"
definition ASL_FIELD_TYPE_FIELD_TABLE :: byte where "ASL_FIELD_TYPE_FIELD_TABLE = 70"
definition ASL_FIELD_TYPE_VOID :: byte where "ASL_FIELD_TYPE_VOID = 86"
definition ASL_FIELD_NAME_MAX :: nat where "ASL_FIELD_NAME_MAX = 128"
definition ASL_LSTR_HSIZE :: nat where "ASL_LSTR_HSIZE = 4"

lemmas field_consts = ASL_FIELD_TYPE_STRING_def ASL_FIELD_TYPE_INTEGER_def ASL_FIELD_TYPE_DECIMAL_def
  ASL_FIELD_TYPE_TIME_def ASL_FIELD_TYPE_FIELD_TABLE_def ASL_FIELD_TYPE_VOID_def ASL_LSTR_HSIZE_def

definition ASL_FIELD_PUT_LONG :: "int \<Rightarrow> byte list" where
  "ASL_FIELD_PUT_LONG host =
     [word_of_int (host div 2 ^ 24), word_of_int (host div 2 ^ 16), word_of_int (host div 2 ^ 8), word_of_int host]"

text \<open>The bytes are added up as a 32-bit signed \<^verbatim>\<open>int\<close>, so a first byte of 128 or more makes it negative.\<close>

definition ASL_FIELD_GET_LONG :: "byte list \<Rightarrow> nat \<Rightarrow> int c_result" where
  "ASL_FIELD_GET_LONG net i =
     c_bind (mem_get net i 4) (\<lambda>bs.
     let u = uint (bs ! 0) * 2 ^ 24 + uint (bs ! 1) * 2 ^ 16 + uint (bs ! 2) * 2 ^ 8 + uint (bs ! 3)
     in Inr (if u < 2 ^ 31 then u else u - 2 ^ 32))"

text \<open>A length read that way is stored in a \<^verbatim>\<open>size_t\<close>.\<close>

definition size_of_long :: "int \<Rightarrow> nat" where
  "size_of_long n = nat (n mod 2 ^ 64)"

section \<open>Creating fields\<close>

text \<open>
  The common course of the constructors: the name must not be too long; a new object is filled in,
  queued at the end of the list, which takes a link, and the constructor's own link is given up.
\<close>

definition field_add :: "addr \<Rightarrow> byte list \<Rightarrow> (asl_field \<Rightarrow> asl_field) \<Rightarrow> asl_heap \<Rightarrow> asl_heap c_result" where
  "field_add l name fill s =
     (if ASL_FIELD_NAME_MAX < length name then Inl Assert_Failed
      else
        let (p, s) = asl_field_new s in
        c_bind (mod_field p (\<lambda>f. fill (f\<lparr>field_name := name\<rparr>)) s) (\<lambda>s.
        c_bind (asl_field_list_queue l p s) (\<lambda>(rc, s).
          asl_field_unlink (Some p) s)))"

definition asl_field_new_string :: "memory_junk \<Rightarrow> addr \<Rightarrow> byte list \<Rightarrow> byte list \<Rightarrow> asl_heap \<Rightarrow> asl_heap c_result" where
  "asl_field_new_string junk l name value s =
     c_bind (icl_longstr_new junk (Some (value @ [0])) (length value + 1)) (\<lambda>str.
       field_add l name (\<lambda>f. f\<lparr>field_type := ASL_FIELD_TYPE_STRING, field_string := Some str\<rparr>) s)"

definition asl_field_new_longstr :: "memory_junk \<Rightarrow> addr \<Rightarrow> byte list \<Rightarrow> icl_longstr option \<Rightarrow> asl_heap \<Rightarrow> asl_heap c_result" where
  "asl_field_new_longstr junk l name value s =
     c_bind (icl_longstr_dup junk value) (\<lambda>str.
       field_add l name (\<lambda>f. f\<lparr>field_type := ASL_FIELD_TYPE_STRING, field_string := str\<rparr>) s)"

definition asl_field_new_integer :: "addr \<Rightarrow> byte list \<Rightarrow> int \<Rightarrow> asl_heap \<Rightarrow> asl_heap c_result" where
  "asl_field_new_integer l name value =
     field_add l name (\<lambda>f. f\<lparr>field_type := ASL_FIELD_TYPE_INTEGER, field_integer := value\<rparr>)"

definition asl_field_new_decimal :: "addr \<Rightarrow> byte list \<Rightarrow> int \<Rightarrow> int \<Rightarrow> asl_heap \<Rightarrow> asl_heap c_result" where
  "asl_field_new_decimal l name value dec =
     field_add l name (\<lambda>f. f\<lparr>field_type := ASL_FIELD_TYPE_DECIMAL, field_integer := value,
       decimals := word_of_int dec\<rparr>)"

definition asl_field_new_time :: "addr \<Rightarrow> byte list \<Rightarrow> int \<Rightarrow> asl_heap \<Rightarrow> asl_heap c_result" where
  "asl_field_new_time l name value =
     field_add l name (\<lambda>f. f\<lparr>field_type := ASL_FIELD_TYPE_TIME, field_integer := value\<rparr>)"

definition asl_field_new_void :: "addr \<Rightarrow> byte list \<Rightarrow> asl_heap \<Rightarrow> asl_heap c_result" where
  "asl_field_new_void l name = field_add l name (\<lambda>f. f\<lparr>field_type := ASL_FIELD_TYPE_VOID\<rparr>)"

section \<open>Writing a field\<close>

definition asl_field_flat_size :: "asl_field \<Rightarrow> int c_result" where
  "asl_field_flat_size self =
     (if zombie self then Inr (- 1)
      else
        let rc = int (length (field_name self)) + 2; t = field_type self in
        if t = ASL_FIELD_TYPE_STRING \<or> t = ASL_FIELD_TYPE_FIELD_TABLE then
          (case field_string self of
             None \<Rightarrow> Inl Null_Pointer
           | Some str \<Rightarrow> Inr (rc + int (cur_size str) + int ASL_LSTR_HSIZE))
        else if t = ASL_FIELD_TYPE_INTEGER \<or> t = ASL_FIELD_TYPE_TIME then Inr (rc + 4)
        else if t = ASL_FIELD_TYPE_DECIMAL then Inr (rc + 4 + 1)
        else Inr rc)"

text \<open>The value part; nothing for a field of unknown type, which makes the call fail.\<close>

definition value_bytes :: "asl_field \<Rightarrow> byte list option c_result" where
  "value_bytes self =
     (let t = field_type self in
      if t = ASL_FIELD_TYPE_STRING \<or> t = ASL_FIELD_TYPE_FIELD_TABLE then
        (case field_string self of
           None \<Rightarrow> Inl Null_Pointer
         | Some str \<Rightarrow>
             c_bind (mem_get (ls_data str) 0 (cur_size str)) (\<lambda>bs.
               Inr (Some (ASL_FIELD_PUT_LONG (int (cur_size str)) @ bs))))
      else if t = ASL_FIELD_TYPE_INTEGER \<or> t = ASL_FIELD_TYPE_TIME then
        Inr (Some (ASL_FIELD_PUT_LONG (field_integer self)))
      else if t = ASL_FIELD_TYPE_DECIMAL then
        Inr (Some (decimals self # ASL_FIELD_PUT_LONG (field_integer self)))
      else if t = ASL_FIELD_TYPE_VOID then Inr (Some [])
      else Inr None)"

definition header_bytes :: "asl_field \<Rightarrow> byte list" where
  "header_bytes self = word_of_nat (length (field_name self)) # field_name self @ [field_type self]"

definition asl_field_flatten :: "asl_field \<Rightarrow> icl_longstr \<Rightarrow> (int \<times> icl_longstr) c_result" where
  "asl_field_flatten self string =
     (if zombie self then Inr (- 1, string)
      else
        c_bind (asl_field_flat_size self) (\<lambda>n.
        if int (cur_size string) + n \<le> int (max_size string) then
          c_bind (value_bytes self) (\<lambda>v.
          case v of
            None \<Rightarrow>
              c_bind (mem_put (ls_data string) (cur_size string) (header_bytes self)) (\<lambda>d.
                Inr (- 1, string\<lparr>ls_data := d\<rparr>))
          | Some bs \<Rightarrow>
              c_bind (mem_put (ls_data string) (cur_size string) (header_bytes self @ bs)) (\<lambda>d.
                Inr (0, \<lparr>cur_size = cur_size string + length (header_bytes self @ bs), ls_data = d\<rparr>)))
        else Inr (- 1, string)))"

section \<open>Reading a field\<close>

text \<open>
  Reading the value of a field whose type octet has been read: the object filled in, and the end of
  the field with the position reached.  The end is \<open>None\<close> when the type is not known.
\<close>

definition value_read :: "byte list \<Rightarrow> nat \<Rightarrow> asl_field \<Rightarrow> (asl_field \<times> nat option \<times> nat) c_result" where
  "value_read data input self =
     (let t = field_type self in
      if t = ASL_FIELD_TYPE_STRING then
        c_bind (ASL_FIELD_GET_LONG data input) (\<lambda>n.
        let string_size = size_of_long n; input = input + 4 in
        c_bind (mem_get data input string_size) (\<lambda>bs.
        let input = input + string_size in
        Inr (self\<lparr>field_string := Some \<lparr>cur_size = string_size, ls_data = bs @ [0]\<rparr>\<rparr>, Some input, input)))
      else if t = ASL_FIELD_TYPE_INTEGER \<or> t = ASL_FIELD_TYPE_TIME then
        c_bind (ASL_FIELD_GET_LONG data input) (\<lambda>n.
        let input = input + 4 in Inr (self\<lparr>field_integer := n\<rparr>, Some input, input))
      else if t = ASL_FIELD_TYPE_DECIMAL then
        c_bind (c_read data input) (\<lambda>d.
        let input = input + 1 in
        c_bind (ASL_FIELD_GET_LONG data input) (\<lambda>n.
        let input = input + 4 in Inr (self\<lparr>decimals := d, field_integer := n\<rparr>, Some input, input)))
      else if t = ASL_FIELD_TYPE_FIELD_TABLE then
        c_bind (ASL_FIELD_GET_LONG data input) (\<lambda>n.
        let string_size = size_of_long n; input = input + 4 in
        c_bind (mem_get data input string_size) (\<lambda>bs.
        let input = input + string_size in
        Inr (self\<lparr>field_string := Some \<lparr>cur_size = string_size, ls_data = bs\<rparr>\<rparr>, Some input, input)))
      else if t = ASL_FIELD_TYPE_VOID then Inr (self, Some input, input)
      else c_bind (c_read data input) (\<lambda>_. Inr (self, None, input)))"

text \<open>
  The reading part of \<^verbatim>\<open>asl_field_parse\<close>.  The position is compared with the limit only after the
  name has been copied, by an assertion, and after the value has been copied.
\<close>

definition field_read :: "byte list \<Rightarrow> nat \<Rightarrow> nat \<Rightarrow> asl_field \<Rightarrow> (asl_field \<times> nat option \<times> nat) c_result" where
  "field_read data input limit self =
     c_bind (c_read data input) (\<lambda>string_size.
     let string_size = unat string_size; input = input + 1 in
     c_bind (mem_get data input string_size) (\<lambda>name.
     let input = input + string_size in
     if \<not> input \<le> limit then Inl Assert_Failed
     else
       c_bind (c_read data input) (\<lambda>t.
         value_read data (input + 1) (self\<lparr>field_name := takeWhile (\<lambda>b. b \<noteq> 0) name, field_type := t\<rparr>))))"

definition asl_field_parse :: "addr \<Rightarrow> byte list \<Rightarrow> nat \<Rightarrow> nat \<Rightarrow> asl_heap \<Rightarrow> (nat option \<times> asl_heap) c_result" where
  "asl_field_parse l data input limit s =
     (let (p, s) = asl_field_new s in
      c_bind (get_field p s) (\<lambda>f.
      c_bind (field_read data input limit f) (\<lambda>(f, field_end, input).
      let s = put_field p f s in
      if field_end = None \<or> limit < input then
        c_bind (asl_field_destroy (Some p) s) (\<lambda>s.
        c_bind (asl_field_unlink None s) (\<lambda>s. Inr (None, s)))
      else
        c_bind (asl_field_list_queue l p s) (\<lambda>(rc, s).
        c_bind (asl_field_unlink (Some p) s) (\<lambda>s. Inr (field_end, s))))))"

section \<open>The text of a field\<close>

text \<open>
  The value as a string: for a string field its own bytes with the nulls before the last byte replaced
  by 255 (the loop counts in \<^verbatim>\<open>int\<close>, so not at all for sizes from \<open>2 ^ 31\<close>), for any other type
  the result of formatting.  \<open>fmt\<close> gives the \<^verbatim>\<open>apr_vsnprintf\<close> call made for a field.  The result is
  the field with its string changed and the data pointer's bytes.
\<close>

definition suppress_nulls :: "icl_longstr \<Rightarrow> icl_longstr c_result" where
  "suppress_nulls str =
     (let n = (if cur_size str < 2 ^ 31 then cur_size str - 1 else 0) in
      c_bind (mem_get (ls_data str) 0 n) (\<lambda>bs.
        Inr (str\<lparr>ls_data := map (\<lambda>b. if b = 0 then 255 else b) bs @ drop n (ls_data str)\<rparr>)))"

definition asl_field_string ::
    "memory_junk \<Rightarrow> (asl_field \<Rightarrow> formatter) \<Rightarrow> asl_field \<Rightarrow> (asl_field \<times> byte list) c_result" where
  "asl_field_string junk fmt self =
     (let t = field_type self in
      if t = ASL_FIELD_TYPE_STRING then
        (case field_string self of
           None \<Rightarrow> Inl Null_Pointer
         | Some str \<Rightarrow>
             c_bind (suppress_nulls str) (\<lambda>str. Inr (self\<lparr>field_string := Some str\<rparr>, ls_data str)))
      else
        c_bind (case field_string self of None \<Rightarrow> icl_longstr_new junk None 30 | Some str \<Rightarrow> Inr str) (\<lambda>str.
        c_bind (if t \<in> {ASL_FIELD_TYPE_INTEGER, ASL_FIELD_TYPE_DECIMAL, ASL_FIELD_TYPE_TIME,
                         ASL_FIELD_TYPE_FIELD_TABLE, ASL_FIELD_TYPE_VOID}
                then icl_longstr_fmt junk (fmt self) str else Inr str) (\<lambda>str.
          Inr (self\<lparr>field_string := Some str\<rparr>, ls_data str))))"

text \<open>The C string at that pointer.\<close>

definition c_chars :: "byte list \<Rightarrow> string c_result" where
  "c_chars data =
     (if 0 \<in> set data then Inr (map (\<lambda>b. char_of (unat b)) (takeWhile (\<lambda>b. b \<noteq> 0) data))
      else Inl Out_Of_Bounds)"

definition field_text :: "memory_junk \<Rightarrow> (asl_field \<Rightarrow> formatter) \<Rightarrow> asl_field \<Rightarrow> string c_result" where
  "field_text junk fmt f = c_bind (asl_field_string junk fmt f) (\<lambda>(f, data). c_chars data)"

section \<open>Field lists\<close>

partial_function (option) list_parse_loop ::
  "addr \<Rightarrow> byte list \<Rightarrow> nat \<Rightarrow> nat \<Rightarrow> asl_heap \<Rightarrow> (int \<times> asl_heap) c_result option" where
  "list_parse_loop l data input limit s =
     (if input < limit then
        (case asl_field_parse l data input limit s of
           Inl e \<Rightarrow> Some (Inl e)
         | Inr (None, s') \<Rightarrow> Some (Inr (- 1, s'))
         | Inr (Some input', s') \<Rightarrow> list_parse_loop l data input' limit s')
      else Some (Inr (0, s)))"

declare list_parse_loop.simps [code]

definition asl_field_list_parse :: "addr \<Rightarrow> icl_longstr \<Rightarrow> asl_heap \<Rightarrow> (int \<times> asl_heap) c_result option" where
  "asl_field_list_parse l field_table s =
     (case get_list l s of
        Inl e \<Rightarrow> Some (Inl e)
      | Inr lo \<Rightarrow>
          if list_zombie lo then Some (Inr (- 1, s))
          else list_parse_loop l (ls_data field_table) 0 (cur_size field_table) s)"

definition asl_field_list_new :: "icl_longstr option \<Rightarrow> asl_heap \<Rightarrow> (addr option \<times> asl_heap) c_result option" where
  "asl_field_list_new field_table s =
     (let (l, s) = asl_field_list_create s in
      case field_table of
        None \<Rightarrow> Some (Inr (Some l, s))
      | Some table \<Rightarrow>
          Option.bind (asl_field_list_parse l table s) (\<lambda>r.
          case r of
            Inl e \<Rightarrow> Some (Inl e)
          | Inr (rc, s) \<Rightarrow>
              if rc \<noteq> 0 then map_option (\<lambda>r. c_bind r (\<lambda>s. Inr (None, s))) (asl_field_list_destroy (Some l) s)
              else Some (Inr (Some l, s))))"

text \<open>The loops over a list: take the first item, and from each the next, until there is none.\<close>

partial_function (option) list_walk ::
  "(addr \<Rightarrow> 'a \<Rightarrow> asl_heap \<Rightarrow> ('a \<times> asl_heap) c_result) \<Rightarrow> addr option \<Rightarrow> 'a \<Rightarrow> asl_heap \<Rightarrow> ('a \<times> asl_heap) c_result option" where
  "list_walk body item acc s =
     (case item of
        None \<Rightarrow> Some (Inr (acc, s))
      | Some p \<Rightarrow>
          (case body p acc s of
             Inl e \<Rightarrow> Some (Inl e)
           | Inr (acc, s) \<Rightarrow>
               (case asl_field_list_next p s of
                  Inl e \<Rightarrow> Some (Inl e)
                | Inr (nxt, s) \<Rightarrow> list_walk body nxt acc s)))"

declare list_walk.simps [code]

definition list_each ::
  "(addr \<Rightarrow> 'a \<Rightarrow> asl_heap \<Rightarrow> ('a \<times> asl_heap) c_result) \<Rightarrow> addr \<Rightarrow> 'a \<Rightarrow> asl_heap \<Rightarrow> ('a \<times> asl_heap) c_result option" where
  "list_each body l acc s =
     (case asl_field_list_first l s of
        Inl e \<Rightarrow> Some (Inl e)
      | Inr (item, s) \<Rightarrow> list_walk body item acc s)"

text \<open>A loop body that only reads the field.\<close>

definition reading :: "(asl_field \<Rightarrow> 'a \<Rightarrow> 'a c_result) \<Rightarrow> addr \<Rightarrow> 'a \<Rightarrow> asl_heap \<Rightarrow> ('a \<times> asl_heap) c_result" where
  "reading body p acc s = c_bind (get_field p s) (\<lambda>f. c_bind (body f acc) (\<lambda>acc. Inr (acc, s)))"

definition add_flat_size :: "asl_field \<Rightarrow> nat \<Rightarrow> nat c_result" where
  "add_flat_size f n = c_bind (asl_field_flat_size f) (\<lambda>k. Inr (nat ((int n + k) mod 2 ^ 64)))"

definition flatten_next :: "asl_field \<Rightarrow> icl_longstr \<Rightarrow> icl_longstr c_result" where
  "flatten_next f table = c_bind (asl_field_flatten f table) (\<lambda>(rc, table). Inr table)"

definition asl_field_list_flatten :: "memory_junk \<Rightarrow> addr \<Rightarrow> asl_heap \<Rightarrow> (icl_longstr \<times> asl_heap) c_result option" where
  "asl_field_list_flatten junk l s =
     Option.bind (list_each (reading add_flat_size) l 0 s) (\<lambda>r.
     case r of
       Inl e \<Rightarrow> Some (Inl e)
     | Inr (flat_size, s) \<Rightarrow>
         (case icl_longstr_new junk None flat_size of
            Inl e \<Rightarrow> Some (Inl e)
          | Inr field_table \<Rightarrow> list_each (reading flatten_next) l field_table s))"

definition asl_field_new_field_table :: "memory_junk \<Rightarrow> addr \<Rightarrow> byte list \<Rightarrow> addr \<Rightarrow> asl_heap \<Rightarrow> asl_heap c_result option" where
  "asl_field_new_field_table junk l name value s =
     (if ASL_FIELD_NAME_MAX < length name then Some (Inl Assert_Failed)
      else
        map_option (\<lambda>r. c_bind r (\<lambda>(flattened, s).
            c_bind (icl_longstr_dup junk (Some flattened)) (\<lambda>str.
              field_add l name (\<lambda>f. f\<lparr>field_type := ASL_FIELD_TYPE_FIELD_TABLE, field_string := str\<rparr>) s)))
          (asl_field_list_flatten junk value s))"

partial_function (option) list_search_loop ::
  "byte list \<Rightarrow> addr option \<Rightarrow> asl_heap \<Rightarrow> (addr option \<times> asl_heap) c_result option" where
  "list_search_loop name field s =
     (case field of
        None \<Rightarrow> Some (Inr (None, s))
      | Some p \<Rightarrow>
          (case get_field p s of
             Inl e \<Rightarrow> Some (Inl e)
           | Inr f \<Rightarrow>
               if field_name f = name then Some (Inr (Some p, s))
               else
                 (case asl_field_list_next p s of
                    Inl e \<Rightarrow> Some (Inl e)
                  | Inr (nxt, s) \<Rightarrow> list_search_loop name nxt s)))"

declare list_search_loop.simps [code]

definition asl_field_list_search :: "addr \<Rightarrow> byte list \<Rightarrow> asl_heap \<Rightarrow> (addr option \<times> asl_heap) c_result option" where
  "asl_field_list_search l name s =
     (case asl_field_list_first l s of
        Inl e \<Rightarrow> Some (Inl e)
      | Inr (field, s) \<Rightarrow> list_search_loop name field s)"

definition asl_field_assume :: "memory_junk \<Rightarrow> addr \<Rightarrow> byte list \<Rightarrow> byte list \<Rightarrow> asl_heap \<Rightarrow> asl_heap c_result option" where
  "asl_field_assume junk l name value s =
     map_option (\<lambda>r. c_bind r (\<lambda>(field, s).
       c_bind (asl_field_destroy field s) (asl_field_new_string junk l name value)))
       (asl_field_list_search l name s)"

fun build_loop :: "memory_junk \<Rightarrow> addr \<Rightarrow> (byte list \<times> byte list) list \<Rightarrow> asl_heap \<Rightarrow> asl_heap c_result" where
  "build_loop junk l [] s = Inr s"
| "build_loop junk l ((name, value) # args) s =
     c_bind (asl_field_new_string junk l name value s) (build_loop junk l args)"

definition asl_field_list_build :: "memory_junk \<Rightarrow> (byte list \<times> byte list) list \<Rightarrow> asl_heap \<Rightarrow> (icl_longstr \<times> asl_heap) c_result option" where
  "asl_field_list_build junk args s =
     (let (l, s) = asl_field_list_create s in
      case build_loop junk l args s of
        Inl e \<Rightarrow> Some (Inl e)
      | Inr s \<Rightarrow>
          Option.bind (asl_field_list_flatten junk l s) (\<lambda>r.
          case r of
            Inl e \<Rightarrow> Some (Inl e)
          | Inr (string, s) \<Rightarrow>
              map_option (\<lambda>r. c_bind r (\<lambda>s. Inr (string, s))) (asl_field_list_destroy (Some l) s)))"

end
