(* ===== verification/Asl_Codec.thy ===== *)
theory Asl_Codec
  imports Asl_Field
begin

text \<open>
  The wire format of field tables is lossless.  A field is valid when it fits the format; the
  abstract entry of a field is its name with its typed value.  Writing a list of valid fields and
  reading the bytes back gives a list with the same entries, on the heap, with the object and link
  bookkeeping of both directions.
\<close>

section \<open>Values and entries\<close>

datatype field_value =
    String_Value "byte list"
  | Integer_Value int
  | Decimal_Value byte int
  | Time_Value int
  | Table_Value "byte list"
  | Void_Value
  | Unknown_Value

definition string_bytes :: "asl_field \<Rightarrow> byte list" where
  "string_bytes f = (case field_string f of None \<Rightarrow> [] | Some str \<Rightarrow> contents str)"

definition value_of :: "asl_field \<Rightarrow> field_value" where
  "value_of f =
     (let t = field_type f in
      if t = ASL_FIELD_TYPE_STRING then String_Value (string_bytes f)
      else if t = ASL_FIELD_TYPE_INTEGER then Integer_Value (field_integer f)
      else if t = ASL_FIELD_TYPE_DECIMAL then Decimal_Value (decimals f) (field_integer f)
      else if t = ASL_FIELD_TYPE_TIME then Time_Value (field_integer f)
      else if t = ASL_FIELD_TYPE_FIELD_TABLE then Table_Value (string_bytes f)
      else if t = ASL_FIELD_TYPE_VOID then Void_Value
      else Unknown_Value)"

definition entry :: "asl_field \<Rightarrow> byte list \<times> field_value" where
  "entry f = (field_name f, value_of f)"

text \<open>What fits the wire format: a name without nulls of at most 255 bytes, 32-bit numbers, and a string whose length is a positive 32-bit number.\<close>

definition valid_field :: "asl_field \<Rightarrow> bool" where
  "valid_field f \<longleftrightarrow> \<not> zombie f \<and> length (field_name f) \<le> 255 \<and> 0 \<notin> set (field_name f) \<and>
     (let t = field_type f in
      if t = ASL_FIELD_TYPE_STRING \<or> t = ASL_FIELD_TYPE_FIELD_TABLE then
        (case field_string f of None \<Rightarrow> False | Some str \<Rightarrow> longstr_ok str \<and> cur_size str < 2 ^ 31)
      else if t = ASL_FIELD_TYPE_INTEGER \<or> t = ASL_FIELD_TYPE_DECIMAL \<or> t = ASL_FIELD_TYPE_TIME then
        - (2 ^ 31) \<le> field_integer f \<and> field_integer f < 2 ^ 31
      else t = ASL_FIELD_TYPE_VOID)"

text \<open>The bytes that stand for an entry.\<close>

fun value_wire :: "field_value \<Rightarrow> byte list" where
  "value_wire (String_Value bs) = ASL_FIELD_TYPE_STRING # ASL_FIELD_PUT_LONG (int (length bs)) @ bs"
| "value_wire (Integer_Value n) = ASL_FIELD_TYPE_INTEGER # ASL_FIELD_PUT_LONG n"
| "value_wire (Decimal_Value d n) = ASL_FIELD_TYPE_DECIMAL # d # ASL_FIELD_PUT_LONG n"
| "value_wire (Time_Value n) = ASL_FIELD_TYPE_TIME # ASL_FIELD_PUT_LONG n"
| "value_wire (Table_Value bs) = ASL_FIELD_TYPE_FIELD_TABLE # ASL_FIELD_PUT_LONG (int (length bs)) @ bs"
| "value_wire Void_Value = [ASL_FIELD_TYPE_VOID]"
| "value_wire Unknown_Value = []"

fun wire :: "byte list \<times> field_value \<Rightarrow> byte list" where
  "wire (name, v) = word_of_nat (length name) # name @ value_wire v"

lemma put_long_length [simp]: "length (ASL_FIELD_PUT_LONG n) = 4"
  by (simp add: ASL_FIELD_PUT_LONG_def)

lemma uint_byte: "uint (word_of_int n :: byte) = n mod 256"
  by (simp add: uint_word_of_int)

lemma put_long_nth:
  "uint (ASL_FIELD_PUT_LONG n ! 0) = (n div 2 ^ 24) mod 256" "uint (ASL_FIELD_PUT_LONG n ! 1) = (n div 2 ^ 16) mod 256"
  "uint (ASL_FIELD_PUT_LONG n ! 2) = (n div 2 ^ 8) mod 256" "uint (ASL_FIELD_PUT_LONG n ! 3) = n mod 256"
  by (simp_all add: ASL_FIELD_PUT_LONG_def uint_byte)

lemma four_digits:
  fixes n :: int
  assumes "n = 256 * a + r0" and "a = 256 * b + r1" and "b = 256 * c + r2" and "c = 256 * d + r3"
  shows "r3 * 2 ^ 24 + r2 * 2 ^ 16 + r1 * 2 ^ 8 + r0 = n - 2 ^ 32 * d"
  using assms by simp

lemma bytes_of_int:
  fixes n :: int
  shows "(n div 2 ^ 24) mod 256 * 2 ^ 24 + (n div 2 ^ 16) mod 256 * 2 ^ 16 + (n div 2 ^ 8) mod 256 * 2 ^ 8 + n mod 256
    = n - 2 ^ 32 * (n div 2 ^ 32)"
proof -
  have q: "n div 2 ^ 16 = n div 2 ^ 8 div 256" "n div 2 ^ 24 = n div 2 ^ 16 div 256" "n div 2 ^ 32 = n div 2 ^ 24 div 256"
    by (simp_all add: zdiv_zmult2_eq [symmetric])
  have "n = 256 * (n div 2 ^ 8) + n mod 256" by simp
  moreover have "n div 2 ^ 8 = 256 * (n div 2 ^ 16) + (n div 2 ^ 8) mod 256" unfolding q(1) by simp
  moreover have "n div 2 ^ 16 = 256 * (n div 2 ^ 24) + (n div 2 ^ 16) mod 256" unfolding q(2) by simp
  moreover have "n div 2 ^ 24 = 256 * (n div 2 ^ 32) + (n div 2 ^ 24) mod 256" unfolding q(3) by simp
  ultimately show ?thesis by (rule four_digits)
qed

lemma int_div_eqI: "b * q \<le> a \<Longrightarrow> a < b * q + b \<Longrightarrow> a div b = (q :: int)"
  by (rule int_div_pos_eq [of a b q "a - b * q"]) auto

lemma get_put_long:
  assumes "- (2 ^ 31) \<le> n" and "n < 2 ^ 31"
  shows "ASL_FIELD_GET_LONG (xs @ ASL_FIELD_PUT_LONG n @ ys) (length xs) = Inr n"
proof -
  let ?u = "(n div 2 ^ 24) mod 256 * 2 ^ 24 + (n div 2 ^ 16) mod 256 * 2 ^ 16 + (n div 2 ^ 8) mod 256 * 2 ^ 8 + n mod 256"
  have u: "?u = n - 2 ^ 32 * (n div 2 ^ 32)" by (rule bytes_of_int)
  have "n div 2 ^ 32 = (if 0 \<le> n then 0 else - 1)"
    using assms by (auto intro!: int_div_eqI)
  then have "(if ?u < 2 ^ 31 then ?u else ?u - 2 ^ 32) = n" unfolding u using assms by auto
  moreover have "mem_get (xs @ ASL_FIELD_PUT_LONG n @ ys) (length xs) 4 = Inr (ASL_FIELD_PUT_LONG n)"
    using mem_get_append [of xs "ASL_FIELD_PUT_LONG n" ys] by simp
  ultimately show ?thesis
    by (simp only: ASL_FIELD_GET_LONG_def put_long_nth Let_def c_bind_simps)
qed

lemma size_of_long_nat: "k < 2 ^ 31 \<Longrightarrow> size_of_long (int k) = k"
  by (simp add: size_of_long_def)

section \<open>One field\<close>

lemma valid_field_wire:
  assumes "valid_field f"
  shows "\<exists>bs. value_bytes f = Inr (Some bs) \<and> wire (entry f) = header_bytes f @ bs"
    and "asl_field_flat_size f = Inr (int (length (wire (entry f))))"
  using assms
  by (auto simp: valid_field_def value_bytes_def entry_def value_of_def header_bytes_def string_bytes_def
      asl_field_flat_size_def Let_def mem_get_in longstr_ok_def max_size_def contents_def field_consts
      split: option.splits if_splits)

lemma valid_field_name: "valid_field f \<Longrightarrow> length (field_name f) \<le> 255 \<and> \<not> zombie f \<and> takeWhile (\<lambda>b. b \<noteq> 0) (field_name f) = field_name f"
  by (auto simp: valid_field_def takeWhile_eq_all_conv)

text \<open>Reading back leaves the object's links and pointers alone.\<close>

definition same_links :: "asl_field \<Rightarrow> asl_field \<Rightarrow> bool" where
  "same_links g g' \<longleftrightarrow> links g' = links g \<and> zombie g' = zombie g \<and> list_head g' = list_head g \<and>
     list_prev g' = list_prev g \<and> list_next g' = list_next g"

lemma value_read_wire:
  assumes f: "valid_field f"
  shows "\<exists>g'. value_read (zs @ value_wire (value_of f) @ ys) (Suc (length zs)) (g\<lparr>field_type := field_type f\<rparr>) =
      Inr (g', Some (length zs + length (value_wire (value_of f))), length zs + length (value_wire (value_of f))) \<and>
    same_links g g' \<and> field_name g' = field_name g \<and> value_of g' = value_of f"
proof -
  let ?t = "field_type f" and ?n = "field_integer f"
  let ?data = "zs @ value_wire (value_of f) @ ys"
  note types = f [unfolded valid_field_def, THEN conjunct2, THEN conjunct2, THEN conjunct2]
  consider (str) str where "?t = ASL_FIELD_TYPE_STRING \<or> ?t = ASL_FIELD_TYPE_FIELD_TABLE"
      "field_string f = Some str" "longstr_ok str" "cur_size str < 2 ^ 31"
    | (num) "?t = ASL_FIELD_TYPE_INTEGER \<or> ?t = ASL_FIELD_TYPE_TIME" "- (2 ^ 31) \<le> ?n" "?n < 2 ^ 31"
    | (dec) "?t = ASL_FIELD_TYPE_DECIMAL" "- (2 ^ 31) \<le> ?n" "?n < 2 ^ 31"
    | (void) "?t = ASL_FIELD_TYPE_VOID"
    using types by (auto simp: Let_def split: if_splits option.splits)
  then show ?thesis
  proof cases
    case str
    let ?bs = "contents str"
    have len: "length ?bs = cur_size str" using str(3) by (simp add: contents_def longstr_ok_def max_size_def)
    have data: "?data = (zs @ [?t]) @ ASL_FIELD_PUT_LONG (int (cur_size str)) @ (?bs @ ys)"
      using str(1,2) len by (auto simp: value_of_def string_bytes_def field_consts)
    have long: "ASL_FIELD_GET_LONG ?data (Suc (length zs)) = Inr (int (cur_size str))"
      unfolding data using get_put_long [of "int (cur_size str)" "zs @ [?t]"] str(4) by simp
    have "?data = (zs @ [?t] @ ASL_FIELD_PUT_LONG (int (cur_size str))) @ ?bs @ ys" unfolding data by simp
    then have "mem_get ?data (length (zs @ [?t] @ ASL_FIELD_PUT_LONG (int (cur_size str)))) (length ?bs) = Inr ?bs"
      by (simp only: mem_get_append)
    then have mem: "mem_get ?data (Suc (length zs) + 4) (cur_size str) = Inr ?bs"
      using len by (simp add: add.commute)
    define data where "data = ?data"
    have size: "length (value_wire (value_of f)) = 5 + cur_size str"
      using str(1,2) len by (auto simp: value_of_def string_bytes_def field_consts)
    define ls where "ls = (if ?t = ASL_FIELD_TYPE_STRING then ?bs @ [0] else ?bs)"
    let ?g = "g\<lparr>field_type := ?t, field_string := Some \<lparr>cur_size = cur_size str, ls_data = ls\<rparr>\<rparr>"
    have "value_read data (Suc (length zs)) (g\<lparr>field_type := ?t\<rparr>) =
        Inr (?g, Some (Suc (length zs) + 4 + cur_size str), Suc (length zs) + 4 + cur_size str)"
      using str(1,4) long mem unfolding data_def [symmetric]
      by (elim disjE) (simp_all add: value_read_def Let_def size_of_long_nat field_consts ls_def)
    moreover have "value_of ?g = value_of f"
      using str(1,2) len by (auto simp: value_of_def string_bytes_def field_consts ls_def contents_def)
    ultimately show ?thesis
      unfolding data_def size by (intro exI [of _ ?g]) (simp add: same_links_def)
  next
    case num
    have "?data = (zs @ [?t]) @ ASL_FIELD_PUT_LONG ?n @ ys"
      using num(1) by (auto simp: value_of_def field_consts)
    then have long: "ASL_FIELD_GET_LONG ?data (Suc (length zs)) = Inr ?n"
      using get_put_long [OF num(2,3), of "zs @ [?t]" ys] by simp
    have size: "length (value_wire (value_of f)) = 5" using num(1) by (auto simp: value_of_def field_consts)
    define data where "data = ?data"
    let ?g = "g\<lparr>field_type := ?t, field_integer := ?n\<rparr>"
    have "value_read data (Suc (length zs)) (g\<lparr>field_type := ?t\<rparr>) =
        Inr (?g, Some (Suc (length zs) + 4), Suc (length zs) + 4)"
      using num(1) long unfolding data_def [symmetric]
      by (elim disjE) (simp_all add: value_read_def Let_def field_consts)
    moreover have "value_of ?g = value_of f" using num(1) by (auto simp: value_of_def field_consts)
    ultimately show ?thesis
      unfolding data_def size by (intro exI [of _ ?g]) (simp add: same_links_def)
  next
    case dec
    have data: "?data = (zs @ [?t]) @ decimals f # ASL_FIELD_PUT_LONG ?n @ ys"
      using dec(1) by (auto simp: value_of_def field_consts)
    have long: "ASL_FIELD_GET_LONG ?data (Suc (Suc (length zs))) = Inr ?n"
      unfolding data using get_put_long [OF dec(2,3), of "zs @ [?t, decimals f]" ys] by simp
    have byte: "c_read ?data (Suc (length zs)) = Inr (decimals f)"
      unfolding data using c_read_append [of "zs @ [?t]"] by simp
    have size: "length (value_wire (value_of f)) = 6" using dec(1) by (auto simp: value_of_def field_consts)
    define data where "data = ?data"
    let ?g = "g\<lparr>field_type := ?t, decimals := decimals f, field_integer := ?n\<rparr>"
    have "value_read data (Suc (length zs)) (g\<lparr>field_type := ?t\<rparr>) =
        Inr (?g, Some (Suc (length zs) + 5), Suc (length zs) + 5)"
      using dec(1) long byte unfolding data_def [symmetric]
      by (simp add: value_read_def Let_def field_consts)
    moreover have "value_of ?g = value_of f" using dec(1) by (auto simp: value_of_def field_consts)
    ultimately show ?thesis
      unfolding data_def size by (intro exI [of _ ?g]) (simp add: same_links_def)
  next
    case void
    then show ?thesis by (auto simp: value_read_def Let_def value_of_def same_links_def field_consts)
  qed
qed

lemma field_read_wire:
  assumes f: "valid_field f" and limit: "length xs + length (wire (entry f)) \<le> limit"
  shows "\<exists>g'. field_read (xs @ wire (entry f) @ ys) (length xs) limit g =
      Inr (g', Some (length xs + length (wire (entry f))), length xs + length (wire (entry f))) \<and>
    same_links g g' \<and> entry g' = entry f"
proof -
  let ?name = "field_name f" and ?v = "value_wire (value_of f)" and ?data = "xs @ wire (entry f) @ ys"
  note name = valid_field_name [OF f]
  obtain v where v: "?v = field_type f # v"
    using f by (cases "value_of f") (auto simp: value_of_def valid_field_def Let_def field_consts split: if_splits)
  define zs where "zs = xs @ word_of_nat (length ?name) # ?name"
  have data: "?data = zs @ ?v @ ys" by (simp add: entry_def zs_def)
  have zs: "length zs = Suc (length xs) + length ?name" by (simp add: zs_def)
  have r1: "c_read ?data (length xs) = Inr (word_of_nat (length ?name))" by (simp add: entry_def)
  have "?data = (xs @ [word_of_nat (length ?name)]) @ ?name @ (?v @ ys)" by (simp add: entry_def)
  then have r2: "mem_get ?data (length xs + 1) (length ?name) = Inr ?name"
    using mem_get_append [of "xs @ [word_of_nat (length ?name)]" ?name] by simp
  have r3: "c_read ?data (length zs) = Inr (field_type f)" unfolding data v by simp
  have lim: "length zs \<le> limit" using limit by (simp add: entry_def zs)
  have u: "unat (word_of_nat (length ?name) :: byte) = length ?name" using name by simp
  have z: "length xs + 1 + length ?name = length zs" by (simp add: zs)
  have run: "field_read ?data (length xs) limit g =
      value_read ?data (length zs + 1) (g\<lparr>field_name := ?name, field_type := field_type f\<rparr>)"
    unfolding field_read_def
    by (simp only: r1 c_bind_simps Let_def u r2 z lim r3 name not_True_eq_False if_False)
  obtain g' where g': "value_read ?data (Suc (length zs)) (g\<lparr>field_name := ?name, field_type := field_type f\<rparr>) =
      Inr (g', Some (length zs + length ?v), length zs + length ?v)"
    "same_links (g\<lparr>field_name := ?name\<rparr>) g'" "field_name g' = ?name" "value_of g' = value_of f"
    unfolding data using value_read_wire [OF f, of zs ys "g\<lparr>field_name := ?name\<rparr>"] by auto
  have len: "length xs + length (wire (entry f)) = length zs + length ?v" by (simp add: entry_def zs)
  show ?thesis
    unfolding run len using g' by (intro exI [of _ g']) (simp add: same_links_def entry_def)
qed

lemma wire_positive: "0 < length (wire e)"
  by (cases e) simp

lemma flatten_wire:
  assumes f: "valid_field f" and ok: "longstr_ok str"
    and room: "cur_size str + length (wire (entry f)) \<le> max_size str"
  shows "\<exists>str'. asl_field_flatten f str = Inr (0, str') \<and> longstr_ok str' \<and> max_size str' = max_size str \<and>
    contents str' = contents str @ wire (entry f)"
proof -
  obtain bs where bs: "value_bytes f = Inr (Some bs)" "wire (entry f) = header_bytes f @ bs"
    using valid_field_wire(1) [OF f] by blast
  note size = valid_field_wire(2) [OF f]
  have "\<not> zombie f" using valid_field_name [OF f] by simp
  then show ?thesis
    using bs size ok room
    by (simp add: asl_field_flatten_def mem_put_in longstr_ok_def max_size_def contents_def)
qed

section \<open>Entering a field into a list\<close>

text \<open>
  The shared course of the constructors and of the parser on the heap: the list grows by the new
  field, which only the list holds, and nothing else changes.
\<close>

definition grown :: "asl_heap \<Rightarrow> (addr \<rightharpoonup> addr list) \<Rightarrow> addr \<Rightarrow> addr list \<Rightarrow> addr \<Rightarrow> asl_field \<Rightarrow> asl_heap \<Rightarrow> bool" where
  "grown s L l xs p f s' \<longleftrightarrow> list_state s' (L(l \<mapsto> xs @ [p])) \<and> p \<notin> dom (field_at s) \<and>
     dom (field_at s') = insert p (dom (field_at s)) \<and> core (at s' p) = core f \<and>
     (\<forall>a\<in>dom (field_at s). core (at s' a) = core (at s a)) \<and> list_at s' = list_at s"

lemma same_core_core:
  assumes "same_core s s'" and "a \<in> dom (field_at s)"
  shows "core (at s' a) = core (at s a)"
  using assms same_core_field [of s s'] by (metis at_def domD option.sel)

lemma enter_field:
  assumes st: "list_state s L" and l: "L l = Some xs" and live: "live_list s l"
    and new: "asl_field_new s = (p, s1)" and f: "same_links (at s1 p) f"
  shows "\<exists>s2 s'. asl_field_list_queue l p (put_field p f s1) = Inr (0, s2) \<and>
    asl_field_unlink (Some p) s2 = Inr s' \<and> grown s L l xs p f s'"
proof -
  note n = new_correct [OF st new]
  let ?t = "put_field p f s1"
  have p: "p \<in> dom (field_at s1)" using n(2) [of l] by (simp add: free_for_def)
  have nz: "\<not> zombie (at s1 p)" using n(2) [of l] by (simp add: free_for_def)
  have rep: "heap_rep ?t L"
    using heap_rep_put [OF p, of f L] f n(1) by (simp add: same_links_def list_state_def views)
  have "1 \<le> links (at ?t a) \<and> \<not> zombie (at ?t a)" if "L m = Some ys" "a \<in> set ys" for m ys a
    using list_state_member [OF n(1) that] f nz n(6) by (auto simp: put_field_at same_links_def)
  with rep have st': "list_state ?t L" unfolding list_state_def by blast
  have free: "free_for ?t L l p"
    using n(2) [of l] f by (auto simp: free_for_def put_field_at views same_links_def)
  have live': "live_list ?t l" using live n(3) by (simp add: live_list_def)
  have notin: "p \<notin> set xs"
    using list_state_member(1) [OF st l, of p] n(4) by auto
  obtain s2 where s2: "asl_field_list_queue l p ?t = Inr (0, s2)" "list_state s2 (L(l \<mapsto> xs @ [p]))"
    "same_core (linked p ?t) s2"
    using queue_correct [OF st' l live' free] notin by (auto simp: remove1_idem claimed_def)
  have d1: "dom (field_at s1) = insert p (dom (field_at s))"
    using n(4,5) p by (auto simp: dom_def) (metis)+
  have d2: "dom (field_at s2) = insert p (dom (field_at s))"
    using same_core_dom [OF s2(3)] d1 by auto
  have c2: "core (at s2 p) = core (links_update Suc f)"
    using same_core_core [OF s2(3), of p] by (simp add: linked_def put_field_at)
  have "links (at s2 p) = Suc (links f)" using core_eq_links [OF c2] by simp
  moreover have lf: "links f = 1" using f n(6) by (simp add: same_links_def)
  ultimately have un: "asl_field_unlink (Some p) s2 = Inr (unlinked p s2)"
    using unlink_keeps [of p s2] d2 by simp
  have "grown s L l xs p f (unlinked p s2)"
    unfolding grown_def
  proof (intro conjI ballI)
    have "1 \<le> links (at (unlinked p s2) a) \<and> \<not> zombie (at (unlinked p s2) a)"
      if "(L(l \<mapsto> xs @ [p])) m = Some ys" "a \<in> set ys" for m ys a
      using list_state_member [OF s2(2) that] \<open>links (at s2 p) = Suc (links f)\<close> lf
      by (auto simp: unlinked_def put_field_at)
    moreover have "heap_rep (unlinked p s2) (L(l \<mapsto> xs @ [p]))"
      using s2(2) d2 heap_rep_linked(2) [of p s2] by (simp add: list_state_def)
    ultimately show "list_state (unlinked p s2) (L(l \<mapsto> xs @ [p]))" unfolding list_state_def by blast
    show "core (at (unlinked p s2) p) = core f"
      using c2 by (cases "at s2 p", cases f) (simp add: unlinked_def put_field_at core_def)
    show "core (at (unlinked p s2) a) = core (at s a)" if "a \<in> dom (field_at s)" for a
    proof -
      have "a \<noteq> p" using that n(4) by auto
      then have "core (at s2 a) = core (at s1 a)"
        using same_core_core [OF s2(3), of a] that d1 by (simp add: linked_def put_field_at)
      with \<open>a \<noteq> p\<close> n(5) [of a] show ?thesis by (simp add: unlinked_def put_field_at at_def)
    qed
    show "list_at (unlinked p s2) = list_at s" using s2(3) n(3) by (simp add: same_core_def)
  qed (use d2 n(4) in auto)
  with s2(1) un show ?thesis by blast
qed

section \<open>Reading a table\<close>

definition kept :: "asl_heap \<Rightarrow> asl_heap \<Rightarrow> bool" where
  "kept s s' \<longleftrightarrow> dom (field_at s) \<subseteq> dom (field_at s') \<and>
     (\<forall>a\<in>dom (field_at s). core (at s' a) = core (at s a)) \<and> list_at s' = list_at s"

lemma kept_refl [simp]: "kept s s"
  by (simp add: kept_def)

lemma kept_trans: "kept s t \<Longrightarrow> kept t u \<Longrightarrow> kept s u"
  unfolding kept_def by (metis subsetD subset_trans)

lemma grown_kept: "grown s L l xs p f s' \<Longrightarrow> kept s s'"
  by (auto simp: grown_def kept_def)

lemma kept_live: "kept s s' \<Longrightarrow> live_list s' l \<longleftrightarrow> live_list s l"
  by (simp add: kept_def live_list_def)

lemma core_entry: "core f = core g \<Longrightarrow> entry f = entry g"
proof -
  have "entry (core f) = entry f" for f
    by (simp add: core_def entry_def value_of_def string_bytes_def Let_def)
  then show "core f = core g \<Longrightarrow> entry f = entry g" by metis
qed

lemma kept_entry: "kept s s' \<Longrightarrow> a \<in> dom (field_at s) \<Longrightarrow> entry (at s' a) = entry (at s a)"
  by (auto simp: kept_def intro: core_entry)

lemma parse_wire:
  assumes st: "list_state s L" and l: "L l = Some xs" and live: "live_list s l" and f: "valid_field f"
    and limit: "length pre + length (wire (entry f)) \<le> limit"
  shows "\<exists>p g s'. asl_field_parse l (pre @ wire (entry f) @ post) (length pre) limit s =
      Inr (Some (length pre + length (wire (entry f))), s') \<and> grown s L l xs p g s' \<and> entry g = entry f"
proof -
  obtain p s1 where new: "asl_field_new s = (p, s1)" by fastforce
  note n = new_correct [OF st new]
  have p: "get_field p s1 = Inr (at s1 p)" using n(2) [of l] by (simp add: free_for_def get_field_in)
  obtain g where g: "field_read (pre @ wire (entry f) @ post) (length pre) limit (at s1 p) =
      Inr (g, Some (length pre + length (wire (entry f))), length pre + length (wire (entry f)))"
    "same_links (at s1 p) g" "entry g = entry f"
    using field_read_wire [OF f limit] by blast
  obtain s2 s' where s': "asl_field_list_queue l p (put_field p g s1) = Inr (0, s2)"
    "asl_field_unlink (Some p) s2 = Inr s'" "grown s L l xs p g s'"
    using enter_field [OF st l live new g(2)] by blast
  have "\<not> limit < length pre + length (wire (entry f))" using limit by simp
  then have "asl_field_parse l (pre @ wire (entry f) @ post) (length pre) limit s =
      Inr (Some (length pre + length (wire (entry f))), s')"
    unfolding asl_field_parse_def new Let_def prod.case
    by (simp only: p g(1) c_bind_simps prod.case s' option.distinct if_False simp_thms)
  with s'(3) g(3) show ?thesis by blast
qed

abbreviation table_wire :: "asl_field list \<Rightarrow> byte list" where
  "table_wire fs \<equiv> concat (map (\<lambda>f. wire (entry f)) fs)"

lemma parse_loop_wire:
  assumes "list_state s L" and "L l = Some xs" and "live_list s l" and "\<forall>f\<in>set fs. valid_field f"
    and "length pre + length (table_wire fs) \<le> limit"
  shows "\<exists>ys s'. list_parse_loop l (pre @ table_wire fs @ post) (length pre) limit s =
      list_parse_loop l (pre @ table_wire fs @ post) (length pre + length (table_wire fs)) limit s' \<and>
    list_state s' (L(l \<mapsto> xs @ ys)) \<and> map (\<lambda>a. entry (at s' a)) ys = map entry fs \<and> kept s s'"
  using assms
proof (induction fs arbitrary: s L xs pre)
  case Nil
  then have "L(l \<mapsto> xs @ []) = L" by (simp add: map_upd_triv)
  with Nil show ?case by (intro exI [of _ "[]"] exI [of _ s]) (simp del: fun_upd_apply)
next
  case (Cons f fs)
  let ?w = "wire (entry f)" and ?L = "\<lambda>p. L(l \<mapsto> xs @ [p])" and ?data = "pre @ table_wire (f # fs) @ post"
  have f: "valid_field f" and fs: "\<forall>f\<in>set fs. valid_field f" using Cons.prems(4) by auto
  have lim: "length pre + length ?w \<le> limit" using Cons.prems(5) by simp
  obtain p g t where t: "asl_field_parse l (pre @ ?w @ table_wire fs @ post) (length pre) limit s =
      Inr (Some (length pre + length ?w), t)"
    "grown s L l xs p g t" "entry g = entry f"
    using parse_wire [OF Cons.prems(1-3) f lim] by blast
  have kt: "kept s t" using t(2) by (rule grown_kept)
  have st: "list_state t (?L p)" using t(2) by (simp add: grown_def)
  have "live_list t l" using kept_live [OF kt] Cons.prems(3) by simp
  moreover have "length (pre @ ?w) + length (table_wire fs) \<le> limit" using Cons.prems(5) by simp
  ultimately obtain ys s' where
    s': "list_parse_loop l ((pre @ ?w) @ table_wire fs @ post) (length (pre @ ?w)) limit t =
        list_parse_loop l ((pre @ ?w) @ table_wire fs @ post) (length (pre @ ?w) + length (table_wire fs)) limit s'"
      "list_state s' ((?L p)(l \<mapsto> (xs @ [p]) @ ys))"
      "map (\<lambda>a. entry (at s' a)) ys = map entry fs" "kept t s'"
    using Cons.IH [OF st fun_upd_same _ fs, of "pre @ ?w"] by blast
  have "p \<in> dom (field_at t)" "core (at t p) = core g" using t(2) by (auto simp: grown_def)
  then have "entry (at s' p) = entry f" using kept_entry [OF s'(4)] core_entry t(3) by metis
  moreover have "list_parse_loop l ?data (length pre) limit s =
      list_parse_loop l ?data (length pre + length ?w) limit t"
  proof -
    have "length pre < limit" using lim wire_positive [of "entry f"] by linarith
    with t(1) show ?thesis by (subst list_parse_loop.simps) simp
  qed
  moreover have "list_state s' (L(l \<mapsto> xs @ p # ys))" using s'(2) by simp
  moreover have "kept s s'" using kt s'(4) by (rule kept_trans)
  ultimately show ?case using s'(1,3)
    by (intro exI [of _ "p # ys"] exI [of _ s']) (simp add: add.assoc del: fun_upd_apply)
qed

lemma list_new_wire:
  assumes st: "list_state s L" and fs: "\<forall>f\<in>set fs. valid_field f"
    and table: "longstr_ok table" "contents table = table_wire fs"
  shows "\<exists>l ys s'. asl_field_list_new (Some table) s = Some (Inr (Some l, s')) \<and> l \<notin> dom L \<and>
    list_state s' (L(l \<mapsto> ys)) \<and> map (\<lambda>a. entry (at s' a)) ys = map entry fs \<and>
    (\<forall>a\<in>dom (field_at s). core (at s' a) = core (at s a))"
proof -
  obtain l s1 where new: "asl_field_list_create s = (l, s1)" by fastforce
  note c = create_correct [OF st new]
  have data: "ls_data table = [] @ table_wire fs @ drop (cur_size table) (ls_data table)"
    using table(2) by (metis append_Nil append_take_drop_id contents_def)
  have len: "cur_size table = length ([] :: byte list) + length (table_wire fs)"
    using table by (simp add: longstr_ok_def max_size_def contents_def flip: table(2))
  obtain ys s' where s': "list_parse_loop l (ls_data table) 0 (cur_size table) s1 =
      list_parse_loop l (ls_data table) (cur_size table) (cur_size table) s'"
    "list_state s' (L(l \<mapsto> [] @ ys))" "map (\<lambda>a. entry (at s' a)) ys = map entry fs" "kept s1 s'"
    using parse_loop_wire [OF c(1) fun_upd_same c(3) fs, of "[]" "cur_size table" "drop (cur_size table) (ls_data table)"]
    unfolding fun_upd_upd data [symmetric] len [symmetric] by auto
  have "asl_field_list_new (Some table) s = Some (Inr (Some l, s'))"
    using s'(1) c(4) new
    by (simp add: asl_field_list_new_def asl_field_list_parse_def get_list_def list_parse_loop.simps [of _ _ "cur_size table"])
  moreover have "core (at s' a) = core (at s a)" if "a \<in> dom (field_at s)" for a
  proof -
    have "a < next_free s" using st that by (auto simp: list_state_def heap_rep_def)
    then have "a \<noteq> l" using new by (auto simp: asl_field_list_create_def Let_def)
    then have "at s1 a = at s a" "a \<in> dom (field_at s1)" using c(5) [of a] that by (auto simp: at_def)
    then show ?thesis using s'(4) by (simp add: kept_def)
  qed
  ultimately show ?thesis using s' c(2) by auto
qed

section \<open>Walking a list\<close>

fun fields_fold :: "(asl_field \<Rightarrow> 'a \<Rightarrow> 'a c_result) \<Rightarrow> asl_field list \<Rightarrow> 'a \<Rightarrow> 'a c_result" where
  "fields_fold body [] acc = Inr acc"
| "fields_fold body (f # fs) acc = c_bind (body f acc) (fields_fold body fs)"

definition ignores_links :: "(asl_field \<Rightarrow> 'a \<Rightarrow> 'a c_result) \<Rightarrow> bool" where
  "ignores_links body \<longleftrightarrow> (\<forall>f h acc. body (links_update h f) acc = body f acc)"

lemma at_linked: "at (linked i s) i = links_update Suc (at s i)"
  by (simp add: linked_def put_field_at)

text \<open>
  A loop that only reads visits the fields in order and gives every link back: the heap afterwards is
  the heap before.
\<close>

lemma list_walk_reading:
  assumes "list_state s L" and "L l = Some (as @ i # bs)" and "ignores_links body"
    and "fields_fold body (map (at s) (i # bs)) acc = Inr res"
  shows "list_walk (reading body) (Some i) acc (linked i s) = Some (Inr (res, s))"
  using assms(2,4)
proof (induction bs arbitrary: as i acc)
  case Nil
  note mem = list_state_member [OF assms(1) Nil.prems(1), of i]
  have "body (at (linked i s) i) acc = Inr res"
    using Nil.prems(2) assms(3) by (simp add: at_linked ignores_links_def c_bind_def split: sum.splits)
  then have "reading body i acc (linked i s) = Inr (res, linked i s)"
    by (simp add: reading_def get_field_in)
  with next_correct [OF assms(1) Nil.prems(1)] show ?case
    by (subst list_walk.simps) (simp add: list_walk.simps [of _ None])
next
  case (Cons b bs)
  obtain mid where mid: "body (at s i) acc = Inr mid" "fields_fold body (map (at s) (b # bs)) mid = Inr res"
    using Cons.prems(2) by (cases "body (at s i) acc") auto
  then have "reading body i acc (linked i s) = Inr (mid, linked i s)"
    using assms(3) by (simp add: reading_def get_field_in at_linked ignores_links_def)
  moreover have "list_walk (reading body) (Some b) mid (linked b s) = Some (Inr (res, s))"
    using Cons.IH [of "as @ [i]" b mid] Cons.prems(1) mid(2) by simp
  ultimately show ?case
    using next_correct [OF assms(1) Cons.prems(1)] by (subst list_walk.simps) simp
qed

lemma list_each_reading:
  assumes "list_state s L" and "L l = Some xs" and "live_list s l" and "ignores_links body"
    and "fields_fold body (map (at s) xs) acc = Inr res"
  shows "list_each (reading body) l acc s = Some (Inr (res, s))"
proof (cases xs)
  case Nil
  with assms first_correct [OF assms(1-3)] show ?thesis by (simp add: list_each_def list_walk.simps)
next
  case (Cons x ys)
  with assms first_correct [OF assms(1-3)] list_walk_reading [of s L l "[]" x ys body acc res]
  show ?thesis by (simp add: list_each_def)
qed

lemma search_loop_correct:
  assumes "list_state s L" and "L l = Some (as @ i # bs)"
  shows "list_search_loop name (Some i) (linked i s) =
    Some (Inr (case find (\<lambda>a. field_name (at s a) = name) (i # bs) of
        None \<Rightarrow> (None, s) | Some p \<Rightarrow> (Some p, linked p s)))"
  using assms(2)
proof (induction bs arbitrary: as i)
  case Nil
  have "get_field i (linked i s) = Inr (links_update Suc (at s i))" by (simp add: get_field_in at_linked)
  with next_correct [OF assms(1) Nil] show ?case
    by (subst list_search_loop.simps) (simp add: list_search_loop.simps [of _ None])
next
  case (Cons b bs)
  have "get_field i (linked i s) = Inr (links_update Suc (at s i))" by (simp add: get_field_in at_linked)
  with next_correct [OF assms(1) Cons.prems] Cons.IH [of "as @ [i]" b] Cons.prems show ?case
    by (subst list_search_loop.simps) simp
qed

lemma search_correct:
  assumes "list_state s L" and "L l = Some xs" and "live_list s l"
  shows "asl_field_list_search l name s =
    Some (Inr (case find (\<lambda>a. field_name (at s a) = name) xs of
        None \<Rightarrow> (None, s) | Some p \<Rightarrow> (Some p, linked p s)))"
proof (cases xs)
  case Nil
  with first_correct [OF assms] show ?thesis by (simp add: asl_field_list_search_def list_search_loop.simps)
next
  case (Cons x ys)
  with first_correct [OF assms] search_loop_correct [of s L l "[]" x ys name] assms(1,2)
  show ?thesis by (simp add: asl_field_list_search_def)
qed

section \<open>Writing a table\<close>

lemma writers_ignore_links:
  "asl_field_flat_size (links_update h f) = asl_field_flat_size f"
  "value_bytes (links_update h f) = value_bytes f"
  "header_bytes (links_update h f) = header_bytes f"
  by (simp_all add: asl_field_flat_size_def value_bytes_def header_bytes_def Let_def)

lemma flatten_ignores_links: "asl_field_flatten (links_update h f) str = asl_field_flatten f str"
  unfolding asl_field_flatten_def writers_ignore_links by simp

lemma ignores_links_flatten: "ignores_links add_flat_size" "ignores_links flatten_next"
  by (simp_all add: ignores_links_def add_flat_size_def flatten_next_def writers_ignore_links flatten_ignores_links)

lemma fold_flat_size:
  assumes "\<forall>f\<in>set fs. valid_field f" and "n + length (table_wire fs) < 2 ^ 64"
  shows "fields_fold add_flat_size fs n = Inr (n + length (table_wire fs))"
  using assms
proof (induction fs arbitrary: n)
  case (Cons f fs)
  have "add_flat_size f n = Inr (n + length (wire (entry f)))"
    using valid_field_wire(2) [of f] Cons.prems by (simp add: add_flat_size_def nat_add_distrib)
  with Cons show ?case by (simp add: add.assoc)
qed simp

lemma fold_flatten:
  assumes "\<forall>f\<in>set fs. valid_field f" and "longstr_ok str" and "cur_size str + length (table_wire fs) \<le> max_size str"
  shows "\<exists>str'. fields_fold flatten_next fs str = Inr str' \<and> longstr_ok str' \<and> max_size str' = max_size str \<and>
    contents str' = contents str @ table_wire fs"
  using assms
proof (induction fs arbitrary: str)
  case (Cons f fs)
  obtain t where t: "asl_field_flatten f str = Inr (0, t)" "longstr_ok t" "max_size t = max_size str"
    "contents t = contents str @ wire (entry f)"
    using flatten_wire [of f str] Cons.prems by auto
  have "cur_size t = cur_size str + length (wire (entry f))"
    using t Cons.prems(2) by (metis contents_def length_append length_take longstr_ok_def max_size_def min.absorb2)
  then have "\<exists>str'. fields_fold flatten_next fs t = Inr str' \<and> longstr_ok str' \<and> max_size str' = max_size t \<and>
      contents str' = contents t @ table_wire fs"
    using Cons.prems t by (intro Cons.IH) auto
  moreover have "flatten_next f str = Inr t" using t(1) by (simp add: flatten_next_def)
  ultimately show ?case using t(3,4) by auto
qed simp

lemma list_flatten_wire:
  assumes st: "list_state s L" and l: "L l = Some xs" and live: "live_list s l"
    and valid: "\<forall>a\<in>set xs. valid_field (at s a)" and size: "length (table_wire (map (at s) xs)) < 2 ^ 64"
  shows "\<exists>table. asl_field_list_flatten junk l s = Some (Inr (table, s)) \<and> longstr_ok table \<and>
    contents table = table_wire (map (at s) xs) \<and> max_size table = length (contents table)"
proof -
  let ?fs = "map (at s) xs" and ?new = "\<lparr>cur_size = 0, ls_data = map junk [0..<length (table_wire (map (at s) xs))]\<rparr>"
  have v: "\<forall>f\<in>set ?fs. valid_field f" using valid by simp
  have "fields_fold add_flat_size ?fs 0 = Inr (length (table_wire ?fs))"
    using fold_flat_size [OF v, of 0] size by simp
  then have e1: "list_each (reading add_flat_size) l 0 s = Some (Inr (length (table_wire ?fs), s))"
    by (rule list_each_reading [OF st l live ignores_links_flatten(1)])
  obtain table where t: "fields_fold flatten_next ?fs ?new = Inr table" "longstr_ok table"
    "max_size table = length (table_wire ?fs)" "contents table = table_wire ?fs"
    using fold_flatten [OF v, of ?new] by (auto simp: longstr_ok_def max_size_def contents_def)
  have e2: "list_each (reading flatten_next) l ?new s = Some (Inr (table, s))"
    by (rule list_each_reading [OF st l live ignores_links_flatten(2) t(1)])
  show ?thesis
    using e1 e2 t by (simp add: asl_field_list_flatten_def icl_longstr_new_def)
qed

section \<open>Constructors\<close>

definition fresh_field :: "addr \<Rightarrow> asl_field" where
  "fresh_field p = \<lparr>links = 1, zombie = False, list_head = None, list_prev = p, list_next = p,
     field_name = [], field_type = 0, decimals = 0, field_string = None, field_integer = 0\<rparr>"

lemma new_fresh: "asl_field_new s = (p, s1) \<Longrightarrow> at s1 p = fresh_field p"
  by (auto simp: asl_field_new_def Let_def put_field_at fresh_field_def)

lemma field_add_correct:
  assumes st: "list_state s L" and l: "L l = Some xs" and live: "live_list s l"
    and name: "length name \<le> ASL_FIELD_NAME_MAX" and fill: "\<And>f. same_links f (fill (f\<lparr>field_name := name\<rparr>))"
  shows "\<exists>p s'. field_add l name fill s = Inr s' \<and> grown s L l xs p (fill ((fresh_field p)\<lparr>field_name := name\<rparr>)) s'"
proof -
  obtain p s1 where new: "asl_field_new s = (p, s1)" by fastforce
  note n = new_correct [OF st new]
  have p: "p \<in> dom (field_at s1)" using n(2) [of l] by (simp add: free_for_def)
  let ?f = "fill ((at s1 p)\<lparr>field_name := name\<rparr>)"
  obtain s2 s' where "asl_field_list_queue l p (put_field p ?f s1) = Inr (0, s2)"
    "asl_field_unlink (Some p) s2 = Inr s'" "grown s L l xs p ?f s'"
    using enter_field [OF st l live new fill] by blast
  with name p new new_fresh [OF new] show ?thesis
    by (auto simp: field_add_def mod_field_in)
qed

lemma grown_entry: "grown s L l xs p f s' \<Longrightarrow> entry (at s' p) = entry f"
  by (auto simp: grown_def intro: core_entry)

lemmas entry_simps = entry_def value_of_def string_bytes_def field_consts fresh_field_def same_links_def

text \<open>A new field at the end of the list, with the given entry.\<close>

definition appended :: "asl_heap \<Rightarrow> (addr \<rightharpoonup> addr list) \<Rightarrow> addr \<Rightarrow> addr list \<Rightarrow> byte list \<times> field_value \<Rightarrow> asl_heap c_result \<Rightarrow> bool" where
  "appended s L l xs e r \<longleftrightarrow> (\<exists>p s'. r = Inr s' \<and> list_state s' (L(l \<mapsto> xs @ [p])) \<and> p \<notin> dom (field_at s) \<and>
     entry (at s' p) = e \<and> links (at s' p) = 1 \<and> kept s s')"

lemma field_add_appended:
  assumes "list_state s L" and "L l = Some xs" and "live_list s l" and "length name \<le> ASL_FIELD_NAME_MAX"
    and "\<And>f. same_links f (fill (f\<lparr>field_name := name\<rparr>))"
    and "\<And>p. entry (fill ((fresh_field p)\<lparr>field_name := name\<rparr>)) = e"
  shows "appended s L l xs e (field_add l name fill s)"
proof -
  obtain p s' where r: "field_add l name fill s = Inr s'" "grown s L l xs p (fill ((fresh_field p)\<lparr>field_name := name\<rparr>)) s'"
    using field_add_correct [OF assms(1-5)] by blast
  have "links (at s' p) = links (fill ((fresh_field p)\<lparr>field_name := name\<rparr>))"
    using r(2) core_eq_links unfolding grown_def by blast
  then have "links (at s' p) = 1" using assms(5) [of "fresh_field p"] by (simp add: same_links_def fresh_field_def)
  with r grown_entry [OF r(2)] grown_kept [OF r(2)] assms(6) show ?thesis by (auto simp: appended_def grown_def)
qed

lemma new_string_appended:
  assumes "list_state s L" and "L l = Some xs" and "live_list s l" and "length name \<le> ASL_FIELD_NAME_MAX"
  shows "appended s L l xs (name, String_Value (value @ [0])) (asl_field_new_string junk l name value s)"
  using field_add_appended [OF assms]
  by (simp add: asl_field_new_string_def icl_longstr_new_def mem_get_def entry_simps contents_def)

lemma new_integer_appended:
  assumes "list_state s L" and "L l = Some xs" and "live_list s l" and "length name \<le> ASL_FIELD_NAME_MAX"
  shows "appended s L l xs (name, Integer_Value n) (asl_field_new_integer l name n s)"
  unfolding asl_field_new_integer_def by (rule field_add_appended [OF assms]) (simp_all add: entry_simps)

section \<open>Properties\<close>


text \<open>
  Each constructor appends to the list one field that only the list holds, with the given name and
  value, and changes nothing else; a string value is stored with its terminating null, which is part
  of what is sent.  A name longer than 128 bytes fails the assertion.
\<close>

theorem field_constructors:
  assumes "list_state s L" and "L l = Some xs" and "live_list s l"
  shows "if length name \<le> ASL_FIELD_NAME_MAX then
      appended s L l xs (name, String_Value (value @ [0])) (asl_field_new_string junk l name value s) \<and>
      appended s L l xs (name, Integer_Value n) (asl_field_new_integer l name n s) \<and>
      appended s L l xs (name, Decimal_Value (word_of_int d) n) (asl_field_new_decimal l name n d s) \<and>
      appended s L l xs (name, Time_Value n) (asl_field_new_time l name n s) \<and>
      appended s L l xs (name, Void_Value) (asl_field_new_void l name s)
    else asl_field_new_string junk l name value s = Inl Assert_Failed \<and>
      asl_field_new_integer l name n s = Inl Assert_Failed"
proof (cases "length name \<le> ASL_FIELD_NAME_MAX")
  case True
  note add = field_add_appended [OF assms True]
  show ?thesis
    using True new_string_appended [OF assms True] new_integer_appended [OF assms True]
    unfolding asl_field_new_decimal_def asl_field_new_time_def asl_field_new_void_def
    by (auto intro!: add simp: entry_simps)
next
  case False
  then show ?thesis
    by (simp add: asl_field_new_string_def asl_field_new_integer_def field_add_def icl_longstr_new_def mem_get_def)
qed

text \<open>A heap with a list at address 0 that holds one integer field.\<close>

lemma integer_table_heap:
  obtains s p where "list_state s [0 \<mapsto> [p]]" and "live_list s 0" and "entry (at s p) = ([110], Integer_Value 7)"
    and "links (at s p) = 1"
proof -
  have "length [110 :: byte] \<le> ASL_FIELD_NAME_MAX" by (simp add: ASL_FIELD_NAME_MAX_def)
  then have "appended small_heap [0 \<mapsto> []] 0 [] ([110], Integer_Value 7) (asl_field_new_integer 0 [110] 7 small_heap)"
    by (intro new_integer_appended small_heap_state) simp_all
  then obtain p s where s: "list_state s ([0 \<mapsto> []](0 \<mapsto> [] @ [p]))"
    "entry (at s p) = ([110], Integer_Value 7)" "links (at s p) = 1" "kept small_heap s"
    unfolding appended_def by blast
  then show ?thesis using kept_live [OF s(4), of 0] small_heap_state(2) by (intro that [of s p]) simp_all
qed

lemma integer_entry_valid:
  assumes "entry f = (name, Integer_Value n)" and "\<not> zombie f" and "length name \<le> 255" and "0 \<notin> set name"
    and "- (2 ^ 31) \<le> n" and "n < 2 ^ 31"
  shows "valid_field f"
  using assms by (auto simp: valid_field_def entry_def value_of_def Let_def field_consts split: if_splits)


theorem field_constructors_witness:
  "appended small_heap [0 \<mapsto> []] 0 [] ([110], Integer_Value 7) (asl_field_new_integer 0 [110] 7 small_heap)"
  using field_constructors [OF small_heap_state(1) _ small_heap_state(2), of "[]" "[110]" _ _ 7]
  by (simp add: ASL_FIELD_NAME_MAX_def)

section \<open>Searching and replacing\<close>

lemma list_state_linked:
  assumes "list_state s L" and "p \<in> dom (field_at s)"
  shows "list_state (linked p s) L"
proof -
  have "1 \<le> links (at (linked p s) a) \<and> \<not> zombie (at (linked p s) a)" if "L l = Some xs" "a \<in> set xs" for l xs a
    using list_state_member [OF assms(1) that] by (auto simp: linked_def put_field_at)
  moreover have "heap_rep (linked p s) L" using assms by (simp add: list_state_def)
  ultimately show ?thesis unfolding list_state_def by blast
qed

text \<open>
  Searching returns the first field of the given name with a link taken for the caller, and
  changes nothing else; null if there is none.  \<^verbatim>\<open>asl_field_assume\<close> then replaces: the first field of
  that name leaves the list and is freed if the list was its only holder, and a string field of that
  name and value stands at the end.
\<close>

theorem field_search_assume:
  assumes st: "list_state s L" and l: "L l = Some xs" and live: "live_list s l"
    and name: "length name \<le> ASL_FIELD_NAME_MAX"
  shows "(case find (\<lambda>a. field_name (at s a) = name) xs of
      None \<Rightarrow> asl_field_list_search l name s = Some (Inr (None, s)) \<and>
        (\<exists>r. asl_field_assume junk l name value s = Some r \<and>
          appended s L l xs (name, String_Value (value @ [0])) r)
    | Some p \<Rightarrow> asl_field_list_search l name s = Some (Inr (Some p, linked p s)) \<and>
        (\<exists>r t. asl_field_assume junk l name value s = Some r \<and>
          list_state t (L(l \<mapsto> remove1 p xs)) \<and> (links (at s p) = 1 \<longrightarrow> p \<notin> dom (field_at t)) \<and>
          appended t (L(l \<mapsto> remove1 p xs)) l (remove1 p xs) (name, String_Value (value @ [0])) r))"
proof (cases "find (\<lambda>a. field_name (at s a) = name) xs")
  case None
  then have "asl_field_list_search l name s = Some (Inr (None, s))" using search_correct [OF assms(1-3)] by simp
  with None new_string_appended [OF assms] show ?thesis by (simp add: asl_field_assume_def asl_field_destroy_def)
next
  case (Some p)
  then have p: "p \<in> set xs" by (auto simp: find_Some_iff)
  note mem = list_state_member [OF st l p]
  have srch: "asl_field_list_search l name s = Some (Inr (Some p, linked p s))"
    using search_correct [OF assms(1-3)] Some by simp
  have st': "list_state (linked p s) L" by (rule list_state_linked [OF st mem(1)])
  have two: "2 \<le> links (at (linked p s) p)" using mem(4) by (simp add: at_linked)
  obtain t where t: "asl_field_destroy (Some p) (linked p s) = Inr t" "list_state t (L(l \<mapsto> remove1 p xs))"
    "same_core (destroyed p (linked p s)) t"
    using destroy_correct [OF st' l p two] by blast
  have live': "live_list t l"
    using live t(3) by (simp add: same_core_def live_list_def destroyed_def freed_def split: if_splits)
  have "p \<notin> dom (field_at t)" if "links (at s p) = 1"
    using same_core_dom [OF t(3)] that by (simp add: destroyed_def at_linked freed_def)
  moreover have "asl_field_assume junk l name value s = Some (asl_field_new_string junk l name value t)"
    using srch t(1) by (simp add: asl_field_assume_def)
  moreover have "appended t (L(l \<mapsto> remove1 p xs)) l (remove1 p xs) (name, String_Value (value @ [0]))
      (asl_field_new_string junk l name value t)"
    by (rule new_string_appended [OF t(2) fun_upd_same live' name])
  ultimately show ?thesis unfolding Some option.case using srch t(2) by blast
qed

theorem field_search_assume_witness:
  "\<exists>s p. asl_field_list_search 0 [110] s = Some (Inr (Some p, linked p s))"
proof -
  obtain s p where s: "list_state s [0 \<mapsto> [p]]" "live_list s 0" "entry (at s p) = ([110], Integer_Value 7)"
    by (rule integer_table_heap)
  have "find (\<lambda>a. field_name (at s a) = [110]) [p] = Some p" using s(3) by (simp add: entry_def)
  then show ?thesis
    using field_search_assume [OF s(1) _ s(2), of "[p]" "[110]"] by (auto simp: ASL_FIELD_NAME_MAX_def)
qed

section \<open>Bad tables\<close>

lemma destroy_detached:
  assumes "p \<in> dom (field_at s)" and "links (at s p) = 1" and "\<not> zombie (at s p)" and "owner s p = None"
  shows "asl_field_destroy (Some p) s = Inr (freed p s)"
  using assms
  by (simp add: asl_field_destroy_def asl_field_annihilate_def list_remove_with_def get_field_in mod_field_in
      put_field_at views asl_field_free_def) (simp add: put_field_def freed_def)

definition known_type :: "byte \<Rightarrow> bool" where
  "known_type t \<longleftrightarrow> t \<in> {ASL_FIELD_TYPE_STRING, ASL_FIELD_TYPE_INTEGER, ASL_FIELD_TYPE_DECIMAL,
     ASL_FIELD_TYPE_TIME, ASL_FIELD_TYPE_FIELD_TABLE, ASL_FIELD_TYPE_VOID}"

lemma parse_unknown:
  assumes st: "list_state s L" and l: "L l = Some xs" and live: "live_list s l" and t: "\<not> known_type t"
    and limit: "length pre < limit"
  shows "\<exists>s'. asl_field_parse l (pre @ 0 # t # b # post) (length pre) limit s = Inr (None, s') \<and>
    list_state s' L \<and> list_at s' = list_at s"
proof -
  let ?data = "pre @ 0 # t # b # post"
  obtain p s1 where new: "asl_field_new s = (p, s1)" by fastforce
  note n = new_correct [OF st new]
  have p: "p \<in> dom (field_at s1)" using n(2) [of l] by (simp add: free_for_def)
  define g where "g = (at s1 p)\<lparr>field_name := [], field_type := t\<rparr>"
  have r: "c_read ?data (length pre) = Inr 0" "c_read ?data (length pre + 1) = Inr t"
    "c_read ?data (length pre + 1 + 1) = Inr b" "mem_get ?data (length pre + 1) 0 = Inr []"
    by (simp_all add: c_read_def nth_append mem_get_def)
  have "value_read ?data (length pre + 1 + 1) g = Inr (g, None, length pre + 1 + 1)"
    using t r(3) unfolding g_def value_read_def
    by (simp add: known_type_def Let_def del: c_read_Inr)
  then have "field_read ?data (length pre) limit (at s1 p) = Inr (g, None, length pre + 1 + 1)"
    using limit r unfolding field_read_def g_def by (simp add: Let_def del: c_read_Inr)
  moreover have "asl_field_destroy (Some p) (put_field p g s1) = Inr (freed p s1)"
    using destroy_detached [of p "put_field p g s1"] p n(2) [of l] n(6) new_fresh [OF new]
    by (simp add: g_def put_field_at views fresh_field_def)
  ultimately have "asl_field_parse l ?data (length pre) limit s = Inr (None, freed p s1)"
    using p new by (simp add: asl_field_parse_def get_field_in asl_field_unlink_def unlink_with_def)
  moreover have "list_state (freed p s1) L"
  proof -
    have "owner s1 p = None" using new_fresh [OF new] by (simp add: views fresh_field_def)
    then have "list_state (dropped p s1) L" using list_state_dropped [OF n(1) p] by simp
    then show ?thesis using n(6) by (simp add: dropped_def)
  qed
  ultimately show ?thesis using n(3) by (auto simp: freed_def)
qed

lemma list_new_prefix:
  assumes st: "list_state s L" and fs: "\<forall>f\<in>set fs. valid_field f"
    and table: "longstr_ok table" "contents table = table_wire fs @ bad"
  obtains l ys s1 where "l \<notin> dom L" and "list_state s1 (L(l \<mapsto> ys))" and "live_list s1 l"
    and "list_at s1 l = Some \<lparr>list_links = 1, list_zombie = False\<rparr>"
    and "asl_field_list_new (Some table) s =
      Option.bind (list_parse_loop l (ls_data table) (length (table_wire fs)) (cur_size table) s1) (\<lambda>r.
        case r of
          Inl e \<Rightarrow> Some (Inl e)
        | Inr (rc, s) \<Rightarrow>
            if rc \<noteq> 0 then map_option (\<lambda>r. c_bind r (\<lambda>s. Inr (None, s))) (asl_field_list_destroy (Some l) s)
            else Some (Inr (Some l, s)))"
proof -
  obtain l t where new: "asl_field_list_create s = (l, t)" by fastforce
  note c = create_correct [OF st new]
  have data: "ls_data table = [] @ table_wire fs @ bad @ drop (cur_size table) (ls_data table)"
    using table(2) by (metis append_Nil append_assoc append_take_drop_id contents_def)
  have "length (contents table) = cur_size table" using table(1) by (simp add: longstr_ok_def max_size_def contents_def)
  then have len: "length ([] :: byte list) + length (table_wire fs) \<le> cur_size table" using table(2) by simp
  obtain ys s1 where s1: "list_parse_loop l (ls_data table) 0 (cur_size table) t =
      list_parse_loop l (ls_data table) (length (table_wire fs)) (cur_size table) s1"
    "list_state s1 (L(l \<mapsto> [] @ ys))" "kept t s1"
    using parse_loop_wire [OF c(1) fun_upd_same c(3) fs len, of "bad @ drop (cur_size table) (ls_data table)"]
    unfolding fun_upd_upd data [symmetric] by auto
  show ?thesis
  proof (rule that [of l s1 ys])
    show "l \<notin> dom L" by (rule c(2))
    show "list_state s1 (L(l \<mapsto> ys))" using s1(2) by simp
    show "live_list s1 l" using kept_live [OF s1(3)] c(3) by simp
    show "list_at s1 l = Some \<lparr>list_links = 1, list_zombie = False\<rparr>" using s1(3) c(4) by (simp add: kept_def)
  qed (use new c(4) s1(1) in \<open>simp add: asl_field_list_new_def asl_field_list_parse_def get_list_def\<close>)
qed

text \<open>
  A field of unknown type makes the whole table be rejected: after any valid fields, such a field
  ends the parsing, the list built so far is destroyed, the caller gets null, and the heap
  represents the same lists as before.
\<close>

theorem bad_table_rejected:
  assumes st: "list_state s L" and fs: "\<forall>f\<in>set fs. valid_field f" and ok: "longstr_ok table"
    and table: "contents table = table_wire fs @ 0 # t # b # rest" and t: "\<not> known_type t"
  shows "\<exists>s'. asl_field_list_new (Some table) s = Some (Inr (None, s')) \<and> list_state s' L"
proof -
  obtain l ys s1 where s1: "l \<notin> dom L" "list_state s1 (L(l \<mapsto> ys))" "live_list s1 l"
    "list_at s1 l = Some \<lparr>list_links = 1, list_zombie = False\<rparr>"
    and new: "asl_field_list_new (Some table) s =
      Option.bind (list_parse_loop l (ls_data table) (length (table_wire fs)) (cur_size table) s1) (\<lambda>r.
        case r of
          Inl e \<Rightarrow> Some (Inl e)
        | Inr (rc, s) \<Rightarrow>
            if rc \<noteq> 0 then map_option (\<lambda>r. c_bind r (\<lambda>s. Inr (None, s))) (asl_field_list_destroy (Some l) s)
            else Some (Inr (Some l, s)))"
    by (rule list_new_prefix [OF st fs ok table])
  have "length (contents table) = cur_size table" using ok by (simp add: longstr_ok_def max_size_def contents_def)
  then have lim: "length (table_wire fs) < cur_size table" using table by simp
  have data: "ls_data table = table_wire fs @ 0 # t # b # (rest @ drop (cur_size table) (ls_data table))"
    using table by (metis append_Cons append_assoc append_take_drop_id contents_def)
  obtain s2 where s2: "asl_field_parse l (ls_data table) (length (table_wire fs)) (cur_size table) s1 = Inr (None, s2)"
    "list_state s2 (L(l \<mapsto> ys))" "list_at s2 = list_at s1"
    using parse_unknown [OF s1(2) fun_upd_same s1(3) t lim, of b "rest @ drop (cur_size table) (ls_data table)"]
    unfolding data [symmetric] by blast
  then have loop: "list_parse_loop l (ls_data table) (length (table_wire fs)) (cur_size table) s1 = Some (Inr (- 1, s2))"
    using lim by (subst list_parse_loop.simps) simp
  obtain s' where s': "asl_field_list_destroy (Some l) s2 = Some (Inr s')" "list_state s' ((L(l \<mapsto> ys))(l := None))"
    using list_destroy_correct [OF s2(2) fun_upd_same s1(4) [folded s2(3)]] by blast
  have "(L(l \<mapsto> ys))(l := None) = L" using s1(1) by (auto simp: fun_upd_idem_iff domIff)
  with s' new loop show ?thesis by simp
qed

text \<open>If the field after the well-formed ones cannot be read, neither can the table.\<close>

lemma list_new_overreads:
  assumes st: "list_state s L" and fs: "\<forall>f\<in>set fs. valid_field f" and full: "cur_size tab = max_size tab"
    and bad: "contents tab = table_wire fs @ bad" "bad \<noteq> []"
    and read: "\<And>g. field_read (contents tab) (length (table_wire fs)) (cur_size tab) g = Inl Out_Of_Bounds"
  shows "asl_field_list_new (Some tab) s = Some (Inl Out_Of_Bounds)"
proof -
  have ok: "longstr_ok tab" and data: "ls_data tab = contents tab"
    using full by (simp_all add: longstr_ok_def contents_def max_size_def)
  obtain l ys s1 where s1: "list_state s1 (L(l \<mapsto> ys))"
    and new: "asl_field_list_new (Some tab) s =
      Option.bind (list_parse_loop l (ls_data tab) (length (table_wire fs)) (cur_size tab) s1) (\<lambda>r.
        case r of
          Inl e \<Rightarrow> Some (Inl e)
        | Inr (rc, s) \<Rightarrow>
            if rc \<noteq> 0 then map_option (\<lambda>r. c_bind r (\<lambda>s. Inr (None, s))) (asl_field_list_destroy (Some l) s)
            else Some (Inr (Some l, s)))"
    by (rule list_new_prefix [OF st fs ok bad(1)])
  obtain p s2 where field: "asl_field_new s1 = (p, s2)" by fastforce
  have "p \<in> dom (field_at s2)" using new_correct(2) [OF s1 field] by (simp add: free_for_def)
  then have "asl_field_parse l (contents tab) (length (table_wire fs)) (cur_size tab) s1 = Inl Out_Of_Bounds"
    using field read by (simp add: asl_field_parse_def get_field_in)
  moreover have "cur_size tab = length (contents tab)" using data full by (simp add: max_size_def)
  ultimately show ?thesis
    using new bad(2) bad(1) unfolding data by (subst (asm) list_parse_loop.simps) simp
qed

lemma string_overread:
  assumes n: "length rest < n" "n < 2 ^ 31" and full: "cur_size table = max_size table"
    and table: "contents table = table_wire fs @ 0 # ASL_FIELD_TYPE_STRING # ASL_FIELD_PUT_LONG (int n) @ rest"
  shows "field_read (contents table) (length (table_wire fs)) (cur_size table) g = Inl Out_Of_Bounds"
proof -
  let ?zs = "table_wire fs" and ?D = "contents table"
  have r: "c_read ?D (length ?zs) = Inr 0" "c_read ?D (length ?zs + 1) = Inr ASL_FIELD_TYPE_STRING"
    "mem_get ?D (length ?zs + 1) 0 = Inr []"
    unfolding table by (simp_all add: c_read_def nth_append mem_get_def)
  have "?D = (?zs @ [0, ASL_FIELD_TYPE_STRING]) @ ASL_FIELD_PUT_LONG (int n) @ rest" using table by simp
  then have long: "ASL_FIELD_GET_LONG ?D (length ?zs + 1 + 1) = Inr (int n)"
    using get_put_long [of "int n" "?zs @ [0, ASL_FIELD_TYPE_STRING]" rest] n by simp
  have over: "mem_get ?D (length ?zs + 1 + 1 + 4) n = Inl Out_Of_Bounds"
    unfolding table using n by (simp add: mem_get_def)
  have "length ?D = cur_size table" using full by (simp add: contents_def max_size_def)
  then have lim: "length ?zs + 1 \<le> cur_size table" unfolding table by simp
  have "value_read ?D (length ?zs + 1 + 1) (g\<lparr>field_name := [], field_type := ASL_FIELD_TYPE_STRING\<rparr>) = Inl Out_Of_Bounds"
  proof -
    have ft: "field_type (g\<lparr>field_name := [], field_type := ASL_FIELD_TYPE_STRING\<rparr>) = ASL_FIELD_TYPE_STRING" by simp
    show ?thesis
      unfolding value_read_def Let_def ft using n(2) by (simp only: long over if_True c_bind_simps size_of_long_nat refl)
  qed
  then show ?thesis
    unfolding field_read_def using lim
    by (simp only: r c_bind_simps Let_def unat_0 add_0_right not_True_eq_False if_False takeWhile.simps)
qed

lemma name_overread:
  assumes cut: "contents short = table_wire fs @ word_of_nat k # name" "length name < k" "k < 256"
  shows "field_read (contents short) (length (table_wire fs)) (cur_size short) g = Inl Out_Of_Bounds"
proof -
  have r: "c_read (contents short) (length (table_wire fs)) = Inr (word_of_nat k)" unfolding cut(1) by simp
  have "mem_get (contents short) (length (table_wire fs) + 1) k = Inl Out_Of_Bounds"
    unfolding cut(1) using cut(2) by (simp add: mem_get_def)
  then show ?thesis unfolding field_read_def using cut(3) by (simp add: r Let_def del: c_read_Inr)
qed

text \<open>
  C39. The parser trusts the lengths in the table: when a string field declares more bytes than the
  block holds, the copy reads past the end of the block, because the position is compared with the
  limit only afterwards.  A table cut off inside a name is no better: the name is read past the end.
\<close>

theorem bad_table_overreads:
  assumes st: "list_state s L" and fs: "\<forall>f\<in>set fs. valid_field f" and n: "length rest < n" "n < 2 ^ 31"
    and full: "cur_size table = max_size table" "cur_size short = max_size short"
    and table: "contents table = table_wire fs @ 0 # ASL_FIELD_TYPE_STRING # ASL_FIELD_PUT_LONG (int n) @ rest"
    and cut: "contents short = table_wire fs @ word_of_nat k # name" "length name < k" "k < 256"
  shows "asl_field_list_new (Some table) s = Some (Inl Out_Of_Bounds) \<and>
    asl_field_list_new (Some short) s = Some (Inl Out_Of_Bounds)"
  using list_new_overreads [OF st fs full(1) table _ string_overread [OF n full(1) table]]
    list_new_overreads [OF st fs full(2) cut(1) _ name_overread [OF cut]] by simp

theorem bad_table_rejected_witness:
  "\<exists>s'. asl_field_list_new (Some \<lparr>cur_size = 3, ls_data = [0, 88, 0]\<rparr>) empty_heap = Some (Inr (None, s'))"
  using bad_table_rejected [OF list_state_empty, of "[]" "\<lparr>cur_size = 3, ls_data = [0, 88, 0]\<rparr>" 88 0 "[]"]
  by (auto simp: longstr_ok_def max_size_def contents_def known_type_def field_consts)

theorem bad_table_overreads_witness:
  "asl_field_list_new (Some \<lparr>cur_size = 6, ls_data = [0, 83, 0, 0, 0, 1]\<rparr>) empty_heap = Some (Inl Out_Of_Bounds)"
  using bad_table_overreads [OF list_state_empty, of "[]" "[]" 1 "\<lparr>cur_size = 6, ls_data = [0, 83, 0, 0, 0, 1]\<rparr>"
      "\<lparr>cur_size = 1, ls_data = [1]\<rparr>" 1 "[]"]
  by (simp add: max_size_def contents_def ASL_FIELD_PUT_LONG_def ASL_FIELD_TYPE_STRING_def)

end
