(* ===== verification/Amq_Content.thy ===== *)
theory Amq_Content
  imports Amq_Prelude
begin

text \<open>
  A message content as the server's objects see it: what the publisher gave with it and the flags
  the exchange and the queue set (the context of the content classes generated from
  \<^verbatim>\<open>tooling/base2/asl/asl_content_class.gsl\<close>, with the header table among the properties).  The
  exchange reads the routing key and the headers, the queue the producer and the flags; both count
  the body size in 64-bit traffic counters.  The body itself, in its buckets, is not looked into by
  either and is left out.
\<close>

record amq_content =
  ct_message_id :: string
  ct_producer_id :: string
  ct_routing_key :: string
  ct_headers :: "byte list"
  ct_body_size :: "64 word"
  ct_immediate :: bool
  ct_returned :: bool

end
