(* ===== verification/Amq_Binding.thy ===== *)
theory Amq_Binding
  imports Ipr_Index Asl_Field
begin

text \<open>
  The objects an exchange is made of: bindings (\<^verbatim>\<open>server/amq_binding.icl\<close>), match indices
  (\<^verbatim>\<open>server/amq_index.icl\<close>) and the exchange record (\<^verbatim>\<open>server/amq_exchange.icl\<close>).

  Bindings are shared: the exchange reaches one object from its binding list, its hash table, its
  numbered index and its per-queue lists.  The model keeps the objects in a store from addresses
  to records and the four structures hold addresses.  A queue is known to the exchange by its
  address, its name and whether it is exclusive.

  The index hash and the index array of an exchange hold the same objects, the array in order of
  creation, so they are one association list.  Binding arguments are long strings: the record holds
  their bytes, none standing for the null pointer, as the code stores empty arguments.
\<close>

section \<open>Data\<close>

datatype exchange_type =
  AMQ_EXCHANGE_SYSTEM | AMQ_EXCHANGE_FANOUT | AMQ_EXCHANGE_DIRECT | AMQ_EXCHANGE_TOPIC
| AMQ_EXCHANGE_HEADERS | AMQ_EXCHANGE_REGEXP

datatype federation_type =
  AMQ_FEDERATION_NONE | AMQ_FEDERATION_SUBSCRIBER | AMQ_FEDERATION_PUBLISHER | AMQ_FEDERATION_LOCATOR
| AMQ_FEDERATION_FANOUT | AMQ_FEDERATION_SERVICE

record queue_ref =
  qr_addr :: nat
  qr_name :: string
  qr_exclusive :: bool

record amq_binding =
  bn_routing_key :: string
  bn_arguments :: "byte list"
  bn_queue_set :: "nat list"
  bn_is_wildcard :: bool
  bn_exclusive :: bool
  bn_index :: nat
  bn_regexp :: string
  bn_field_count :: nat
  bn_match_all :: bool

type_synonym amq_indices = "(string \<times> ipr_bits) list"

record amq_exchange =
  ex_type :: exchange_type
  ex_binding_list :: "nat list"
  ex_binding_hash :: "string \<rightharpoonup> nat"
  ex_binding_index :: ipr_index
  ex_bindings :: "nat \<rightharpoonup> amq_binding"
  ex_queue_bindings :: "string \<rightharpoonup> nat list"
  ex_indices :: amq_indices
  ex_federation_type :: federation_type
  ex_contents_in :: "64 word"
  ex_contents_out :: "64 word"
  ex_traffic_in :: "64 word"
  ex_traffic_out :: "64 word"

definition amq_exchange_new :: "exchange_type \<Rightarrow> federation_type \<Rightarrow> amq_exchange" where
  "amq_exchange_new t fed = \<lparr>ex_type = t, ex_binding_list = [], ex_binding_hash = Map.empty,
     ex_binding_index = ipr_index_new, ex_bindings = Map.empty, ex_queue_bindings = Map.empty,
     ex_indices = [], ex_federation_type = fed, ex_contents_in = 0, ex_contents_out = 0,
     ex_traffic_in = 0, ex_traffic_out = 0\<rparr>"

section \<open>Bindings\<close>

definition AMQ_QUEUE_SET_MAX :: nat where
  "AMQ_QUEUE_SET_MAX = 16000"

text \<open>
  The arguments of a binding are a field table.  Decoding them makes a field list of its own, on
  memory no other object shares, so it starts from an empty heap.  \<open>None\<close> stands for the null
  pointer, returned for a table that is badly formed.  The fields are given in list order, without
  the links the loop over the list takes on them.
\<close>

definition arguments_longstr :: "byte list \<Rightarrow> icl_longstr option" where
  "arguments_longstr a = (if a = [] then None else Some \<lparr>cur_size = length a, ls_data = a\<rparr>)"

definition table_fields :: "byte list \<Rightarrow> asl_field list option c_result option" where
  "table_fields table =
     (case asl_field_list_new (arguments_longstr table) empty_heap of
        None \<Rightarrow> None
      | Some (Inl e) \<Rightarrow> Some (Inl e)
      | Some (Inr (None, s)) \<Rightarrow> Some (Inr None)
      | Some (Inr (Some l, s)) \<Rightarrow>
          map_option (\<lambda>r. c_bind r (\<lambda>(fields, s). Inr (Some fields)))
            (list_each (reading (\<lambda>f fields. Inr (fields @ [f\<lparr>links := 0\<rparr>]))) l [] s))"

text \<open>
  A new binding takes a number from the exchange's index.  If none is given the constructor
  destroys the object, which clears \<^verbatim>\<open>self\<close>, and then reads \<^verbatim>\<open>self->arguments\<close>: the null
  pointer branch.  The arguments must decode: the constructor asserts that the field list is there.
  Its text form for the console is not modelled.
\<close>

definition amq_binding_new ::
    "amq_exchange \<Rightarrow> nat \<Rightarrow> string \<Rightarrow> byte list \<Rightarrow> bool \<Rightarrow> amq_exchange c_result option" where
  "amq_binding_new x self routing_key arguments exclusive =
     (case ipr_index_insert (ex_binding_index x) self of
        None \<Rightarrow> None
      | Some (Inl e) \<Rightarrow> Some (Inl e)
      | Some (Inr (ix, n)) \<Rightarrow>
          if n = 0 then Some (Inl Null_Pointer)
          else
            map_option (\<lambda>r. c_bind r (\<lambda>field_list.
              if field_list = None then Inl Assert_Failed
              else
                let b = \<lparr>bn_routing_key = routing_key, bn_arguments = arguments, bn_queue_set = [],
                         bn_is_wildcard = False, bn_exclusive = exclusive, bn_index = n,
                         bn_regexp = [], bn_field_count = 0, bn_match_all = False\<rparr>
                in Inr (x\<lparr>ex_binding_index := ix, ex_bindings := (ex_bindings x)(self \<mapsto> b)\<rparr>)))
              (table_fields arguments))"

definition amq_binding_destroy :: "amq_exchange \<Rightarrow> nat \<Rightarrow> amq_exchange c_result" where
  "amq_binding_destroy x self =
     (case ex_bindings x self of
        None \<Rightarrow> Inl Null_Pointer
      | Some b \<Rightarrow>
          c_bind (ipr_index_delete (ex_binding_index x) (bn_index b))
            (\<lambda>ix. Inr (x\<lparr>ex_binding_index := ix, ex_bindings := (ex_bindings x)(self := None),
                        ex_binding_list := remove1 self (ex_binding_list x)\<rparr>)))"

definition amq_binding_bind_queue :: "amq_binding \<Rightarrow> nat \<Rightarrow> amq_binding" where
  "amq_binding_bind_queue b queue =
     (if queue \<in> set (bn_queue_set b) then b else b\<lparr>bn_queue_set := bn_queue_set b @ [queue]\<rparr>)"

text \<open>The second component is the return code: -1 when the binding has no queue left.\<close>

definition amq_binding_unbind_queue :: "amq_binding \<Rightarrow> nat \<Rightarrow> amq_binding \<times> int" where
  "amq_binding_unbind_queue b queue =
     (let b' = b\<lparr>bn_queue_set := remove1 queue (bn_queue_set b)\<rparr>
      in (b', if bn_queue_set b' = [] then - 1 else 0))"

fun collect_loop :: "nat list \<Rightarrow> nat list \<Rightarrow> nat list" where
  "collect_loop [] queue_set = queue_set"
| "collect_loop (q # qs) queue_set =
     collect_loop qs (if length queue_set < AMQ_QUEUE_SET_MAX then queue_set @ [q] else queue_set)"

definition amq_binding_collect :: "amq_binding \<Rightarrow> nat list \<Rightarrow> nat list" where
  "amq_binding_collect b queue_set = collect_loop (bn_queue_set b) queue_set"

lemma collect_loop_take:
  "length s \<le> AMQ_QUEUE_SET_MAX \<Longrightarrow> collect_loop qs s = take AMQ_QUEUE_SET_MAX (s @ qs)"
proof (induction qs arbitrary: s)
  case (Cons q qs)
  show ?case
  proof (cases "length s < AMQ_QUEUE_SET_MAX")
    case True
    with Cons.IH [of "s @ [q]"] show ?thesis by simp
  next
    case False
    with Cons have "length s = AMQ_QUEUE_SET_MAX" by simp
    with Cons.IH [of s] show ?thesis by simp
  qed
qed simp

section \<open>Indices\<close>

definition amq_index_search :: "amq_indices \<Rightarrow> string \<Rightarrow> ipr_bits option" where
  "amq_index_search ix key = map_of ix key"

definition amq_index_new :: "amq_indices \<Rightarrow> string \<Rightarrow> amq_indices" where
  "amq_index_new ix key = ix @ [(key, ipr_bits_new)]"

text \<open>\<^verbatim>\<open>ipr_bits_set (index->bindset, binding->index)\<close> on the index found under a key.\<close>

fun amq_index_mark :: "amq_indices \<Rightarrow> string \<Rightarrow> nat \<Rightarrow> amq_indices c_result" where
  "amq_index_mark [] key n = Inl Null_Pointer"
| "amq_index_mark ((k, b) # ix) key n =
     (if k = key then c_bind (ipr_bits_set b n) (\<lambda>b'. Inr ((k, b') # ix))
      else c_bind (amq_index_mark ix key n) (\<lambda>ix'. Inr ((k, b) # ix')))"

lemma index_mark_result:
  assumes "amq_index_search ix key = Some b" and "ipr_bits_set b n = Inr b'" and "distinct (map fst ix)"
  shows "\<exists>ix'. amq_index_mark ix key n = Inr ix' \<and> map fst ix' = map fst ix \<and>
    map_of ix' = (map_of ix)(key \<mapsto> b')"
  using assms
  by (induction ix key n rule: amq_index_mark.induct) (auto simp: amq_index_search_def fun_eq_iff)

lemma index_mark_new:
  "amq_index_search ix key = None \<Longrightarrow>
   amq_index_mark (amq_index_new ix key) key n = c_bind (ipr_bits_set ipr_bits_new n) (\<lambda>b. Inr (ix @ [(key, b)]))"
proof (induction ix)
  case (Cons kb ix)
  then show ?case
    by (cases kb; cases "ipr_bits_set ipr_bits_new n")
      (auto simp: amq_index_new_def amq_index_search_def split: if_splits)
qed (simp add: amq_index_new_def)

section \<open>The publish set\<close>

text \<open>
  The loop over the numbers of matching bindings that fills the publish set: each number is
  looked up in the exchange's binding index, and the binding's queues are collected.
\<close>

fun exchange_collect :: "amq_exchange \<Rightarrow> nat list \<Rightarrow> nat list \<Rightarrow> nat list c_result" where
  "exchange_collect x [] queue_set = Inr queue_set"
| "exchange_collect x (binding_nbr # ns) queue_set =
     (let p = ix_data (ex_binding_index x) binding_nbr
      in if p = 0 then Inl Assert_Failed
         else case ex_bindings x p of
                None \<Rightarrow> Inl Null_Pointer
              | Some b \<Rightarrow> exchange_collect x ns (amq_binding_collect b queue_set))"

text \<open>
  The footer of every \<^verbatim>\<open>publish\<close> method (\<^verbatim>\<open>server/amq_exchange_base.icl\<close>): sort the set by queue
  address, then publish to each queue that differs from the one before.  \<^verbatim>\<open>qsort\<close> with
  \<^verbatim>\<open>s_compare_queue\<close> orders addresses, so its result is the sorted list.  The model returns the
  queues in the order they are published to.
\<close>

fun deliver_loop :: "nat \<Rightarrow> nat list \<Rightarrow> nat list" where
  "deliver_loop last_queue [] = []"
| "deliver_loop last_queue (q # qs) =
     (if q \<noteq> last_queue then q # deliver_loop q qs else deliver_loop last_queue qs)"

definition exchange_deliver :: "nat list \<Rightarrow> nat list" where
  "exchange_deliver queue_set =
     deliver_loop 0 (if length queue_set > 1 then sort queue_set else queue_set)"

lemma deliver_loop_sorted:
  "sorted qs \<Longrightarrow> \<forall>q\<in>set qs. last_queue \<le> q \<Longrightarrow>
   set (deliver_loop last_queue qs) = set qs - {last_queue} \<and>
   sorted_wrt (<) (deliver_loop last_queue qs) \<and> (\<forall>q\<in>set (deliver_loop last_queue qs). last_queue < q)"
proof (induction last_queue qs rule: deliver_loop.induct)
  case (2 l q qs)
  show ?case
  proof (cases "q = l")
    case True
    with 2 show ?thesis by auto
  next
    case False
    with "2.prems" have "l < q" and ih: "sorted qs" "\<forall>r\<in>set qs. q \<le> r" by auto
    with "2.IH"(1) [OF False ih] False show ?thesis by auto
  qed
qed auto

lemma exchange_deliver_set:
  assumes "0 \<notin> set qs"
  shows "set (exchange_deliver qs) = set qs" and "sorted_wrt (<) (exchange_deliver qs)"
    and "distinct (exchange_deliver qs)"
proof -
  have *: "sorted (if length qs > 1 then sort qs else qs)" (is "sorted ?s")
    by (simp add: sorted01)
  from deliver_loop_sorted [OF this, of 0] assms
  show "set (exchange_deliver qs) = set qs" and sw: "sorted_wrt (<) (exchange_deliver qs)"
    by (auto simp: exchange_deliver_def)
  from sw show "distinct (exchange_deliver qs)" by (simp add: strict_sorted_iff)
qed

section \<open>Well-formed exchanges\<close>

text \<open>
  The binding list holds distinct addresses of stored bindings, each binding is found in the
  binding index under its own number, and all wildcard bindings come before all others, which the
  publish loop of the topic exchange relies on.  The bound on the numbers is the capacity of the
  bitmaps (see the bitstring theory).
\<close>

definition ex_wf :: "amq_exchange \<Rightarrow> bool" where
  "ex_wf x \<longleftrightarrow> ix_inv (ex_binding_index x) \<and> distinct (ex_binding_list x) \<and>
     (\<forall>p\<in>set (ex_binding_list x). p \<noteq> 0 \<and> (\<exists>b. ex_bindings x p = Some b \<and> 0 < bn_index b \<and>
        bn_index b < BITS_CAP \<and> ix_data (ex_binding_index x) (bn_index b) = p)) \<and>
     sorted_wrt (\<lambda>p q. bn_is_wildcard (the (ex_bindings x q)) \<longrightarrow> bn_is_wildcard (the (ex_bindings x p)))
       (ex_binding_list x)"

abbreviation binding_at :: "amq_exchange \<Rightarrow> nat \<Rightarrow> amq_binding" where
  "binding_at x p \<equiv> the (ex_bindings x p)"

lemma ex_wf_new: "ex_wf (amq_exchange_new t fed)"
  by (simp add: ex_wf_def amq_exchange_new_def ix_new_inv)

lemma ex_wf_bindingE:
  assumes "ex_wf x" and "p \<in> set (ex_binding_list x)"
  obtains b where "ex_bindings x p = Some b" "0 < bn_index b" "bn_index b < BITS_CAP" "p \<noteq> 0"
    "ix_data (ex_binding_index x) (bn_index b) = p"
proof -
  from assms have "p \<noteq> 0 \<and> (\<exists>b. ex_bindings x p = Some b \<and> 0 < bn_index b \<and>
      bn_index b < BITS_CAP \<and> ix_data (ex_binding_index x) (bn_index b) = p)"
    unfolding ex_wf_def by blast
  then show ?thesis using that by blast
qed

lemma ex_wf_store: "ex_wf x \<Longrightarrow> \<forall>p\<in>set (ex_binding_list x). ex_bindings x p \<noteq> None"
  by (auto simp: ex_wf_def)

lemma ex_wf_index_of:
  assumes "ex_wf x" and "p \<in> set (ex_binding_list x)"
  shows "bn_index (binding_at x p) < BITS_CAP" and "ix_data (ex_binding_index x) (bn_index (binding_at x p)) = p"
  by (rule ex_wf_bindingE [OF assms], simp)+

text \<open>
  Collecting over the numbers of a set of listed bindings gathers exactly their queues, in the
  order of the numbers, cut at the size of the set.
\<close>

lemma exchange_collect_bindings:
  assumes "ex_wf x" and "\<forall>n\<in>set ns. \<exists>p\<in>set (ex_binding_list x). bn_index (binding_at x p) = n"
    and "length s \<le> AMQ_QUEUE_SET_MAX"
  shows "exchange_collect x ns s = Inr (take AMQ_QUEUE_SET_MAX
    (s @ concat (map (\<lambda>n. bn_queue_set (binding_at x (ix_data (ex_binding_index x) n))) ns)))"
  using assms(2,3)
proof (induction ns arbitrary: s)
  case (Cons n ns)
  then obtain p where p: "p \<in> set (ex_binding_list x)" "bn_index (binding_at x p) = n" by auto
  obtain b where b: "ex_bindings x p = Some b" "p \<noteq> 0" "ix_data (ex_binding_index x) n = p"
    using p by (auto elim: ex_wf_bindingE [OF assms(1)])
  let ?s = "amq_binding_collect b s"
  have s: "?s = take AMQ_QUEUE_SET_MAX (s @ bn_queue_set b)"
    using Cons.prems(2) by (simp add: amq_binding_collect_def collect_loop_take)
  have "exchange_collect x (n # ns) s = exchange_collect x ns ?s"
    using b by simp
  also have "\<dots> = Inr (take AMQ_QUEUE_SET_MAX
    (?s @ concat (map (\<lambda>n. bn_queue_set (binding_at x (ix_data (ex_binding_index x) n))) ns)))"
    using Cons by (intro Cons.IH) (auto simp: s)
  also have "take AMQ_QUEUE_SET_MAX (?s @ r) = take AMQ_QUEUE_SET_MAX ((s @ bn_queue_set b) @ r)" for r
    unfolding s by (simp add: take_append min_def)
  finally show ?case by (simp add: b)
qed simp

abbreviation queues_at :: "amq_exchange \<Rightarrow> nat \<Rightarrow> nat list" where
  "queues_at x p \<equiv> bn_queue_set (binding_at x p)"

lemma exchange_collect_hits:
  assumes wf: "ex_wf x" and H: "H \<subseteq> set (ex_binding_list x)"
    and ns: "distinct ns" "set ns = (\<lambda>p. bn_index (binding_at x p)) ` H"
    and room: "(\<Sum>p\<in>H. length (queues_at x p)) \<le> AMQ_QUEUE_SET_MAX"
  shows "\<exists>qs. exchange_collect x ns [] = Inr qs \<and> set qs = (\<Union>p\<in>H. set (queues_at x p))"
proof -
  let ?i = "\<lambda>p. bn_index (binding_at x p)" and ?d = "\<lambda>n. ix_data (ex_binding_index x) n"
  have d: "?d (?i p) = p" if "p \<in> H" for p using ex_wf_index_of(2) [OF wf] H that by blast
  have inj: "inj_on ?i H" using d by (intro inj_on_inverseI [where g = ?d]) auto
  have ex: "\<forall>n\<in>set ns. \<exists>p\<in>set (ex_binding_list x). ?i p = n" using ns(2) H by auto
  let ?c = "concat (map (\<lambda>n. queues_at x (?d n)) ns)"
  have "length ?c = (\<Sum>n\<in>set ns. length (queues_at x (?d n)))"
    using ns(1) by (simp add: length_concat comp_def sum_list_distinct_conv_sum_set)
  also have "\<dots> = (\<Sum>p\<in>H. length (queues_at x p))"
    unfolding ns(2) using d by (simp add: sum.reindex [OF inj])
  finally have len: "length ?c \<le> AMQ_QUEUE_SET_MAX" using room by simp
  have "exchange_collect x ns [] = Inr ?c"
    using exchange_collect_bindings [OF wf ex, of "[]"] len by simp
  moreover have "set ?c = (\<Union>p\<in>H. set (queues_at x p))"
    using ns(2) d by auto
  ultimately show ?thesis by blast
qed

section \<open>The index cache\<close>

text \<open>
  Topic and regexp exchanges cache, per routing key, the bitmap of the matching bindings.  For a
  matching relation \<open>M\<close>, the cache is right when every index holds exactly the numbers of the
  bindings that match its key.
\<close>

definition index_hits :: "(amq_binding \<Rightarrow> string \<Rightarrow> bool) \<Rightarrow> amq_exchange \<Rightarrow> string \<Rightarrow> nat set" where
  "index_hits M x key = {p \<in> set (ex_binding_list x). M (binding_at x p) key}"

definition cache_inv :: "(amq_binding \<Rightarrow> string \<Rightarrow> bool) \<Rightarrow> amq_exchange \<Rightarrow> bool" where
  "cache_inv M x \<longleftrightarrow> ex_wf x \<and> distinct (map fst (ex_indices x)) \<and>
     (\<forall>key bits. amq_index_search (ex_indices x) key = Some bits \<longrightarrow>
        bits_wf bits \<and> bits_abs bits = (\<lambda>p. bn_index (binding_at x p)) ` index_hits M x key)"

lemma cache_inv_new: "cache_inv M (amq_exchange_new t fed)"
  by (simp add: cache_inv_def ex_wf_new) (simp add: amq_exchange_new_def amq_index_search_def)

text \<open>The end of \<^verbatim>\<open>publish\<close>: walk the bitmap, collect the queues, deliver.\<close>

definition exchange_route :: "amq_exchange \<Rightarrow> ipr_bits \<Rightarrow> nat list c_result" where
  "exchange_route x bits =
     c_bind (ipr_bits_members bits) (\<lambda>ns.
       c_bind (exchange_collect x ns []) (\<lambda>queue_set. Inr (exchange_deliver queue_set)))"

lemma exchange_route_correct:
  assumes "ex_wf x" and "bits_wf bits" and H: "H \<subseteq> set (ex_binding_list x)"
    and "bits_abs bits = (\<lambda>p. bn_index (binding_at x p)) ` H"
    and "(\<Sum>p\<in>H. length (queues_at x p)) \<le> AMQ_QUEUE_SET_MAX"
    and "\<forall>p\<in>set (ex_binding_list x). 0 \<notin> set (queues_at x p)"
  shows "\<exists>qs. exchange_route x bits = Inr qs \<and> distinct qs \<and> set qs = (\<Union>p\<in>H. set (queues_at x p))"
proof -
  obtain ns where ns: "ipr_bits_members bits = Inr ns" "set ns = bits_abs bits" "distinct ns"
    using bm.members_set [OF assms(2)] by blast
  obtain qs where qs: "exchange_collect x ns [] = Inr qs" "set qs = (\<Union>p\<in>H. set (queues_at x p))"
    using exchange_collect_hits [OF assms(1) H ns(3)] ns(2) assms(4,5) by auto
  then have "0 \<notin> set qs" using assms(6) H by auto
  from exchange_deliver_set [OF this] qs ns show ?thesis by (simp add: exchange_route_def)
qed

lemma cache_inv_add_index:
  assumes "cache_inv M x" and "amq_index_search (ex_indices x) key = None" and "bits_wf bits"
    and "bits_abs bits = (\<lambda>p. bn_index (binding_at x p)) ` index_hits M x key"
  shows "cache_inv M (x\<lparr>ex_indices := ex_indices x @ [(key, bits)]\<rparr>)"
  using assms
  by (auto simp: cache_inv_def ex_wf_def amq_index_search_def index_hits_def map_add_Some_iff
      map_of_eq_None_iff)

text \<open>
  Adding a binding: the new record \<open>b\<close> is stored at a fresh address \<open>p\<close> under the number the
  index gave, and \<open>p\<close> is put at the front of the list, or at the back if it is not a wildcard.
\<close>

definition add_binding :: "amq_exchange \<Rightarrow> nat \<Rightarrow> amq_binding \<Rightarrow> ipr_index \<Rightarrow> amq_indices \<Rightarrow> amq_exchange" where
  "add_binding x p b ix indices =
     x\<lparr>ex_bindings := (ex_bindings x)(p \<mapsto> b), ex_binding_index := ix, ex_indices := indices,
       ex_binding_list := (if bn_is_wildcard b then p # ex_binding_list x else ex_binding_list x @ [p])\<rparr>"

definition fresh_binding :: "amq_exchange \<Rightarrow> nat \<Rightarrow> amq_binding \<Rightarrow> ipr_index \<Rightarrow> bool" where
  "fresh_binding x p b ix \<longleftrightarrow> p \<noteq> 0 \<and> p \<notin> set (ex_binding_list x) \<and>
     0 < bn_index b \<and> bn_index b < BITS_CAP \<and> ix_inv ix \<and>
     ix_data (ex_binding_index x) (bn_index b) = 0 \<and>
     ix_data ix = (ix_data (ex_binding_index x))(bn_index b := p)"

lemma add_binding_wf:
  assumes "ex_wf x" and "fresh_binding x p b ix"
  shows "ex_wf (add_binding x p b ix indices)"
proof -
  let ?y = "add_binding x p b ix indices"
  have set: "set (ex_binding_list ?y) = insert p (set (ex_binding_list x))"
    by (auto simp: add_binding_def)
  have "\<exists>c. ex_bindings ?y q = Some c \<and> 0 < bn_index c \<and> bn_index c < BITS_CAP \<and>
      ix_data (ex_binding_index ?y) (bn_index c) = q" if "q \<in> set (ex_binding_list ?y)" for q
  proof (cases "q = p")
    case True
    with assms(2) show ?thesis by (simp add: add_binding_def fresh_binding_def)
  next
    case False
    with that set have "q \<in> set (ex_binding_list x)" by simp
    then obtain c where c: "ex_bindings x q = Some c" "0 < bn_index c" "bn_index c < BITS_CAP" "q \<noteq> 0"
      "ix_data (ex_binding_index x) (bn_index c) = q" by (rule ex_wf_bindingE [OF assms(1)])
    then have "bn_index c \<noteq> bn_index b" using assms(2) by (auto simp: fresh_binding_def)
    with c False assms(2) show ?thesis by (auto simp: add_binding_def fresh_binding_def)
  qed
  moreover have "distinct (ex_binding_list ?y)"
    using assms by (auto simp: add_binding_def fresh_binding_def ex_wf_def)
  moreover have "q \<noteq> 0" if "q \<in> set (ex_binding_list ?y)" for q
    using that assms set by (auto simp: ex_wf_def fresh_binding_def)
  moreover have "sorted_wrt (\<lambda>p q. bn_is_wildcard (binding_at ?y q) \<longrightarrow> bn_is_wildcard (binding_at ?y p))
       (ex_binding_list ?y)"
  proof -
    have "sorted_wrt (\<lambda>p q. bn_is_wildcard (binding_at ?y q) \<longrightarrow> bn_is_wildcard (binding_at ?y p))
       (ex_binding_list x)"
      using assms(1) assms(2)
      by (auto simp: ex_wf_def add_binding_def fresh_binding_def intro: sorted_wrt_mono_rel [rotated])
    then show ?thesis by (auto simp: add_binding_def sorted_wrt_append)
  qed
  ultimately show ?thesis
    using assms(2) unfolding ex_wf_def by (auto simp: add_binding_def fresh_binding_def)
qed

lemma add_binding_cache:
  assumes "cache_inv M x" and "fresh_binding x p b ix"
    and "map fst indices = map fst (ex_indices x)"
    and "\<And>key bits'. amq_index_search indices key = Some bits' \<Longrightarrow>
      \<exists>bits. amq_index_search (ex_indices x) key = Some bits \<and> bits_wf bits' \<and>
        bits_abs bits' = (if M b key then insert (bn_index b) (bits_abs bits) else bits_abs bits)"
  shows "cache_inv M (add_binding x p b ix indices)"
proof -
  let ?y = "add_binding x p b ix indices"
  have wf: "ex_wf x" using assms(1) by (simp add: cache_inv_def)
  have p: "p \<notin> set (ex_binding_list x)" using assms(2) by (simp add: fresh_binding_def)
  have hits: "index_hits M ?y key =
      (if M b key then insert p (index_hits M x key) else index_hits M x key)" for key
    using p by (auto simp: index_hits_def add_binding_def)
  have idx: "(\<lambda>q. bn_index (binding_at ?y q)) ` index_hits M x key =
      (\<lambda>q. bn_index (binding_at x q)) ` index_hits M x key" for key
    using p by (auto simp: index_hits_def add_binding_def intro!: image_cong)
  have pb: "bn_index (binding_at ?y p) = bn_index b" by (simp add: add_binding_def)
  have "bits_wf bits' \<and> bits_abs bits' = (\<lambda>q. bn_index (binding_at ?y q)) ` index_hits M ?y key"
    if "amq_index_search (ex_indices ?y) key = Some bits'" for key bits'
  proof -
    from that have "amq_index_search indices key = Some bits'" by (simp add: add_binding_def)
    from assms(4) [OF this] assms(1) show ?thesis
      by (auto simp: hits idx pb cache_inv_def)
  qed
  moreover have "distinct (map fst (ex_indices ?y))"
    using assms(1,3) by (simp add: cache_inv_def add_binding_def)
  ultimately show ?thesis using add_binding_wf [OF wf assms(2)] by (simp add: cache_inv_def)
qed

end
