(* ===== verification/Amq_Topic.thy ===== *)
theory Amq_Topic
  imports Amq_Binding
begin

text \<open>
  The topic exchange, \<^verbatim>\<open>server/amq_exchange_topic.icl\<close>.  It caches, for every routing key seen,
  the bitmap of the bindings that match it.

  Regular expressions are matched by the PCRE library through \<^verbatim>\<open>ipr_regexp\<close>; the matcher is a
  parameter \<open>re\<close> of the definitions, \<open>re pattern subject\<close>.
\<close>

section \<open>Topic patterns\<close>

definition S_WILDCARD_SINGLE :: string where
  "S_WILDCARD_SINGLE = ''(?: |`w*)''"

definition S_WILDCARD_MULTIPLE :: string where
  "S_WILDCARD_MULTIPLE = ''( |(?:`w*(?:`.`w*)*))''"

definition c_isprint :: "char \<Rightarrow> bool" where
  "c_isprint c \<longleftrightarrow> 32 \<le> (of_char c :: nat) \<and> (of_char c :: nat) < 127"

fun topic_loop :: "string \<Rightarrow> string \<Rightarrow> bool \<Rightarrow> string \<times> bool" where
  "topic_loop [] out is_wildcard = (out, is_wildcard)"
| "topic_loop (c # topic) out is_wildcard =
     (if c = CHR ''.'' then topic_loop topic (out @ ''`.'') is_wildcard
      else if c = CHR ''*'' then topic_loop topic (out @ S_WILDCARD_SINGLE) True
      else if c = CHR ''#'' then topic_loop topic (out @ S_WILDCARD_MULTIPLE) True
      else if c_isprint c then topic_loop topic (out @ [c]) is_wildcard
      else topic_loop topic out is_wildcard)"

text \<open>
  The pattern is built with unchecked copies in a short string, a buffer of 256 bytes with the
  terminating null: a longer pattern is written outside it.
\<close>

definition s_topic_to_regexp :: "string \<Rightarrow> (bool \<times> string) c_result" where
  "s_topic_to_regexp topic =
     (let (out, is_wildcard) = topic_loop topic ''^'' False;
          regexp = out @ ''$''
      in if length regexp + 1 > 256 then Inl Out_Of_Bounds else Inr (is_wildcard, regexp))"

section \<open>Compiling a binding\<close>

fun topic_scan_indices :: "(string \<Rightarrow> string \<Rightarrow> bool) \<Rightarrow> string \<Rightarrow> nat \<Rightarrow> amq_indices \<Rightarrow> amq_indices c_result" where
  "topic_scan_indices re regexp n [] = Inr []"
| "topic_scan_indices re regexp n ((key, bits) # ix) =
     c_bind (if re regexp key then ipr_bits_set bits n else Inr bits)
       (\<lambda>bits'. c_bind (topic_scan_indices re regexp n ix) (\<lambda>ix'. Inr ((key, bits') # ix')))"

definition amq_exchange_topic_compile ::
    "(string \<Rightarrow> string \<Rightarrow> bool) \<Rightarrow> amq_exchange \<Rightarrow> nat \<Rightarrow> amq_exchange c_result" where
  "amq_exchange_topic_compile re x p =
     (case ex_bindings x p of
        None \<Rightarrow> Inl Null_Pointer
      | Some b \<Rightarrow>
          c_bind (s_topic_to_regexp (bn_routing_key b)) (\<lambda>(is_wildcard, regexp).
            let b' = b\<lparr>bn_is_wildcard := is_wildcard, bn_regexp := regexp\<rparr>;
                x' = x\<lparr>ex_bindings := (ex_bindings x)(p \<mapsto> b')\<rparr>
            in if is_wildcard
               then c_bind (topic_scan_indices re regexp (bn_index b) (ex_indices x))
                      (\<lambda>ix. Inr (x'\<lparr>ex_indices := ix\<rparr>))
               else let ix = (case amq_index_search (ex_indices x) (bn_routing_key b) of
                                None \<Rightarrow> amq_index_new (ex_indices x) (bn_routing_key b)
                              | Some _ \<Rightarrow> ex_indices x)
                    in c_bind (amq_index_mark ix (bn_routing_key b) (bn_index b))
                         (\<lambda>ix. Inr (x'\<lparr>ex_indices := ix\<rparr>))))"

section \<open>Publishing\<close>

text \<open>
  The loop that indexes a new routing key runs over the binding list as long as it meets wildcard
  bindings.
\<close>

fun topic_scan_bindings ::
    "(string \<Rightarrow> string \<Rightarrow> bool) \<Rightarrow> (nat \<rightharpoonup> amq_binding) \<Rightarrow> string \<Rightarrow> nat list \<Rightarrow> ipr_bits \<Rightarrow> ipr_bits c_result" where
  "topic_scan_bindings re store key [] bits = Inr bits"
| "topic_scan_bindings re store key (p # ps) bits =
     (case store p of
        None \<Rightarrow> Inl Null_Pointer
      | Some b \<Rightarrow>
          if bn_is_wildcard b
          then c_bind (if re (bn_regexp b) key then ipr_bits_set bits (bn_index b) else Inr bits)
                 (topic_scan_bindings re store key ps)
          else Inr bits)"

definition topic_reindex ::
    "(string \<Rightarrow> string \<Rightarrow> bool) \<Rightarrow> amq_exchange \<Rightarrow> string \<Rightarrow> (amq_exchange \<times> ipr_bits) c_result" where
  "topic_reindex re x key =
     (case amq_index_search (ex_indices x) key of
        Some bits \<Rightarrow> Inr (x, bits)
      | None \<Rightarrow>
          c_bind (topic_scan_bindings re (ex_bindings x) key (ex_binding_list x) ipr_bits_new)
            (\<lambda>bits. Inr (x\<lparr>ex_indices := ex_indices x @ [(key, bits)]\<rparr>, bits)))"

definition amq_exchange_topic_publish ::
    "(string \<Rightarrow> string \<Rightarrow> bool) \<Rightarrow> amq_exchange \<Rightarrow> string \<Rightarrow> (amq_exchange \<times> nat list) c_result" where
  "amq_exchange_topic_publish re x routing_key =
     (let key = (if routing_key = [] then '' '' else routing_key)
      in c_bind (topic_reindex re x key) (\<lambda>(x', bits).
           c_bind (exchange_route x' bits) (\<lambda>qs. Inr (x', qs))))"

section \<open>The regexp exchange\<close>

text \<open>
  The regexp exchange (\<^verbatim>\<open>server/amq_exchange_regexp.icl\<close>) uses the routing key of a binding as the
  pattern, marks no binding as a wildcard, and looks at every binding when it meets a new key.
\<close>

definition amq_exchange_regexp_compile ::
    "(string \<Rightarrow> string \<Rightarrow> bool) \<Rightarrow> amq_exchange \<Rightarrow> nat \<Rightarrow> amq_exchange c_result" where
  "amq_exchange_regexp_compile re x p =
     (case ex_bindings x p of
        None \<Rightarrow> Inl Null_Pointer
      | Some b \<Rightarrow> c_bind (topic_scan_indices re (bn_routing_key b) (bn_index b) (ex_indices x))
                    (\<lambda>ix. Inr (x\<lparr>ex_indices := ix\<rparr>)))"

fun regexp_scan_bindings ::
    "(string \<Rightarrow> string \<Rightarrow> bool) \<Rightarrow> (nat \<rightharpoonup> amq_binding) \<Rightarrow> string \<Rightarrow> nat list \<Rightarrow> ipr_bits \<Rightarrow> ipr_bits c_result" where
  "regexp_scan_bindings re store key [] bits = Inr bits"
| "regexp_scan_bindings re store key (p # ps) bits =
     (case store p of
        None \<Rightarrow> Inl Null_Pointer
      | Some b \<Rightarrow>
          c_bind (if re (bn_routing_key b) key then ipr_bits_set bits (bn_index b) else Inr bits)
            (regexp_scan_bindings re store key ps))"

definition amq_exchange_regexp_publish ::
    "(string \<Rightarrow> string \<Rightarrow> bool) \<Rightarrow> amq_exchange \<Rightarrow> string \<Rightarrow> (amq_exchange \<times> nat list) c_result" where
  "amq_exchange_regexp_publish re x routing_key =
     c_bind (case amq_index_search (ex_indices x) routing_key of
               Some bits \<Rightarrow> Inr (x, bits)
             | None \<Rightarrow>
                 c_bind (regexp_scan_bindings re (ex_bindings x) routing_key (ex_binding_list x) ipr_bits_new)
                   (\<lambda>bits. Inr (x\<lparr>ex_indices := ex_indices x @ [(routing_key, bits)]\<rparr>, bits)))
       (\<lambda>(x', bits). c_bind (exchange_route x' bits) (\<lambda>qs. Inr (x', qs)))"

section \<open>The cache of the topic exchange\<close>

definition topic_matches :: "(string \<Rightarrow> string \<Rightarrow> bool) \<Rightarrow> amq_binding \<Rightarrow> string \<Rightarrow> bool" where
  "topic_matches re b key \<longleftrightarrow>
     (if bn_is_wildcard b then re (bn_regexp b) key else bn_routing_key b = key)"

text \<open>Beside the cache being right, every exact binding has an index for its key.\<close>

definition topic_inv :: "(string \<Rightarrow> string \<Rightarrow> bool) \<Rightarrow> amq_exchange \<Rightarrow> bool" where
  "topic_inv re x \<longleftrightarrow> cache_inv (topic_matches re) x \<and>
     (\<forall>p\<in>set (ex_binding_list x). \<not> bn_is_wildcard (binding_at x p) \<longrightarrow>
        amq_index_search (ex_indices x) (bn_routing_key (binding_at x p)) \<noteq> None)"

lemma topic_inv_new: "topic_inv re (amq_exchange_new t fed)"
  by (simp add: topic_inv_def cache_inv_new) (simp add: amq_exchange_new_def)

text \<open>
  Both scans of the binding list are a sequence of bit settings, for which the bitmap contract
  gives the result.
\<close>

abbreviation mark_all :: "ipr_bits \<Rightarrow> nat list \<Rightarrow> ipr_bits c_result" where
  "mark_all bits ns \<equiv> foldl (\<lambda>r n. c_bind r (\<lambda>b. ipr_bits_set b n)) (Inr bits) ns"

lemma mark_all_fail: "foldl (\<lambda>r n. c_bind r (\<lambda>b. ipr_bits_set b n)) (Inl e) ns = Inl e"
  by (induction ns) auto

lemma regexp_scan_bindings_foldl:
  assumes "\<forall>p\<in>set ps. store p \<noteq> None"
  shows "regexp_scan_bindings re store key ps bits = mark_all bits
      (map (\<lambda>p. bn_index (the (store p))) (filter (\<lambda>p. re (bn_routing_key (the (store p))) key) ps))"
  using assms
proof (induction ps arbitrary: bits)
  case (Cons p ps)
  then obtain b where b: "store p = Some b" by auto
  show ?case
    using Cons b by (cases "ipr_bits_set bits (bn_index b)") (auto simp: mark_all_fail)
qed simp

lemma topic_scan_bindings_foldl:
  assumes "\<forall>p\<in>set ps. store p \<noteq> None"
  shows "topic_scan_bindings re store key ps bits = mark_all bits
      (map (\<lambda>p. bn_index (the (store p))) (filter (\<lambda>p. re (bn_regexp (the (store p))) key)
         (takeWhile (\<lambda>p. bn_is_wildcard (the (store p))) ps)))"
  using assms
proof (induction ps arbitrary: bits)
  case (Cons p ps)
  then obtain b where b: "store p = Some b" by auto
  show ?case
    using Cons b by (cases "ipr_bits_set bits (bn_index b)") (auto simp: mark_all_fail)
qed simp

lemma takeWhile_sorted_wrt:
  "sorted_wrt (\<lambda>p q. P q \<longrightarrow> P p) ps \<Longrightarrow> set (takeWhile P ps) = {p \<in> set ps. P p}"
  by (induction ps) auto

lemma mark_hits:
  assumes "ex_wf x" and "set ps = index_hits M x key"
  shows "\<exists>bits. mark_all ipr_bits_new (map (\<lambda>p. bn_index (binding_at x p)) ps) = Inr bits \<and>
    bits_wf bits \<and> bits_abs bits = (\<lambda>p. bn_index (binding_at x p)) ` index_hits M x key"
proof -
  have "\<forall>n\<in>set (map (\<lambda>p. bn_index (binding_at x p)) ps). n < BITS_CAP"
    using assms ex_wf_index_of(1) [OF assms(1)] by (auto simp: index_hits_def)
  from bm.put_all [OF bm.wf_new this] assms(2) show ?thesis by (auto simp: bm.abs_new)
qed

lemma topic_reindex_correct:
  assumes "topic_inv re x"
  shows "\<exists>x' bits. topic_reindex re x key = Inr (x', bits) \<and> topic_inv re x' \<and> bits_wf bits \<and>
    bits_abs bits = (\<lambda>p. bn_index (binding_at x p)) ` index_hits (topic_matches re) x key \<and>
    ex_bindings x' = ex_bindings x \<and> ex_binding_list x' = ex_binding_list x \<and>
    ex_binding_index x' = ex_binding_index x"
proof (cases "amq_index_search (ex_indices x) key")
  case (Some bits)
  with assms show ?thesis by (auto simp: topic_reindex_def topic_inv_def cache_inv_def)
next
  case None
  have ci: "cache_inv (topic_matches re) x" and wf: "ex_wf x"
    using assms by (auto simp: topic_inv_def cache_inv_def)
  let ?ps = "filter (\<lambda>p. re (bn_regexp (binding_at x p)) key)
    (takeWhile (\<lambda>p. bn_is_wildcard (binding_at x p)) (ex_binding_list x))"
  have "set (takeWhile (\<lambda>p. bn_is_wildcard (binding_at x p)) (ex_binding_list x)) =
      {p \<in> set (ex_binding_list x). bn_is_wildcard (binding_at x p)}"
    using wf by (intro takeWhile_sorted_wrt) (simp add: ex_wf_def)
  then have "set ?ps = index_hits (topic_matches re) x key"
    using assms None by (auto simp: index_hits_def topic_matches_def topic_inv_def)
  from mark_hits [OF wf this] obtain bits where
    bits: "mark_all ipr_bits_new (map (\<lambda>p. bn_index (binding_at x p)) ?ps) = Inr bits" "bits_wf bits"
      "bits_abs bits = (\<lambda>p. bn_index (binding_at x p)) ` index_hits (topic_matches re) x key" by blast
  let ?x = "x\<lparr>ex_indices := ex_indices x @ [(key, bits)]\<rparr>"
  have "topic_reindex re x key = Inr (?x, bits)"
    using None bits(1) by (simp add: topic_reindex_def topic_scan_bindings_foldl [OF ex_wf_store [OF wf]])
  moreover have "topic_inv re ?x"
    using assms cache_inv_add_index [OF ci None bits(2,3)]
    by (auto simp: topic_inv_def amq_index_search_def map_of_eq_None_iff)
  ultimately show ?thesis using bits by simp
qed

section \<open>Compiling\<close>

lemma topic_scan_indices_result:
  assumes "n < BITS_CAP" and "\<forall>key bits. amq_index_search ix key = Some bits \<longrightarrow> bits_wf bits"
    and "distinct (map fst ix)"
  shows "\<exists>ix'. topic_scan_indices re regexp n ix = Inr ix' \<and> map fst ix' = map fst ix \<and>
    (\<forall>key bits'. amq_index_search ix' key = Some bits' \<longrightarrow>
      (\<exists>bits. amq_index_search ix key = Some bits \<and> bits_wf bits' \<and>
        bits_abs bits' = (if re regexp key then insert n (bits_abs bits) else bits_abs bits)))"
  using assms(2,3)
proof (induction ix)
  case (Cons kb ix)
  obtain k b where kb: "kb = (k, b)" by force
  have b: "bits_wf b" using Cons.prems(1) [rule_format, of k b] by (simp add: kb amq_index_search_def)
  have wf: "\<forall>key bits. amq_index_search ix key = Some bits \<longrightarrow> bits_wf bits"
  proof (intro allI impI)
    fix key bits assume key: "amq_index_search ix key = Some bits"
    have "map_of ix k = None" using Cons.prems(2) by (simp add: kb map_of_eq_None_iff)
    with key have "amq_index_search (kb # ix) key = Some bits"
      by (cases "key = k") (simp_all add: kb amq_index_search_def)
    with Cons.prems(1) show "bits_wf bits" by blast
  qed
  obtain b' where b': "(if re regexp k then ipr_bits_set b n else Inr b) = Inr b'" "bits_wf b'"
    "bits_abs b' = (if re regexp k then insert n (bits_abs b) else bits_abs b)"
    using bm.put_ok [OF b assms(1)] b by (cases "re regexp k") auto
  obtain ix' where ix': "topic_scan_indices re regexp n ix = Inr ix'" "map fst ix' = map fst ix"
    "\<forall>key bits'. amq_index_search ix' key = Some bits' \<longrightarrow>
      (\<exists>bits. amq_index_search ix key = Some bits \<and> bits_wf bits' \<and>
        bits_abs bits' = (if re regexp key then insert n (bits_abs bits) else bits_abs bits))"
  proof -
    have "distinct (map fst ix)" using Cons.prems(2) by simp
    from Cons.IH [OF wf this] that show thesis by blast
  qed
  have "topic_scan_indices re regexp n (kb # ix) = Inr ((k, b') # ix')"
    using b'(1) ix'(1) by (simp add: kb)
  moreover have "\<exists>bits. amq_index_search (kb # ix) key = Some bits \<and> bits_wf bits' \<and>
      bits_abs bits' = (if re regexp key then insert n (bits_abs bits) else bits_abs bits)"
    if "amq_index_search ((k, b') # ix') key = Some bits'" for key bits'
    using that b' ix'(3) by (cases "key = k") (auto simp: kb amq_index_search_def)
  ultimately show ?case using ix'(2) by (simp add: kb)
qed (simp add: amq_index_search_def)


text \<open>
  A new wildcard binding is compiled against all indices, so the cache stays right.
\<close>

lemma topic_compile_wildcard:
  assumes inv: "topic_inv re x" and fresh: "fresh_binding x p b ix"
    and re: "s_topic_to_regexp (bn_routing_key b) = Inr (True, regexp)"
    and b': "b' = b\<lparr>bn_is_wildcard := True, bn_regexp := regexp\<rparr>"
  shows "\<exists>indices. amq_exchange_topic_compile re
      (x\<lparr>ex_binding_index := ix, ex_bindings := (ex_bindings x)(p \<mapsto> b)\<rparr>) p =
        Inr (x\<lparr>ex_binding_index := ix, ex_bindings := (ex_bindings x)(p \<mapsto> b'), ex_indices := indices\<rparr>) \<and>
    topic_inv re (add_binding x p b' ix indices)"
proof -
  have ci: "cache_inv (topic_matches re) x" using inv by (simp add: topic_inv_def)
  have cap: "bn_index b < BITS_CAP" using fresh by (simp add: fresh_binding_def)
  obtain indices where ind: "topic_scan_indices re regexp (bn_index b) (ex_indices x) = Inr indices"
    "map fst indices = map fst (ex_indices x)"
    "\<forall>key bits'. amq_index_search indices key = Some bits' \<longrightarrow>
      (\<exists>bits. amq_index_search (ex_indices x) key = Some bits \<and> bits_wf bits' \<and>
        bits_abs bits' = (if re regexp key then insert (bn_index b) (bits_abs bits) else bits_abs bits))"
    using topic_scan_indices_result [OF cap, of "ex_indices x" re regexp] ci by (auto simp: cache_inv_def)
  have fresh': "fresh_binding x p b' ix" using fresh by (simp add: fresh_binding_def b')
  have M: "topic_matches re b' key = re regexp key" for key by (simp add: topic_matches_def b')
  have n: "bn_index b' = bn_index b" by (simp add: b')
  have "cache_inv (topic_matches re) (add_binding x p b' ix indices)"
    by (rule add_binding_cache [OF ci fresh' ind(2)]) (use ind(3) in \<open>unfold M n, blast\<close>)
  moreover have "amq_index_search indices key \<noteq> None" if "amq_index_search (ex_indices x) key \<noteq> None" for key
    using that ind(2) by (metis amq_index_search_def map_of_eq_None_iff list.set_map)
  ultimately have "topic_inv re (add_binding x p b' ix indices)"
    using inv fresh' by (auto simp: topic_inv_def add_binding_def fresh_binding_def b')
  then show ?thesis
    using ind(1) re by (auto simp: amq_exchange_topic_compile_def b' Let_def)
qed

text \<open>
  A new exact binding only looks at the index of its own key.  If that index is created now, it
  starts without the wildcard bindings that match the key; the cache stays right only when there
  are none.
\<close>

lemma topic_compile_exact:
  assumes inv: "topic_inv re x" and fresh: "fresh_binding x p b ix"
    and re: "s_topic_to_regexp (bn_routing_key b) = Inr (False, regexp)"
    and b': "b' = b\<lparr>bn_is_wildcard := False, bn_regexp := regexp\<rparr>"
    and ok: "amq_index_search (ex_indices x) (bn_routing_key b) \<noteq> None \<or>
      index_hits (topic_matches re) x (bn_routing_key b) = {}"
  shows "\<exists>indices. amq_exchange_topic_compile re
      (x\<lparr>ex_binding_index := ix, ex_bindings := (ex_bindings x)(p \<mapsto> b)\<rparr>) p =
        Inr (x\<lparr>ex_binding_index := ix, ex_bindings := (ex_bindings x)(p \<mapsto> b'), ex_indices := indices\<rparr>) \<and>
    topic_inv re (add_binding x p b' ix indices)"
proof -
  let ?key = "bn_routing_key b" and ?n = "bn_index b" and ?M = "topic_matches re"
  define ix0 where "ix0 = (case amq_index_search (ex_indices x) ?key of
      None \<Rightarrow> amq_index_new (ex_indices x) ?key | Some _ \<Rightarrow> ex_indices x)"
  let ?x0 = "x\<lparr>ex_indices := ix0\<rparr>"
  have ci: "cache_inv ?M x" using inv by (simp add: topic_inv_def)
  have ci0: "cache_inv ?M ?x0"
  proof (cases "amq_index_search (ex_indices x) ?key")
    case None
    with ok have "index_hits ?M x ?key = {}" by simp
    with cache_inv_add_index [OF ci None bm.wf_new] None show ?thesis
      by (simp add: ix0_def amq_index_new_def bm.abs_new)
  qed (simp add: ix0_def ci)
  have keys: "amq_index_search ix0 key \<noteq> None" if "amq_index_search (ex_indices x) key \<noteq> None \<or> key = ?key" for key
    using that by (auto simp: ix0_def amq_index_new_def amq_index_search_def map_add_def split: option.splits)
  then obtain bits where bits: "amq_index_search ix0 ?key = Some bits" by fastforce
  have cap: "?n < BITS_CAP" using fresh by (simp add: fresh_binding_def)
  have "bits_wf bits" using ci0 bits by (auto simp: cache_inv_def)
  from bm.put_ok [OF this cap] obtain bits' where
    bits': "ipr_bits_set bits ?n = Inr bits'" "bits_wf bits'" "bits_abs bits' = insert ?n (bits_abs bits)" by blast
  have "distinct (map fst ix0)" using ci0 by (simp add: cache_inv_def)
  from index_mark_result [OF bits bits'(1) this] obtain indices where
    ind: "amq_index_mark ix0 ?key ?n = Inr indices" "map fst indices = map fst ix0"
      "map_of indices = (map_of ix0)(?key \<mapsto> bits')" by blast
  have fresh': "fresh_binding ?x0 p b' ix" using fresh by (simp add: fresh_binding_def b')
  have "cache_inv ?M (add_binding ?x0 p b' ix indices)"
    using ind bits bits' ci0
    by (intro add_binding_cache [OF ci0 fresh'])
      (auto simp: topic_matches_def b' amq_index_search_def cache_inv_def split: if_splits)
  moreover have "amq_index_search indices key \<noteq> None" if "amq_index_search ix0 key \<noteq> None" for key
    using that ind(3) by (auto simp: amq_index_search_def)
  ultimately have "topic_inv re (add_binding ?x0 p b' ix indices)"
    using inv fresh' keys by (auto simp: topic_inv_def add_binding_def fresh_binding_def b')
  moreover have "add_binding ?x0 p b' ix indices = add_binding x p b' ix indices"
    by (simp add: add_binding_def)
  moreover have "amq_exchange_topic_compile re
      (x\<lparr>ex_binding_index := ix, ex_bindings := (ex_bindings x)(p \<mapsto> b)\<rparr>) p =
        Inr (x\<lparr>ex_binding_index := ix, ex_bindings := (ex_bindings x)(p \<mapsto> b'), ex_indices := indices\<rparr>)"
    using ind(1) re
    by (cases "amq_index_search (ex_indices x) ?key")
      (simp_all add: amq_exchange_topic_compile_def b' Let_def ix0_def)
  ultimately show ?thesis by auto
qed


section \<open>Publishing through the cache\<close>

lemma topic_reindex_form: "topic_reindex re x key = Inr (x', bits) \<Longrightarrow> \<exists>indices. x' = x\<lparr>ex_indices := indices\<rparr>"
  by (auto simp: topic_reindex_def c_bind_Inr_iff intro: exI [of _ "ex_indices x"] split: option.splits)

lemma topic_publish_ok:
  assumes "topic_inv re x"
    and "\<forall>p\<in>set (ex_binding_list x). 0 \<notin> set (queues_at x p)"
    and "key = (if routing_key = [] then '' '' else routing_key)"
    and "(\<Sum>p\<in>index_hits (topic_matches re) x key. length (queues_at x p)) \<le> AMQ_QUEUE_SET_MAX"
  shows "\<exists>indices qs. amq_exchange_topic_publish re x routing_key = Inr (x\<lparr>ex_indices := indices\<rparr>, qs) \<and>
    topic_inv re (x\<lparr>ex_indices := indices\<rparr>) \<and> distinct qs \<and>
    set qs = (\<Union>p\<in>index_hits (topic_matches re) x key. set (queues_at x p))"
proof -
  let ?H = "index_hits (topic_matches re) x key"
  obtain x' bits where r: "topic_reindex re x key = Inr (x', bits)" "topic_inv re x'" "bits_wf bits"
    and abs: "bits_abs bits = (\<lambda>p. bn_index (binding_at x p)) ` ?H"
    and same: "ex_bindings x' = ex_bindings x" "ex_binding_list x' = ex_binding_list x"
    using topic_reindex_correct [OF assms(1), of key] by blast
  have wf: "ex_wf x'" using r(2) by (simp add: topic_inv_def cache_inv_def)
  have "\<exists>qs. exchange_route x' bits = Inr qs \<and> distinct qs \<and> set qs = (\<Union>p\<in>?H. set (queues_at x' p))"
    by (rule exchange_route_correct [OF wf r(3)])
      (use abs same assms(2,4) in \<open>auto simp: index_hits_def\<close>)
  with r assms(3) same topic_reindex_form [OF r(1)] show ?thesis
    by (auto simp: amq_exchange_topic_publish_def Let_def)
qed

section \<open>The cache of the regexp exchange\<close>

definition regexp_matches :: "(string \<Rightarrow> string \<Rightarrow> bool) \<Rightarrow> amq_binding \<Rightarrow> string \<Rightarrow> bool" where
  "regexp_matches re b key \<longleftrightarrow> re (bn_routing_key b) key"

lemma regexp_compile_ok:
  assumes inv: "cache_inv (regexp_matches re) x" and fresh: "fresh_binding x p b ix"
  shows "\<exists>indices. amq_exchange_regexp_compile re
      (x\<lparr>ex_binding_index := ix, ex_bindings := (ex_bindings x)(p \<mapsto> b)\<rparr>) p =
        Inr (x\<lparr>ex_binding_index := ix, ex_bindings := (ex_bindings x)(p \<mapsto> b), ex_indices := indices\<rparr>) \<and>
    cache_inv (regexp_matches re) (add_binding x p b ix indices)"
proof -
  have cap: "bn_index b < BITS_CAP" using fresh by (simp add: fresh_binding_def)
  obtain indices where ind: "topic_scan_indices re (bn_routing_key b) (bn_index b) (ex_indices x) = Inr indices"
    "map fst indices = map fst (ex_indices x)"
    "\<forall>key bits'. amq_index_search indices key = Some bits' \<longrightarrow>
      (\<exists>bits. amq_index_search (ex_indices x) key = Some bits \<and> bits_wf bits' \<and>
        bits_abs bits' = (if re (bn_routing_key b) key then insert (bn_index b) (bits_abs bits) else bits_abs bits))"
    using topic_scan_indices_result [OF cap, of "ex_indices x" re "bn_routing_key b"] inv
    by (auto simp: cache_inv_def)
  have "cache_inv (regexp_matches re) (add_binding x p b ix indices)"
    by (rule add_binding_cache [OF inv fresh ind(2)]) (use ind(3) in \<open>unfold regexp_matches_def, blast\<close>)
  with ind(1) show ?thesis by (auto simp: amq_exchange_regexp_compile_def)
qed

lemma regexp_publish_ok:
  assumes inv: "cache_inv (regexp_matches re) x"
    and zero: "\<forall>p\<in>set (ex_binding_list x). 0 \<notin> set (queues_at x p)"
    and room: "(\<Sum>p\<in>index_hits (regexp_matches re) x key. length (queues_at x p)) \<le> AMQ_QUEUE_SET_MAX"
  shows "\<exists>indices qs. amq_exchange_regexp_publish re x key = Inr (x\<lparr>ex_indices := indices\<rparr>, qs) \<and>
    cache_inv (regexp_matches re) (x\<lparr>ex_indices := indices\<rparr>) \<and> distinct qs \<and>
    set qs = (\<Union>p\<in>index_hits (regexp_matches re) x key. set (queues_at x p))"
proof -
  let ?H = "index_hits (regexp_matches re) x key"
  have wf: "ex_wf x" using inv by (simp add: cache_inv_def)
  have route: "\<exists>qs. exchange_route y bits = Inr qs \<and> distinct qs \<and> set qs = (\<Union>p\<in>?H. set (queues_at x p))"
    if "y = x\<lparr>ex_indices := indices\<rparr>" "bits_wf bits" "bits_abs bits = (\<lambda>p. bn_index (binding_at x p)) ` ?H" for y indices bits
    using exchange_route_correct [of y bits ?H] that wf zero room by (auto simp: index_hits_def ex_wf_def)
  show ?thesis
  proof (cases "amq_index_search (ex_indices x) key")
    case (Some bits)
    then have "bits_wf bits" "bits_abs bits = (\<lambda>p. bn_index (binding_at x p)) ` ?H"
      using inv by (auto simp: cache_inv_def)
    from route [OF _ this, of x "ex_indices x"] Some inv show ?thesis
      by (intro exI [of _ "ex_indices x"]) (auto simp: amq_exchange_regexp_publish_def)
  next
    case None
    let ?ps = "filter (\<lambda>p. re (bn_routing_key (binding_at x p)) key) (ex_binding_list x)"
    have "set ?ps = ?H" by (auto simp: index_hits_def regexp_matches_def)
    from mark_hits [OF wf this] obtain bits where
      bits: "mark_all ipr_bits_new (map (\<lambda>p. bn_index (binding_at x p)) ?ps) = Inr bits" "bits_wf bits"
        "bits_abs bits = (\<lambda>p. bn_index (binding_at x p)) ` ?H" by blast
    let ?i = "ex_indices x @ [(key, bits)]"
    from route [OF refl bits(2,3), of ?i] obtain qs where
      "exchange_route (x\<lparr>ex_indices := ?i\<rparr>) bits = Inr qs" "distinct qs" "set qs = (\<Union>p\<in>?H. set (queues_at x p))"
      by blast
    with None bits(1) cache_inv_add_index [OF inv None bits(2,3)] show ?thesis
      by (intro exI [of _ ?i] exI [of _ qs])
        (simp add: amq_exchange_regexp_publish_def regexp_scan_bindings_foldl [OF ex_wf_store [OF wf]])
  qed
qed

section \<open>Properties\<close>

text \<open>
  Publishing a message through a topic exchange whose cache is right succeeds, keeps the
  cache right, and delivers the message once to every queue of every binding that matches the
  routing key and to no other queue (an empty routing key is matched as a single space).
\<close>

theorem topic_publish_correct:
  assumes "topic_inv re x"
    and "\<forall>p\<in>set (ex_binding_list x). 0 \<notin> set (queues_at x p)"
    and "key = (if routing_key = [] then '' '' else routing_key)"
    and "(\<Sum>p\<in>index_hits (topic_matches re) x key. length (queues_at x p)) \<le> AMQ_QUEUE_SET_MAX"
  shows "\<exists>x' qs. amq_exchange_topic_publish re x routing_key = Inr (x', qs) \<and> topic_inv re x' \<and>
    ex_bindings x' = ex_bindings x \<and> distinct qs \<and>
    set qs = (\<Union>p\<in>index_hits (topic_matches re) x key. set (queues_at x p))"
proof -
  from topic_publish_ok [OF assms] obtain indices qs where
    "amq_exchange_topic_publish re x routing_key = Inr (x\<lparr>ex_indices := indices\<rparr>, qs)"
    "topic_inv re (x\<lparr>ex_indices := indices\<rparr>)" "distinct qs"
    "set qs = (\<Union>p\<in>index_hits (topic_matches re) x key. set (queues_at x p))" by blast
  then show ?thesis by (intro exI [of _ "x\<lparr>ex_indices := indices\<rparr>"] exI [of _ qs]) simp
qed

definition demo_exchange :: amq_exchange where
  "demo_exchange = (amq_exchange_new AMQ_EXCHANGE_TOPIC AMQ_FEDERATION_NONE)\<lparr>
     ex_binding_list := [40],
     ex_binding_index := \<lparr>ix_size = 1, ix_data = (\<lambda>_. 0)(11 := 40)\<rparr>,
     ex_bindings := [40 \<mapsto> \<lparr>bn_routing_key = ''a.*'', bn_arguments = [], bn_queue_set = [7],
       bn_is_wildcard = True, bn_exclusive = False, bn_index = 11, bn_regexp = ''^a`.(?: |`w*)$'',
       bn_field_count = 0, bn_match_all = False\<rparr>]\<rparr>"

lemma demo_exchange_inv: "topic_inv re demo_exchange"
proof -
  have "ix_used \<lparr>ix_size = 1, ix_data = (\<lambda>_. 0)(11 := 40)\<rparr> = {11}"
    using index_max_pos by (auto simp: ix_used_def)
  then have "ex_wf demo_exchange"
    by (simp add: ex_wf_def demo_exchange_def ix_inv_def BITS_CAP_def IPR_BITS_SIZE_def)
  then show ?thesis
    by (simp add: topic_inv_def cache_inv_def)
      (simp add: demo_exchange_def amq_exchange_new_def amq_index_search_def)
qed

theorem topic_publish_correct_witness:
  "\<exists>x' qs. amq_exchange_topic_publish (\<lambda>_ s. s = ''a.b'') demo_exchange ''a.b'' = Inr (x', qs) \<and> set qs = {7}"
proof -
  let ?re = "\<lambda>_ s. s = ''a.b''"
  have hits: "index_hits (topic_matches ?re) demo_exchange ''a.b'' = {40}"
    by (auto simp: index_hits_def topic_matches_def demo_exchange_def)
  have "\<exists>x' qs. amq_exchange_topic_publish ?re demo_exchange ''a.b'' = Inr (x', qs) \<and> topic_inv ?re x' \<and>
    ex_bindings x' = ex_bindings demo_exchange \<and> distinct qs \<and>
    set qs = (\<Union>p\<in>index_hits (topic_matches ?re) demo_exchange ''a.b''. set (queues_at demo_exchange p))"
    by (rule topic_publish_correct [OF demo_exchange_inv])
      (simp_all only: hits, simp_all add: demo_exchange_def AMQ_QUEUE_SET_MAX_def)
  moreover have "queues_at demo_exchange 40 = [7]" by (simp add: demo_exchange_def)
  ultimately show ?thesis unfolding hits by auto
qed

lemma topic_loop_flag:
  "snd (topic_loop t out w) \<longleftrightarrow> w \<or> CHR ''*'' \<in> set t \<or> CHR ''#'' \<in> set t"
  by (induction t out w rule: topic_loop.induct) auto

text \<open>The number of bytes a topic takes in the pattern, between the anchors at its ends.\<close>

fun pattern_size :: "string \<Rightarrow> nat" where
  "pattern_size [] = 0"
| "pattern_size (c # topic) =
     (if c = CHR ''.'' then 2 else if c = CHR ''*'' then 9 else if c = CHR ''#'' then 21
      else if c_isprint c then 1 else 0) + pattern_size topic"

lemma topic_loop_size: "length (fst (topic_loop t out w)) = length out + pattern_size t"
  by (induction t out w rule: topic_loop.induct) (simp_all add: S_WILDCARD_SINGLE_def S_WILDCARD_MULTIPLE_def)

text \<open>
  C40. The pattern of a topic takes two bytes for a dot, 9 for a single-level wildcard, 21 for a multi-level
  wildcard, one for any other printable character and three for its ends and the null.  The 256-byte buffer
  of the pattern is overrun exactly by the topics that take more, for instance by thirteen multi-level
  wildcards or twelve with dots between them; every other topic is compiled, and marked as a wildcard
  exactly if it has one.
\<close>

theorem topic_pattern_overflow:
  "case s_topic_to_regexp topic of
     Inl e \<Rightarrow> e = Out_Of_Bounds \<and> 256 < pattern_size topic + 3
   | Inr (is_wildcard, regexp) \<Rightarrow> pattern_size topic + 3 \<le> 256 \<and> length regexp = pattern_size topic + 2 \<and>
       (is_wildcard \<longleftrightarrow> CHR ''*'' \<in> set topic \<or> CHR ''#'' \<in> set topic)"
proof -
  obtain out w where l: "topic_loop topic ''^'' False = (out, w)" by force
  with topic_loop_flag [of topic "''^''" False] topic_loop_size [of topic "''^''" False] show ?thesis
    by (auto simp: s_topic_to_regexp_def)
qed

lemma topic_loop_length:
  "CHR ''*'' \<notin> set t \<Longrightarrow> CHR ''#'' \<notin> set t \<Longrightarrow> length (fst (topic_loop t out w)) \<le> length out + 2 * length t"
  by (induction t out w rule: topic_loop.induct) auto

text \<open>
  A routing key without wildcard characters whose length is at most 126 compiles to an
  exact, non-wildcard pattern without overrunning the buffer; a key with a wildcard character
  that compiles is always flagged as a wildcard.
\<close>

theorem topic_pattern_kind:
  "(CHR ''*'' \<notin> set t \<and> CHR ''#'' \<notin> set t \<and> length t \<le> 126 \<longrightarrow>
      (\<exists>r. s_topic_to_regexp t = Inr (False, r))) \<and>
   (\<forall>w r. s_topic_to_regexp t = Inr (w, r) \<longrightarrow> w = (CHR ''*'' \<in> set t \<or> CHR ''#'' \<in> set t))"
proof -
  obtain o' w' where l: "topic_loop t ''^'' False = (o', w')" by force
  then have w': "w' \<longleftrightarrow> CHR ''*'' \<in> set t \<or> CHR ''#'' \<in> set t"
    using topic_loop_flag [of t "''^''" False] by simp
  have len: "CHR ''*'' \<notin> set t \<Longrightarrow> CHR ''#'' \<notin> set t \<Longrightarrow> length o' \<le> 1 + 2 * length t"
    using topic_loop_length [of t "''^''" False] l by simp
  show ?thesis using l w' len by (auto simp: s_topic_to_regexp_def)
qed

theorem topic_pattern_kind_witness:
  "\<exists>r. s_topic_to_regexp ''nasdaq.ibm'' = Inr (False, r)"
  using topic_pattern_kind [of "''nasdaq.ibm''"] by simp

lemma hashes_with_dots: "pattern_size (CHR ''#'' # concat (replicate 11 ''.#'')) = 274 \<and> pattern_size (replicate 13 CHR ''#'') = 273"
  by (simp add: eval_nat_numeral)

end
