(* ===== verification/Amq_Headers.thy ===== *)
theory Amq_Headers
  imports Amq_Binding Asl_Codec
begin

text \<open>
  The headers exchange, \<^verbatim>\<open>server/amq_exchange_headers.icl\<close>, with the hit set of
  \<^verbatim>\<open>server/amq_hitset.icl\<close>.  A binding is indexed under one key per field of its arguments, the
  field's name for a void field and \<open>name=value\<close> for any other; a message is looked up under both
  keys of each of its header fields, and a binding is hit when the number of its keys found is all
  of them, or any.

  \<open>junk\<close> and \<open>fmt\<close> are the parameters of \<^const>\<open>asl_field_string\<close>: the contents of fresh memory and
  the formatting calls.
\<close>

section \<open>Compiling a binding\<close>

definition FIELD_NAME_MAX :: nat where "FIELD_NAME_MAX = 30"
definition FIELD_VALUE_MAX :: nat where "FIELD_VALUE_MAX = 30"
definition MATCH_ALL_KEY :: string where "MATCH_ALL_KEY = ''*''"

definition name_chars :: "asl_field \<Rightarrow> string" where
  "name_chars f = map (\<lambda>b. char_of (unat b)) (field_name f)"

text \<open>The index keys of a field: its name cut to 30 characters, and that with the value added.\<close>

definition name_key :: "asl_field \<Rightarrow> string" where
  "name_key f = fst (icl_shortstr_ncpy (Some (name_chars f)) FIELD_NAME_MAX)"

definition value_key :: "asl_field \<Rightarrow> string \<Rightarrow> string" where
  "value_key f value =
     fst (icl_shortstr_ncat (fst (icl_shortstr_cat (name_key f) (Some ''=''))) (Some value) FIELD_VALUE_MAX)"

definition s_compile_binding :: "amq_exchange \<Rightarrow> nat \<Rightarrow> string \<Rightarrow> (amq_exchange \<times> int) c_result" where
  "s_compile_binding x p index_key =
     (case ex_bindings x p of
        None \<Rightarrow> Inl Null_Pointer
      | Some b \<Rightarrow>
          if bn_index b < IPR_BITS_SIZE_BITS then
            let ix = (case amq_index_search (ex_indices x) index_key of
                        None \<Rightarrow> amq_index_new (ex_indices x) index_key
                      | Some _ \<Rightarrow> ex_indices x)
            in c_bind (amq_index_mark ix index_key (bn_index b)) (\<lambda>ix.
                 Inr (x\<lparr>ex_indices := ix,
                        ex_bindings := (ex_bindings x)(p \<mapsto> b\<lparr>bn_field_count := bn_field_count b + 1\<rparr>)\<rparr>, 0))
          else Inr (x, 1))"

text \<open>Fields whose name begins with \<^verbatim>\<open>x-\<close> are options; \<^verbatim>\<open>x-match\<close> is the only one.\<close>

definition is_option_name :: "string \<Rightarrow> bool" where
  "is_option_name name \<longleftrightarrow> take 2 name \<in> {''x-'', ''X-''}"

definition set_match_any :: "nat \<Rightarrow> amq_exchange \<Rightarrow> amq_exchange" where
  "set_match_any p x =
     x\<lparr>ex_bindings := (ex_bindings x)(p := map_option (\<lambda>b. b\<lparr>bn_match_all := False\<rparr>) (ex_bindings x p))\<rparr>"

definition compile_field ::
    "memory_junk \<Rightarrow> (asl_field \<Rightarrow> formatter) \<Rightarrow> nat \<Rightarrow> asl_field \<Rightarrow> amq_exchange \<times> int \<Rightarrow> (amq_exchange \<times> int) c_result" where
  "compile_field junk fmt p f = (\<lambda>(x, rc).
     if is_option_name (name_chars f) then
       if name_chars f \<in> {''x-match'', ''X-match''} then
         c_bind (field_text junk fmt f) (\<lambda>value.
           Inr (if value = ''any'' then set_match_any p x else x, rc))
       else Inr (x, rc)
     else
       c_bind (if field_type f = ASL_FIELD_TYPE_VOID then Inr (name_key f)
               else c_bind (field_text junk fmt f) (\<lambda>value. Inr (value_key f value)))
         (s_compile_binding x p))"

text \<open>
  The return code is that of the last call; it is not zero when the arguments do not decode.  The
  compiled binding is in the exchange.
\<close>

definition amq_exchange_headers_compile ::
    "memory_junk \<Rightarrow> (asl_field \<Rightarrow> formatter) \<Rightarrow> amq_exchange \<Rightarrow> nat \<Rightarrow> (amq_exchange \<times> int) c_result option" where
  "amq_exchange_headers_compile junk fmt x p =
     (case ex_bindings x p of
        None \<Rightarrow> Some (Inl Null_Pointer)
      | Some b \<Rightarrow>
          map_option (\<lambda>r. c_bind r (\<lambda>fields.
            case fields of
              None \<Rightarrow> Inr (x, 1)
            | Some fs \<Rightarrow>
                c_bind (fields_fold (compile_field junk fmt p) fs
                          (x\<lparr>ex_bindings := (ex_bindings x)(p \<mapsto> b\<lparr>bn_match_all := True\<rparr>)\<rparr>, 0))
                  (\<lambda>(x, rc).
                     if bn_field_count (binding_at x p) = 0 then s_compile_binding x p MATCH_ALL_KEY
                     else Inr (x, rc))))
            (table_fields (bn_arguments b)))"

section \<open>The hit set\<close>

record amq_hitset =
  lowest :: nat
  highest :: int
  hit_count :: "nat \<Rightarrow> nat"

text \<open>The object is not cleared: the counts start out as whatever the memory holds.\<close>

definition amq_hitset_new :: "(nat \<Rightarrow> nat) \<Rightarrow> amq_hitset" where
  "amq_hitset_new counts = \<lparr>lowest = IPR_INDEX_MAX, highest = - 1, hit_count = counts\<rparr>"

function hitset_extend :: "amq_hitset \<Rightarrow> int \<Rightarrow> amq_hitset" where
  "hitset_extend self item_nbr =
     (if highest self < item_nbr
      then hitset_extend (self\<lparr>highest := highest self + 1,
             hit_count := (hit_count self)(nat (highest self + 1) := 0)\<rparr>) item_nbr
      else self)"
  by auto

termination
  by (relation "measure (\<lambda>(self, item_nbr). nat (item_nbr - highest self))") auto

declare hitset_extend.simps [simp del]

definition hitset_add :: "amq_hitset \<Rightarrow> nat \<Rightarrow> amq_hitset" where
  "hitset_add self item_nbr =
     (let self = (if item_nbr < lowest self then self\<lparr>lowest := item_nbr\<rparr> else self);
          self = hitset_extend self (int item_nbr)
      in self\<lparr>hit_count := (hit_count self)(item_nbr := hit_count self item_nbr + 1)\<rparr>)"

definition amq_hitset_collect :: "amq_indices \<Rightarrow> string \<Rightarrow> amq_hitset \<Rightarrow> amq_hitset c_result" where
  "amq_hitset_collect indices index_key self =
     (case amq_index_search indices index_key of
        None \<Rightarrow> Inr self
      | Some bits \<Rightarrow> c_bind (ipr_bits_members bits) (\<lambda>ns. Inr (foldl hitset_add self ns)))"

section \<open>Publishing\<close>

definition collect_field ::
    "memory_junk \<Rightarrow> (asl_field \<Rightarrow> formatter) \<Rightarrow> amq_indices \<Rightarrow> asl_field \<Rightarrow> amq_hitset \<Rightarrow> amq_hitset c_result" where
  "collect_field junk fmt indices f hitset =
     c_bind (amq_hitset_collect indices (name_key f) hitset) (\<lambda>hitset.
     c_bind (field_text junk fmt f) (\<lambda>value.
       amq_hitset_collect indices (value_key f value) hitset))"

definition is_hit :: "amq_binding \<Rightarrow> nat \<Rightarrow> bool" where
  "is_hit b hits \<longleftrightarrow> bn_match_all b \<and> hits = bn_field_count b \<or> \<not> bn_match_all b \<and> 0 < hits"

fun hits_loop :: "amq_exchange \<Rightarrow> (nat \<Rightarrow> nat) \<Rightarrow> nat list \<Rightarrow> nat list \<Rightarrow> nat list c_result" where
  "hits_loop x hits [] queue_set = Inr queue_set"
| "hits_loop x hits (binding_nbr # ns) queue_set =
     (let p = ix_data (ex_binding_index x) binding_nbr in
      if p = 0 then hits_loop x hits ns queue_set
      else case ex_bindings x p of
             None \<Rightarrow> Inl Dangling_Pointer
           | Some b \<Rightarrow>
               hits_loop x hits ns (if is_hit b (hits binding_nbr) then amq_binding_collect b queue_set else queue_set))"

definition amq_exchange_headers_publish ::
    "memory_junk \<Rightarrow> (asl_field \<Rightarrow> formatter) \<Rightarrow> (nat \<Rightarrow> nat) \<Rightarrow> amq_exchange \<Rightarrow> byte list \<Rightarrow> nat list c_result option" where
  "amq_exchange_headers_publish junk fmt counts x headers =
     map_option (\<lambda>r. c_bind r (\<lambda>fields.
       case fields of
         None \<Rightarrow> Inr (exchange_deliver [])
       | Some fs \<Rightarrow>
           c_bind (fields_fold (collect_field junk fmt (ex_indices x)) fs (amq_hitset_new counts)) (\<lambda>hitset.
           c_bind (amq_hitset_collect (ex_indices x) MATCH_ALL_KEY hitset) (\<lambda>hitset.
           c_bind (hits_loop x (hit_count hitset) [lowest hitset..<nat (highest hitset + 1)] []) (\<lambda>queue_set.
             Inr (exchange_deliver queue_set))))))
       (table_fields headers)"

section \<open>Counting hits\<close>

text \<open>
  \<open>hs_counts h C\<close>: the hit set holds the counts \<open>C\<close>, all of them between its bounds.
\<close>

definition hs_counts :: "amq_hitset \<Rightarrow> (nat \<Rightarrow> nat) \<Rightarrow> bool" where
  "hs_counts h C \<longleftrightarrow> - 1 \<le> highest h \<and> (\<forall>n. int n \<le> highest h \<longrightarrow> hit_count h n = C n) \<and>
     (\<forall>n. 0 < C n \<longrightarrow> lowest h \<le> n \<and> int n \<le> highest h)"

lemma hs_counts_new: "hs_counts (amq_hitset_new counts) (\<lambda>_. 0)"
  by (simp add: hs_counts_def amq_hitset_new_def)

lemma hitset_extend_result:
  "- 1 \<le> highest h \<Longrightarrow>
   lowest (hitset_extend h m) = lowest h \<and> highest (hitset_extend h m) = max (highest h) m \<and>
   hit_count (hitset_extend h m) n =
     (if highest h < int n \<and> int n \<le> m then 0 else hit_count h n)"
proof (induction h m rule: hitset_extend.induct)
  case (1 h m)
  show ?case
  proof (cases "highest h < m")
    case True
    let ?h = "h\<lparr>highest := highest h + 1, hit_count := (hit_count h)(nat (highest h + 1) := 0)\<rparr>"
    have eq: "hitset_extend h m = hitset_extend ?h m" using True by (simp add: hitset_extend.simps [of h])
    have "- 1 \<le> highest ?h" using "1.prems" by simp
    note ih = "1.IH" [OF True this]
    have "highest h < int n \<and> int n \<le> m \<longleftrightarrow> n = nat (highest h + 1) \<or> highest ?h < int n \<and> int n \<le> m"
      using True "1.prems" by auto
    with ih True "1.prems" show ?thesis unfolding eq by (auto simp: max_def)
  next
    case False
    then have "hitset_extend h m = h" by (simp add: hitset_extend.simps)
    with False show ?thesis by auto
  qed
qed

lemma hitset_add_counts:
  assumes "hs_counts h C"
  shows "hs_counts (hitset_add h n) (C(n := C n + 1))"
proof -
  define h1 where "h1 = (if n < lowest h then h\<lparr>lowest := n\<rparr> else h)"
  have h1: "lowest h1 = min (lowest h) n" "highest h1 = highest h" "hit_count h1 = hit_count h"
    by (auto simp: h1_def)
  note ext = hitset_extend_result [of h1 "int n"]
  have zero: "C k = 0" if "highest h < int k" for k
    using assms that by (force simp: hs_counts_def)
  have "- 1 \<le> highest h1" using assms h1 by (simp add: hs_counts_def)
  note ext = hitset_extend_result [OF this, of "int n"]
  have add: "hitset_add h n = (hitset_extend h1 (int n))\<lparr>hit_count :=
      (hit_count (hitset_extend h1 (int n)))(n := hit_count (hitset_extend h1 (int n)) n + 1)\<rparr>"
    by (simp add: hitset_add_def Let_def h1_def)
  show ?thesis
    unfolding add hs_counts_def using ext h1 zero assms
    by (auto simp: hs_counts_def max_def not_less min.coboundedI1)
      (meson less_le_not_le nle_le not_less of_nat_le_iff order.trans)
qed

lemma hitset_add_list:
  "hs_counts h C \<Longrightarrow> distinct ns \<Longrightarrow> hs_counts (foldl hitset_add h ns) (\<lambda>n. C n + of_bool (n \<in> set ns))"
proof (induction ns arbitrary: h C)
  case (Cons m ns)
  then have "hs_counts (foldl hitset_add (hitset_add h m) ns) (\<lambda>n. (C(m := C m + 1)) n + of_bool (n \<in> set ns))"
    by (intro Cons.IH hitset_add_counts) simp_all
  moreover have "(\<lambda>n. (C(m := C m + 1)) n + of_bool (n \<in> set ns)) = (\<lambda>n. C n + of_bool (n \<in> set (m # ns)))"
    using Cons.prems(2) by (auto simp: fun_eq_iff)
  ultimately show ?case by simp
qed simp

text \<open>The bindings indexed under a key.\<close>

definition key_bits :: "amq_indices \<Rightarrow> string \<Rightarrow> nat set" where
  "key_bits indices key = (case amq_index_search indices key of None \<Rightarrow> {} | Some bits \<Rightarrow> bits_abs bits)"

definition indices_wf :: "amq_indices \<Rightarrow> bool" where
  "indices_wf indices \<longleftrightarrow> distinct (map fst indices) \<and>
     (\<forall>key bits. amq_index_search indices key = Some bits \<longrightarrow> bits_wf bits)"

lemma collect_counts:
  assumes "hs_counts h C" and "indices_wf indices"
  shows "\<exists>h'. amq_hitset_collect indices key h = Inr h' \<and>
    hs_counts h' (\<lambda>n. C n + of_bool (n \<in> key_bits indices key))"
proof (cases "amq_index_search indices key")
  case None
  with assms show ?thesis by (simp add: amq_hitset_collect_def key_bits_def)
next
  case (Some bits)
  with assms(2) have "bits_wf bits" by (auto simp: indices_wf_def)
  from bm.members_set [OF this] obtain ns where
    "ipr_bits_members bits = Inr ns" "set ns = bits_abs bits" "distinct ns" by blast
  with Some hitset_add_list [OF assms(1), of ns] show ?thesis
    by (simp add: amq_hitset_collect_def key_bits_def)
qed

text \<open>The keys a message is looked up under.\<close>

fun message_keys :: "memory_junk \<Rightarrow> (asl_field \<Rightarrow> formatter) \<Rightarrow> asl_field list \<Rightarrow> string list c_result" where
  "message_keys junk fmt [] = Inr [MATCH_ALL_KEY]"
| "message_keys junk fmt (f # fs) =
     c_bind (field_text junk fmt f) (\<lambda>value.
     c_bind (message_keys junk fmt fs) (\<lambda>keys. Inr (name_key f # value_key f value # keys)))"

abbreviation key_count :: "string list \<Rightarrow> amq_indices \<Rightarrow> nat \<Rightarrow> nat" where
  "key_count keys indices n \<equiv> length (filter (\<lambda>k. n \<in> key_bits indices k) keys)"

lemma collect_message:
  assumes "indices_wf indices" and "message_keys junk fmt fs = Inr keys" and "hs_counts h C"
  shows "\<exists>h1 h2. fields_fold (collect_field junk fmt indices) fs h = Inr h1 \<and>
    amq_hitset_collect indices MATCH_ALL_KEY h1 = Inr h2 \<and> hs_counts h2 (\<lambda>n. C n + key_count keys indices n)"
  using assms(2,3)
proof (induction fs arbitrary: keys h C)
  case Nil
  then have keys: "keys = [MATCH_ALL_KEY]" by simp
  have "(\<lambda>n. C n + of_bool (n \<in> key_bits indices MATCH_ALL_KEY)) = (\<lambda>n. C n + key_count keys indices n)"
    by (auto simp: keys)
  with collect_counts [OF Nil.prems(2) assms(1), of MATCH_ALL_KEY] show ?case by simp
next
  case (Cons f fs)
  obtain v ks where k: "field_text junk fmt f = Inr v" "message_keys junk fmt fs = Inr ks"
    "keys = name_key f # value_key f v # ks"
    using Cons.prems(1) by (auto simp: c_bind_Inr_iff)
  obtain h1 where h1: "amq_hitset_collect indices (name_key f) h = Inr h1"
    "hs_counts h1 (\<lambda>n. C n + of_bool (n \<in> key_bits indices (name_key f)))"
    using collect_counts [OF Cons.prems(2) assms(1)] by blast
  obtain h2 where h2: "amq_hitset_collect indices (value_key f v) h1 = Inr h2"
    "hs_counts h2 (\<lambda>n. C n + of_bool (n \<in> key_bits indices (name_key f)) +
       of_bool (n \<in> key_bits indices (value_key f v)))"
    using collect_counts [OF h1(2) assms(1)] by blast
  have sum: "(\<lambda>n. C n + of_bool (n \<in> key_bits indices (name_key f)) +
       of_bool (n \<in> key_bits indices (value_key f v)) + key_count ks indices n) =
     (\<lambda>n. C n + key_count keys indices n)"
    by (auto simp: k(3))
  show ?case
    using Cons.IH [OF k(2) h2(2)] h1(1) h2(1) k(1) unfolding sum
    by (simp add: collect_field_def)
qed

section \<open>Publishing to the bindings hit\<close>

text \<open>Every number in use leads to a binding of the list that has that number.\<close>

definition slots_listed :: "amq_exchange \<Rightarrow> bool" where
  "slots_listed x \<longleftrightarrow> (\<forall>n. ix_data (ex_binding_index x) n \<noteq> 0 \<longrightarrow>
     ix_data (ex_binding_index x) n \<in> set (ex_binding_list x) \<and>
     bn_index (binding_at x (ix_data (ex_binding_index x) n)) = n)"

lemma hits_loop_collect:
  assumes "ex_wf x" and "slots_listed x"
  shows "hits_loop x hits ns s = exchange_collect x
    (filter (\<lambda>n. ix_data (ex_binding_index x) n \<noteq> 0 \<and>
       is_hit (binding_at x (ix_data (ex_binding_index x) n)) (hits n)) ns) s"
proof (induction ns arbitrary: s)
  case (Cons n ns)
  let ?p = "ix_data (ex_binding_index x) n"
  show ?case
  proof (cases "?p = 0")
    case False
    with assms(2) have "?p \<in> set (ex_binding_list x)" by (simp add: slots_listed_def)
    then obtain b where "ex_bindings x ?p = Some b" using ex_wf_store [OF assms(1)] by auto
    with False Cons.IH show ?thesis by (simp add: Let_def)
  qed (simp add: Cons.IH)
qed simp

lemma headers_route:
  assumes wf: "ex_wf x" and slots: "slots_listed x" and h: "hs_counts h C"
    and H: "H = {p \<in> set (ex_binding_list x). is_hit (binding_at x p) (C (bn_index (binding_at x p)))}"
    and pos: "\<forall>p\<in>H. 0 < C (bn_index (binding_at x p))"
    and room: "(\<Sum>p\<in>H. length (queues_at x p)) \<le> AMQ_QUEUE_SET_MAX"
  shows "\<exists>qs. hits_loop x (hit_count h) [lowest h..<nat (highest h + 1)] [] = Inr qs \<and>
    set qs = (\<Union>p\<in>H. set (queues_at x p))"
proof -
  let ?d = "ix_data (ex_binding_index x)" and ?i = "\<lambda>p. bn_index (binding_at x p)"
  let ?ns = "filter (\<lambda>n. ?d n \<noteq> 0 \<and> is_hit (binding_at x (?d n)) (hit_count h n))
    [lowest h..<nat (highest h + 1)]"
  have sub: "H \<subseteq> set (ex_binding_list x)" by (auto simp: H)
  have at: "?d (?i p) = p \<and> p \<noteq> 0" if "p \<in> H" for p
    using that sub by (metis ex_wf_bindingE ex_wf_index_of(2) subsetD wf)
  have hits: "hit_count h n = C n" if "n \<in> set [lowest h..<nat (highest h + 1)]" for n
    using h that by (auto simp: hs_counts_def)
  have "n \<in> set ?ns \<longleftrightarrow> n \<in> ?i ` H" for n
  proof
    assume n: "n \<in> set ?ns"
    then have "?d n \<in> set (ex_binding_list x)" "?i (?d n) = n" using slots by (auto simp: slots_listed_def)
    with n hits show "n \<in> ?i ` H" by (auto simp: H intro!: image_eqI [of _ _ "?d n"])
  next
    assume "n \<in> ?i ` H"
    then obtain p where p: "p \<in> H" "n = ?i p" by blast
    then have "lowest h \<le> n" "int n \<le> highest h" using h pos by (auto simp: hs_counts_def)
    then have range: "n \<in> set [lowest h..<nat (highest h + 1)]" by simp
    with p at [OF p(1)] hits [OF range] show "n \<in> set ?ns" by (auto simp: H)
  qed
  then have "set ?ns = ?i ` H" by blast
  from exchange_collect_hits [OF wf sub _ this room] show ?thesis
    by (simp add: hits_loop_collect [OF wf slots])
qed

section \<open>What compiling indexes\<close>

text \<open>\<open>marked ix keys n ix'\<close>: the number \<open>n\<close> has been added to the index of each of the keys.\<close>

definition marked :: "amq_indices \<Rightarrow> string list \<Rightarrow> nat \<Rightarrow> amq_indices \<Rightarrow> bool" where
  "marked ix keys n ix' \<longleftrightarrow> indices_wf ix' \<and>
     (\<forall>key. amq_index_search ix' key \<noteq> None \<longleftrightarrow> amq_index_search ix key \<noteq> None \<or> key \<in> set keys) \<and>
     (\<forall>key. key_bits ix' key = (if key \<in> set keys then insert n (key_bits ix key) else key_bits ix key))"

lemma marked_refl: "indices_wf ix \<Longrightarrow> marked ix [] n ix"
  by (simp add: marked_def)

lemma marked_trans: "marked ix ks n ix' \<Longrightarrow> marked ix' ks' n ix'' \<Longrightarrow> marked ix (ks @ ks') n ix''"
  by (auto simp: marked_def)

lemma mark_one:
  assumes "indices_wf ix" and "n < BITS_CAP"
  shows "\<exists>ix'. amq_index_mark (case amq_index_search ix key of
      None \<Rightarrow> amq_index_new ix key | Some _ \<Rightarrow> ix) key n = Inr ix' \<and> marked ix [key] n ix'"
proof (cases "amq_index_search ix key")
  case None
  obtain b where b: "ipr_bits_set ipr_bits_new n = Inr b" "bits_wf b" "bits_abs b = {n}"
    using bm.put_ok [OF bm.wf_new assms(2)] by (auto simp: bm.abs_new)
  have new: "map_of (ix @ [(key, b)]) = (map_of ix)(key \<mapsto> b)" "distinct (map fst (ix @ [(key, b)]))"
    using None assms(1)
    by (auto simp: amq_index_search_def indices_wf_def fun_eq_iff map_add_def map_of_eq_None_iff
        simp del: map_of_append split: option.splits) (auto simp: map_add_def split: option.splits)
  then have "marked ix [key] n (ix @ [(key, b)])"
    using None assms(1) b
    by (auto simp: marked_def indices_wf_def amq_index_search_def key_bits_def simp del: map_of_append)
  with None b(1) show ?thesis by (simp add: index_mark_new)
next
  case (Some bits)
  have "bits_wf bits" using assms(1) Some by (auto simp: indices_wf_def)
  from bm.put_ok [OF this assms(2)] obtain b where
    b: "ipr_bits_set bits n = Inr b" "bits_wf b" "bits_abs b = insert n (bits_abs bits)" by blast
  from index_mark_result [OF Some b(1)] assms(1) obtain ix' where
    ix': "amq_index_mark ix key n = Inr ix'" "map fst ix' = map fst ix" "map_of ix' = (map_of ix)(key \<mapsto> b)"
    by (auto simp: indices_wf_def)
  then have "marked ix [key] n ix'"
    using Some assms(1) b by (auto simp: marked_def indices_wf_def amq_index_search_def key_bits_def)
  with Some ix'(1) show ?thesis by simp
qed

lemma cap_bits: "n < BITS_CAP \<Longrightarrow> n < IPR_BITS_SIZE_BITS"
  by (simp add: BITS_CAP_def IPR_BITS_SIZE_BITS_def)

lemma compile_one:
  assumes "ex_bindings x p = Some b" and "bn_index b < BITS_CAP" and "indices_wf (ex_indices x)"
  shows "\<exists>ix'. s_compile_binding x p key = Inr (x\<lparr>ex_indices := ix',
      ex_bindings := (ex_bindings x)(p \<mapsto> b\<lparr>bn_field_count := bn_field_count b + 1\<rparr>)\<rparr>, 0) \<and>
    marked (ex_indices x) [key] (bn_index b) ix'"
  using mark_one [OF assms(3,2), of key] assms(1) cap_bits [OF assms(2)]
  by (auto simp: s_compile_binding_def Let_def)

text \<open>The keys of the arguments of a binding, and whether they ask for any of them.\<close>

definition argument_key :: "memory_junk \<Rightarrow> (asl_field \<Rightarrow> formatter) \<Rightarrow> asl_field \<Rightarrow> string c_result" where
  "argument_key junk fmt f =
     (if field_type f = ASL_FIELD_TYPE_VOID then Inr (name_key f)
      else c_bind (field_text junk fmt f) (\<lambda>value. Inr (value_key f value)))"

fun argument_keys :: "memory_junk \<Rightarrow> (asl_field \<Rightarrow> formatter) \<Rightarrow> asl_field list \<Rightarrow> string list c_result" where
  "argument_keys junk fmt [] = Inr []"
| "argument_keys junk fmt (f # fs) =
     (if is_option_name (name_chars f) then
        if name_chars f \<in> {''x-match'', ''X-match''}
        then c_bind (field_text junk fmt f) (\<lambda>_. argument_keys junk fmt fs)
        else argument_keys junk fmt fs
      else c_bind (argument_key junk fmt f) (\<lambda>k. c_bind (argument_keys junk fmt fs) (\<lambda>ks. Inr (k # ks))))"

definition asks_any :: "memory_junk \<Rightarrow> (asl_field \<Rightarrow> formatter) \<Rightarrow> asl_field \<Rightarrow> bool" where
  "asks_any junk fmt f \<longleftrightarrow> name_chars f \<in> {''x-match'', ''X-match''} \<and> field_text junk fmt f = Inr ''any''"

definition compiled :: "amq_exchange \<Rightarrow> nat \<Rightarrow> amq_binding \<Rightarrow> nat \<Rightarrow> bool \<Rightarrow> amq_indices \<Rightarrow> amq_exchange" where
  "compiled x p b fc match_all ix =
     x\<lparr>ex_indices := ix, ex_bindings := (ex_bindings x)(p \<mapsto> b\<lparr>bn_field_count := fc, bn_match_all := match_all\<rparr>)\<rparr>"

lemma compiled_next:
  "ex_bindings y p = Some (b\<lparr>bn_field_count := fc, bn_match_all := m\<rparr>) \<Longrightarrow> y = compiled x p b fc m ix \<Longrightarrow>
   y\<lparr>ex_indices := ix', ex_bindings := (ex_bindings y)(p \<mapsto>
     b\<lparr>bn_field_count := fc, bn_match_all := m\<rparr>\<lparr>bn_field_count := fc + 1\<rparr>)\<rparr> = compiled x p b (fc + 1) m ix'"
  by (cases b) (simp add: compiled_def)

lemma option_name_match: "name \<in> {''x-match'', ''X-match''} \<Longrightarrow> is_option_name name"
  by (auto simp: is_option_name_def)

lemma compile_fields:
  assumes "bn_index b < BITS_CAP" and "indices_wf ix" and "argument_keys junk fmt fs = Inr ks"
  shows "\<exists>ix' rc'. fields_fold (compile_field junk fmt p) fs (compiled x p b fc match_all ix, rc) =
      Inr (compiled x p b (fc + length ks) (match_all \<and> \<not> list_ex (asks_any junk fmt) fs) ix', rc') \<and>
    (rc = 0 \<longrightarrow> rc' = 0) \<and> marked ix ks (bn_index b) ix'"
  using assms(2,3)
proof (induction fs arbitrary: ix ks fc match_all rc)
  case Nil
  then show ?case by (auto intro: marked_refl)
next
  case (Cons f fs)
  let ?x = "compiled x p b fc match_all ix"
  show ?case
  proof (cases "is_option_name (name_chars f)")
    case True
    then have ks: "argument_keys junk fmt fs = Inr ks" using Cons.prems(2)
      by (auto simp: c_bind_Inr_iff split: if_splits)
    let ?m = "match_all \<and> \<not> asks_any junk fmt f"
    have "compile_field junk fmt p f (?x, rc) = Inr (compiled x p b fc ?m ix, rc)"
    proof (cases "name_chars f \<in> {''x-match'', ''X-match''}")
      case match: True
      then obtain v where "field_text junk fmt f = Inr v"
        using True Cons.prems(2) by (auto simp: c_bind_Inr_iff)
      with True match show ?thesis
        by (auto simp: compile_field_def asks_any_def set_match_any_def compiled_def)
    next
      case False
      then have "\<not> asks_any junk fmt f" by (simp add: asks_any_def)
      with True False show ?thesis by (simp add: compile_field_def)
    qed
    with Cons.IH [OF Cons.prems(1) ks, of fc ?m rc] show ?thesis by simp
  next
    case False
    then obtain k ks' where k: "argument_key junk fmt f = Inr k" "argument_keys junk fmt fs = Inr ks'"
      "ks = k # ks'"
      using Cons.prems(2) by (auto simp: c_bind_Inr_iff)
    have any: "\<not> asks_any junk fmt f" using False option_name_match by (auto simp: asks_any_def)
    have b: "ex_bindings ?x p = Some (b\<lparr>bn_field_count := fc, bn_match_all := match_all\<rparr>)"
      and ix: "indices_wf (ex_indices ?x)" "ex_indices ?x = ix"
      using Cons.prems(1) by (simp_all add: compiled_def)
    from compile_one [OF b _ ix(1), of k] assms(1) obtain ix1 where
      "s_compile_binding ?x p k = Inr (?x\<lparr>ex_indices := ix1, ex_bindings := (ex_bindings ?x)(p \<mapsto>
         b\<lparr>bn_field_count := fc, bn_match_all := match_all\<rparr>\<lparr>bn_field_count := fc + 1\<rparr>)\<rparr>, 0)"
      and m: "marked ix [k] (bn_index b) ix1"
      by (auto simp: ix(2) simp del: fun_upd_apply)
    then have ix1: "s_compile_binding ?x p k = Inr (compiled x p b (fc + 1) match_all ix1, 0)"
      "marked ix [k] (bn_index b) ix1"
      by (simp_all only: compiled_next [OF b refl])
    have step: "compile_field junk fmt p f (?x, rc) = Inr (compiled x p b (fc + 1) match_all ix1, 0)"
      using False k(1) ix1(1) by (simp add: compile_field_def argument_key_def)
    have "indices_wf ix1" using ix1(2) by (simp add: marked_def)
    from Cons.IH [OF this k(2), of "fc + 1" match_all 0] obtain ix' rc' where
      "fields_fold (compile_field junk fmt p) fs (compiled x p b (fc + 1) match_all ix1, 0) =
        Inr (compiled x p b (fc + 1 + length ks') (match_all \<and> \<not> list_ex (asks_any junk fmt) fs) ix', rc')"
      "rc' = 0" "marked ix1 ks' (bn_index b) ix'" by blast
    with step any marked_trans [OF ix1(2)] show ?thesis by (auto simp: k(3))
  qed
qed

section \<open>The index of a headers exchange\<close>

definition binding_keys :: "memory_junk \<Rightarrow> (asl_field \<Rightarrow> formatter) \<Rightarrow> amq_binding \<Rightarrow> string list" where
  "binding_keys junk fmt b =
     (case table_fields (bn_arguments b) of
        Some (Inr (Some fs)) \<Rightarrow>
          (case argument_keys junk fmt fs of Inr ks \<Rightarrow> if ks = [] then [MATCH_ALL_KEY] else ks | Inl _ \<Rightarrow> [])
      | _ \<Rightarrow> [])"

definition headers_indexed :: "memory_junk \<Rightarrow> (asl_field \<Rightarrow> formatter) \<Rightarrow> amq_binding \<Rightarrow> string \<Rightarrow> bool" where
  "headers_indexed junk fmt b key \<longleftrightarrow> key \<in> set (binding_keys junk fmt b)"

text \<open>
  Every index holds the bindings with its key, every key of a binding has an index, the field count
  of a binding is the number of its keys, and the numbers in use are those of the list.
\<close>

definition headers_inv :: "memory_junk \<Rightarrow> (asl_field \<Rightarrow> formatter) \<Rightarrow> amq_exchange \<Rightarrow> bool" where
  "headers_inv junk fmt x \<longleftrightarrow> cache_inv (headers_indexed junk fmt) x \<and> slots_listed x \<and>
     (\<forall>p\<in>set (ex_binding_list x). binding_keys junk fmt (binding_at x p) \<noteq> [] \<and>
        bn_field_count (binding_at x p) = length (binding_keys junk fmt (binding_at x p)) \<and>
        (\<forall>key\<in>set (binding_keys junk fmt (binding_at x p)). amq_index_search (ex_indices x) key \<noteq> None))"

lemma headers_inv_new: "headers_inv junk fmt (amq_exchange_new t fed)"
  by (simp add: headers_inv_def cache_inv_new)
    (simp add: amq_exchange_new_def slots_listed_def ipr_index_new_def)

lemma headers_inv_wf: "headers_inv junk fmt x \<Longrightarrow> ex_wf x \<and> indices_wf (ex_indices x)"
  by (auto simp: headers_inv_def cache_inv_def indices_wf_def)

lemma headers_key_bits:
  assumes "headers_inv junk fmt x"
  shows "key_bits (ex_indices x) key =
    (\<lambda>p. bn_index (binding_at x p)) ` index_hits (headers_indexed junk fmt) x key"
proof (cases "amq_index_search (ex_indices x) key")
  case None
  with assms have "index_hits (headers_indexed junk fmt) x key = {}"
    unfolding headers_inv_def index_hits_def headers_indexed_def by blast
  with None show ?thesis by (simp add: key_bits_def)
next
  case (Some bits)
  with assms show ?thesis by (simp add: key_bits_def headers_inv_def cache_inv_def)
qed

lemma headers_key_member:
  assumes inv: "headers_inv junk fmt x" and p: "p \<in> set (ex_binding_list x)"
  shows "bn_index (binding_at x p) \<in> key_bits (ex_indices x) key \<longleftrightarrow>
    key \<in> set (binding_keys junk fmt (binding_at x p))"
proof -
  have wf: "ex_wf x" using headers_inv_wf [OF inv] by simp
  have "q = p" if "q \<in> set (ex_binding_list x)" "bn_index (binding_at x q) = bn_index (binding_at x p)" for q
    using ex_wf_index_of(2) [OF wf p] ex_wf_index_of(2) [OF wf that(1)] that(2) by simp
  then show ?thesis
    using p by (auto simp: headers_key_bits [OF inv] index_hits_def headers_indexed_def)
qed

lemma add_binding_headers:
  assumes inv: "headers_inv junk fmt x" and fresh: "fresh_binding x p b ix"
    and keys: "binding_keys junk fmt b = keys" "keys \<noteq> []" "bn_field_count b = length keys"
    and m: "marked (ex_indices x) keys (bn_index b) indices"
  shows "headers_inv junk fmt (add_binding x p b ix indices)"
proof -
  let ?y = "add_binding x p b ix indices" and ?M = "headers_indexed junk fmt"
  have wf: "ex_wf x" using headers_inv_wf [OF inv] by simp
  have p: "p \<notin> set (ex_binding_list x)" using fresh by (simp add: fresh_binding_def)
  have list: "set (ex_binding_list ?y) = insert p (set (ex_binding_list x))"
    and at: "binding_at ?y p = b" "\<And>q. q \<noteq> p \<Longrightarrow> binding_at ?y q = binding_at x q"
    and ind: "ex_indices ?y = indices"
    by (auto simp: add_binding_def)
  have hits: "(\<lambda>q. bn_index (binding_at ?y q)) ` index_hits ?M ?y key = key_bits indices key" for key
  proof -
    have "index_hits ?M ?y key = (if key \<in> set keys then {p} else {}) \<union> index_hits ?M x key"
      using p at keys(1) by (auto simp: index_hits_def list headers_indexed_def) metis+
    moreover have "(\<lambda>q. bn_index (binding_at ?y q)) ` index_hits ?M x key = key_bits (ex_indices x) key"
      unfolding headers_key_bits [OF inv] using p by (intro image_cong) (auto simp: index_hits_def add_binding_def)
    ultimately show ?thesis using m at(1) by (auto simp: marked_def image_Un)
  qed
  have iwf: "indices_wf indices" using m by (simp add: marked_def)
  have "cache_inv ?M ?y"
    unfolding cache_inv_def ind hits using add_binding_wf [OF wf fresh] iwf
    by (auto simp: indices_wf_def key_bits_def)
  moreover have "slots_listed ?y"
    using inv fresh at p unfolding slots_listed_def headers_inv_def
    by (auto simp: add_binding_def fresh_binding_def)
  moreover have "binding_keys junk fmt (binding_at ?y q) \<noteq> [] \<and>
      bn_field_count (binding_at ?y q) = length (binding_keys junk fmt (binding_at ?y q)) \<and>
      (\<forall>key\<in>set (binding_keys junk fmt (binding_at ?y q)). amq_index_search indices key \<noteq> None)"
    if "q \<in> set (ex_binding_list ?y)" for q
    using that inv keys m at unfolding list headers_inv_def marked_def by (cases "q = p") auto
  ultimately show ?thesis by (simp add: headers_inv_def ind)
qed

lemma headers_compile_ok:
  assumes inv: "headers_inv junk fmt x" and fresh: "fresh_binding x p b ix" and count: "bn_field_count b = 0"
    and fs: "table_fields (bn_arguments b) = Some (Inr (Some fs))" and ks: "argument_keys junk fmt fs = Inr ks"
    and b': "b' = b\<lparr>bn_field_count := max 1 (length ks), bn_match_all := \<not> list_ex (asks_any junk fmt) fs\<rparr>"
  shows "\<exists>indices. amq_exchange_headers_compile junk fmt
      (x\<lparr>ex_binding_index := ix, ex_bindings := (ex_bindings x)(p \<mapsto> b)\<rparr>) p =
        Some (Inr (x\<lparr>ex_binding_index := ix, ex_bindings := (ex_bindings x)(p \<mapsto> b'), ex_indices := indices\<rparr>, 0)) \<and>
    headers_inv junk fmt (add_binding x p b' ix indices)"
proof -
  let ?x = "x\<lparr>ex_binding_index := ix, ex_bindings := (ex_bindings x)(p \<mapsto> b)\<rparr>"
  let ?any = "\<not> list_ex (asks_any junk fmt) fs"
  let ?keys = "if ks = [] then [MATCH_ALL_KEY] else ks"
  have cap: "bn_index b < BITS_CAP" using fresh by (simp add: fresh_binding_def)
  have iwf: "indices_wf (ex_indices x)" using headers_inv_wf [OF inv] by simp
  have start: "?x\<lparr>ex_bindings := (ex_bindings ?x)(p \<mapsto> b\<lparr>bn_match_all := True\<rparr>)\<rparr> = compiled ?x p b 0 True (ex_indices x)"
    using count by (cases b) (simp add: compiled_def)
  obtain ix1 where ix1: "fields_fold (compile_field junk fmt p) fs (compiled ?x p b 0 True (ex_indices x), 0) =
      Inr (compiled ?x p b (length ks) ?any ix1, 0)" "marked (ex_indices x) ks (bn_index b) ix1"
    using compile_fields [OF cap iwf ks, of p ?x 0 True 0] by auto
  let ?y = "compiled ?x p b (length ks) ?any ix1"
  have y: "ex_bindings ?y p = Some (b\<lparr>bn_field_count := length ks, bn_match_all := ?any\<rparr>)" "ex_indices ?y = ix1"
    by (simp_all add: compiled_def)
  have "\<exists>indices. (if bn_field_count (binding_at ?y p) = 0 then s_compile_binding ?y p MATCH_ALL_KEY else Inr (?y, 0)) =
      Inr (compiled ?x p b (max 1 (length ks)) ?any indices, 0) \<and> marked (ex_indices x) ?keys (bn_index b) indices"
  proof (cases "ks = []")
    case True
    have "indices_wf (ex_indices ?y)" using ix1(2) y(2) by (simp add: marked_def)
    from compile_one [OF y(1) _ this, of MATCH_ALL_KEY] cap obtain ind where
      ind: "s_compile_binding ?y p MATCH_ALL_KEY = Inr (?y\<lparr>ex_indices := ind, ex_bindings := (ex_bindings ?y)(p \<mapsto>
         b\<lparr>bn_field_count := length ks, bn_match_all := ?any\<rparr>\<lparr>bn_field_count := length ks + 1\<rparr>)\<rparr>, 0)"
        "marked ix1 [MATCH_ALL_KEY] (bn_index b) ind"
      by (auto simp: y(2) simp del: fun_upd_apply)
    have "marked (ex_indices x) [MATCH_ALL_KEY] (bn_index b) ind"
      using marked_trans [OF ix1(2) ind(2)] True by simp
    with ind(1) y(1) True show ?thesis
      unfolding compiled_next [OF y(1) refl] by (intro exI [of _ ind]) simp
  next
    case False
    then have "max 1 (length ks) = length ks" by (cases ks) auto
    with False ix1(2) y(1) show ?thesis by auto
  qed
  then obtain indices where ind: "(if bn_field_count (binding_at ?y p) = 0 then s_compile_binding ?y p MATCH_ALL_KEY
      else Inr (?y, 0)) = Inr (compiled ?x p b (max 1 (length ks)) ?any indices, 0)"
    "marked (ex_indices x) ?keys (bn_index b) indices" by blast
  have res: "compiled ?x p b (max 1 (length ks)) ?any indices =
      x\<lparr>ex_binding_index := ix, ex_bindings := (ex_bindings x)(p \<mapsto> b'), ex_indices := indices\<rparr>"
    by (simp add: compiled_def b')
  have "amq_exchange_headers_compile junk fmt ?x p = Some (Inr (compiled ?x p b (max 1 (length ks)) ?any indices, 0))"
    using fs ix1(1) ind(1) unfolding amq_exchange_headers_compile_def start [symmetric] by simp
  moreover have "headers_inv junk fmt (add_binding x p b' ix indices)"
  proof (rule add_binding_headers [OF inv, where keys = ?keys])
    show "fresh_binding x p b' ix" using fresh by (simp add: fresh_binding_def b')
    show "binding_keys junk fmt b' = ?keys" using fs ks by (simp add: binding_keys_def b')
    show "bn_field_count b' = length ?keys" by (cases ks) (simp_all add: b')
    show "marked (ex_indices x) ?keys (bn_index b') indices" using ind(2) by (simp add: b')
  qed simp
  ultimately show ?thesis unfolding res by blast
qed

section \<open>Properties\<close>

definition headers_match :: "memory_junk \<Rightarrow> (asl_field \<Rightarrow> formatter) \<Rightarrow> string list \<Rightarrow> amq_binding \<Rightarrow> bool" where
  "headers_match junk fmt keys b \<longleftrightarrow>
     (if bn_match_all b then set (binding_keys junk fmt b) \<subseteq> set keys
      else set (binding_keys junk fmt b) \<inter> set keys \<noteq> {})"

lemma distinct_count: "distinct ks \<Longrightarrow> length (filter (\<lambda>k. k \<in> S) ks) = card (set ks \<inter> S)"
proof -
  assume "distinct ks"
  then have "card (set (filter (\<lambda>k. k \<in> S) ks)) = length (filter (\<lambda>k. k \<in> S) ks)"
    by (intro distinct_card) simp
  moreover have "set (filter (\<lambda>k. k \<in> S) ks) = set ks \<inter> S" by auto
  ultimately show ?thesis by simp
qed

lemma is_hit_match:
  assumes "distinct keys" and "distinct bk" and "bk \<noteq> []" and "bn_field_count b = length bk"
    and "bk = binding_keys junk fmt b"
  shows "is_hit b (length (filter (\<lambda>k. k \<in> set bk) keys)) \<longleftrightarrow> headers_match junk fmt keys b"
    and "is_hit b (length (filter (\<lambda>k. k \<in> set bk) keys)) \<Longrightarrow> 0 < length (filter (\<lambda>k. k \<in> set bk) keys)"
proof -
  have bk: "card (set bk) = length bk" "0 < length bk" using assms(2,3) by (auto simp: distinct_card)
  have "card (set keys \<inter> set bk) = card (set bk) \<longleftrightarrow> set bk \<subseteq> set keys"
    by (metis List.finite_set Int_absorb1 card_subset_eq inf_le2 inf.absorb_iff2)
  moreover have "0 < card (set keys \<inter> set bk) \<longleftrightarrow> set bk \<inter> set keys \<noteq> {}"
    by (simp add: card_gt_0_iff Int_commute)
  ultimately show "is_hit b (length (filter (\<lambda>k. k \<in> set bk) keys)) \<longleftrightarrow> headers_match junk fmt keys b"
    using bk assms(4,5) by (simp add: distinct_count [OF assms(1)] is_hit_def headers_match_def)
  show "is_hit b (length (filter (\<lambda>k. k \<in> set bk) keys)) \<Longrightarrow> 0 < length (filter (\<lambda>k. k \<in> set bk) keys)"
    using assms(4) bk(2) by (auto simp: is_hit_def)
qed

text \<open>
  A headers exchange delivers a message exactly once to every queue of every binding whose
  argument keys all occur among the keys of the message, or of which one does when the binding asks
  for any, and to no other queue.  The keys of a message are, for each header field, its name and its
  name with its value, and the key of the bindings without arguments; they are taken to be distinct,
  as are the keys of each binding.
\<close>

lemma headers_publish_correct:
  assumes inv: "headers_inv junk fmt x"
    and fields: "table_fields headers = Some (Inr (Some fs))" and keys: "message_keys junk fmt fs = Inr keys"
    and dist: "distinct keys" "\<forall>p\<in>set (ex_binding_list x). distinct (binding_keys junk fmt (binding_at x p))"
    and zero: "\<forall>p\<in>set (ex_binding_list x). 0 \<notin> set (queues_at x p)"
    and H: "H = {p \<in> set (ex_binding_list x). headers_match junk fmt keys (binding_at x p)}"
    and room: "(\<Sum>p\<in>H. length (queues_at x p)) \<le> AMQ_QUEUE_SET_MAX"
  shows "\<exists>qs. amq_exchange_headers_publish junk fmt counts x headers = Some (Inr qs) \<and> distinct qs \<and>
    set qs = (\<Union>p\<in>H. set (queues_at x p))"
proof -
  have wf: "ex_wf x" and iwf: "indices_wf (ex_indices x)" using headers_inv_wf [OF inv] by auto
  have slots: "slots_listed x" using inv by (simp add: headers_inv_def)
  obtain h1 h where h: "fields_fold (collect_field junk fmt (ex_indices x)) fs (amq_hitset_new counts) = Inr h1"
    "amq_hitset_collect (ex_indices x) MATCH_ALL_KEY h1 = Inr h" "hs_counts h (key_count keys (ex_indices x))"
    using collect_message [OF iwf keys hs_counts_new [of counts]] by auto
  let ?c = "\<lambda>p. key_count keys (ex_indices x) (bn_index (binding_at x p))"
  have hit: "(is_hit (binding_at x p) (?c p) \<longleftrightarrow> headers_match junk fmt keys (binding_at x p)) \<and>
      (is_hit (binding_at x p) (?c p) \<longrightarrow> 0 < ?c p)" if p: "p \<in> set (ex_binding_list x)" for p
  proof -
    let ?b = "binding_at x p" and ?bk = "binding_keys junk fmt (binding_at x p)"
    have c: "?c p = length (filter (\<lambda>k. k \<in> set ?bk) keys)" by (simp add: headers_key_member [OF inv p])
    have d: "distinct ?bk" "?bk \<noteq> []" "bn_field_count ?b = length ?bk"
      using dist(2) p inv by (auto simp: headers_inv_def)
    from is_hit_match [OF dist(1) d refl] show ?thesis unfolding c by blast
  qed
  then have H': "H = {p \<in> set (ex_binding_list x). is_hit (binding_at x p) (?c p)}" unfolding H by auto
  obtain qs where qs: "hits_loop x (hit_count h) [lowest h..<nat (highest h + 1)] [] = Inr qs"
    "set qs = (\<Union>p\<in>H. set (queues_at x p))"
    using headers_route [OF wf slots h(3) H' _ room] hit H by auto
  then have "0 \<notin> set qs" using zero by (auto simp: H)
  from exchange_deliver_set [OF this] qs fields h show ?thesis
    by (auto simp: amq_exchange_headers_publish_def)
qed


definition void_field :: "byte list \<Rightarrow> asl_field" where
  "void_field name = \<lparr>links = 0, zombie = False, list_head = Some 0, list_prev = 0, list_next = 0,
     field_name = name, field_type = 86, decimals = 0, field_string = None, field_integer = 0\<rparr>"

definition void_format :: "asl_field \<Rightarrow> formatter" where
  "void_format f room = ([40, 118, 111, 105, 100, 41, 0], 6)"

lemma void_tables:
  "table_fields [3, 97, 98, 99, 86] = Some (Inr (Some [void_field [97, 98, 99]]))"
  "table_fields [1, 42, 86] = Some (Inr (Some [void_field [42]]))"
  "table_fields [] = Some (Inr (Some []))"
  by code_simp+

lemma void_keys:
  "message_keys (\<lambda>_. 0) void_format [void_field [97, 98, 99]] = Inr [''abc'', ''abc=(void)'', ''*'']"
  "message_keys (\<lambda>_. 0) void_format [void_field [42]] = Inr [''*'', ''*=(void)'', ''*'']"
  "argument_keys (\<lambda>_. 0) void_format [void_field [97, 98, 99]] = Inr [''abc'']"
  by code_simp+

text \<open>An exchange with one binding, number 11 at address 40, with queue 7.\<close>

definition one_binding :: "byte list \<Rightarrow> amq_binding" where
  "one_binding args = \<lparr>bn_routing_key = [], bn_arguments = args, bn_queue_set = [7], bn_is_wildcard = False,
     bn_exclusive = False, bn_index = 11, bn_regexp = [], bn_field_count = 1, bn_match_all = True\<rparr>"

definition one_exchange :: "byte list \<Rightarrow> amq_indices \<Rightarrow> amq_exchange" where
  "one_exchange args indices = add_binding (amq_exchange_new AMQ_EXCHANGE_HEADERS AMQ_FEDERATION_NONE) 40
     (one_binding args) \<lparr>ix_size = 1, ix_data = (\<lambda>_. 0)(11 := 40)\<rparr> indices"

lemma one_exchange_inv:
  assumes "table_fields args = Some (Inr (Some fs))" and "argument_keys (\<lambda>_. 0) void_format fs = Inr ks"
    and "length ks \<le> 1" and "\<not> list_ex (asks_any (\<lambda>_. 0) void_format) fs"
  shows "\<exists>indices. headers_inv (\<lambda>_. 0) void_format (one_exchange args indices)"
proof -
  let ?b = "one_binding args\<lparr>bn_field_count := 0, bn_match_all := False\<rparr>"
  let ?ix = "\<lparr>ix_size = 1, ix_data = (\<lambda>_. 0)(11 := 40)\<rparr>"
  have "ix_used ?ix = {11}" using index_max_pos by (auto simp: ix_used_def)
  then have fresh: "fresh_binding (amq_exchange_new AMQ_EXCHANGE_HEADERS AMQ_FEDERATION_NONE) 40 ?b ?ix"
    by (simp add: fresh_binding_def amq_exchange_new_def one_binding_def ix_inv_def BITS_CAP_def
        IPR_BITS_SIZE_def ipr_index_new_def)
  have "max 1 (length ks) = 1" using assms(3) by simp
  with assms(4) have b': "one_binding args = ?b\<lparr>bn_field_count := max 1 (length ks),
      bn_match_all := \<not> list_ex (asks_any (\<lambda>_. 0) void_format) fs\<rparr>"
    by (simp add: one_binding_def)
  show ?thesis
    using headers_compile_ok [OF headers_inv_new fresh _ _ assms(2) b'] assms(1)
    by (auto simp: one_exchange_def one_binding_def)
qed

lemma one_exchange_simps:
  "ex_binding_list (one_exchange args indices) = [40]"
  "binding_at (one_exchange args indices) 40 = one_binding args"
  by (simp_all add: one_exchange_def add_binding_def one_binding_def amq_exchange_new_def)

lemma star_char: "char_of (42 :: nat) = CHR ''*''"
  by code_simp

text \<open>
  A binding without arguments is meant to match all messages.  A message with a header field
  named \<^verbatim>\<open>*\<close> is looked up under the key of those bindings twice, so the count is not the number of
  their keys and none of them receives it.
\<close>

theorem headers_star_missed:
  assumes inv: "headers_inv junk fmt x"
    and fields: "table_fields headers = Some (Inr (Some fs))" and keys: "message_keys junk fmt fs = Inr keys"
    and star: "f \<in> set fs" "field_name f = [42]"
    and all: "\<forall>p\<in>set (ex_binding_list x). bn_arguments (binding_at x p) = [] \<and> bn_match_all (binding_at x p)"
  shows "amq_exchange_headers_publish junk fmt counts x headers = Some (Inr [])"
proof -
  have wf: "ex_wf x" and iwf: "indices_wf (ex_indices x)" and slots: "slots_listed x"
    using headers_inv_wf [OF inv] inv by (auto simp: headers_inv_def)
  obtain h1 h where h: "fields_fold (collect_field junk fmt (ex_indices x)) fs (amq_hitset_new counts) = Inr h1"
    "amq_hitset_collect (ex_indices x) MATCH_ALL_KEY h1 = Inr h" "hs_counts h (key_count keys (ex_indices x))"
    using collect_message [OF iwf keys hs_counts_new [of counts]] by auto
  have "2 \<le> length (filter (\<lambda>k. k = MATCH_ALL_KEY) keys)"
    using star keys
  proof (induction fs arbitrary: keys)
    case (Cons g fs)
    then obtain v ks where k: "message_keys junk fmt fs = Inr ks" "keys = name_key g # value_key g v # ks"
      by (auto simp: c_bind_Inr_iff)
    have one: "1 \<le> length (filter (\<lambda>k. k = MATCH_ALL_KEY) ks)" if "message_keys junk fmt fs = Inr ks" for fs ks
      using that by (induction fs arbitrary: ks) (auto simp: c_bind_Inr_iff)
    show ?case
    proof (cases "f = g")
      case True
      then have "name_key g = MATCH_ALL_KEY" using star(2)
        by (simp add: name_key_def name_chars_def icl_shortstr_ncpy_def shortstr_loop_take FIELD_NAME_MAX_def
            MATCH_ALL_KEY_def ICL_SHORTSTR_MAX_def star_char)
      with one [OF k(1)] k(2) show ?thesis by auto
    qed (use Cons k in auto)
  qed simp
  moreover have "binding_keys junk fmt (binding_at x p) = [MATCH_ALL_KEY]" if "p \<in> set (ex_binding_list x)" for p
    using all that void_tables(3) by (simp add: binding_keys_def)
  ultimately have miss: "\<not> is_hit (binding_at x p) (key_count keys (ex_indices x) (bn_index (binding_at x p)))"
    if "p \<in> set (ex_binding_list x)" for p
    using that all inv by (auto simp: headers_key_member [OF inv that] is_hit_def headers_inv_def)
  then have "{} = {p \<in> set (ex_binding_list x). is_hit (binding_at x p)
      (key_count keys (ex_indices x) (bn_index (binding_at x p)))}" by auto
  from headers_route [OF wf slots h(3) this] obtain qs where
    "hits_loop x (hit_count h) [lowest h..<nat (highest h + 1)] [] = Inr qs" "set qs = {}" by auto
  with fields h show ?thesis by (simp add: amq_exchange_headers_publish_def exchange_deliver_def)
qed

theorem headers_star_missed_witness:
  "\<exists>indices. amq_exchange_headers_publish (\<lambda>_. 0) void_format (\<lambda>_. 5) (one_exchange [] indices) [1, 42, 86] =
     Some (Inr []) \<and> queues_at (one_exchange [] indices) 40 = [7]"
proof -
  obtain indices where inv: "headers_inv (\<lambda>_. 0) void_format (one_exchange [] indices)"
    using one_exchange_inv [OF void_tables(3)] by auto
  have "amq_exchange_headers_publish (\<lambda>_. 0) void_format (\<lambda>_. 5) (one_exchange [] indices) [1, 42, 86] = Some (Inr [])"
    by (rule headers_star_missed [OF inv void_tables(2) void_keys(2), of "void_field [42]"])
      (simp_all add: one_exchange_simps, simp_all add: one_binding_def void_field_def)
  then show ?thesis by (auto simp: one_exchange_simps one_binding_def)
qed

end
