(* ===== verification/Amq_Exchange.thy ===== *)
theory Amq_Exchange
  imports Amq_Content Amq_Topic Amq_Headers
begin

text \<open>
  The exchange object, \<^verbatim>\<open>server/amq_exchange.icl\<close>, with the direct and fanout implementations
  (\<^verbatim>\<open>amq_exchange_direct.icl\<close>, \<^verbatim>\<open>amq_exchange_fanout.icl\<close>): binding and unbinding queues, which
  are the same for all exchange types, and publishing.  The implementation of an exchange is reached
  through function pointers; \<open>exchange_compile\<close>, \<open>exchange_unbind\<close> and \<open>exchange_publish_fn\<close> choose it by
  the type.

  Each operation is a message to the exchange's own thread and runs to its end, so an execution is a
  sequence of operations.  The address of a new binding object is an argument, as memory allocation
  may return any free one.  Queues are known by address and name; what binding registers with the
  queue object and the console is not modelled.
\<close>

section \<open>Implementations\<close>

text \<open>
  What the implementations take from outside: the regular expression matcher, the contents of fresh
  memory and of fresh hit counts, and string formatting.
\<close>

record exchange_env =
  env_re :: "string \<Rightarrow> string \<Rightarrow> bool"
  env_junk :: memory_junk
  env_fmt :: "asl_field \<Rightarrow> formatter"
  env_counts :: "nat \<Rightarrow> nat"

type_synonym compile_fn = "amq_exchange \<Rightarrow> nat \<Rightarrow> (amq_exchange \<times> int) c_result option"
type_synonym unbind_fn = "amq_exchange \<Rightarrow> nat \<Rightarrow> amq_exchange c_result"
type_synonym route_fn = "amq_exchange \<Rightarrow> amq_content \<Rightarrow> (amq_exchange \<times> nat list) c_result option"

definition exchange_compile :: "exchange_env \<Rightarrow> exchange_type \<Rightarrow> compile_fn" where
  "exchange_compile env t x p =
     (case t of
        AMQ_EXCHANGE_TOPIC \<Rightarrow> Some (c_bind (amq_exchange_topic_compile (env_re env) x p) (\<lambda>x. Inr (x, 0)))
      | AMQ_EXCHANGE_REGEXP \<Rightarrow> Some (c_bind (amq_exchange_regexp_compile (env_re env) x p) (\<lambda>x. Inr (x, 0)))
      | AMQ_EXCHANGE_HEADERS \<Rightarrow> amq_exchange_headers_compile (env_junk env) (env_fmt env) x p
      | _ \<Rightarrow> Some (Inr (x, 0)))"

definition amq_exchange_direct_publish :: "amq_exchange \<Rightarrow> string \<Rightarrow> nat list c_result" where
  "amq_exchange_direct_publish x routing_key =
     (case ex_binding_hash x routing_key of
        None \<Rightarrow> Inr (exchange_deliver [])
      | Some p \<Rightarrow>
          (case ex_bindings x p of
             None \<Rightarrow> Inl Dangling_Pointer
           | Some b \<Rightarrow> Inr (exchange_deliver (amq_binding_collect b []))))"

definition amq_exchange_direct_unbind :: unbind_fn where
  "amq_exchange_direct_unbind x p =
     (case ex_bindings x p of
        None \<Rightarrow> Inl Dangling_Pointer
      | Some b \<Rightarrow>
          amq_binding_destroy (x\<lparr>ex_binding_hash := (ex_binding_hash x)(bn_routing_key b := None)\<rparr>) p)"

definition amq_exchange_fanout_publish :: "amq_exchange \<Rightarrow> nat list c_result" where
  "amq_exchange_fanout_publish x =
     (case ex_binding_list x of
        [] \<Rightarrow> Inr (exchange_deliver [])
      | p # _ \<Rightarrow>
          (case ex_bindings x p of
             None \<Rightarrow> Inl Dangling_Pointer
           | Some b \<Rightarrow> Inr (exchange_deliver (amq_binding_collect b []))))"

text \<open>Only the direct exchange has an unbind method; the base class does nothing.\<close>

definition exchange_unbind :: "exchange_type \<Rightarrow> unbind_fn" where
  "exchange_unbind t x p = (if t = AMQ_EXCHANGE_DIRECT then amq_exchange_direct_unbind x p else Inr x)"

definition exchange_publish_fn :: "exchange_env \<Rightarrow> exchange_type \<Rightarrow> route_fn" where
  "exchange_publish_fn env t x content =
     (case t of
        AMQ_EXCHANGE_SYSTEM \<Rightarrow> Some (Inr (x, exchange_deliver []))
      | AMQ_EXCHANGE_FANOUT \<Rightarrow> Some (c_bind (amq_exchange_fanout_publish x) (\<lambda>qs. Inr (x, qs)))
      | AMQ_EXCHANGE_DIRECT \<Rightarrow>
          Some (c_bind (amq_exchange_direct_publish x (ct_routing_key content)) (\<lambda>qs. Inr (x, qs)))
      | AMQ_EXCHANGE_TOPIC \<Rightarrow> Some (amq_exchange_topic_publish (env_re env) x (ct_routing_key content))
      | AMQ_EXCHANGE_REGEXP \<Rightarrow> Some (amq_exchange_regexp_publish (env_re env) x (ct_routing_key content))
      | AMQ_EXCHANGE_HEADERS \<Rightarrow>
          map_option (\<lambda>r. c_bind r (\<lambda>qs. Inr (x, qs)))
            (amq_exchange_headers_publish (env_junk env) (env_fmt env) (env_counts env) x (ct_headers content)))"

section \<open>Binding\<close>

definition same_binding_as :: "amq_exchange \<Rightarrow> string \<Rightarrow> byte list \<Rightarrow> nat \<Rightarrow> bool" where
  "same_binding_as x routing_key arguments p =
     (case ex_bindings x p of
        None \<Rightarrow> False
      | Some b \<Rightarrow> bn_routing_key b = routing_key \<and> bn_arguments b = arguments)"

text \<open>The end of a bind: the binding is entered in the queue's list and the queue in the binding's set.\<close>

definition attach_queue :: "amq_exchange \<Rightarrow> nat \<Rightarrow> queue_ref \<Rightarrow> amq_exchange" where
  "attach_queue x p queue =
     (let bindings_list = (case ex_queue_bindings x (qr_name queue) of None \<Rightarrow> [] | Some ps \<Rightarrow> ps)
      in x\<lparr>ex_queue_bindings := (ex_queue_bindings x)(qr_name queue \<mapsto>
             (if p \<in> set bindings_list then bindings_list else bindings_list @ [p])),
           ex_bindings := (ex_bindings x)(p :=
             map_option (\<lambda>b. amq_binding_bind_queue b (qr_addr queue)) (ex_bindings x p))\<rparr>)"

text \<open>The second component of the result says whether the channel got an error.\<close>

definition amq_exchange_bind_queue ::
    "compile_fn \<Rightarrow> nat \<Rightarrow> bool \<Rightarrow> queue_ref \<Rightarrow> string \<Rightarrow> byte list \<Rightarrow> amq_exchange \<Rightarrow> (amq_exchange \<times> bool) c_result option" where
  "amq_exchange_bind_queue compile new channel queue routing_key arguments x =
     (let routing_key = (if ex_type x = AMQ_EXCHANGE_FANOUT then [] else routing_key);
          hash = ex_binding_hash x routing_key;
          binding = (if hash = None then None
                     else find (same_binding_as x routing_key arguments) (ex_binding_list x))
      in case binding of
           Some p \<Rightarrow>
             Some (Inr (attach_queue x p queue,
               ex_federation_type x = AMQ_FEDERATION_SERVICE \<and> channel \<and>
               bn_exclusive (binding_at x p) \<noteq> qr_exclusive queue))
         | None \<Rightarrow>
             (case amq_binding_new x new routing_key arguments (qr_exclusive queue) of
                None \<Rightarrow> None
              | Some (Inl e) \<Rightarrow> Some (Inl e)
              | Some (Inr x) \<Rightarrow>
                  let x = (if hash = None then x\<lparr>ex_binding_hash := (ex_binding_hash x)(routing_key \<mapsto> new)\<rparr> else x)
                  in case compile x new of
                       None \<Rightarrow> None
                     | Some (Inl e) \<Rightarrow> Some (Inl e)
                     | Some (Inr (x, rc)) \<Rightarrow>
                         let x = (if rc = 0
                                  then x\<lparr>ex_binding_list :=
                                         (if bn_is_wildcard (binding_at x new) then new # ex_binding_list x
                                          else ex_binding_list x @ [new])\<rparr>
                                  else x)
                         in Some (Inr (attach_queue x new queue, False))))"

section \<open>Unbinding\<close>

definition drop_queue :: "unbind_fn \<Rightarrow> nat \<Rightarrow> nat \<Rightarrow> amq_exchange \<Rightarrow> amq_exchange c_result" where
  "drop_queue unbind p queue x =
     (case ex_bindings x p of
        None \<Rightarrow> Inl Dangling_Pointer
      | Some b \<Rightarrow>
          let (b', rc) = amq_binding_unbind_queue b queue;
              x = x\<lparr>ex_bindings := (ex_bindings x)(p \<mapsto> b')\<rparr>
          in if rc \<noteq> 0 then unbind x p else Inr x)"

definition amq_exchange_unbind_queue ::
    "unbind_fn \<Rightarrow> queue_ref \<Rightarrow> string \<Rightarrow> byte list \<Rightarrow> amq_exchange \<Rightarrow> amq_exchange c_result" where
  "amq_exchange_unbind_queue unbind queue routing_key arguments x =
     (case ex_queue_bindings x (qr_name queue) of
        None \<Rightarrow> Inr x
      | Some queue_bindings \<Rightarrow>
          (case find (same_binding_as x routing_key arguments) queue_bindings of
             None \<Rightarrow>
               Inr (if queue_bindings = []
                    then x\<lparr>ex_queue_bindings := (ex_queue_bindings x)(qr_name queue := None)\<rparr> else x)
           | Some p \<Rightarrow>
               c_bind (drop_queue unbind p (qr_addr queue) x) (\<lambda>x.
               let queue_bindings = remove1 p queue_bindings in
               Inr (x\<lparr>ex_queue_bindings := (ex_queue_bindings x)(qr_name queue :=
                      (if queue_bindings = [] then None else Some queue_bindings))\<rparr>))))"

fun unbind_all :: "unbind_fn \<Rightarrow> nat \<Rightarrow> nat list \<Rightarrow> amq_exchange \<Rightarrow> amq_exchange c_result" where
  "unbind_all unbind queue [] x = Inr x"
| "unbind_all unbind queue (p # queue_bindings) x =
     c_bind (drop_queue unbind p queue x) (unbind_all unbind queue queue_bindings)"

definition amq_exchange_broker_unbind_queue ::
    "unbind_fn \<Rightarrow> queue_ref \<Rightarrow> amq_exchange \<Rightarrow> amq_exchange c_result" where
  "amq_exchange_broker_unbind_queue unbind queue x =
     (case ex_queue_bindings x (qr_name queue) of
        None \<Rightarrow> Inr x
      | Some queue_bindings \<Rightarrow>
          c_bind (unbind_all unbind (qr_addr queue) queue_bindings x) (\<lambda>x.
            Inr (x\<lparr>ex_queue_bindings := (ex_queue_bindings x)(qr_name queue := None)\<rparr>)))"

section \<open>Publishing\<close>

text \<open>
  What a publish does beside changing the exchange: the queues the message is put on, whether it is
  handed to the federation, and whether it is returned to its sender.  A system exchange delivers to
  the console.
\<close>

record publish_outcome =
  po_queues :: "nat list"
  po_forwarded :: bool
  po_returned :: bool

definition amq_exchange_publish ::
    "route_fn \<Rightarrow> bool \<Rightarrow> bool \<Rightarrow> amq_content \<Rightarrow> amq_exchange \<Rightarrow> (amq_exchange \<times> publish_outcome) c_result option" where
  "amq_exchange_publish route channel mandatory content x =
     (let fed = ex_federation_type x in
      map_option (\<lambda>r. c_bind r (\<lambda>(x, queues).
        let delivered = (if fed = AMQ_FEDERATION_FANOUT \<and> channel then 1
                         else length queues + (if ex_type x = AMQ_EXCHANGE_SYSTEM \<and>
                                ct_routing_key content = ''amq.console'' then 1 else 0));
            forward = (fed = AMQ_FEDERATION_PUBLISHER \<or> fed = AMQ_FEDERATION_FANOUT \<and> channel \<or>
                       fed = AMQ_FEDERATION_LOCATOR \<and> delivered = 0 \<or>
                       fed = AMQ_FEDERATION_SERVICE \<and> delivered = 0);
            delivered = (if forward then delivered + 1 else delivered)
        in Inr (x\<lparr>ex_contents_in := ex_contents_in x + 1,
                  ex_contents_out := ex_contents_out x + of_nat delivered,
                  ex_traffic_in := ex_traffic_in x + ct_body_size content,
                  ex_traffic_out := ex_traffic_out x + of_nat delivered * ct_body_size content\<rparr>,
                \<lparr>po_queues = queues, po_forwarded = forward,
                 po_returned = (delivered = 0 \<and> mandatory \<and> \<not> ct_returned content \<and> channel)\<rparr>)))
        (if fed = AMQ_FEDERATION_FANOUT \<and> channel then Some (Inr (x, [])) else route x content))"

end
