(* ===== verification/Amq_Exchange_Spec.thy ===== *)
theory Amq_Exchange_Spec
  imports Amq_Exchange
begin

text \<open>
  What an exchange promises, whatever its type.  The specification keeps the set of bound queues, as
  triples of routing key, arguments and queue address; a message goes once to every queue of a triple
  it hits.  The locale \<open>exchange_kind\<close> is the contract between the exchange object and an
  implementation of it (the compile, unbind and publish functions); the lemmas proved in it say that
  the exchange object on top of such an implementation refines the specification.
\<close>

section \<open>Well-formed exchanges\<close>

abbreviation key_at :: "amq_exchange \<Rightarrow> nat \<Rightarrow> string" where
  "key_at x p \<equiv> bn_routing_key (binding_at x p)"

abbreviation args_at :: "amq_exchange \<Rightarrow> nat \<Rightarrow> byte list" where
  "args_at x p \<equiv> bn_arguments (binding_at x p)"

text \<open>
  The part of the invariant that does not mention the per-queue lists: no two bindings have the same
  key and arguments, and the hash table leads from each key to a binding with it.
\<close>

definition ex_base :: "amq_exchange \<Rightarrow> bool" where
  "ex_base x \<longleftrightarrow> ex_wf x \<and> inj_on (\<lambda>p. (key_at x p, args_at x p)) (set (ex_binding_list x)) \<and>
     (\<forall>k p. ex_binding_hash x k = Some p \<longrightarrow> p \<in> set (ex_binding_list x) \<and> key_at x p = k) \<and>
     (\<forall>p\<in>set (ex_binding_list x). ex_binding_hash x (key_at x p) \<noteq> None) \<and>
     (\<forall>p\<in>set (ex_binding_list x). distinct (queues_at x p) \<and> 0 \<notin> set (queues_at x p))"

definition queue_list :: "amq_exchange \<Rightarrow> string \<Rightarrow> nat list" where
  "queue_list x name = (case ex_queue_bindings x name of None \<Rightarrow> [] | Some ps \<Rightarrow> ps)"

text \<open>The list kept for a queue holds the bindings that have it.  \<open>qn\<close> gives the names of queues.\<close>

definition ex_ok :: "(nat \<Rightarrow> string) \<Rightarrow> amq_exchange \<Rightarrow> bool" where
  "ex_ok qn x \<longleftrightarrow> ex_base x \<and>
     (\<forall>q. distinct (queue_list x (qn q)) \<and>
          set (queue_list x (qn q)) = {p \<in> set (ex_binding_list x). q \<in> set (queues_at x p)})"

definition bound :: "amq_exchange \<Rightarrow> (string \<times> byte list \<times> nat) set" where
  "bound x = {(key_at x p, args_at x p, q) | p q. p \<in> set (ex_binding_list x) \<and> q \<in> set (queues_at x p)}"

lemma ex_ok_new: "ex_ok qn (amq_exchange_new t fed)" "bound (amq_exchange_new t fed) = {}"
  by (simp_all add: ex_ok_def ex_base_def ex_wf_new)
    (simp_all add: amq_exchange_new_def queue_list_def bound_def)

section \<open>Room for a new binding\<close>

definition has_room :: "amq_exchange \<Rightarrow> bool" where
  "has_room x \<longleftrightarrow> 3 * ix_size (ex_binding_index x) + 17 \<le> BITS_CAP"

lemma index_room:
  assumes inv: "ix_inv ix" and room: "3 * ix_size ix + 17 \<le> BITS_CAP" and p: "p \<noteq> 0"
  shows "\<exists>ix' n. ipr_index_insert ix p = Some (Inr (ix', n)) \<and> 0 < n \<and> n < BITS_CAP \<and> ix_inv ix' \<and>
    ix_data ix n = 0 \<and> ix_data ix' = (ix_data ix)(n := p) \<and> ix_size ix' = ix_size ix + 1"
proof -
  have cap: "BITS_CAP \<le> IPR_INDEX_MAX" by (simp add: BITS_CAP_def IPR_INDEX_MAX_def IPR_BITS_SIZE_BITS_def)
  obtain j where j: "ipr_index_start (ix_size ix) p \<le> j" "j < BITS_CAP" "ix_data ix j = 0"
    using index_free_slot [OF inv room cap] by blast
  show ?thesis
    using inv
  proof (cases rule: index_insert_cases [where object = p])
    case full
    with j cap show ?thesis by auto
  next
    case (slot r)
    have "r \<le> j" using slot(6) j(1,3) by (meson not_le_imp_less)
    then have "r < BITS_CAP" using j(2) by simp
    with slot(1-4) index_insert_inv [OF inv slot(2-4) p] show ?thesis by auto
  qed
qed

section \<open>Commands and their specification\<close>

datatype command =
  Bind nat bool queue_ref string "byte list"
| Unbind queue_ref string "byte list"
| Drop queue_ref
| Publish bool bool amq_content

text \<open>An operation of the exchange; the queues a publish puts the message on are its output.\<close>

definition exec :: "compile_fn \<Rightarrow> unbind_fn \<Rightarrow> route_fn \<Rightarrow> command \<Rightarrow> amq_exchange \<Rightarrow> (amq_exchange \<times> nat list) c_result option" where
  "exec compile unbind route cmd x =
     (case cmd of
        Bind new channel queue key args \<Rightarrow>
          map_option (\<lambda>r. c_bind r (\<lambda>(x, _). Inr (x, []))) (amq_exchange_bind_queue compile new channel queue key args x)
      | Unbind queue key args \<Rightarrow>
          Some (c_bind (amq_exchange_unbind_queue unbind queue key args x) (\<lambda>x. Inr (x, [])))
      | Drop queue \<Rightarrow> Some (c_bind (amq_exchange_broker_unbind_queue unbind queue x) (\<lambda>x. Inr (x, [])))
      | Publish channel mandatory content \<Rightarrow>
          map_option (\<lambda>r. c_bind r (\<lambda>(x, outcome). Inr (x, po_queues outcome)))
            (amq_exchange_publish route channel mandatory content x))"

definition spec_key :: "exchange_type \<Rightarrow> string \<Rightarrow> string" where
  "spec_key t key = (if t = AMQ_EXCHANGE_FANOUT then [] else key)"

definition spec_step ::
    "exchange_type \<Rightarrow> command \<Rightarrow> (string \<times> byte list \<times> nat) set \<Rightarrow> (string \<times> byte list \<times> nat) set" where
  "spec_step t cmd B =
     (case cmd of
        Bind new channel queue key args \<Rightarrow> insert (spec_key t key, args, qr_addr queue) B
      | Unbind queue key args \<Rightarrow> B - {(key, args, qr_addr queue)}
      | Drop queue \<Rightarrow> {(k, a, q) \<in> B. q \<noteq> qr_addr queue}
      | Publish channel mandatory content \<Rightarrow> B)"

text \<open>The queues that must get a message, for a relation that says which bindings it hits.\<close>

definition spec_output ::
    "(string \<Rightarrow> byte list \<Rightarrow> amq_content \<Rightarrow> bool) \<Rightarrow> command \<Rightarrow> (string \<times> byte list \<times> nat) set \<Rightarrow> nat set" where
  "spec_output hits cmd B =
     (case cmd of
        Publish channel mandatory content \<Rightarrow> {q. \<exists>k a. (k, a, q) \<in> B \<and> hits k a content}
      | _ \<Rightarrow> {})"

text \<open>
  Which commands are considered in a state: the queue has its name and an address, a new binding gets
  a free address and a number, the implementation admits the binding or accepts the message, the
  message is not just handed to a fanout federation, and it has no more queues than the publish set.
\<close>

definition hit_bindings ::
    "(string \<Rightarrow> byte list \<Rightarrow> amq_content \<Rightarrow> bool) \<Rightarrow> amq_exchange \<Rightarrow> amq_content \<Rightarrow> nat set" where
  "hit_bindings hits x m = {p \<in> set (ex_binding_list x). hits (key_at x p) (args_at x p) m}"

definition command_ok ::
    "(nat \<Rightarrow> string) \<Rightarrow> exchange_type \<Rightarrow> (amq_exchange \<Rightarrow> string \<Rightarrow> byte list \<Rightarrow> bool) \<Rightarrow>
     (amq_exchange \<Rightarrow> amq_content \<Rightarrow> bool) \<Rightarrow> (string \<Rightarrow> byte list \<Rightarrow> amq_content \<Rightarrow> bool) \<Rightarrow>
     command \<Rightarrow> amq_exchange \<Rightarrow> bool" where
  "command_ok qn t admits accepts hits cmd x =
     (case cmd of
        Bind new channel queue key args \<Rightarrow>
          qr_name queue = qn (qr_addr queue) \<and> qr_addr queue \<noteq> 0 \<and> new \<noteq> 0 \<and> new \<notin> set (ex_binding_list x) \<and>
          has_room x \<and> admits x (spec_key t key) args
      | Unbind queue key args \<Rightarrow> qr_name queue = qn (qr_addr queue)
      | Drop queue \<Rightarrow> qr_name queue = qn (qr_addr queue)
      | Publish channel mandatory content \<Rightarrow>
          accepts x content \<and> \<not> (ex_federation_type x = AMQ_FEDERATION_FANOUT \<and> channel) \<and>
          (\<Sum>p\<in>hit_bindings hits x content. length (queues_at x p)) \<le> AMQ_QUEUE_SET_MAX)"

text \<open>The states an exchange can reach from its creation, with the specification's state.\<close>

inductive ex_reach ::
    "compile_fn \<Rightarrow> unbind_fn \<Rightarrow> route_fn \<Rightarrow> (command \<Rightarrow> amq_exchange \<Rightarrow> bool) \<Rightarrow> exchange_type \<Rightarrow>
     federation_type \<Rightarrow> amq_exchange \<Rightarrow> (string \<times> byte list \<times> nat) set \<Rightarrow> bool"
  for compile unbind route ok t fed where
  reach_new: "ex_reach compile unbind route ok t fed (amq_exchange_new t fed) {}"
| reach_step: "ex_reach compile unbind route ok t fed y (spec_step t cmd B)"
    if "ex_reach compile unbind route ok t fed x B" and "ok cmd x"
      and "exec compile unbind route cmd x = Some (Inr (y, out))"

section \<open>Changing the set of bound queues\<close>

text \<open>The bindings that have a queue.\<close>

definition with_queue :: "amq_exchange \<Rightarrow> nat \<Rightarrow> nat set" where
  "with_queue x q = {p \<in> set (ex_binding_list x). q \<in> set (queues_at x p)}"

lemma bound_iff: "(k, a, q) \<in> bound x \<longleftrightarrow> (\<exists>p\<in>with_queue x q. key_at x p = k \<and> args_at x p = a)"
  by (auto simp: bound_def with_queue_def)

lemma ex_ok_iff: "ex_ok qn x \<longleftrightarrow> ex_base x \<and>
    (\<forall>q. distinct (queue_list x (qn q)) \<and> set (queue_list x (qn q)) = with_queue x q)"
  by (simp add: ex_ok_def with_queue_def)

text \<open>The state as far as the implementations look at it.\<close>

definition same_routing :: "amq_exchange \<Rightarrow> amq_exchange \<Rightarrow> bool" where
  "same_routing x y \<longleftrightarrow> ex_type y = ex_type x \<and> ex_binding_list y = ex_binding_list x \<and>
     ex_binding_index y = ex_binding_index x \<and> ex_indices y = ex_indices x \<and>
     (\<forall>p. map_option (\<lambda>b. b\<lparr>bn_queue_set := []\<rparr>) (ex_bindings y p) =
          map_option (\<lambda>b. b\<lparr>bn_queue_set := []\<rparr>) (ex_bindings x p))"

lemma no_queues_eq:
  "b\<lparr>bn_queue_set := []\<rparr> = c\<lparr>bn_queue_set := []\<rparr> \<longleftrightarrow>
   bn_routing_key b = bn_routing_key c \<and> bn_arguments b = bn_arguments c \<and>
   bn_is_wildcard b = bn_is_wildcard c \<and> bn_exclusive b = bn_exclusive c \<and> bn_index b = bn_index c \<and>
   bn_regexp b = bn_regexp c \<and> bn_field_count b = bn_field_count c \<and> bn_match_all b = bn_match_all c"
  for b c :: amq_binding
  by (cases b; cases c) auto

lemma same_routing_at:
  assumes "same_routing x y" and "ex_bindings x p \<noteq> None"
  shows "\<exists>b. ex_bindings y p = Some b \<and> bn_routing_key b = key_at x p \<and> bn_arguments b = args_at x p \<and>
    bn_is_wildcard b = bn_is_wildcard (binding_at x p) \<and> bn_index b = bn_index (binding_at x p) \<and>
    bn_regexp b = bn_regexp (binding_at x p) \<and> bn_field_count b = bn_field_count (binding_at x p) \<and>
    bn_match_all b = bn_match_all (binding_at x p)"
proof -
  from assms have "map_option (\<lambda>b. b\<lparr>bn_queue_set := []\<rparr>) (ex_bindings y p) =
      map_option (\<lambda>b. b\<lparr>bn_queue_set := []\<rparr>) (ex_bindings x p)" by (simp add: same_routing_def)
  with assms(2) show ?thesis by (cases "ex_bindings y p") (auto simp: no_queues_eq)
qed

lemma same_routing_wf: "ex_wf x \<Longrightarrow> same_routing x y \<Longrightarrow> ex_wf y"
proof -
  assume wf: "ex_wf x" and same: "same_routing x y"
  have list: "ex_binding_list y = ex_binding_list x" "ex_binding_index y = ex_binding_index x"
    using same by (auto simp: same_routing_def)
  have at: "\<exists>b. ex_bindings y p = Some b \<and> bn_is_wildcard b = bn_is_wildcard (binding_at x p) \<and>
      bn_index b = bn_index (binding_at x p)" if "p \<in> set (ex_binding_list x)" for p
    using same_routing_at [OF same] ex_wf_store [OF wf] that by blast
  have wild: "bn_is_wildcard (binding_at y p) = bn_is_wildcard (binding_at x p)"
    if "p \<in> set (ex_binding_list x)" for p using at [OF that] by auto
  have "sorted_wrt (\<lambda>p q. bn_is_wildcard (binding_at x q) \<longrightarrow> bn_is_wildcard (binding_at x p)) (ex_binding_list x)"
    using wf by (simp add: ex_wf_def)
  then have "sorted_wrt (\<lambda>p q. bn_is_wildcard (binding_at y q) \<longrightarrow> bn_is_wildcard (binding_at y p)) (ex_binding_list x)"
    by (rule sorted_wrt_mono_rel [rotated]) (simp add: wild)
  moreover have "\<exists>b. ex_bindings y p = Some b \<and> 0 < bn_index b \<and> bn_index b < BITS_CAP \<and>
      ix_data (ex_binding_index y) (bn_index b) = p" "p \<noteq> 0" if "p \<in> set (ex_binding_list x)" for p
    using at [OF that] wf that list by (auto elim: ex_wf_bindingE)
  ultimately show ?thesis using wf unfolding ex_wf_def list by blast
qed

lemma attach_queue_ok:
  assumes ok: "ex_ok qn x" and inj: "inj qn" and p: "p \<in> set (ex_binding_list x)"
    and q: "qr_name queue = qn (qr_addr queue)" "qr_addr queue \<noteq> 0"
  shows "ex_ok qn (attach_queue x p queue) \<and> same_routing x (attach_queue x p queue) \<and>
    bound (attach_queue x p queue) = insert (key_at x p, args_at x p, qr_addr queue) (bound x)"
proof -
  let ?y = "attach_queue x p queue" and ?q = "qr_addr queue"
  have base: "ex_base x" and wf: "ex_wf x" using ok by (auto simp: ex_ok_def ex_base_def)
  obtain b where b: "ex_bindings x p = Some b" using ex_wf_store [OF wf] p by auto
  have y: "ex_bindings ?y = (ex_bindings x)(p \<mapsto> amq_binding_bind_queue b ?q)"
    "ex_binding_list ?y = ex_binding_list x" "ex_binding_hash ?y = ex_binding_hash x"
    by (simp_all add: attach_queue_def Let_def b)
  have same: "same_routing x ?y"
    using b by (simp add: same_routing_def attach_queue_def Let_def amq_binding_bind_queue_def)
  have keys: "key_at ?y r = key_at x r" "args_at ?y r = args_at x r" for r
    by (simp_all add: y b amq_binding_bind_queue_def)
  have queues: "set (queues_at ?y r) = (if r = p then insert ?q (set (queues_at x r)) else set (queues_at x r))"
    "distinct (queues_at x r) \<Longrightarrow> distinct (queues_at ?y r)" for r
    by (auto simp: y b amq_binding_bind_queue_def)
  have wq: "with_queue ?y r = (if r = ?q then insert p (with_queue x r) else with_queue x r)" for r
    using p by (auto simp: with_queue_def queues y(2))
  have ql: "queue_list ?y (qn r) = (if r = ?q \<and> p \<notin> set (queue_list x (qn r)) then queue_list x (qn r) @ [p]
      else queue_list x (qn r))" for r
    using inj q(1) by (auto simp: queue_list_def attach_queue_def Let_def inj_eq split: option.splits)
  have "ex_base ?y"
    using base queues q(2) same_routing_wf [OF wf same] unfolding ex_base_def keys y(2,3) by auto
  moreover have "distinct (queue_list ?y (qn r)) \<and> set (queue_list ?y (qn r)) = with_queue ?y r" for r
    using ok by (auto simp: ex_ok_iff wq ql)
  moreover have "bound ?y = insert (key_at x p, args_at x p, ?q) (bound x)"
  proof -
    have "(k, a, r) \<in> bound ?y \<longleftrightarrow> (k, a, r) \<in> insert (key_at x p, args_at x p, ?q) (bound x)" for k a r
      unfolding bound_iff keys wq by (auto simp: bound_iff)
    then show ?thesis by auto
  qed
  ultimately show ?thesis using same by (simp add: ex_ok_iff)
qed

text \<open>A new binding without queues.\<close>

lemma add_binding_alt:
  "add_binding x p b ix indices =
     x\<lparr>ex_binding_index := ix, ex_bindings := (ex_bindings x)(p \<mapsto> b), ex_indices := indices,
       ex_binding_list := (if bn_is_wildcard b then p # ex_binding_list x else ex_binding_list x @ [p])\<rparr>"
  by (cases x) (simp add: add_binding_def)

lemma hash_first:
  "x\<lparr>ex_binding_index := ix, ex_bindings := bs, ex_binding_hash := h\<rparr> =
   x\<lparr>ex_binding_hash := h, ex_binding_index := ix, ex_bindings := bs\<rparr>"
  by (cases x) simp

lemma add_binding_ok:
  assumes ok: "ex_ok qn x" and fresh: "fresh_binding x p b ix" and b: "bn_queue_set b = []"
    and new: "\<forall>r\<in>set (ex_binding_list x). \<not> (key_at x r = bn_routing_key b \<and> args_at x r = bn_arguments b)"
    and h: "h = (if ex_binding_hash x (bn_routing_key b) = None
      then (ex_binding_hash x)(bn_routing_key b \<mapsto> p) else ex_binding_hash x)"
    and y: "y = add_binding (x\<lparr>ex_binding_hash := h\<rparr>) p b ix indices"
  shows "ex_ok qn y" and "bound y = bound x" and "p \<in> set (ex_binding_list y)"
    and "binding_at y p = b"
proof -
  have base: "ex_base x" and wf: "ex_wf x" using ok by (auto simp: ex_ok_def ex_base_def)
  have p: "p \<notin> set (ex_binding_list x)" using fresh by (simp add: fresh_binding_def)
  have wfy: "ex_wf y"
    unfolding y by (rule add_binding_wf) (use wf fresh in \<open>auto simp: ex_wf_def fresh_binding_def\<close>)
  have list: "set (ex_binding_list y) = insert p (set (ex_binding_list x))"
    and at: "binding_at y p = b" "\<And>r. r \<in> set (ex_binding_list x) \<Longrightarrow> binding_at y r = binding_at x r"
    and hash: "ex_binding_hash y = h" and qb: "ex_queue_bindings y = ex_queue_bindings x"
    using p by (auto simp: y add_binding_def)
  have wq: "with_queue y r = with_queue x r" for r
    using b at p by (auto simp: with_queue_def list)
  have inj: "inj_on (\<lambda>r. (key_at y r, args_at y r)) (set (ex_binding_list y))"
  proof -
    have "inj_on (\<lambda>r. (key_at y r, args_at y r)) (set (ex_binding_list x))"
      using base at(2) unfolding ex_base_def inj_on_def by simp
    then show ?thesis unfolding list using new at p by (auto simp: inj_on_insert)
  qed
  have "ex_base y"
    unfolding ex_base_def hash
  proof (intro conjI allI ballI impI)
    fix k r assume "h k = Some r"
    then have "r = p \<and> k = bn_routing_key b \<or> ex_binding_hash x k = Some r"
      by (auto simp: h split: if_splits)
    with base at list have r: "r \<in> set (ex_binding_list y) \<and> key_at y r = k" by (auto simp: ex_base_def)
    then show "r \<in> set (ex_binding_list y)" and "key_at y r = k" by auto
  next
    fix r assume "r \<in> set (ex_binding_list y)"
    then consider "r = p" | "r \<in> set (ex_binding_list x)" using list by auto
    then have "h (key_at y r) \<noteq> None \<and> distinct (queues_at y r) \<and> 0 \<notin> set (queues_at y r)"
      by cases (use base at b in \<open>auto simp: h ex_base_def\<close>)
    then show "h (key_at y r) \<noteq> None" "distinct (queues_at y r)" "0 \<notin> set (queues_at y r)" by auto
  qed (use wfy inj in auto)
  then show "ex_ok qn y" using ok by (simp add: ex_ok_iff wq queue_list_def qb)
  show "bound y = bound x"
  proof -
    have "(k, a, q) \<in> bound y \<longleftrightarrow> (k, a, q) \<in> bound x" for k a q
      unfolding bound_iff wq using at(2) by (auto simp: with_queue_def)
    then show ?thesis by auto
  qed
  show "p \<in> set (ex_binding_list y)" "binding_at y p = b" using list at(1) by auto
qed

text \<open>The course of a bind that makes a new binding.\<close>

definition new_binding :: "string \<Rightarrow> byte list \<Rightarrow> bool \<Rightarrow> nat \<Rightarrow> amq_binding" where
  "new_binding key args exclusive n = \<lparr>bn_routing_key = key, bn_arguments = args, bn_queue_set = [],
     bn_is_wildcard = False, bn_exclusive = exclusive, bn_index = n, bn_regexp = [],
     bn_field_count = 0, bn_match_all = False\<rparr>"

definition hash_with :: "amq_exchange \<Rightarrow> string \<Rightarrow> nat \<Rightarrow> amq_exchange" where
  "hash_with x key p = x\<lparr>ex_binding_hash := (if ex_binding_hash x key = None
     then (ex_binding_hash x)(key \<mapsto> p) else ex_binding_hash x)\<rparr>"

lemma bind_new_form:
  assumes key: "spec_key (ex_type x) key = k" and none: "\<forall>p\<in>set (ex_binding_list x). \<not> same_binding_as x k args p"
    and ix: "ipr_index_insert (ex_binding_index x) new = Some (Inr (ix, n))" "0 < n"
    and args: "table_fields args = Some (Inr (Some fs))"
    and compile: "compile (hash_with x k new\<lparr>ex_binding_index := ix,
        ex_bindings := (ex_bindings x)(new \<mapsto> new_binding k args (qr_exclusive queue) n)\<rparr>) new =
      Some (Inr (hash_with x k new\<lparr>ex_binding_index := ix, ex_bindings := (ex_bindings x)(new \<mapsto> b),
        ex_indices := indices\<rparr>, 0))"
  shows "amq_exchange_bind_queue compile new channel queue key args x =
    Some (Inr (attach_queue (add_binding (hash_with x k new) new b ix indices) new queue, False))"
proof -
  have key': "(if ex_type x = AMQ_EXCHANGE_FANOUT then [] else key) = k" using key by (simp add: spec_key_def)
  have find: "find (same_binding_as x k args) (ex_binding_list x) = None" using none by (auto simp: find_None_iff)
  have "amq_binding_new x new k args (qr_exclusive queue) = Some (Inr (x\<lparr>ex_binding_index := ix,
      ex_bindings := (ex_bindings x)(new \<mapsto> new_binding k args (qr_exclusive queue) n)\<rparr>))"
    using ix args by (simp add: amq_binding_new_def new_binding_def)
  with find compile show ?thesis
    unfolding amq_exchange_bind_queue_def Let_def key'
    by (auto simp: add_binding_alt hash_first hash_with_def)
qed

text \<open>
  Taking a queue out of a binding, and the binding itself out of the exchange once it is empty.
\<close>

definition loses :: "amq_exchange \<Rightarrow> nat \<Rightarrow> nat set \<Rightarrow> amq_exchange \<Rightarrow> bool" where
  "loses x q ps y \<longleftrightarrow> ex_type y = ex_type x \<and> ex_queue_bindings y = ex_queue_bindings x \<and>
     set (ex_binding_list y) \<subseteq> set (ex_binding_list x) \<and>
     (\<forall>r\<in>set (ex_binding_list y). key_at y r = key_at x r \<and> args_at y r = args_at x r) \<and>
     (\<forall>r. with_queue y r = (if r = q then with_queue x r - ps else with_queue x r))"

lemma loses_none: "loses x q {} x"
  by (simp add: loses_def)

lemma loses_trans: "loses x q ps y \<Longrightarrow> loses y q rs z \<Longrightarrow> loses x q (ps \<union> rs) z"
  by (fastforce simp: loses_def)

lemma loses_bound:
  assumes "loses x q ps y" and "ex_base x" and "ps \<subseteq> set (ex_binding_list x)"
  shows "bound y = bound x - {(key_at x p, args_at x p, q) | p. p \<in> ps}"
proof -
  have keys: "key_at y p = key_at x p" "args_at y p = args_at x p" if "p \<in> with_queue y r" for p r
    using assms(1) that by (auto simp: loses_def with_queue_def)
  have wq: "with_queue y r = (if r = q then with_queue x r - ps else with_queue x r)" for r
    using assms(1) by (simp add: loses_def)
  have inj: "r = p" if "p \<in> ps" "r \<in> with_queue x q" "key_at x r = key_at x p" "args_at x r = args_at x p" for p r
    using assms(2,3) that by (auto simp: ex_base_def inj_on_def with_queue_def)
  have "(k, a, r) \<in> bound y \<longleftrightarrow> (k, a, r) \<in> bound x - {(key_at x p, args_at x p, q) | p. p \<in> ps}" for k a r
  proof -
    have y: "(k, a, r) \<in> bound y \<longleftrightarrow> (\<exists>p\<in>with_queue y r. key_at x p = k \<and> args_at x p = a)"
      unfolding bound_iff using keys by auto
    have d: "(k, a, r) \<in> {(key_at x p, args_at x p, q) | p. p \<in> ps} \<longleftrightarrow>
        r = q \<and> (\<exists>p\<in>ps. key_at x p = k \<and> args_at x p = a)" by auto
    show ?thesis
    proof (cases "r = q")
      case True
      have "p \<notin> ps \<longleftrightarrow> (\<forall>p'\<in>ps. \<not> (key_at x p' = k \<and> args_at x p' = a))"
        if "p \<in> with_queue x q" "key_at x p = k" "args_at x p = a" for p
        using inj that by metis
      then show ?thesis using True y unfolding wq Diff_iff d bound_iff by auto
    qed (use y in \<open>simp add: wq d bound_iff\<close>)
  qed
  then show ?thesis by auto
qed

lemma sorted_wrt_remove1: "sorted_wrt P xs \<Longrightarrow> sorted_wrt P (remove1 a xs)"
  by (induction xs) (auto dest: notin_set_remove1)

definition gone :: "amq_exchange \<Rightarrow> nat \<Rightarrow> amq_exchange \<Rightarrow> bool" where
  "gone x p y \<longleftrightarrow> (\<forall>r\<in>set (ex_binding_list x). key_at x r = key_at x p \<longrightarrow> r = p) \<and>
     (\<exists>ix. ix_inv ix \<and> ix_data ix = (ix_data (ex_binding_index x))(bn_index (binding_at x p) := 0) \<and>
        y = x\<lparr>ex_binding_hash := (ex_binding_hash x)(key_at x p := None), ex_binding_index := ix,
              ex_bindings := (ex_bindings x)(p := None), ex_binding_list := remove1 p (ex_binding_list x)\<rparr>)"

lemma gone_ok:
  assumes base: "ex_base x" and p: "p \<in> set (ex_binding_list x)" "queues_at x p = []" and gone: "gone x p y"
  shows "ex_base y" and "loses x q {} y"
proof -
  obtain ix where ix: "ix_inv ix" "ix_data ix = (ix_data (ex_binding_index x))(bn_index (binding_at x p) := 0)"
    and y: "y = x\<lparr>ex_binding_hash := (ex_binding_hash x)(key_at x p := None), ex_binding_index := ix,
              ex_bindings := (ex_bindings x)(p := None), ex_binding_list := remove1 p (ex_binding_list x)\<rparr>"
    and uniq: "\<forall>r\<in>set (ex_binding_list x). key_at x r = key_at x p \<longrightarrow> r = p"
    using gone by (auto simp: gone_def)
  have wf: "ex_wf x" and d: "distinct (ex_binding_list x)" using base by (auto simp: ex_base_def ex_wf_def)
  have list: "set (ex_binding_list y) = set (ex_binding_list x) - {p}" using d by (simp add: y)
  have at: "ex_bindings y r = ex_bindings x r" if "r \<noteq> p" for r using that by (simp add: y)
  have sub: "r \<in> set (ex_binding_list x)" "r \<noteq> p" "binding_at y r = binding_at x r"
    if "r \<in> set (ex_binding_list y)" for r using that list at by auto
  have "sorted_wrt (\<lambda>r q. bn_is_wildcard (binding_at x q) \<longrightarrow> bn_is_wildcard (binding_at x r)) (ex_binding_list y)"
    using wf by (simp add: ex_wf_def y sorted_wrt_remove1)
  then have sw: "sorted_wrt (\<lambda>r q. bn_is_wildcard (binding_at y q) \<longrightarrow> bn_is_wildcard (binding_at y r)) (ex_binding_list y)"
    by (rule sorted_wrt_mono_rel [rotated]) (use sub in auto)
  have "r \<noteq> 0 \<and> (\<exists>b. ex_bindings y r = Some b \<and> 0 < bn_index b \<and> bn_index b < BITS_CAP \<and>
      ix_data ix (bn_index b) = r)" if r: "r \<in> set (ex_binding_list y)" for r
  proof -
    obtain b where b: "ex_bindings x r = Some b" "0 < bn_index b" "bn_index b < BITS_CAP" "r \<noteq> 0"
      "ix_data (ex_binding_index x) (bn_index b) = r" by (rule ex_wf_bindingE [OF wf sub(1) [OF r]])
    moreover have "bn_index b \<noteq> bn_index (binding_at x p)"
      using b(5) sub(2) [OF r] ex_wf_index_of(2) [OF wf p(1)] by metis
    ultimately show ?thesis using at [OF sub(2) [OF r]] ix(2) by auto
  qed
  then have "ex_wf y" using sw ix(1) d by (simp add: ex_wf_def y)
  moreover have "inj_on (\<lambda>r. (key_at y r, args_at y r)) (set (ex_binding_list y))"
    using base sub by (auto simp: ex_base_def inj_on_def)
  moreover have "r \<in> set (ex_binding_list y) \<and> key_at y r = k" if "ex_binding_hash y k = Some r" for k r
  proof -
    from that have k: "k \<noteq> key_at x p" "ex_binding_hash x k = Some r" by (auto simp: y split: if_splits)
    with base have "r \<in> set (ex_binding_list x)" "key_at x r = k" by (auto simp: ex_base_def)
    then have "r \<noteq> p" "key_at x r = k" "r \<in> set (ex_binding_list x)" using k(1) by auto
    with list at [of r] show ?thesis by simp
  qed
  moreover have "ex_binding_hash y (key_at y r) \<noteq> None \<and> distinct (queues_at y r) \<and> 0 \<notin> set (queues_at y r)"
    if r: "r \<in> set (ex_binding_list y)" for r
    using base sub [OF r] uniq by (auto simp: ex_base_def y)
  ultimately show "ex_base y" by (simp add: ex_base_def)
  have "s \<in> with_queue y r \<longleftrightarrow> s \<in> with_queue x r" for r s
    by (cases "s = p") (simp_all add: with_queue_def list p(2) at)
  then have "with_queue y r = with_queue x r" for r by blast
  then show "loses x q {} y" using sub list by (simp add: loses_def) (simp add: y)
qed

lemma shrink_ok:
  assumes base: "ex_base x" and p: "p \<in> set (ex_binding_list x)" "ex_bindings x p = Some b"
    and y: "y = x\<lparr>ex_bindings := (ex_bindings x)(p \<mapsto> b\<lparr>bn_queue_set := remove1 q (bn_queue_set b)\<rparr>)\<rparr>"
  shows "ex_base y" and "loses x q {p} y" and "same_routing x y"
proof -
  have wf: "ex_wf x" and d: "distinct (bn_queue_set b)" using base p by (auto simp: ex_base_def)
  show same: "same_routing x y" using p(2) by (simp add: same_routing_def y)
  have keys: "key_at y r = key_at x r" "args_at y r = args_at x r" for r by (simp_all add: y p(2))
  have queues: "set (queues_at y r) = (if r = p then set (queues_at x r) - {q} else set (queues_at x r))"
    "distinct (queues_at x r) \<Longrightarrow> distinct (queues_at y r)" for r
    using d p(2) by (auto simp: y distinct_remove1)
  have y': "ex_binding_list y = ex_binding_list x" "ex_binding_hash y = ex_binding_hash x" by (simp_all add: y)
  show "ex_base y"
    using base queues same_routing_wf [OF wf same] unfolding ex_base_def keys y' by auto
  have "with_queue y r = (if r = q then with_queue x r - {p} else with_queue x r)" for r
    by (auto simp: with_queue_def queues y')
  then show "loses x q {p} y" by (simp add: loses_def keys y') (simp add: y)
qed

section \<open>The contract of an implementation\<close>

text \<open>
  \<open>inv\<close> is the implementation's own invariant, \<open>admits x key args\<close> says when a binding may be added,
  \<open>accepts x content\<close> when a message may be published, and \<open>hits\<close> is the matching relation.  Compiling
  may change the fields of the binding that are the implementation's, and the indices; unbinding may
  remove an empty binding; publishing may add indices.
\<close>

definition same_binding :: "amq_binding \<Rightarrow> amq_binding \<Rightarrow> bool" where
  "same_binding b b' \<longleftrightarrow> bn_routing_key b' = bn_routing_key b \<and> bn_arguments b' = bn_arguments b \<and>
     bn_queue_set b' = bn_queue_set b \<and> bn_index b' = bn_index b"

definition blank_binding :: "amq_binding \<Rightarrow> bool" where
  "blank_binding b \<longleftrightarrow> bn_queue_set b = [] \<and> \<not> bn_is_wildcard b \<and> bn_field_count b = 0 \<and> bn_regexp b = []"

locale exchange_kind =
  fixes kind :: exchange_type
    and compile :: compile_fn
    and unbind :: unbind_fn
    and route :: route_fn
    and inv :: "amq_exchange \<Rightarrow> bool"
    and admits :: "amq_exchange \<Rightarrow> string \<Rightarrow> byte list \<Rightarrow> bool"
    and accepts :: "amq_exchange \<Rightarrow> amq_content \<Rightarrow> bool"
    and hits :: "string \<Rightarrow> byte list \<Rightarrow> amq_content \<Rightarrow> bool"
  assumes inv_new: "inv (amq_exchange_new kind fed)"
    and inv_frame: "\<lbrakk>inv x; ex_wf x; same_routing x y\<rbrakk> \<Longrightarrow> inv y"
    and admits_frame: "\<lbrakk>admits x key args; ex_wf x; same_routing x y\<rbrakk> \<Longrightarrow> admits y key args"
    and admits_decodes: "admits x key args \<Longrightarrow> \<exists>fs. table_fields args = Some (Inr (Some fs))"
    and compile_ok: "\<lbrakk>inv x; ex_wf x; fresh_binding x p b ix; blank_binding b;
        admits x (bn_routing_key b) (bn_arguments b)\<rbrakk> \<Longrightarrow>
      \<exists>b' indices. compile (x\<lparr>ex_binding_index := ix, ex_bindings := (ex_bindings x)(p \<mapsto> b)\<rparr>) p =
          Some (Inr (x\<lparr>ex_binding_index := ix, ex_bindings := (ex_bindings x)(p \<mapsto> b'), ex_indices := indices\<rparr>, 0)) \<and>
        same_binding b b' \<and> inv (add_binding x p b' ix indices)"
    and unbind_ok: "\<lbrakk>inv x; ex_base x; p \<in> set (ex_binding_list x); queues_at x p = []\<rbrakk> \<Longrightarrow>
      \<exists>y. unbind x p = Inr y \<and> inv y \<and> (y = x \<or> gone x p y)"
    and route_ok: "\<lbrakk>inv x; ex_base x; accepts x m;
        (\<Sum>p\<in>hit_bindings hits x m. length (queues_at x p)) \<le> AMQ_QUEUE_SET_MAX\<rbrakk> \<Longrightarrow>
      \<exists>indices qs. route x m = Some (Inr (x\<lparr>ex_indices := indices\<rparr>, qs)) \<and> inv (x\<lparr>ex_indices := indices\<rparr>) \<and>
        distinct qs \<and> set qs = (\<Union>p\<in>hit_bindings hits x m. set (queues_at x p))"
begin

definition good :: "(nat \<Rightarrow> string) \<Rightarrow> amq_exchange \<Rightarrow> bool" where
  "good qn x \<longleftrightarrow> ex_ok qn x \<and> inv x \<and> ex_type x = kind"

lemma good_simps:
  assumes "good qn x"
  shows "ex_ok qn x" "ex_base x" "ex_wf x" "inv x" "ex_type x = kind"
  using assms by (auto simp: good_def ex_ok_def ex_base_def)

lemma good_frame:
  assumes "good qn x" and "ex_ok qn y" and "same_routing x y"
  shows "good qn y"
  using assms inv_frame [OF good_simps(4,3) [OF assms(1)] assms(3)] by (simp add: good_def same_routing_def)

lemma bind_refines:
  assumes good: "good qn x" and inj: "inj qn" and room: "has_room x"
    and new: "new \<noteq> 0" "new \<notin> set (ex_binding_list x)"
    and q: "qr_name queue = qn (qr_addr queue)" "qr_addr queue \<noteq> 0"
    and adm: "admits x (spec_key kind key) args"
  shows "\<exists>y e. amq_exchange_bind_queue compile new channel queue key args x = Some (Inr (y, e)) \<and>
    good qn y \<and> bound y = insert (spec_key kind key, args, qr_addr queue) (bound x)"
proof -
  let ?key = "spec_key kind key"
  note g = good_simps [OF good]
  have key: "(if ex_type x = AMQ_EXCHANGE_FANOUT then [] else key) = ?key" using g(5) by (simp add: spec_key_def)
  have same: "same_binding_as x ?key args p \<longleftrightarrow> key_at x p = ?key \<and> args_at x p = args"
    if "p \<in> set (ex_binding_list x)" for p
    using ex_wf_store [OF g(3)] that by (auto simp: same_binding_as_def)
  show ?thesis
  proof (cases "\<exists>p\<in>set (ex_binding_list x). key_at x p = ?key \<and> args_at x p = args")
    case True
    then have "ex_binding_hash x ?key \<noteq> None" using g(2) by (auto simp: ex_base_def)
    moreover obtain p where p: "find (same_binding_as x ?key args) (ex_binding_list x) = Some p"
      "p \<in> set (ex_binding_list x)" "key_at x p = ?key" "args_at x p = args"
    proof (cases "find (same_binding_as x ?key args) (ex_binding_list x)")
      case None
      with True same show thesis by (auto simp: find_None_iff)
    next
      case (Some p)
      then have "p \<in> set (ex_binding_list x)" "same_binding_as x ?key args p"
        by (auto simp: find_Some_iff)
      with Some same that show thesis by auto
    qed
    ultimately have "amq_exchange_bind_queue compile new channel queue key args x =
        Some (Inr (attach_queue x p queue, ex_federation_type x = AMQ_FEDERATION_SERVICE \<and> channel \<and>
          bn_exclusive (binding_at x p) \<noteq> qr_exclusive queue))"
      unfolding amq_exchange_bind_queue_def Let_def key by (auto simp: p(1))
    moreover note attach_queue_ok [OF g(1) inj p(2) q]
    ultimately show ?thesis using good_frame [OF good] p(3,4) by auto
  next
    case False
    obtain ix n where ix: "ipr_index_insert (ex_binding_index x) new = Some (Inr (ix, n))"
      "0 < n" "n < BITS_CAP" "ix_inv ix" "ix_data (ex_binding_index x) n = 0"
      "ix_data ix = (ix_data (ex_binding_index x))(n := new)"
      using index_room [of "ex_binding_index x" new] g(3) room new(1) by (auto simp: has_room_def ex_wf_def)
    define b where "b = new_binding ?key args (qr_exclusive queue) n"
    let ?x = "hash_with x ?key new"
    have frame: "same_routing x ?x" by (simp add: same_routing_def hash_with_def)
    have x: "ex_bindings ?x = ex_bindings x" by (simp add: hash_with_def)
    have fresh: "fresh_binding ?x new b ix" "fresh_binding x new b ix"
      using new ix by (simp_all add: fresh_binding_def b_def new_binding_def hash_with_def)
    obtain b' indices where c: "compile (?x\<lparr>ex_binding_index := ix, ex_bindings := (ex_bindings x)(new \<mapsto> b)\<rparr>) new =
        Some (Inr (?x\<lparr>ex_binding_index := ix, ex_bindings := (ex_bindings x)(new \<mapsto> b'), ex_indices := indices\<rparr>, 0))"
      "same_binding b b'" "inv (add_binding ?x new b' ix indices)"
      using compile_ok [OF inv_frame [OF g(4,3) frame] same_routing_wf [OF g(3) frame] fresh(1)]
        admits_frame [OF adm g(3) frame] by (auto simp: b_def blank_binding_def new_binding_def x)
    let ?y = "add_binding ?x new b' ix indices"
    have fresh': "fresh_binding x new b' ix" using fresh(2) c(2) by (simp add: fresh_binding_def same_binding_def)
    have b': "bn_queue_set b' = []" "bn_routing_key b' = ?key" "bn_arguments b' = args"
      using c(2) by (simp_all add: same_binding_def b_def new_binding_def)
    have no: "\<forall>r\<in>set (ex_binding_list x). \<not> (key_at x r = bn_routing_key b' \<and> args_at x r = bn_arguments b')"
      using False b' by auto
    have "?y = add_binding (x\<lparr>ex_binding_hash := (if ex_binding_hash x (bn_routing_key b') = None
        then (ex_binding_hash x)(bn_routing_key b' \<mapsto> new) else ex_binding_hash x)\<rparr>) new b' ix indices"
      by (simp add: hash_with_def b')
    note y = add_binding_ok [OF g(1) fresh' b'(1) no refl this]
    have gy: "good qn ?y" using y(1) c(3) g(5) by (simp add: good_def add_binding_def hash_with_def)
    note att = attach_queue_ok [OF y(1) inj y(3) q]
    obtain fs where fs: "table_fields args = Some (Inr (Some fs))" using admits_decodes [OF adm] by blast
    have "\<forall>p\<in>set (ex_binding_list x). \<not> same_binding_as x ?key args p" using False same by auto
    then have "amq_exchange_bind_queue compile new channel queue key args x =
        Some (Inr (attach_queue ?y new queue, False))"
      using g(5) ix(1,2) fs c(1)
      by (intro bind_new_form [where n = n and fs = fs]) (simp_all add: b_def)
    moreover have "good qn (attach_queue ?y new queue)" using good_frame [OF gy] att by blast
    ultimately show ?thesis using att y(2,4) b' by auto
  qed
qed

lemma drop_queue_ok:
  assumes inv: "inv x" and base: "ex_base x" and p: "p \<in> set (ex_binding_list x)"
  shows "\<exists>y. drop_queue unbind p q x = Inr y \<and> inv y \<and> ex_base y \<and> loses x q {p} y"
proof -
  have wf: "ex_wf x" using base by (simp add: ex_base_def)
  obtain b where b: "ex_bindings x p = Some b" using ex_wf_store [OF wf] p by auto
  let ?b = "b\<lparr>bn_queue_set := remove1 q (bn_queue_set b)\<rparr>"
  let ?y = "x\<lparr>ex_bindings := (ex_bindings x)(p \<mapsto> ?b)\<rparr>"
  note y = shrink_ok [OF base p b refl, of q]
  have iy: "inv ?y" using inv_frame [OF inv wf y(3)] .
  show ?thesis
  proof (cases "remove1 q (bn_queue_set b) = []")
    case False
    then have "drop_queue unbind p q x = Inr ?y"
      by (simp add: drop_queue_def b amq_binding_unbind_queue_def)
    with iy y show ?thesis by auto
  next
    case True
    then have step: "drop_queue unbind p q x = unbind ?y p"
      by (simp add: drop_queue_def b amq_binding_unbind_queue_def)
    have py: "p \<in> set (ex_binding_list ?y)" "queues_at ?y p = []" using p True by simp_all
    from unbind_ok [OF iy y(1) py] obtain z where z: "unbind ?y p = Inr z" "inv z" "z = ?y \<or> gone ?y p z" by blast
    from z(3) have "ex_base z \<and> loses ?y q {} z"
      using y(1) loses_none gone_ok [OF y(1) py] by auto
    then have "ex_base z" "loses x q {p} z" using loses_trans [OF y(2), of "{}" z] by auto
    with step z show ?thesis by auto
  qed
qed

text \<open>Putting the queue's own list right afterwards.\<close>

lemma loses_ok:
  assumes ok: "ex_ok qn x" and inj: "inj qn" and y: "ex_base y" "loses x q ps y"
    and l: "distinct l" "set l = set (queue_list x (qn q)) - ps"
    and z: "z = y\<lparr>ex_queue_bindings := (ex_queue_bindings y)(qn q := o')\<rparr>" "l = (case o' of None \<Rightarrow> [] | Some ps \<Rightarrow> ps)"
  shows "ex_ok qn z" and "bound z = bound y"
proof -
  have wq: "with_queue z r = with_queue y r" for r by (simp add: z(1) with_queue_def)
  have ql: "queue_list z (qn r) = (if r = q then l else queue_list x (qn r))" for r
    using inj y(2) by (simp add: z queue_list_def loses_def inj_eq)
  have "ex_base z" using y(1) by (simp add: ex_base_def ex_wf_def z(1))
  moreover have "distinct (queue_list z (qn r)) \<and> set (queue_list z (qn r)) = with_queue z r" for r
    unfolding ql wq using ok y(2) l by (auto simp: ex_ok_iff loses_def)
  ultimately show "ex_ok qn z" by (simp add: ex_ok_iff)
  show "bound z = bound y" by (simp add: bound_def z(1))
qed

lemma unbind_refines:
  assumes good: "good qn x" and inj: "inj qn" and q: "qr_name queue = qn (qr_addr queue)"
  shows "\<exists>y. amq_exchange_unbind_queue unbind queue key args x = Inr y \<and> good qn y \<and>
    bound y = bound x - {(key, args, qr_addr queue)}"
proof -
  let ?q = "qr_addr queue" and ?l = "queue_list x (qn (qr_addr queue))"
  note g = good_simps [OF good]
  have l: "distinct ?l" "set ?l = with_queue x ?q" using g(1) by (auto simp: ex_ok_iff)
  have same: "same_binding_as x key args p \<longleftrightarrow> key_at x p = key \<and> args_at x p = args" if "p \<in> set ?l" for p
    using ex_wf_store [OF g(3)] that l(2) by (auto simp: same_binding_as_def with_queue_def)
  show ?thesis
  proof (cases "find (same_binding_as x key args) ?l")
    case None
    then have "(key, args, ?q) \<notin> bound x" using same l(2) by (auto simp: bound_iff find_None_iff)
    then have bd: "bound x = bound x - {(key, args, ?q)}" by simp
    have t: "ex_ok qn (x\<lparr>ex_queue_bindings := (ex_queue_bindings x)(qn ?q := None)\<rparr>)"
      "bound (x\<lparr>ex_queue_bindings := (ex_queue_bindings x)(qn ?q := None)\<rparr>) = bound x" if "?l = []"
      using loses_ok [OF g(1) inj g(2) loses_none, of "[]" ?q _ None] that by auto
    have frame: "same_routing x (x\<lparr>ex_queue_bindings := h\<rparr>)" for h by (simp add: same_routing_def)
    show ?thesis
    proof (cases "ex_queue_bindings x (qn ?q)")
      case None
      with good bd show ?thesis by (simp add: amq_exchange_unbind_queue_def q)
    next
      case (Some ps)
      then have "?l = ps" by (simp add: queue_list_def)
      with Some None t good_frame [OF good t(1) frame] good bd show ?thesis
        by (auto simp: amq_exchange_unbind_queue_def q)
    qed
  next
    case (Some p)
    then have p: "p \<in> set ?l" "key_at x p = key" "args_at x p = args"
      using same by (auto simp: find_Some_iff)
    then have list: "p \<in> set (ex_binding_list x)" using l(2) by (auto simp: with_queue_def)
    obtain y where y: "drop_queue unbind p ?q x = Inr y" "inv y" "ex_base y" "loses x ?q {p} y"
      using drop_queue_ok [OF g(4,2) list] by blast
    let ?r = "remove1 p ?l" and ?o = "if remove1 p ?l = [] then None else Some (remove1 p ?l)"
    let ?z = "y\<lparr>ex_queue_bindings := (ex_queue_bindings y)(qn ?q := ?o)\<rparr>"
    have r: "distinct ?r" "set ?r = set ?l - {p}" "?r = (case ?o of None \<Rightarrow> [] | Some ps \<Rightarrow> ps)"
      using l(1) by (simp_all add: distinct_remove1)
    note z = loses_ok [OF g(1) inj y(3,4) r(1,2) refl r(3)]
    have "ex_queue_bindings x (qn ?q) = Some ?l" using p(1)
      by (cases "ex_queue_bindings x (qn ?q)") (simp_all add: queue_list_def)
    then have "amq_exchange_unbind_queue unbind queue key args x = Inr ?z"
      using Some y(1) by (simp add: amq_exchange_unbind_queue_def q Let_def)
    moreover have "bound y = bound x - {(key, args, ?q)}"
      using loses_bound [OF y(4) g(2)] list p(2,3) by auto
    moreover have "inv ?z"
      using inv_frame [OF y(2)] y(3) by (simp add: same_routing_def ex_base_def)
    moreover have "ex_type ?z = kind" using y(4) g(5) by (simp add: loses_def)
    ultimately show ?thesis using z by (auto simp: good_def)
  qed
qed

lemma unbind_all_ok:
  assumes "inv x" and "ex_base x" and "distinct ps" and "set ps \<subseteq> with_queue x q"
  shows "\<exists>y. unbind_all unbind q ps x = Inr y \<and> inv y \<and> ex_base y \<and> loses x q (set ps) y"
  using assms
proof (induction ps arbitrary: x)
  case Nil
  then show ?case by (simp add: loses_none)
next
  case (Cons p ps)
  then have "p \<in> set (ex_binding_list x)" by (simp add: with_queue_def)
  from drop_queue_ok [OF Cons.prems(1,2) this] obtain y where
    y: "drop_queue unbind p q x = Inr y" "inv y" "ex_base y" "loses x q {p} y" by blast
  have "set ps \<subseteq> with_queue y q" using Cons.prems(3,4) y(4) by (auto simp: loses_def)
  from Cons.IH [OF y(2,3) _ this] Cons.prems(3) obtain z where
    z: "unbind_all unbind q ps y = Inr z" "inv z" "ex_base z" "loses y q (set ps) z" by auto
  with y(1) loses_trans [OF y(4) z(4)] show ?case by auto
qed

lemma drop_refines:
  assumes good: "good qn x" and inj: "inj qn" and q: "qr_name queue = qn (qr_addr queue)"
  shows "\<exists>y. amq_exchange_broker_unbind_queue unbind queue x = Inr y \<and> good qn y \<and>
    bound y = {(k, a, r) \<in> bound x. r \<noteq> qr_addr queue}"
proof -
  let ?q = "qr_addr queue" and ?l = "queue_list x (qn (qr_addr queue))"
  note g = good_simps [OF good]
  have l: "distinct ?l" "set ?l = with_queue x ?q" using g(1) by (auto simp: ex_ok_iff)
  show ?thesis
  proof (cases "ex_queue_bindings x (qn ?q)")
    case None
    then have "with_queue x ?q = {}" using l(2) by (simp add: queue_list_def)
    then have "(k, a, ?q) \<notin> bound x" for k a by (simp add: bound_iff)
    then have "bound x = {(k, a, r) \<in> bound x. r \<noteq> ?q}" by auto
    with None good show ?thesis by (auto simp: amq_exchange_broker_unbind_queue_def q)
  next
    case (Some ps)
    then have ps: "ps = ?l" by (simp add: queue_list_def)
    obtain y where y: "unbind_all unbind ?q ?l x = Inr y" "inv y" "ex_base y" "loses x ?q (set ?l) y"
      using unbind_all_ok [OF g(4,2) l(1)] l(2) by auto
    let ?z = "y\<lparr>ex_queue_bindings := (ex_queue_bindings y)(qn ?q := None)\<rparr>"
    note z = loses_ok [OF g(1) inj y(3,4), of "[]" ?z None]
    have "(k, a, r) \<in> bound y \<longleftrightarrow> (k, a, r) \<in> bound x \<and> r \<noteq> ?q" for k a r
    proof -
      have "{(key_at x p, args_at x p, ?q) | p. p \<in> set ?l} = {t \<in> bound x. snd (snd t) = ?q}"
        unfolding l(2) by (auto simp: bound_def with_queue_def)
      moreover have "set ?l \<subseteq> set (ex_binding_list x)" unfolding l(2) by (auto simp: with_queue_def)
      ultimately show ?thesis using loses_bound [OF y(4) g(2)] by auto
    qed
    then have "bound y = {(k, a, r) \<in> bound x. r \<noteq> ?q}" by auto
    moreover have "inv ?z" using inv_frame [OF y(2)] y(3) by (simp add: same_routing_def ex_base_def)
    moreover have "ex_type ?z = kind" using y(4) g(5) by (simp add: loses_def)
    ultimately show ?thesis
      using z y(1) Some ps by (auto simp: amq_exchange_broker_unbind_queue_def q good_def)
  qed
qed

lemma publish_refines:
  assumes good: "good qn x" and acc: "accepts x m" and fed: "\<not> (ex_federation_type x = AMQ_FEDERATION_FANOUT \<and> channel)"
    and room: "(\<Sum>p\<in>hit_bindings hits x m. length (queues_at x p)) \<le> AMQ_QUEUE_SET_MAX"
  shows "\<exists>y out. amq_exchange_publish route channel mandatory m x = Some (Inr (y, out)) \<and> good qn y \<and>
    bound y = bound x \<and> distinct (po_queues out) \<and>
    set (po_queues out) = {q. \<exists>k a. (k, a, q) \<in> bound x \<and> hits k a m}"
proof -
  note g = good_simps [OF good]
  obtain indices qs where r: "route x m = Some (Inr (x\<lparr>ex_indices := indices\<rparr>, qs))"
    "inv (x\<lparr>ex_indices := indices\<rparr>)" "distinct qs" "set qs = (\<Union>p\<in>hit_bindings hits x m. set (queues_at x p))"
    using route_ok [OF g(4,2) acc room] by blast
  let ?y = "x\<lparr>ex_indices := indices\<rparr>"
  have ok: "ex_ok qn ?y" using g(1) by (simp add: ex_ok_def ex_base_def ex_wf_def queue_list_def)
  have gy: "good qn ?y" using ok r(2) g(5) by (simp add: good_def)
  have stats: "good qn (?y\<lparr>ex_contents_in := a, ex_contents_out := b, ex_traffic_in := c, ex_traffic_out := d\<rparr>)" for a b c d
    by (rule good_frame [OF gy])
      (use ok in \<open>simp_all add: ex_ok_def ex_base_def ex_wf_def queue_list_def same_routing_def\<close>)
  have bd: "bound (?y\<lparr>ex_contents_in := a, ex_contents_out := b, ex_traffic_in := c, ex_traffic_out := d\<rparr>) = bound x" for a b c d
    by (simp add: bound_def)
  have "set qs = {q. \<exists>k a. (k, a, q) \<in> bound x \<and> hits k a m}"
    unfolding r(4) by (auto simp: bound_def hit_bindings_def)
  with r(1,3) stats bd fed show ?thesis
    by (auto simp: amq_exchange_publish_def Let_def)
qed

abbreviation admissible :: "(nat \<Rightarrow> string) \<Rightarrow> command \<Rightarrow> amq_exchange \<Rightarrow> bool" where
  "admissible qn \<equiv> command_ok qn kind admits accepts hits"

lemma exec_refines:
  assumes good: "good qn x" and inj: "inj qn" and ok: "admissible qn cmd x"
  shows "\<exists>y out. exec compile unbind route cmd x = Some (Inr (y, out)) \<and> good qn y \<and>
    bound y = spec_step kind cmd (bound x) \<and> distinct out \<and> set out = spec_output hits cmd (bound x)"
proof (cases cmd)
  case (Bind new channel queue key args)
  with bind_refines [OF good inj, of new queue key args channel] ok show ?thesis
    by (auto simp: exec_def spec_step_def spec_output_def command_ok_def)
next
  case (Unbind queue key args)
  with unbind_refines [OF good inj, of queue key args] ok show ?thesis
    by (auto simp: exec_def spec_step_def spec_output_def command_ok_def)
next
  case (Drop queue)
  with drop_refines [OF good inj, of queue] ok show ?thesis
    by (auto simp: exec_def spec_step_def spec_output_def command_ok_def)
next
  case (Publish channel mandatory content)
  with publish_refines [OF good, of content channel mandatory] ok show ?thesis
    by (auto simp: exec_def spec_step_def spec_output_def command_ok_def)
qed

lemma reach_refines:
  assumes "ex_reach compile unbind route (admissible qn) kind fed x B" and "inj qn"
  shows "good qn x \<and> bound x = B"
  using assms(1)
proof induction
  case reach_new
  show ?case using inv_new ex_ok_new by (simp add: good_def) (simp add: amq_exchange_new_def)
next
  case (reach_step x B cmd y out)
  from exec_refines [OF conjunct1 [OF reach_step.IH] assms(2) reach_step.hyps(2)] reach_step
  show ?case by auto
qed

text \<open>
  Every admissible operation of a reachable exchange succeeds, and its effect and output are those of
  the specification.
\<close>

lemma exchange_refines:
  assumes "ex_reach compile unbind route (admissible qn) kind fed x B" and "inj qn" and "admissible qn cmd x"
  shows "\<exists>y out. exec compile unbind route cmd x = Some (Inr (y, out)) \<and>
    ex_reach compile unbind route (admissible qn) kind fed y (spec_step kind cmd B) \<and>
    bound y = spec_step kind cmd B \<and> distinct out \<and> set out = spec_output hits cmd B"
proof -
  have x: "good qn x" "bound x = B" using reach_refines [OF assms(1,2)] by auto
  from exec_refines [OF x(1) assms(2,3)] obtain y out where
    y: "exec compile unbind route cmd x = Some (Inr (y, out))" "bound y = spec_step kind cmd B"
      "distinct out" "set out = spec_output hits cmd B" unfolding x(2) by blast
  with ex_reach.reach_step [OF assms(1,3) y(1)] show ?thesis by blast
qed

end

end
