(* ===== verification/Amq_Exchange_Kinds.thy ===== *)
theory Amq_Exchange_Kinds
  imports Amq_Exchange_Spec
begin

text \<open>
  The exchange implementations meet the contract \<open>exchange_kind\<close>: the direct, fanout, topic, regexp and
  headers exchanges are its interpretations.
\<close>

section \<open>Direct and fanout exchanges\<close>

lemma table_fields_empty: "table_fields [] = Some (Inr (Some []))"
  by (rule void_tables(3))

definition no_arguments :: "amq_exchange \<Rightarrow> bool" where
  "no_arguments x \<longleftrightarrow> (\<forall>p\<in>set (ex_binding_list x). args_at x p = [])"

definition key_hits :: "string \<Rightarrow> byte list \<Rightarrow> amq_content \<Rightarrow> bool" where
  "key_hits k a m \<longleftrightarrow> k = ct_routing_key m"

definition plain_admits :: "amq_exchange \<Rightarrow> string \<Rightarrow> byte list \<Rightarrow> bool" where
  "plain_admits x k a \<longleftrightarrow> a = []"

lemma no_arguments_frame: "no_arguments x \<Longrightarrow> ex_wf x \<Longrightarrow> same_routing x y \<Longrightarrow> no_arguments y"
proof -
  assume x: "no_arguments x" "ex_wf x" "same_routing x y"
  then have "ex_binding_list y = ex_binding_list x" by (simp add: same_routing_def)
  with x show ?thesis
    using same_routing_at [OF x(3)] ex_wf_store [OF x(2)] by (fastforce simp: no_arguments_def)
qed

lemma collect_within:
  "length (bn_queue_set b) \<le> AMQ_QUEUE_SET_MAX \<Longrightarrow> amq_binding_collect b [] = bn_queue_set b"
  by (simp add: amq_binding_collect_def collect_loop_take)

lemma deliver_within:
  assumes "distinct qs" and "0 \<notin> set qs"
  shows "distinct (exchange_deliver qs)" and "set (exchange_deliver qs) = set qs"
  using exchange_deliver_set [OF assms(2)] by auto

lemma direct_unbind_gone:
  assumes "ex_base x" and "no_arguments x" and p: "p \<in> set (ex_binding_list x)"
  shows "\<exists>y. amq_exchange_direct_unbind x p = Inr y \<and> no_arguments y \<and> gone x p y"
proof -
  have wf: "ex_wf x" using assms(1) by (simp add: ex_base_def)
  obtain b where b: "ex_bindings x p = Some b" "0 < bn_index b" "bn_index b < BITS_CAP" "p \<noteq> 0"
    "ix_data (ex_binding_index x) (bn_index b) = p" by (rule ex_wf_bindingE [OF wf p])
  have ix: "ix_inv (ex_binding_index x)" using wf by (simp add: ex_wf_def)
  have "bn_index b < IPR_INDEX_MAX" using cap_bits [OF b(3)] by (simp add: IPR_INDEX_MAX_def)
  then obtain ix' where ix': "ipr_index_delete (ex_binding_index x) (bn_index b) = Inr ix'"
    using b(2) by (simp add: ipr_index_delete_def)
  have data: "ix_inv ix'" "ix_data ix' = (ix_data (ex_binding_index x))(bn_index b := 0)"
    using index_delete_inv [OF ix ix'] b(4,5) by auto
  let ?y = "x\<lparr>ex_binding_hash := (ex_binding_hash x)(key_at x p := None), ex_binding_index := ix',
      ex_bindings := (ex_bindings x)(p := None), ex_binding_list := remove1 p (ex_binding_list x)\<rparr>"
  have "amq_exchange_direct_unbind x p = Inr ?y"
    using b(1) ix' by (simp add: amq_exchange_direct_unbind_def amq_binding_destroy_def)
  moreover have "gone x p ?y"
    using assms(1,2) p data b(1) by (auto simp: gone_def ex_base_def inj_on_def no_arguments_def)
  moreover have "no_arguments ?y"
    using assms(2) wf by (auto simp: no_arguments_def ex_wf_def)
  ultimately show ?thesis by blast
qed

lemma hash_binding:
  assumes "ex_base x" and "no_arguments x"
  shows "ex_binding_hash x k = Some p \<longleftrightarrow> p \<in> set (ex_binding_list x) \<and> key_at x p = k"
proof
  assume p: "p \<in> set (ex_binding_list x) \<and> key_at x p = k"
  then obtain r where r: "ex_binding_hash x k = Some r" using assms(1) by (auto simp: ex_base_def)
  then have "r \<in> set (ex_binding_list x)" "key_at x r = k" using assms(1) by (auto simp: ex_base_def)
  with p assms have "r = p" by (auto simp: ex_base_def inj_on_def no_arguments_def)
  with r show "ex_binding_hash x k = Some p" by simp
qed (use assms(1) in \<open>auto simp: ex_base_def\<close>)

lemma direct_publish_ok:
  assumes base: "ex_base x" and args: "no_arguments x" and k: "k = ct_routing_key m"
    and room: "(\<Sum>p\<in>hit_bindings key_hits x m. length (queues_at x p)) \<le> AMQ_QUEUE_SET_MAX"
  shows "\<exists>qs. amq_exchange_direct_publish x k = Inr qs \<and> distinct qs \<and>
    set qs = (\<Union>p\<in>hit_bindings key_hits x m. set (queues_at x p))"
proof (cases "ex_binding_hash x k")
  case None
  then have "hit_bindings key_hits x m = {}"
    using hash_binding [OF base args, of k] k by (auto simp: hit_bindings_def key_hits_def)
  with None show ?thesis by (simp add: amq_exchange_direct_publish_def exchange_deliver_def)
next
  case (Some p)
  then have "r \<in> set (ex_binding_list x) \<and> key_at x r = ct_routing_key m \<longleftrightarrow> r = p" for r
    using hash_binding [OF base args, of k r] k by auto
  then have H: "hit_bindings key_hits x m = {p}" by (auto simp: hit_bindings_def key_hits_def)
  have p: "p \<in> set (ex_binding_list x)" using Some base by (auto simp: ex_base_def)
  then obtain b where b: "ex_bindings x p = Some b" using ex_wf_store [of x] base by (auto simp: ex_base_def)
  have "distinct (bn_queue_set b)" "0 \<notin> set (bn_queue_set b)" using base p b by (auto simp: ex_base_def)
  from deliver_within [OF this] Some b H room show ?thesis
    by (simp add: amq_exchange_direct_publish_def collect_within)
qed

interpretation direct: exchange_kind AMQ_EXCHANGE_DIRECT
    "exchange_compile env AMQ_EXCHANGE_DIRECT" "exchange_unbind AMQ_EXCHANGE_DIRECT"
    "exchange_publish_fn env AMQ_EXCHANGE_DIRECT" no_arguments plain_admits "\<lambda>_ _. True" key_hits
  for env
proof
  show "no_arguments (amq_exchange_new AMQ_EXCHANGE_DIRECT fed)" for fed
    by (simp add: no_arguments_def amq_exchange_new_def)
  show "no_arguments x \<Longrightarrow> ex_wf x \<Longrightarrow> same_routing x y \<Longrightarrow> no_arguments y" for x y
    by (rule no_arguments_frame)
  show "plain_admits x key args \<Longrightarrow> \<exists>fs. table_fields args = Some (Inr (Some fs))" for x key args
    by (simp add: plain_admits_def table_fields_empty)
  show "\<exists>b' indices. exchange_compile env AMQ_EXCHANGE_DIRECT
        (x\<lparr>ex_binding_index := ix, ex_bindings := (ex_bindings x)(p \<mapsto> b)\<rparr>) p =
        Some (Inr (x\<lparr>ex_binding_index := ix, ex_bindings := (ex_bindings x)(p \<mapsto> b'), ex_indices := indices\<rparr>, 0)) \<and>
      same_binding b b' \<and> no_arguments (add_binding x p b' ix indices)"
    if "no_arguments x" "fresh_binding x p b ix" "plain_admits x (bn_routing_key b) (bn_arguments b)" for x p b ix
    using that
    by (intro exI [of _ b] exI [of _ "ex_indices x"])
      (auto simp: exchange_compile_def same_binding_def no_arguments_def add_binding_def plain_admits_def
        fresh_binding_def)
  show "\<exists>y. exchange_unbind AMQ_EXCHANGE_DIRECT x p = Inr y \<and> no_arguments y \<and> (y = x \<or> gone x p y)"
    if "no_arguments x" "ex_base x" "p \<in> set (ex_binding_list x)" for x p
    using direct_unbind_gone [OF that(2,1,3)] by (auto simp: exchange_unbind_def)
  show "\<exists>indices qs. exchange_publish_fn env AMQ_EXCHANGE_DIRECT x m = Some (Inr (x\<lparr>ex_indices := indices\<rparr>, qs)) \<and>
      no_arguments (x\<lparr>ex_indices := indices\<rparr>) \<and> distinct qs \<and>
      set qs = (\<Union>p\<in>hit_bindings key_hits x m. set (queues_at x p))"
    if "no_arguments x" "ex_base x"
      "(\<Sum>p\<in>hit_bindings key_hits x m. length (queues_at x p)) \<le> AMQ_QUEUE_SET_MAX" for x m
    using direct_publish_ok [OF that(2,1) refl that(3)] that(1)
    by (intro exI [of _ "ex_indices x"]) (auto simp: exchange_publish_fn_def)
qed (simp_all add: plain_admits_def)

definition fanout_inv :: "amq_exchange \<Rightarrow> bool" where
  "fanout_inv x \<longleftrightarrow> no_arguments x \<and> (\<forall>p\<in>set (ex_binding_list x). key_at x p = [])"

definition fanout_admits :: "amq_exchange \<Rightarrow> string \<Rightarrow> byte list \<Rightarrow> bool" where
  "fanout_admits x k a \<longleftrightarrow> k = [] \<and> a = []"

definition all_hits :: "string \<Rightarrow> byte list \<Rightarrow> amq_content \<Rightarrow> bool" where
  "all_hits k a m \<longleftrightarrow> True"

lemma fanout_inv_frame: "fanout_inv x \<Longrightarrow> ex_wf x \<Longrightarrow> same_routing x y \<Longrightarrow> fanout_inv y"
proof -
  assume x: "fanout_inv x" "ex_wf x" "same_routing x y"
  then have "ex_binding_list y = ex_binding_list x" "no_arguments y"
    using no_arguments_frame by (auto simp: same_routing_def fanout_inv_def)
  with x show ?thesis
    using same_routing_at [OF x(3)] ex_wf_store [OF x(2)] by (fastforce simp: fanout_inv_def)
qed

lemma fanout_publish_ok:
  assumes base: "ex_base x" and inv: "fanout_inv x"
    and room: "(\<Sum>p\<in>hit_bindings all_hits x m. length (queues_at x p)) \<le> AMQ_QUEUE_SET_MAX"
  shows "\<exists>qs. amq_exchange_fanout_publish x = Inr qs \<and> distinct qs \<and>
    set qs = (\<Union>p\<in>hit_bindings all_hits x m. set (queues_at x p))"
proof (cases "ex_binding_list x")
  case Nil
  then show ?thesis by (simp add: amq_exchange_fanout_publish_def exchange_deliver_def hit_bindings_def)
next
  case (Cons p ps)
  then have "r = p" if "r \<in> set (ex_binding_list x)" for r
    using that base inv by (auto simp: ex_base_def inj_on_def fanout_inv_def no_arguments_def)
  then have H: "hit_bindings all_hits x m = {p}" using Cons by (auto simp: hit_bindings_def all_hits_def)
  have p: "p \<in> set (ex_binding_list x)" using Cons by simp
  then obtain b where b: "ex_bindings x p = Some b" using ex_wf_store [of x] base by (auto simp: ex_base_def)
  have "distinct (bn_queue_set b)" "0 \<notin> set (bn_queue_set b)" using base p b by (auto simp: ex_base_def)
  from deliver_within [OF this] Cons b H room show ?thesis
    by (simp add: amq_exchange_fanout_publish_def collect_within)
qed

interpretation fanout: exchange_kind AMQ_EXCHANGE_FANOUT
    "exchange_compile env AMQ_EXCHANGE_FANOUT" "exchange_unbind AMQ_EXCHANGE_FANOUT"
    "exchange_publish_fn env AMQ_EXCHANGE_FANOUT" fanout_inv fanout_admits "\<lambda>_ _. True" all_hits
  for env
proof
  show "fanout_inv (amq_exchange_new AMQ_EXCHANGE_FANOUT fed)" for fed
    by (simp add: fanout_inv_def no_arguments_def amq_exchange_new_def)
  show "fanout_inv x \<Longrightarrow> ex_wf x \<Longrightarrow> same_routing x y \<Longrightarrow> fanout_inv y" for x y
    by (rule fanout_inv_frame)
  show "fanout_admits x key args \<Longrightarrow> \<exists>fs. table_fields args = Some (Inr (Some fs))" for x key args
    by (simp add: fanout_admits_def table_fields_empty)
  show "\<exists>b' indices. exchange_compile env AMQ_EXCHANGE_FANOUT
        (x\<lparr>ex_binding_index := ix, ex_bindings := (ex_bindings x)(p \<mapsto> b)\<rparr>) p =
        Some (Inr (x\<lparr>ex_binding_index := ix, ex_bindings := (ex_bindings x)(p \<mapsto> b'), ex_indices := indices\<rparr>, 0)) \<and>
      same_binding b b' \<and> fanout_inv (add_binding x p b' ix indices)"
    if "fanout_inv x" "fresh_binding x p b ix" "fanout_admits x (bn_routing_key b) (bn_arguments b)" for x p b ix
    using that
    by (intro exI [of _ b] exI [of _ "ex_indices x"])
      (auto simp: exchange_compile_def same_binding_def no_arguments_def fanout_inv_def add_binding_def
        fanout_admits_def fresh_binding_def)
  show "\<exists>indices qs. exchange_publish_fn env AMQ_EXCHANGE_FANOUT x m = Some (Inr (x\<lparr>ex_indices := indices\<rparr>, qs)) \<and>
      fanout_inv (x\<lparr>ex_indices := indices\<rparr>) \<and> distinct qs \<and>
      set qs = (\<Union>p\<in>hit_bindings all_hits x m. set (queues_at x p))"
    if "fanout_inv x" "ex_base x"
      "(\<Sum>p\<in>hit_bindings all_hits x m. length (queues_at x p)) \<le> AMQ_QUEUE_SET_MAX" for x m
    using fanout_publish_ok [OF that(2,1,3)] that(1)
    by (intro exI [of _ "ex_indices x"]) (auto simp: exchange_publish_fn_def)
qed (simp_all add: fanout_admits_def exchange_unbind_def)

section \<open>Topic exchanges\<close>

text \<open>
  The matching relation on routing keys: a wildcard pattern by its regular expression, any other
  literally.  The empty routing key of a message stands for a space.
\<close>

definition message_key :: "amq_content \<Rightarrow> string" where
  "message_key m = (if ct_routing_key m = [] then '' '' else ct_routing_key m)"

definition topic_hits :: "(string \<Rightarrow> string \<Rightarrow> bool) \<Rightarrow> string \<Rightarrow> byte list \<Rightarrow> amq_content \<Rightarrow> bool" where
  "topic_hits re k a m \<longleftrightarrow>
     (case s_topic_to_regexp k of
        Inl _ \<Rightarrow> False
      | Inr (is_wildcard, regexp) \<Rightarrow> if is_wildcard then re regexp (message_key m) else k = message_key m)"

definition topic_state :: "(string \<Rightarrow> string \<Rightarrow> bool) \<Rightarrow> amq_exchange \<Rightarrow> bool" where
  "topic_state re x \<longleftrightarrow> topic_inv re x \<and>
     (\<forall>p\<in>set (ex_binding_list x). s_topic_to_regexp (key_at x p) =
        Inr (bn_is_wildcard (binding_at x p), bn_regexp (binding_at x p)))"

text \<open>
  A key is admitted when its pattern fits the buffer and, for a key without wildcards, when the
  exchange has seen the key before or no wildcard binding matches it.
\<close>

definition topic_admits :: "(string \<Rightarrow> string \<Rightarrow> bool) \<Rightarrow> amq_exchange \<Rightarrow> string \<Rightarrow> byte list \<Rightarrow> bool" where
  "topic_admits re x k a \<longleftrightarrow> (\<exists>fs. table_fields a = Some (Inr (Some fs))) \<and>
     (\<exists>w r. s_topic_to_regexp k = Inr (w, r) \<and>
        (w \<or> amq_index_search (ex_indices x) k \<noteq> None \<or> index_hits (topic_matches re) x k = {}))"

lemma index_hits_frame:
  assumes "ex_wf x" and "same_routing x y"
    and M: "\<And>b c. b\<lparr>bn_queue_set := []\<rparr> = c\<lparr>bn_queue_set := []\<rparr> \<Longrightarrow> M b key = M c key"
  shows "index_hits M y key = index_hits M x key"
    and "(\<lambda>p. bn_index (binding_at y p)) ` index_hits M y key = (\<lambda>p. bn_index (binding_at x p)) ` index_hits M x key"
proof -
  have at: "(binding_at y p)\<lparr>bn_queue_set := []\<rparr> = (binding_at x p)\<lparr>bn_queue_set := []\<rparr>"
    if "p \<in> set (ex_binding_list x)" for p
  proof -
    have "map_option (\<lambda>b. b\<lparr>bn_queue_set := []\<rparr>) (ex_bindings y p) =
        map_option (\<lambda>b. b\<lparr>bn_queue_set := []\<rparr>) (ex_bindings x p)" using assms(2) by (simp add: same_routing_def)
    with ex_wf_store [OF assms(1)] that show ?thesis by (cases "ex_bindings y p") auto
  qed
  have list: "ex_binding_list y = ex_binding_list x" using assms(2) by (simp add: same_routing_def)
  have "M (binding_at y p) key = M (binding_at x p) key" if "p \<in> set (ex_binding_list x)" for p
    by (rule M [OF at [OF that]])
  then show hits: "index_hits M y key = index_hits M x key" by (auto simp: index_hits_def list)
  show "(\<lambda>p. bn_index (binding_at y p)) ` index_hits M y key = (\<lambda>p. bn_index (binding_at x p)) ` index_hits M x key"
    unfolding hits using at by (intro image_cong) (auto simp: index_hits_def no_queues_eq)
qed

lemma cache_inv_frame:
  assumes inv: "cache_inv M x" and same: "same_routing x y"
    and M: "\<And>b c key. b\<lparr>bn_queue_set := []\<rparr> = c\<lparr>bn_queue_set := []\<rparr> \<Longrightarrow> M b key = M c key"
  shows "cache_inv M y"
proof -
  have wf: "ex_wf x" using inv by (simp add: cache_inv_def)
  have ind: "ex_indices y = ex_indices x" using same by (simp add: same_routing_def)
  have hits: "(\<lambda>p. bn_index (binding_at y p)) ` index_hits M y key =
      (\<lambda>p. bn_index (binding_at x p)) ` index_hits M x key" for key
    by (rule index_hits_frame(2) [OF wf same]) (rule M)
  show ?thesis using inv same_routing_wf [OF wf same] by (simp add: cache_inv_def ind hits)
qed

lemma topic_matches_frame: "b\<lparr>bn_queue_set := []\<rparr> = c\<lparr>bn_queue_set := []\<rparr> \<Longrightarrow> topic_matches re b key = topic_matches re c key"
  by (simp add: no_queues_eq topic_matches_def)

lemma topic_state_frame: "topic_state re x \<Longrightarrow> same_routing x y \<Longrightarrow> topic_state re y"
proof -
  assume x: "topic_state re x" and same: "same_routing x y"
  have ci: "cache_inv (topic_matches re) x" and wf: "ex_wf x"
    using x by (auto simp: topic_state_def topic_inv_def cache_inv_def)
  have y: "ex_binding_list y = ex_binding_list x" "ex_indices y = ex_indices x"
    using same by (auto simp: same_routing_def)
  have at: "key_at y p = key_at x p \<and> bn_is_wildcard (binding_at y p) = bn_is_wildcard (binding_at x p) \<and>
      bn_regexp (binding_at y p) = bn_regexp (binding_at x p)" if "p \<in> set (ex_binding_list x)" for p
    using same_routing_at [OF same] ex_wf_store [OF wf] that by fastforce
  show ?thesis
    using x at cache_inv_frame [OF ci same topic_matches_frame]
    unfolding topic_state_def topic_inv_def y by simp
qed

lemma topic_admits_frame:
  "topic_admits re x k a \<Longrightarrow> ex_wf x \<Longrightarrow> same_routing x y \<Longrightarrow> topic_admits re y k a"
  using index_hits_frame(1) [of x y "topic_matches re" k, OF _ _ topic_matches_frame]
  by (auto simp: topic_admits_def same_routing_def)

lemma topic_compile_ok:
  assumes st: "topic_state re x" and fresh: "fresh_binding x p b ix"
    and adm: "topic_admits re x (bn_routing_key b) (bn_arguments b)"
  shows "\<exists>b' indices. amq_exchange_topic_compile re
      (x\<lparr>ex_binding_index := ix, ex_bindings := (ex_bindings x)(p \<mapsto> b)\<rparr>) p =
        Inr (x\<lparr>ex_binding_index := ix, ex_bindings := (ex_bindings x)(p \<mapsto> b'), ex_indices := indices\<rparr>) \<and>
    same_binding b b' \<and> topic_state re (add_binding x p b' ix indices)"
proof -
  have inv: "topic_inv re x" using st by (simp add: topic_state_def)
  obtain w r where wr: "s_topic_to_regexp (bn_routing_key b) = Inr (w, r)"
    and ok: "w \<or> amq_index_search (ex_indices x) (bn_routing_key b) \<noteq> None \<or>
      index_hits (topic_matches re) x (bn_routing_key b) = {}"
    using adm by (auto simp: topic_admits_def)
  let ?b = "b\<lparr>bn_is_wildcard := w, bn_regexp := r\<rparr>"
  have "\<exists>indices. amq_exchange_topic_compile re
      (x\<lparr>ex_binding_index := ix, ex_bindings := (ex_bindings x)(p \<mapsto> b)\<rparr>) p =
        Inr (x\<lparr>ex_binding_index := ix, ex_bindings := (ex_bindings x)(p \<mapsto> ?b), ex_indices := indices\<rparr>) \<and>
    topic_inv re (add_binding x p ?b ix indices)"
  proof (cases w)
    case True
    with topic_compile_wildcard [OF inv fresh _ refl, of r] wr show ?thesis by simp
  next
    case False
    with topic_compile_exact [OF inv fresh _ refl, of r] wr ok show ?thesis by simp
  qed
  moreover have "topic_state re (add_binding x p ?b ix indices)"
    if "topic_inv re (add_binding x p ?b ix indices)" for indices
    using that st wr fresh by (auto simp: topic_state_def add_binding_def fresh_binding_def)
  moreover have "same_binding b ?b" by (simp add: same_binding_def)
  ultimately show ?thesis by blast
qed

lemma topic_hit_bindings:
  assumes "topic_state re x"
  shows "hit_bindings (topic_hits re) x m = index_hits (topic_matches re) x (message_key m)"
  using assms by (auto simp: hit_bindings_def index_hits_def topic_hits_def topic_matches_def topic_state_def)

interpretation topic: exchange_kind AMQ_EXCHANGE_TOPIC
    "exchange_compile env AMQ_EXCHANGE_TOPIC" "exchange_unbind AMQ_EXCHANGE_TOPIC"
    "exchange_publish_fn env AMQ_EXCHANGE_TOPIC" "topic_state (env_re env)" "topic_admits (env_re env)"
    "\<lambda>_ _. True" "topic_hits (env_re env)"
  for env
proof
  show "topic_state (env_re env) (amq_exchange_new AMQ_EXCHANGE_TOPIC fed)" for fed
    by (simp add: topic_state_def topic_inv_new) (simp add: amq_exchange_new_def)
  show "topic_state (env_re env) x \<Longrightarrow> same_routing x y \<Longrightarrow> topic_state (env_re env) y" for x y
    by (rule topic_state_frame)
  show "topic_admits (env_re env) x key args \<Longrightarrow> ex_wf x \<Longrightarrow> same_routing x y \<Longrightarrow>
      topic_admits (env_re env) y key args" for x y key args
    by (rule topic_admits_frame)
  show "topic_admits (env_re env) x key args \<Longrightarrow> \<exists>fs. table_fields args = Some (Inr (Some fs))" for x key args
    by (simp add: topic_admits_def)
  show "\<exists>b' indices. exchange_compile env AMQ_EXCHANGE_TOPIC
        (x\<lparr>ex_binding_index := ix, ex_bindings := (ex_bindings x)(p \<mapsto> b)\<rparr>) p =
        Some (Inr (x\<lparr>ex_binding_index := ix, ex_bindings := (ex_bindings x)(p \<mapsto> b'), ex_indices := indices\<rparr>, 0)) \<and>
      same_binding b b' \<and> topic_state (env_re env) (add_binding x p b' ix indices)"
    if "topic_state (env_re env) x" "fresh_binding x p b ix"
      "topic_admits (env_re env) x (bn_routing_key b) (bn_arguments b)" for x p b ix
  proof -
    from topic_compile_ok [OF that] obtain b' indices where "amq_exchange_topic_compile (env_re env)
        (x\<lparr>ex_binding_index := ix, ex_bindings := (ex_bindings x)(p \<mapsto> b)\<rparr>) p =
          Inr (x\<lparr>ex_binding_index := ix, ex_bindings := (ex_bindings x)(p \<mapsto> b'), ex_indices := indices\<rparr>)"
      "same_binding b b'" "topic_state (env_re env) (add_binding x p b' ix indices)" by blast
    then show ?thesis by (intro exI [of _ b'] exI [of _ indices]) (simp add: exchange_compile_def)
  qed
  show "\<exists>indices qs. exchange_publish_fn env AMQ_EXCHANGE_TOPIC x m = Some (Inr (x\<lparr>ex_indices := indices\<rparr>, qs)) \<and>
      topic_state (env_re env) (x\<lparr>ex_indices := indices\<rparr>) \<and> distinct qs \<and>
      set qs = (\<Union>p\<in>hit_bindings (topic_hits (env_re env)) x m. set (queues_at x p))"
    if x: "topic_state (env_re env) x" "ex_base x" and room:
      "(\<Sum>p\<in>hit_bindings (topic_hits (env_re env)) x m. length (queues_at x p)) \<le> AMQ_QUEUE_SET_MAX" for x m
  proof -
    have inv: "topic_inv (env_re env) x" using x(1) by (simp add: topic_state_def)
    have zero: "\<forall>p\<in>set (ex_binding_list x). 0 \<notin> set (queues_at x p)" using x(2) by (simp add: ex_base_def)
    from topic_publish_ok [OF inv zero message_key_def] room show ?thesis
      unfolding topic_hit_bindings [OF x(1)] using x(1) by (fastforce simp: exchange_publish_fn_def topic_state_def)
  qed
qed (simp_all add: exchange_unbind_def)

section \<open>Regexp exchanges\<close>

definition decodes :: "amq_exchange \<Rightarrow> string \<Rightarrow> byte list \<Rightarrow> bool" where
  "decodes x k a \<longleftrightarrow> (\<exists>fs. table_fields a = Some (Inr (Some fs)))"

definition regexp_hits :: "(string \<Rightarrow> string \<Rightarrow> bool) \<Rightarrow> string \<Rightarrow> byte list \<Rightarrow> amq_content \<Rightarrow> bool" where
  "regexp_hits re k a m \<longleftrightarrow> re k (ct_routing_key m)"

interpretation regexp: exchange_kind AMQ_EXCHANGE_REGEXP
    "exchange_compile env AMQ_EXCHANGE_REGEXP" "exchange_unbind AMQ_EXCHANGE_REGEXP"
    "exchange_publish_fn env AMQ_EXCHANGE_REGEXP" "cache_inv (regexp_matches (env_re env))" decodes
    "\<lambda>_ _. True" "regexp_hits (env_re env)"
  for env
proof
  show "cache_inv (regexp_matches (env_re env)) (amq_exchange_new AMQ_EXCHANGE_REGEXP fed)" for fed
    by (rule cache_inv_new)
  show "cache_inv (regexp_matches (env_re env)) x \<Longrightarrow> same_routing x y \<Longrightarrow>
      cache_inv (regexp_matches (env_re env)) y" for x y
    by (erule cache_inv_frame) (simp_all add: regexp_matches_def no_queues_eq)
  show "\<exists>b' indices. exchange_compile env AMQ_EXCHANGE_REGEXP
        (x\<lparr>ex_binding_index := ix, ex_bindings := (ex_bindings x)(p \<mapsto> b)\<rparr>) p =
        Some (Inr (x\<lparr>ex_binding_index := ix, ex_bindings := (ex_bindings x)(p \<mapsto> b'), ex_indices := indices\<rparr>, 0)) \<and>
      same_binding b b' \<and> cache_inv (regexp_matches (env_re env)) (add_binding x p b' ix indices)"
    if "cache_inv (regexp_matches (env_re env)) x" "fresh_binding x p b ix" for x p b ix
    using regexp_compile_ok [OF that]
    by (intro exI [of _ b]) (auto simp: exchange_compile_def same_binding_def simp del: fun_upd_apply)
  show "\<exists>indices qs. exchange_publish_fn env AMQ_EXCHANGE_REGEXP x m = Some (Inr (x\<lparr>ex_indices := indices\<rparr>, qs)) \<and>
      cache_inv (regexp_matches (env_re env)) (x\<lparr>ex_indices := indices\<rparr>) \<and> distinct qs \<and>
      set qs = (\<Union>p\<in>hit_bindings (regexp_hits (env_re env)) x m. set (queues_at x p))"
    if x: "cache_inv (regexp_matches (env_re env)) x" "ex_base x" and room:
      "(\<Sum>p\<in>hit_bindings (regexp_hits (env_re env)) x m. length (queues_at x p)) \<le> AMQ_QUEUE_SET_MAX" for x m
  proof -
    have H: "hit_bindings (regexp_hits (env_re env)) x m =
        index_hits (regexp_matches (env_re env)) x (ct_routing_key m)"
      by (simp add: hit_bindings_def index_hits_def regexp_hits_def regexp_matches_def)
    have zero: "\<forall>p\<in>set (ex_binding_list x). 0 \<notin> set (queues_at x p)" using x(2) by (simp add: ex_base_def)
    from regexp_publish_ok [OF x(1) zero] room show ?thesis
      unfolding H by (auto simp: exchange_publish_fn_def)
  qed
qed (simp_all add: exchange_unbind_def decodes_def)

section \<open>Headers exchanges\<close>

text \<open>
  What the arguments of a binding ask for: keys, and whether all of them must be met.  A message meets
  the keys of its header fields.  Arguments and messages are considered whose keys are distinct.
\<close>

definition asked_keys :: "exchange_env \<Rightarrow> byte list \<Rightarrow> string list c_result" where
  "asked_keys env a =
     (case table_fields a of
        Some (Inr (Some fs)) \<Rightarrow>
          c_bind (argument_keys (env_junk env) (env_fmt env) fs) (\<lambda>ks. Inr (if ks = [] then [MATCH_ALL_KEY] else ks))
      | _ \<Rightarrow> Inl Assert_Failed)"

definition asks_all :: "exchange_env \<Rightarrow> byte list \<Rightarrow> bool" where
  "asks_all env a \<longleftrightarrow>
     (case table_fields a of
        Some (Inr (Some fs)) \<Rightarrow> \<not> list_ex (asks_any (env_junk env) (env_fmt env)) fs
      | _ \<Rightarrow> False)"

definition header_keys :: "exchange_env \<Rightarrow> byte list \<Rightarrow> string list c_result" where
  "header_keys env h =
     (case table_fields h of
        Some (Inr (Some fs)) \<Rightarrow> message_keys (env_junk env) (env_fmt env) fs
      | _ \<Rightarrow> Inl Assert_Failed)"

definition headers_hits :: "exchange_env \<Rightarrow> string \<Rightarrow> byte list \<Rightarrow> amq_content \<Rightarrow> bool" where
  "headers_hits env k a m \<longleftrightarrow>
     (case (asked_keys env a, header_keys env (ct_headers m)) of
        (Inr asked, Inr keys) \<Rightarrow>
          if asks_all env a then set asked \<subseteq> set keys else set asked \<inter> set keys \<noteq> {}
      | _ \<Rightarrow> False)"

definition headers_admits :: "exchange_env \<Rightarrow> amq_exchange \<Rightarrow> string \<Rightarrow> byte list \<Rightarrow> bool" where
  "headers_admits env x k a \<longleftrightarrow> (\<exists>ks. asked_keys env a = Inr ks \<and> distinct ks)"

definition headers_accepts :: "exchange_env \<Rightarrow> amq_exchange \<Rightarrow> amq_content \<Rightarrow> bool" where
  "headers_accepts env x m \<longleftrightarrow> (\<exists>ks. header_keys env (ct_headers m) = Inr ks \<and> distinct ks)"

definition headers_state :: "exchange_env \<Rightarrow> amq_exchange \<Rightarrow> bool" where
  "headers_state env x \<longleftrightarrow> headers_inv (env_junk env) (env_fmt env) x \<and>
     (\<forall>p\<in>set (ex_binding_list x). headers_admits env x (key_at x p) (args_at x p) \<and>
        bn_match_all (binding_at x p) = asks_all env (args_at x p))"

lemma asked_fields:
  assumes "asked_keys env a = Inr keys"
  obtains fs ks where "table_fields a = Some (Inr (Some fs))"
    "argument_keys (env_junk env) (env_fmt env) fs = Inr ks" "keys = (if ks = [] then [MATCH_ALL_KEY] else ks)"
  using assms by (auto simp: asked_keys_def c_bind_Inr_iff split: option.splits sum.splits)

lemma asked_binding_keys:
  "asked_keys env (bn_arguments b) = Inr keys \<Longrightarrow> binding_keys (env_junk env) (env_fmt env) b = keys"
  by (erule asked_fields) (simp add: binding_keys_def)

lemma headers_state_frame:
  assumes x: "headers_state env x" and same: "same_routing x y"
  shows "headers_state env y"
proof -
  let ?k = "binding_keys (env_junk env) (env_fmt env)"
  have wf: "ex_wf x" and ci: "cache_inv (headers_indexed (env_junk env) (env_fmt env)) x"
    using x by (auto simp: headers_state_def headers_inv_def cache_inv_def)
  have y: "ex_binding_list y = ex_binding_list x" "ex_indices y = ex_indices x" "ex_binding_index y = ex_binding_index x"
    using same by (auto simp: same_routing_def)
  have at: "args_at y p = args_at x p \<and> bn_index (binding_at y p) = bn_index (binding_at x p) \<and>
      bn_field_count (binding_at y p) = bn_field_count (binding_at x p) \<and>
      bn_match_all (binding_at y p) = bn_match_all (binding_at x p)" if "p \<in> set (ex_binding_list x)" for p
    using same_routing_at [OF same] ex_wf_store [OF wf] that by fastforce
  have keys: "?k (binding_at y p) = ?k (binding_at x p)" if "p \<in> set (ex_binding_list x)" for p
    using at [OF that] by (simp add: binding_keys_def)
  have "cache_inv (headers_indexed (env_junk env) (env_fmt env)) y"
    by (rule cache_inv_frame [OF ci same]) (simp add: headers_indexed_def binding_keys_def no_queues_eq)
  moreover have "slots_listed y"
    using x at unfolding headers_state_def headers_inv_def slots_listed_def y by simp
  ultimately show ?thesis
    using x at keys unfolding headers_state_def headers_inv_def headers_admits_def y by simp
qed

lemma headers_compile_state:
  assumes st: "headers_state env x" and fresh: "fresh_binding x p b ix" and blank: "blank_binding b"
    and adm: "headers_admits env x (bn_routing_key b) (bn_arguments b)"
  shows "\<exists>b' indices. amq_exchange_headers_compile (env_junk env) (env_fmt env)
      (x\<lparr>ex_binding_index := ix, ex_bindings := (ex_bindings x)(p \<mapsto> b)\<rparr>) p =
        Some (Inr (x\<lparr>ex_binding_index := ix, ex_bindings := (ex_bindings x)(p \<mapsto> b'), ex_indices := indices\<rparr>, 0)) \<and>
    same_binding b b' \<and> headers_state env (add_binding x p b' ix indices)"
proof -
  obtain keys fs ks where k: "asked_keys env (bn_arguments b) = Inr keys" "distinct keys"
    "table_fields (bn_arguments b) = Some (Inr (Some fs))"
    "argument_keys (env_junk env) (env_fmt env) fs = Inr ks"
    using adm asked_fields by (metis headers_admits_def)
  let ?b = "b\<lparr>bn_field_count := max 1 (length ks), bn_match_all := \<not> list_ex (asks_any (env_junk env) (env_fmt env)) fs\<rparr>"
  have inv: "headers_inv (env_junk env) (env_fmt env) x" using st by (simp add: headers_state_def)
  from headers_compile_ok [OF inv fresh _ k(3,4) refl] blank obtain indices where
    ind: "amq_exchange_headers_compile (env_junk env) (env_fmt env)
        (x\<lparr>ex_binding_index := ix, ex_bindings := (ex_bindings x)(p \<mapsto> b)\<rparr>) p =
          Some (Inr (x\<lparr>ex_binding_index := ix, ex_bindings := (ex_bindings x)(p \<mapsto> ?b), ex_indices := indices\<rparr>, 0))"
      "headers_inv (env_junk env) (env_fmt env) (add_binding x p ?b ix indices)"
    by (auto simp: blank_binding_def simp del: fun_upd_apply)
  have "bn_match_all ?b = asks_all env (bn_arguments ?b)" using k(3) by (simp add: asks_all_def)
  then have "headers_state env (add_binding x p ?b ix indices)"
    using ind(2) st adm fresh
    by (auto simp: headers_state_def headers_admits_def add_binding_def fresh_binding_def)
  moreover have "same_binding b ?b" by (simp add: same_binding_def)
  ultimately show ?thesis using ind(1) by blast
qed

lemma headers_match_hits:
  assumes "headers_state env x" and "p \<in> set (ex_binding_list x)" and "header_keys env (ct_headers m) = Inr keys"
  shows "headers_match (env_junk env) (env_fmt env) keys (binding_at x p) \<longleftrightarrow>
      headers_hits env (key_at x p) (args_at x p) m"
    and "distinct (binding_keys (env_junk env) (env_fmt env) (binding_at x p))"
proof -
  obtain asked where a: "asked_keys env (args_at x p) = Inr asked" "distinct asked"
    using assms(1,2) by (auto simp: headers_state_def headers_admits_def)
  note bk = asked_binding_keys [OF a(1)]
  have all: "bn_match_all (binding_at x p) = asks_all env (args_at x p)"
    using assms(1,2) by (simp add: headers_state_def)
  show "headers_match (env_junk env) (env_fmt env) keys (binding_at x p) \<longleftrightarrow>
      headers_hits env (key_at x p) (args_at x p) m"
    unfolding headers_match_def headers_hits_def bk all a(1) assms(3) by simp
  show "distinct (binding_keys (env_junk env) (env_fmt env) (binding_at x p))" using a(2) bk by simp
qed

interpretation headers: exchange_kind AMQ_EXCHANGE_HEADERS
    "exchange_compile env AMQ_EXCHANGE_HEADERS" "exchange_unbind AMQ_EXCHANGE_HEADERS"
    "exchange_publish_fn env AMQ_EXCHANGE_HEADERS" "headers_state env" "headers_admits env"
    "headers_accepts env" "headers_hits env"
  for env
proof
  show "headers_state env (amq_exchange_new AMQ_EXCHANGE_HEADERS fed)" for fed
    by (simp add: headers_state_def headers_inv_new) (simp add: amq_exchange_new_def)
  show "headers_state env x \<Longrightarrow> same_routing x y \<Longrightarrow> headers_state env y" for x y
    by (rule headers_state_frame)
  show "headers_admits env x key args \<Longrightarrow> \<exists>fs. table_fields args = Some (Inr (Some fs))" for x key args
    by (auto simp: headers_admits_def elim: asked_fields)
  show "\<exists>b' indices. exchange_compile env AMQ_EXCHANGE_HEADERS
        (x\<lparr>ex_binding_index := ix, ex_bindings := (ex_bindings x)(p \<mapsto> b)\<rparr>) p =
        Some (Inr (x\<lparr>ex_binding_index := ix, ex_bindings := (ex_bindings x)(p \<mapsto> b'), ex_indices := indices\<rparr>, 0)) \<and>
      same_binding b b' \<and> headers_state env (add_binding x p b' ix indices)"
    if "headers_state env x" "fresh_binding x p b ix" "blank_binding b"
      "headers_admits env x (bn_routing_key b) (bn_arguments b)" for x p b ix
    using headers_compile_state [OF that] by (simp add: exchange_compile_def)
  show "\<exists>indices qs. exchange_publish_fn env AMQ_EXCHANGE_HEADERS x m = Some (Inr (x\<lparr>ex_indices := indices\<rparr>, qs)) \<and>
      headers_state env (x\<lparr>ex_indices := indices\<rparr>) \<and> distinct qs \<and>
      set qs = (\<Union>p\<in>hit_bindings (headers_hits env) x m. set (queues_at x p))"
    if x: "headers_state env x" "ex_base x" and acc: "headers_accepts env x m" and room:
      "(\<Sum>p\<in>hit_bindings (headers_hits env) x m. length (queues_at x p)) \<le> AMQ_QUEUE_SET_MAX" for x m
  proof -
    have inv: "headers_inv (env_junk env) (env_fmt env) x" using x(1) by (simp add: headers_state_def)
    have zero: "\<forall>p\<in>set (ex_binding_list x). 0 \<notin> set (queues_at x p)" using x(2) by (simp add: ex_base_def)
    obtain keys where keys: "header_keys env (ct_headers m) = Inr keys" "distinct keys"
      using acc by (auto simp: headers_accepts_def)
    then obtain fs where fs: "table_fields (ct_headers m) = Some (Inr (Some fs))"
      "message_keys (env_junk env) (env_fmt env) fs = Inr keys"
      by (auto simp: header_keys_def split: option.splits sum.splits)
    have H: "hit_bindings (headers_hits env) x m =
        {p \<in> set (ex_binding_list x). headers_match (env_junk env) (env_fmt env) keys (binding_at x p)}"
      using headers_match_hits(1) [OF x(1) _ keys(1)] by (auto simp: hit_bindings_def)
    have "\<forall>p\<in>set (ex_binding_list x). distinct (binding_keys (env_junk env) (env_fmt env) (binding_at x p))"
      using headers_match_hits(2) [OF x(1) _ keys(1)] by blast
    from headers_publish_correct [OF inv fs keys(2) this zero H room, of "env_counts env"] x(1)
    show ?thesis by (intro exI [of _ "ex_indices x"]) (auto simp: exchange_publish_fn_def)
  qed
qed (simp_all add: exchange_unbind_def headers_admits_def)

end
