(* ===== verification/Amq_Queue.thy ===== *)
theory Amq_Queue
  imports Amq_Content "HOL-Library.Sublist"
begin

text \<open>
  Message queues: the asynchronous queue object (\<^verbatim>\<open>server/amq_queue.icl\<close>), its content manager
  (\<^verbatim>\<open>server/amq_queue_basic.icl\<close>) and the consumers (\<^verbatim>\<open>server/amq_consumer.icl\<close>).

  The methods of a queue run one at a time, each on a queue state that holds the two parts of the
  object and what the methods see of the channels and connections.  A method that another one calls
  asynchronously runs later: the call is an event of the log.  The content list and the
  consumer list are instances of the list container of \<open>Asl_List\<close> and are lists here; a consumer
  object is identified by its address.  What a method sends to the protocol agents, the broker or
  the channels is appended to the log \<open>q_sent\<close>, in order.  Logging, the console and the lifetime of
  content objects are left out.
\<close>

section \<open>Data\<close>

record amq_consumer =
  cs_addr :: nat
  cs_tag :: string
  cs_channel :: "nat option"
  cs_no_local :: bool
  cs_no_ack :: bool
  cs_exclusive :: bool
  cs_paused :: bool
  cs_pending_content :: "amq_content option"
  cs_by_channel :: bool

record amq_server_channel =
  ch_number :: nat
  ch_active :: bool
  ch_credit :: qbyte
  ch_connection :: "nat option"

record amq_server_connection =
  cn_id :: string

datatype queue_event =
    Basic_Deliver nat string amq_content nat
  | Basic_Return nat amq_content
  | Basic_Get_Ok nat amq_content nat
  | Basic_Get_Empty nat
  | Basic_Consume_Ok nat string
  | Basic_Cancel_Ok nat string
  | Queue_Purge_Ok nat nat
  | Channel_Error "nat option" string
  | Channel_Cancel nat string
  | Connection_Error nat
  | Dispatch_Queue
  | Self_Destruct
  | Delete_Queue
  | Unbind_Queue
  | Auto_Delete_Timer

record amq_queue =
  q_connection :: "nat option"
  q_enabled :: bool
  q_exclusive :: bool
  q_auto_delete :: bool
  q_locked :: bool
  q_warn_limit :: nat
  q_drop_limit :: nat
  q_trim_limit :: nat
  q_kill_limit :: nat
  q_feed_on :: bool
  q_feed_no_local :: bool
  q_traffic_in :: "64 word"
  q_traffic_out :: "64 word"
  q_contents_in :: nat
  q_contents_out :: nat
  q_drop_count :: nat
  q_warned :: bool
  q_dropped :: bool
  q_trimmed :: bool
  q_consumer_list :: "amq_consumer list"
  q_content_list :: "amq_content list"
  q_delivery_tag :: nat
  q_channels :: "nat \<rightharpoonup> amq_server_channel"
  q_connections :: "nat \<rightharpoonup> amq_server_connection"
  q_config_no_ack :: bool
  q_config_timeout :: nat
  q_sent :: "queue_event list"

definition send :: "queue_event \<Rightarrow> amq_queue \<Rightarrow> amq_queue" where
  "send e q = q\<lparr>q_sent := q_sent q @ [e]\<rparr>"

text \<open>\<^verbatim>\<open>amq_server_channel_link\<close> and \<^verbatim>\<open>amq_server_connection_link\<close>: null for an object that is gone.\<close>

definition channel_link :: "amq_queue \<Rightarrow> nat option \<Rightarrow> amq_server_channel option" where
  "channel_link q ch = Option.bind ch (q_channels q)"

definition connection_link :: "amq_queue \<Rightarrow> nat option \<Rightarrow> amq_server_connection option" where
  "connection_link q cn = Option.bind cn (q_connections q)"

definition channel_connection :: "amq_queue \<Rightarrow> nat option \<Rightarrow> amq_server_connection option" where
  "channel_connection q ch =
     Option.bind (channel_link q ch) (\<lambda>c. connection_link q (ch_connection c))"

section \<open>Consumers\<close>

text \<open>Taking and giving up the one content a consumer may hold unacknowledged.\<close>

definition amq_consumer_content_hold :: "amq_consumer \<Rightarrow> amq_content \<Rightarrow> amq_consumer c_result" where
  "amq_consumer_content_hold c content =
     (if cs_pending_content c \<noteq> None then Inl Assert_Failed
      else Inr (c\<lparr>cs_pending_content := Some content\<rparr>))"

definition amq_consumer_content_release :: "amq_consumer \<Rightarrow> bool \<times> amq_consumer" where
  "amq_consumer_content_release c =
     (if cs_pending_content c \<noteq> None then (True, c\<lparr>cs_pending_content := None\<rparr>) else (False, c))"

definition consumer_update :: "amq_consumer \<Rightarrow> amq_queue \<Rightarrow> amq_queue" where
  "consumer_update c q =
     q\<lparr>q_consumer_list := map (\<lambda>d. if cs_addr d = cs_addr c then c else d) (q_consumer_list q)\<rparr>"

text \<open>\<^verbatim>\<open>amq_consumer_by_queue_queue\<close>: append, or move to the end if already in the list.\<close>

definition by_queue_queue :: "amq_consumer \<Rightarrow> amq_queue \<Rightarrow> amq_queue" where
  "by_queue_queue c q =
     q\<lparr>q_consumer_list := filter (\<lambda>d. cs_addr d \<noteq> cs_addr c) (q_consumer_list q) @ [c]\<rparr>"

definition consumer_destroy :: "amq_consumer \<Rightarrow> amq_queue \<Rightarrow> amq_queue" where
  "consumer_destroy c q = q\<lparr>q_consumer_list := filter (\<lambda>d. cs_addr d \<noteq> cs_addr c) (q_consumer_list q)\<rparr>"

definition consumer_idle :: "amq_consumer \<Rightarrow> bool" where
  "consumer_idle c \<longleftrightarrow> \<not> cs_paused c \<and> cs_pending_content c = None"

datatype consumer_search = CONSUMER_FOUND | CONSUMER_NONE | CONSUMER_BUSY

text \<open>The loop of \<^verbatim>\<open>s_get_next_consumer\<close>; the return code carries over from one consumer to the next.\<close>

fun next_consumer_loop ::
    "amq_queue \<Rightarrow> string \<Rightarrow> amq_consumer list \<Rightarrow> consumer_search \<Rightarrow> consumer_search \<times> amq_consumer option" where
  "next_consumer_loop q producer_id [] rc = (rc, None)"
| "next_consumer_loop q producer_id (c # cs) rc =
     (let channel = channel_link q (cs_channel c);
          connection = Option.bind channel (\<lambda>ch. connection_link q (ch_connection ch));
          channel_active = (connection \<noteq> None \<and> ch_active (the channel));
          rc = (if channel_active then
                  if ch_credit (the channel) < 1 then CONSUMER_BUSY
                  else if cs_no_local c then
                    if cn_id (the connection) \<noteq> producer_id then CONSUMER_FOUND else rc
                  else CONSUMER_FOUND
                else CONSUMER_BUSY)
      in if rc = CONSUMER_FOUND then (rc, Some c) else next_consumer_loop q producer_id cs rc)"

definition s_get_next_consumer :: "amq_queue \<Rightarrow> string \<Rightarrow> consumer_search \<times> amq_consumer option" where
  "s_get_next_consumer q producer_id =
     next_consumer_loop q producer_id (q_consumer_list q) CONSUMER_NONE"

section \<open>Dispatching\<close>

text \<open>\<^verbatim>\<open>amq_server_channel_spend\<close>: the channel loses one credit.\<close>

definition amq_server_channel_spend :: "nat option \<Rightarrow> amq_queue \<Rightarrow> amq_queue" where
  "amq_server_channel_spend ch q =
     (case ch of
        None \<Rightarrow> q
      | Some a \<Rightarrow>
          q\<lparr>q_channels := (q_channels q)(a := map_option (\<lambda>c. c\<lparr>ch_credit := ch_credit c - 1\<rparr>) (q_channels q a))\<rparr>)"

text \<open>The branch of \<^verbatim>\<open>dispatch\<close> that delivers one content to the consumer found.\<close>

definition deliver_content :: "amq_content \<Rightarrow> amq_consumer \<Rightarrow> amq_queue \<Rightarrow> amq_queue c_result" where
  "deliver_content content consumer q =
     (let q = q\<lparr>q_contents_out := q_contents_out q + 1, q_traffic_out := q_traffic_out q + ct_body_size content\<rparr> in
      c_bind
        (case channel_link q (cs_channel consumer) of
           None \<Rightarrow> Inr (consumer, q)
         | Some channel \<Rightarrow>
             let q = amq_server_channel_spend (cs_channel consumer) q in
             (case connection_link q (ch_connection channel) of
                None \<Rightarrow> Inr (consumer, q)
              | Some connection \<Rightarrow>
                  c_bind
                    (if \<not> q_exclusive q \<and> \<not> cs_no_ack consumer \<and> \<not> q_config_no_ack q then
                       amq_consumer_content_hold (snd (amq_consumer_content_release consumer)) content
                     else Inr consumer) (\<lambda>consumer.
                  let q = q\<lparr>q_delivery_tag := q_delivery_tag q + 1\<rparr> in
                  Inr (consumer, send (Basic_Deliver (ch_number channel) (cs_tag consumer) content (q_delivery_tag q)) q))))
        (\<lambda>(consumer, q). Inr (by_queue_queue consumer q)))"

fun dispatch_loop :: "amq_content list \<Rightarrow> amq_queue \<Rightarrow> amq_queue c_result" where
  "dispatch_loop [] q = Inr (q\<lparr>q_content_list := []\<rparr>)"
| "dispatch_loop (content # contents) q =
     (case s_get_next_consumer q (ct_producer_id content) of
        (CONSUMER_FOUND, Some consumer) \<Rightarrow> c_bind (deliver_content content consumer q) (dispatch_loop contents)
      | (CONSUMER_BUSY, _) \<Rightarrow> Inr (q\<lparr>q_content_list := content # contents\<rparr>)
      | (CONSUMER_NONE, _) \<Rightarrow> dispatch_loop contents q
      | (CONSUMER_FOUND, None) \<Rightarrow> Inl Null_Pointer)"

definition amq_queue_basic_dispatch :: "amq_queue \<Rightarrow> amq_queue c_result" where
  "amq_queue_basic_dispatch q =
     (if list_ex consumer_idle (q_consumer_list q) then dispatch_loop (q_content_list q) q else Inr q)"

section \<open>The methods of the content manager\<close>

text \<open>
  The checks that \<^verbatim>\<open>publish\<close> makes against the limits of the queue: the flags, the content that
  is still to be queued, and what happens to the oldest content.  The link to the owner's
  connection has been given up before, which clears the pointer.
\<close>

definition check_limits :: "amq_content \<Rightarrow> amq_queue \<Rightarrow> amq_content option \<times> amq_queue" where
  "check_limits content q =
     (let queue_size = length (q_content_list q);
          connection = (None :: nat option);
          q = (if q_warn_limit q \<noteq> 0 \<and> q_warn_limit q \<le> queue_size \<and> \<not> q_warned q then q\<lparr>q_warned := True\<rparr> else q)
      in if q_drop_limit q \<noteq> 0 \<and> q_drop_limit q \<le> queue_size then
           (None, q\<lparr>q_dropped := True, q_drop_count := q_drop_count q + 1\<rparr>)
         else if q_trim_limit q \<noteq> 0 \<and> q_trim_limit q \<le> queue_size then
           (Some content, q\<lparr>q_trimmed := True, q_content_list := tl (q_content_list q), q_drop_count := q_drop_count q + 1\<rparr>)
         else if q_kill_limit q \<noteq> 0 \<and> q_kill_limit q \<le> queue_size then
           (Some content, case (q_exclusive q, connection) of
              (True, Some cn) \<Rightarrow> send (Connection_Error cn) q
            | _ \<Rightarrow> send Self_Destruct q)
         else if queue_size = 0 then
           (Some content, q\<lparr>q_warned := False, q_dropped := False, q_trimmed := False\<rparr>)
         else (Some content, q))"

text \<open>A content that passed the limits is queued, or returned if it wants an idle consumer and there is none.\<close>

definition accept_content :: "nat option \<Rightarrow> amq_content \<Rightarrow> bool \<Rightarrow> amq_queue \<Rightarrow> amq_queue" where
  "accept_content channel content immediate q =
     (if immediate \<and> \<not> list_ex consumer_idle (q_consumer_list q) then
        (case channel_connection q channel of
           None \<Rightarrow> q
         | Some connection \<Rightarrow>
             send (Basic_Return (ch_number (the (channel_link q channel))) (content\<lparr>ct_returned := True\<rparr>)) q)
      else q\<lparr>q_content_list := q_content_list q @ [content\<lparr>ct_immediate := immediate\<rparr>]\<rparr>)"

definition amq_queue_basic_publish :: "nat option \<Rightarrow> amq_content \<Rightarrow> bool \<Rightarrow> amq_queue \<Rightarrow> amq_queue c_result" where
  "amq_queue_basic_publish channel content immediate q =
     (let q = q\<lparr>q_contents_in := q_contents_in q + 1, q_traffic_in := q_traffic_in q + ct_body_size content\<rparr>;
          (accepted, q) = check_limits content q
      in amq_queue_basic_dispatch
           (case accepted of None \<Rightarrow> q | Some content \<Rightarrow> accept_content channel content immediate q))"

definition amq_queue_basic_consume :: "amq_consumer \<Rightarrow> amq_queue \<Rightarrow> amq_queue" where
  "amq_queue_basic_consume consumer q = by_queue_queue consumer q"

text \<open>
  The pending content is pushed back and dispatched before the consumer gives it up and leaves
  the list.  The dispatching may have changed the consumer, so it is looked up again.
\<close>

definition amq_queue_basic_cancel :: "amq_consumer \<Rightarrow> amq_queue \<Rightarrow> amq_queue c_result" where
  "amq_queue_basic_cancel consumer q =
     (if cs_by_channel consumer then Inl Assert_Failed
      else
        c_bind
          (case cs_pending_content consumer of
             None \<Rightarrow> Inr q
           | Some content \<Rightarrow>
               c_bind (amq_queue_basic_dispatch (q\<lparr>q_content_list := content # q_content_list q\<rparr>)) (\<lambda>q.
                 Inr (case find (\<lambda>d. cs_addr d = cs_addr consumer) (q_consumer_list q) of
                        None \<Rightarrow> q
                      | Some d \<Rightarrow> consumer_update (snd (amq_consumer_content_release d)) q)))
          (\<lambda>q. Inr (consumer_destroy consumer q)))"

definition amq_queue_basic_consumer_ack :: "amq_consumer \<Rightarrow> amq_queue \<Rightarrow> amq_queue c_result" where
  "amq_queue_basic_consumer_ack consumer q =
     (case cs_pending_content consumer of
        None \<Rightarrow> Inr q
      | Some content \<Rightarrow> amq_queue_basic_dispatch (consumer_update (snd (amq_consumer_content_release consumer)) q))"

definition amq_queue_basic_get :: "nat option \<Rightarrow> amq_queue \<Rightarrow> amq_queue" where
  "amq_queue_basic_get channel q =
     (let content = (case q_content_list q of [] \<Rightarrow> None | c # _ \<Rightarrow> Some c);
          q = q\<lparr>q_content_list := tl (q_content_list q)\<rparr>
      in case channel_connection q channel of
           None \<Rightarrow> q
         | Some connection \<Rightarrow>
             (case content of
                Some c \<Rightarrow> send (Basic_Get_Ok (ch_number (the (channel_link q channel))) c (length (q_content_list q))) q
              | None \<Rightarrow> send (Basic_Get_Empty (ch_number (the (channel_link q channel)))) q))"

fun purge_loop :: "amq_content list \<Rightarrow> nat \<Rightarrow> nat" where
  "purge_loop [] rc = rc"
| "purge_loop (c # cs) rc = purge_loop cs (rc + 1)"

definition amq_queue_basic_purge :: "amq_queue \<Rightarrow> nat \<times> amq_queue" where
  "amq_queue_basic_purge q = (purge_loop (q_content_list q) 0, q\<lparr>q_content_list := []\<rparr>)"

fun free_consumers :: "amq_consumer list \<Rightarrow> amq_queue \<Rightarrow> amq_queue" where
  "free_consumers [] q = q"
| "free_consumers (c # cs) q =
     free_consumers cs
       (case cs_channel c of
          None \<Rightarrow> q
        | Some a \<Rightarrow> if q_channels q a = None then q else send (Channel_Cancel a (cs_tag c)) q)"

definition amq_queue_basic_stop :: "amq_queue \<Rightarrow> amq_queue" where
  "amq_queue_basic_stop q = (free_consumers (q_consumer_list q) q)\<lparr>q_consumer_list := []\<rparr>"

definition amq_queue_basic_consumer_count :: "amq_queue \<Rightarrow> nat" where
  "amq_queue_basic_consumer_count q = length (q_consumer_list q)"

definition amq_queue_basic_message_count :: "amq_queue \<Rightarrow> nat" where
  "amq_queue_basic_message_count q = length (q_content_list q)"

section \<open>The methods of the queue object\<close>

definition amq_queue_publish :: "nat option \<Rightarrow> amq_content \<Rightarrow> bool \<Rightarrow> amq_queue \<Rightarrow> amq_queue c_result" where
  "amq_queue_publish channel content immediate q =
     (if q_enabled q then amq_queue_basic_publish channel content immediate q
      else Inr (send (Channel_Error channel ''Queue is disabled'') q))"

text \<open>The validation of a new consumer: the error text, if it is refused.\<close>

definition consume_error :: "amq_consumer \<Rightarrow> amq_queue \<Rightarrow> string option" where
  "consume_error consumer q =
     (let owner = Option.bind (channel_link q (cs_channel consumer)) ch_connection;
          connection = (if connection_link q owner = None then None else owner)
      in if q_exclusive q \<and> q_connection q \<noteq> connection then Some ''Queue is exclusive to another connection''
         else if cs_exclusive consumer then
           if amq_queue_basic_consumer_count q = 0 then None
           else Some ''Exclusive access to queue not possible''
         else if q_locked q then Some ''Queue is being used exclusively by another consumer''
         else None)"

definition consume_attach :: "amq_consumer \<Rightarrow> bool \<Rightarrow> bool \<Rightarrow> amq_queue \<Rightarrow> amq_queue" where
  "consume_attach consumer active nowait q =
     (let q = q\<lparr>q_feed_on := active, q_feed_no_local := cs_no_local consumer\<rparr>;
          q = amq_queue_basic_consume (consumer\<lparr>cs_paused := \<not> active\<rparr>) q;
          q = (if channel_connection q (cs_channel consumer) \<noteq> None \<and> \<not> nowait
               then send (Basic_Consume_Ok (ch_number (the (channel_link q (cs_channel consumer)))) (cs_tag consumer)) q
               else q)
      in send Dispatch_Queue q)"

definition amq_queue_consume :: "amq_consumer \<Rightarrow> bool \<Rightarrow> bool \<Rightarrow> amq_queue \<Rightarrow> amq_queue" where
  "amq_queue_consume consumer active nowait q =
     (case consume_error consumer q of
        Some text \<Rightarrow>
          (case channel_link q (cs_channel consumer) of
             None \<Rightarrow> q
           | Some channel \<Rightarrow> send (Channel_Cancel (the (cs_channel consumer)) (cs_tag consumer))
                              (send (Channel_Error (cs_channel consumer) text) q))
      | None \<Rightarrow>
          consume_attach consumer active nowait (if cs_exclusive consumer then q\<lparr>q_locked := True\<rparr> else q))"

definition amq_queue_get :: "nat option \<Rightarrow> amq_queue \<Rightarrow> amq_queue" where
  "amq_queue_get channel q = amq_queue_basic_get channel q"

definition amq_queue_dispatch :: "amq_queue \<Rightarrow> amq_queue c_result" where
  "amq_queue_dispatch q = amq_queue_basic_dispatch q"

definition amq_queue_consumer_ack :: "amq_consumer \<Rightarrow> amq_queue \<Rightarrow> amq_queue c_result" where
  "amq_queue_consumer_ack consumer q = amq_queue_basic_consumer_ack consumer q"

text \<open>The owner's connection goes away: the queue is deleted unless it still has consumers.\<close>

definition amq_queue_unbind_connection :: "amq_queue \<Rightarrow> amq_queue c_result" where
  "amq_queue_unbind_connection q =
     (if q_connection q = None \<or> \<not> q_auto_delete q then Inl Assert_Failed
      else Inr (if amq_queue_basic_consumer_count q = 0
                then (let q = send Delete_Queue q in if q_exclusive q then send Unbind_Queue q else q)
                else q))"

text \<open>After a cancellation: the queue is unlocked, and an auto-delete queue without consumers goes away.\<close>

definition cancel_finish :: "amq_queue \<Rightarrow> amq_queue" where
  "cancel_finish q =
     (let q = q\<lparr>q_feed_on := False, q_locked := False\<rparr>
      in if q_auto_delete q \<and> amq_queue_basic_consumer_count q = 0 then
           if q_config_timeout q \<noteq> 0 then send Auto_Delete_Timer q else send Self_Destruct q
         else q)"

definition amq_queue_cancel :: "amq_consumer \<Rightarrow> bool \<Rightarrow> bool \<Rightarrow> amq_queue \<Rightarrow> amq_queue c_result" where
  "amq_queue_cancel consumer notify nowait q =
     (let channel = channel_link q (cs_channel consumer);
          q = (if notify \<and> \<not> nowait \<and> channel_connection q (cs_channel consumer) \<noteq> None
               then send (Basic_Cancel_Ok (ch_number (the channel)) (cs_tag consumer)) q else q)
      in c_bind (amq_queue_basic_cancel consumer q) (\<lambda>q. Inr (cancel_finish q)))"

definition amq_queue_auto_delete :: "amq_queue \<Rightarrow> amq_queue" where
  "amq_queue_auto_delete q =
     (if amq_queue_basic_consumer_count q = 0 then send Self_Destruct q else q)"

definition amq_queue_self_destruct :: "amq_queue \<Rightarrow> amq_queue" where
  "amq_queue_self_destruct q =
     (let q = send Delete_Queue q; q = (if q_exclusive q then send Unbind_Queue q else q)
      in amq_queue_basic_stop q)"

definition amq_queue_purge :: "nat option \<Rightarrow> bool \<Rightarrow> amq_queue \<Rightarrow> amq_queue" where
  "amq_queue_purge channel nowait q =
     (let (messages, q) = amq_queue_basic_purge q
      in if \<not> nowait \<and> channel_connection q channel \<noteq> None
         then send (Queue_Purge_Ok (ch_number (the (channel_link q channel))) messages) q else q)"

end
