(* ===== verification/C_Chars.thy ===== *)
theory C_Chars
  imports Amq_Prelude
begin

text \<open>
  The character functions of the C library that the source calls, in the C locale, and the decimal
  notation of integers: \<^verbatim>\<open>isspace\<close>, \<^verbatim>\<open>isdigit\<close> and the others of \<^verbatim>\<open>ctype.h\<close>, \<^verbatim>\<open>atoi\<close>, and what the format
  \<^verbatim>\<open>%d\<close> prints of a number that is not negative.  The functions are total here: for a character above 127
  the tables of the usual C libraries answer as the C locale does, no class and no case.  \<^verbatim>\<open>atoi\<close> of a
  number that does not fit an \<^verbatim>\<open>int\<close> is undefined in C and is the exact number here.
\<close>

abbreviation char_code :: "char \<Rightarrow> nat" where
  "char_code c \<equiv> of_char c"

definition isspace :: "char \<Rightarrow> bool" where
  "isspace c \<longleftrightarrow> char_code c = 32 \<or> 9 \<le> char_code c \<and> char_code c \<le> 13"

definition isdigit :: "char \<Rightarrow> bool" where
  "isdigit c \<longleftrightarrow> 48 \<le> char_code c \<and> char_code c \<le> 57"

definition isupper :: "char \<Rightarrow> bool" where
  "isupper c \<longleftrightarrow> 65 \<le> char_code c \<and> char_code c \<le> 90"

definition islower :: "char \<Rightarrow> bool" where
  "islower c \<longleftrightarrow> 97 \<le> char_code c \<and> char_code c \<le> 122"

definition isalpha :: "char \<Rightarrow> bool" where
  "isalpha c \<longleftrightarrow> isupper c \<or> islower c"

definition isalnum :: "char \<Rightarrow> bool" where
  "isalnum c \<longleftrightarrow> isalpha c \<or> isdigit c"

definition isprint :: "char \<Rightarrow> bool" where
  "isprint c \<longleftrightarrow> 32 \<le> char_code c \<and> char_code c \<le> 126"

definition tolower :: "char \<Rightarrow> char" where
  "tolower c = (if isupper c then char_of (char_code c + 32) else c)"

definition toupper :: "char \<Rightarrow> char" where
  "toupper c = (if islower c then char_of (char_code c - 32) else c)"

lemmas ctype_defs = isspace_def isdigit_def isupper_def islower_def isalpha_def isalnum_def isprint_def

lemma code_lower: "char_code (tolower c) = (if isupper c then char_code c + 32 else char_code c)"
  by (simp add: tolower_def isupper_def)

lemma code_upper: "char_code (toupper c) = (if islower c then char_code c - 32 else char_code c)"
  by (auto simp: toupper_def islower_def)

lemma tolower_idem [simp]: "tolower (tolower c) = tolower c"
  unfolding tolower_def [of "tolower c"] by (auto simp: isupper_def code_lower)

lemma toupper_idem [simp]: "toupper (toupper c) = toupper c"
  unfolding toupper_def [of "toupper c"] by (auto simp: islower_def code_upper)

lemma tolower_toupper [simp]: "tolower (toupper c) = tolower c"
proof (cases "islower c")
  case True
  then have "isupper (toupper c)" by (auto simp: isupper_def islower_def code_upper)
  with True show ?thesis
    by (simp add: tolower_def [of "toupper c"] code_upper) (auto simp: tolower_def islower_def isupper_def)
next
  case False
  then show ?thesis by (simp add: toupper_def)
qed

lemma tolower_null_iff [simp]: "tolower c = CHR 0x00 \<longleftrightarrow> c = CHR 0x00"
proof -
  have "char_code (tolower c) = 0 \<longleftrightarrow> char_code c = 0" by (auto simp: code_lower isupper_def)
  moreover have "x = CHR 0x00 \<longleftrightarrow> char_code x = 0" for x
    using of_char_eq_iff [of x "CHR 0x00", where ?'a = nat] by simp
  ultimately show ?thesis by simp
qed

section \<open>Decimal numbers\<close>

fun atoi_digits :: "int \<Rightarrow> string \<Rightarrow> int" where
  "atoi_digits n (c # s) = (if isdigit c then atoi_digits (10 * n + (int (char_code c) - 48)) s else n)"
| "atoi_digits n [] = n"

definition atoi :: "string \<Rightarrow> int" where
  "atoi s =
     (case dropWhile isspace s of
        [] \<Rightarrow> 0
      | c # t \<Rightarrow>
          if c = CHR ''-'' then - atoi_digits 0 t
          else if c = CHR ''+'' then atoi_digits 0 t
          else atoi_digits 0 (c # t))"

fun decimal :: "nat \<Rightarrow> string" where
  "decimal n = (if n < 10 then [char_of (48 + n)] else decimal (n div 10) @ [char_of (48 + n mod 10)])"

declare decimal.simps [simp del]

lemma code_digit [simp]: "(d :: nat) < 10 \<Longrightarrow> char_code (char_of (48 + d)) = 48 + d"
  by simp

lemma isdigit_digit [simp]: "(d :: nat) < 10 \<Longrightarrow> isdigit (char_of (48 + d))"
  by (simp add: isdigit_def)

lemma atoi_digits_append:
  "list_all isdigit s \<Longrightarrow> atoi_digits n (s @ t) = atoi_digits (atoi_digits n s) t"
  by (induction n s rule: atoi_digits.induct) auto

lemma decimal_digits: "list_all isdigit (decimal n)"
  by (induction n rule: decimal.induct) (subst decimal.simps, auto)

lemma decimal_not_Nil [simp]: "decimal n \<noteq> []"
  by (subst decimal.simps) simp

lemma atoi_digits_decimal: "atoi_digits 0 (decimal n) = int n"
proof (induction n rule: decimal.induct)
  case (1 n)
  show ?case
  proof (cases "n < 10")
    case True
    then show ?thesis by (subst decimal.simps) simp
  next
    case False
    have "atoi_digits 0 (decimal n) = 10 * int (n div 10) + int (n mod 10)"
      using 1 [OF False] False by (subst decimal.simps) (simp add: atoi_digits_append decimal_digits)
    also have "\<dots> = int n" by (metis of_nat_add of_nat_mult of_nat_numeral mult_div_mod_eq)
    finally show ?thesis .
  qed
qed

lemma isdigit_plain: "isdigit c \<Longrightarrow> \<not> isspace c \<and> c \<noteq> CHR ''-'' \<and> c \<noteq> CHR ''+''"
  by (auto simp: isdigit_def isspace_def)

text \<open>What \<^verbatim>\<open>%d\<close> prints, \<^verbatim>\<open>atoi\<close> reads back, whatever follows the number.\<close>

lemma atoi_decimal [simp]: "atoi (decimal n) = int n"
proof -
  obtain c s where "decimal n = c # s" by (cases "decimal n") auto
  moreover from this decimal_digits [of n] have "isdigit c" by simp
  ultimately show ?thesis
    using atoi_digits_decimal [of n] isdigit_plain [of c] by (simp add: atoi_def)
qed

text \<open>What \<^verbatim>\<open>%d\<close> prints of a 32-bit number, which it takes as signed.\<close>

definition format_d :: "qbyte \<Rightarrow> string" where
  "format_d w = (if sint w < 0 then ''-'' @ decimal (nat (- sint w)) else decimal (nat (sint w)))"

end
