(* ===== verification/Amq_Failover.thy ===== *)
theory Amq_Failover
  imports C_Chars
begin

text \<open>
  The failover agent, \<^verbatim>\<open>server/amq_failover.icl\<close>: the state machine by which two brokers, a primary and a
  backup, agree which of them serves the applications.  Each of the two tells the other its state by a
  message on the status exchange; what it hears, and the applications that connect, move it between
  the three states.  Times are in microseconds.

  The second half puts two agents together.  A run of the pair is a sequence of events: one node tells
  the other its state, an application connects to a node, a node goes down or comes up, time passes.
  A status message is received before anything else happens at the two nodes.  Time is constrained by
  one assumption on the network, \<open>timely\<close>: a node that is up has heard from its peer within the failover
  timeout, if both have been up for that long.
\<close>

section \<open>The agent\<close>

datatype amq_ha_state = amq_ha_state_pending | amq_ha_state_active | amq_ha_state_passive

datatype amq_ha_event =
    amq_ha_event_peer_pending | amq_ha_event_peer_active | amq_ha_event_peer_passive | amq_ha_event_new_connection

text \<open>The state is zero, none of the enumeration, in an agent that is not enabled.\<close>

record amq_failover =
  fo_enabled :: bool
  fo_primary :: bool
  fo_timeout :: int
  fo_state :: "amq_ha_state option"
  fo_last_peer_time :: int

definition amq_failover_new :: "string \<Rightarrow> string \<Rightarrow> int \<Rightarrow> amq_failover" where
  "amq_failover_new backup primary failover_timeout =
     (let self = \<lparr>fo_enabled = False, fo_primary = False, fo_timeout = failover_timeout * 1000000,
                  fo_state = None, fo_last_peer_time = 0\<rparr>;
          self = (if backup \<noteq> [] \<and> primary \<noteq> [] then self
                  else if backup \<noteq> [] then self\<lparr>fo_enabled := True, fo_primary := True\<rparr>
                  else if primary \<noteq> [] then self\<lparr>fo_enabled := True\<rparr>
                  else self)
      in if fo_enabled self
         then self\<lparr>fo_state := Some amq_ha_state_pending, fo_last_peer_time := 0\<rparr>
         else self)"

fun state_number :: "amq_ha_state option \<Rightarrow> nat" where
  "state_number None = 0"
| "state_number (Some amq_ha_state_pending) = 1"
| "state_number (Some amq_ha_state_active) = 2"
| "state_number (Some amq_ha_state_passive) = 3"

text \<open>The routing key and the body of the message that tells the state.\<close>

definition amq_failover_send_state :: "amq_failover \<Rightarrow> string \<times> string" where
  "amq_failover_send_state self =
     ((if fo_primary self then ''failover.primary'' else ''failover.backup''), decimal (state_number (fo_state self)))"

definition amq_failover_execute :: "int \<Rightarrow> amq_ha_event \<Rightarrow> amq_failover \<Rightarrow> (amq_failover \<times> bool) c_result" where
  "amq_failover_execute time_now event self =
     (case fo_state self of
        Some amq_ha_state_pending \<Rightarrow>
          (case event of
             amq_ha_event_peer_pending \<Rightarrow>
               Inr (if fo_primary self then self\<lparr>fo_state := Some amq_ha_state_active\<rparr> else self, False)
           | amq_ha_event_peer_active \<Rightarrow> Inr (self\<lparr>fo_state := Some amq_ha_state_passive\<rparr>, False)
           | amq_ha_event_peer_passive \<Rightarrow> Inr (self, False)
           | amq_ha_event_new_connection \<Rightarrow> Inr (self, fo_primary self))
      | Some amq_ha_state_active \<Rightarrow>
          (case event of
             amq_ha_event_peer_pending \<Rightarrow> Inr (self, False)
           | amq_ha_event_peer_active \<Rightarrow> Inl Assert_Failed
           | amq_ha_event_peer_passive \<Rightarrow> Inr (self, False)
           | amq_ha_event_new_connection \<Rightarrow> Inr (self, True))
      | Some amq_ha_state_passive \<Rightarrow>
          (case event of
             amq_ha_event_peer_pending \<Rightarrow> Inr (self\<lparr>fo_state := Some amq_ha_state_active\<rparr>, False)
           | amq_ha_event_peer_active \<Rightarrow> Inr (self, False)
           | amq_ha_event_peer_passive \<Rightarrow> Inl Assert_Failed
           | amq_ha_event_new_connection \<Rightarrow>
               if time_now - fo_last_peer_time self > fo_timeout self
               then Inr (self\<lparr>fo_state := Some amq_ha_state_active\<rparr>, True)
               else Inr (self, False))
      | None \<Rightarrow> Inl Assert_Failed)"

definition s_content_handler :: "int \<Rightarrow> string \<Rightarrow> amq_failover \<Rightarrow> amq_failover c_result" where
  "s_content_handler time_now body self =
     (let self = self\<lparr>fo_last_peer_time := time_now\<rparr>;
          state = atoi body;
          run = (\<lambda>event. c_bind (amq_failover_execute time_now event self) (\<lambda>(self, rc). Inr self))
      in if state = 0 then Inl Assert_Failed
         else if state = 1 then run amq_ha_event_peer_pending
         else if state = 2 then run amq_ha_event_peer_active
         else if state = 3 then run amq_ha_event_peer_passive
         else Inl Assert_Failed)"

section \<open>Two brokers\<close>

text \<open>A node of the pair; the nodes are named by whether they are the primary.\<close>

record ha_node =
  nd_up :: bool
  nd_boot :: int
  nd_failover :: amq_failover

record ha_pair =
  hp_now :: int
  hp_node :: "bool \<Rightarrow> ha_node"

datatype ha_event = Notify bool | Connect bool | Crash bool | Restart bool | Tick int

definition boot_node :: "int \<Rightarrow> bool \<Rightarrow> int \<Rightarrow> ha_node" where
  "boot_node secs n now =
     \<lparr>nd_up = True, nd_boot = now,
      nd_failover = (if n then amq_failover_new ''backup'' '''' secs else amq_failover_new '''' ''primary'' secs)\<rparr>"

definition update_failover :: "bool \<Rightarrow> amq_failover \<Rightarrow> ha_pair \<Rightarrow> ha_pair" where
  "update_failover n fo s = s\<lparr>hp_node := (hp_node s)(n := (hp_node s n)\<lparr>nd_failover := fo\<rparr>)\<rparr>"

text \<open>What an event does, and whether an application that connects is accepted.\<close>

fun ha_exec :: "int \<Rightarrow> ha_event \<Rightarrow> ha_pair \<Rightarrow> (ha_pair \<times> bool) c_result" where
  "ha_exec secs (Notify n) s =
     (if nd_up (hp_node s n) \<and> nd_up (hp_node s (\<not> n))
      then c_bind (s_content_handler (hp_now s) (snd (amq_failover_send_state (nd_failover (hp_node s n))))
                     (nd_failover (hp_node s (\<not> n))))
             (\<lambda>fo. Inr (update_failover (\<not> n) fo s, False))
      else Inr (s, False))"
| "ha_exec secs (Connect n) s =
     (if nd_up (hp_node s n)
      then c_bind (amq_failover_execute (hp_now s) amq_ha_event_new_connection (nd_failover (hp_node s n)))
             (\<lambda>(fo, rc). Inr (update_failover n fo s, rc))
      else Inr (s, False))"
| "ha_exec secs (Crash n) s =
     Inr (s\<lparr>hp_node := (hp_node s)(n := (hp_node s n)\<lparr>nd_up := False\<rparr>)\<rparr>, False)"
| "ha_exec secs (Restart n) s =
     Inr (if nd_up (hp_node s n) then s
          else s\<lparr>hp_node := (hp_node s)(n := boot_node secs n (hp_now s))\<rparr>, False)"
| "ha_exec secs (Tick d) s = Inr (s\<lparr>hp_now := hp_now s + d\<rparr>, False)"

definition last_heard :: "ha_pair \<Rightarrow> bool \<Rightarrow> int" where
  "last_heard s n = fo_last_peer_time (nd_failover (hp_node s n))"

definition recent :: "int \<Rightarrow> int \<Rightarrow> ha_pair \<Rightarrow> bool \<Rightarrow> bool" where
  "recent secs t s n \<longleftrightarrow>
     (nd_up (hp_node s n) \<and> nd_up (hp_node s (\<not> n)) \<longrightarrow>
        t \<le> last_heard s n + secs * 1000000 \<or>
        t \<le> nd_boot (hp_node s n) + secs * 1000000 \<or> t \<le> nd_boot (hp_node s (\<not> n)) + secs * 1000000)"

definition timely :: "int \<Rightarrow> int \<Rightarrow> ha_pair \<Rightarrow> bool" where
  "timely secs d s \<longleftrightarrow> 0 \<le> d \<and> (\<forall>n. recent secs (hp_now s + d) s n)"

fun allowed_event :: "int \<Rightarrow> ha_event \<Rightarrow> ha_pair \<Rightarrow> bool" where
  "allowed_event secs (Tick d) s \<longleftrightarrow> timely secs d s"
| "allowed_event secs e s \<longleftrightarrow> True"

definition ha_start :: "int \<Rightarrow> int \<Rightarrow> ha_pair" where
  "ha_start secs now = \<lparr>hp_now = now, hp_node = (\<lambda>n. boot_node secs n now)\<rparr>"

inductive ha_reach :: "int \<Rightarrow> ha_pair \<Rightarrow> bool" for secs where
  start: "0 \<le> now \<Longrightarrow> ha_reach secs (ha_start secs now)"
| step: "ha_reach secs s \<Longrightarrow> allowed_event secs e s \<Longrightarrow> ha_exec secs e s = Inr (s', rc) \<Longrightarrow> ha_reach secs s'"

definition state_of :: "ha_pair \<Rightarrow> bool \<Rightarrow> amq_ha_state option" where
  "state_of s n = (if nd_up (hp_node s n) then fo_state (nd_failover (hp_node s n)) else None)"

section \<open>The invariant of the pair\<close>

definition node_ok :: "int \<Rightarrow> ha_pair \<Rightarrow> bool \<Rightarrow> bool" where
  "node_ok secs s n \<longleftrightarrow>
     (let fo = nd_failover (hp_node s n) in
      fo_primary fo = n \<and> fo_timeout fo = secs * 1000000 \<and> fo_state fo \<noteq> None \<and>
      nd_boot (hp_node s n) \<le> hp_now s \<and> last_heard s n \<le> hp_now s)"

text \<open>
  The states of two nodes that are up: never both active or both passive, and an active node facing a
  passive one was up already when it was last heard of, which is not before the passive one came up.
\<close>

definition facing_ok :: "ha_pair \<Rightarrow> bool \<Rightarrow> bool" where
  "facing_ok s n \<longleftrightarrow>
     (state_of s n = Some amq_ha_state_passive \<longrightarrow>
        nd_boot (hp_node s n) \<le> last_heard s n \<and>
        (nd_up (hp_node s (\<not> n)) \<longrightarrow>
           state_of s (\<not> n) = Some amq_ha_state_pending \<or>
           state_of s (\<not> n) = Some amq_ha_state_active \<and> nd_boot (hp_node s (\<not> n)) \<le> last_heard s n)) \<and>
     (state_of s n = Some amq_ha_state_active \<longrightarrow> state_of s (\<not> n) \<noteq> Some amq_ha_state_active)"

definition ha_inv :: "int \<Rightarrow> ha_pair \<Rightarrow> bool" where
  "ha_inv secs s \<longleftrightarrow> 0 \<le> hp_now s \<and> (\<forall>n. node_ok secs s n \<and> facing_ok s n \<and> recent secs (hp_now s) s n)"

fun peer_event :: "amq_ha_state \<Rightarrow> amq_ha_event" where
  "peer_event amq_ha_state_pending = amq_ha_event_peer_pending"
| "peer_event amq_ha_state_active = amq_ha_event_peer_active"
| "peer_event amq_ha_state_passive = amq_ha_event_peer_passive"

text \<open>The message that tells a state is read back as the event for it.\<close>

lemma handler_reads_state:
  assumes "fo_state fo = Some st"
  shows "s_content_handler now (snd (amq_failover_send_state fo)) self =
    c_bind (amq_failover_execute now (peer_event st) (self\<lparr>fo_last_peer_time := now\<rparr>)) (\<lambda>(self, rc). Inr self)"
  using assms by (cases st) (simp_all add: s_content_handler_def amq_failover_send_state_def Let_def)

lemma new_failover [simp]:
  "amq_failover_new ''backup'' '''' secs =
     \<lparr>fo_enabled = True, fo_primary = True, fo_timeout = secs * 1000000, fo_state = Some amq_ha_state_pending,
      fo_last_peer_time = 0\<rparr>"
  "amq_failover_new '''' ''primary'' secs =
     \<lparr>fo_enabled = True, fo_primary = False, fo_timeout = secs * 1000000, fo_state = Some amq_ha_state_pending,
      fo_last_peer_time = 0\<rparr>"
  by (simp_all add: amq_failover_new_def Let_def)

lemmas ha_defs = node_ok_def facing_ok_def state_of_def last_heard_def recent_def Let_def

lemma ha_invI:
  assumes "0 \<le> hp_now s" "\<And>n. node_ok secs s n" "\<And>n. facing_ok s n" "\<And>n. recent secs (hp_now s) s n"
  shows "ha_inv secs s"
  using assms by (simp add: ha_inv_def)

lemma ha_invD:
  assumes "ha_inv secs s"
  shows "0 \<le> hp_now s" "node_ok secs s n" "facing_ok s n" "recent secs (hp_now s) s n"
  using assms by (simp_all add: ha_inv_def)

lemma start_inv: "0 \<le> secs \<Longrightarrow> 0 \<le> now \<Longrightarrow> ha_inv secs (ha_start secs now)"
  by (rule ha_invI) (auto simp: ha_start_def boot_node_def ha_defs)

lemma crash_inv:
  assumes "ha_inv secs s" and "ha_exec secs (Crash n) s = Inr (s', rc)"
  shows "ha_inv secs s'"
proof (rule ha_invI)
  fix k
  show "node_ok secs s' k" using ha_invD(2) [OF assms(1), of k] assms(2) by (cases k; cases n) (auto simp: ha_defs)
  show "facing_ok s' k" using ha_invD(3) [OF assms(1), of k] assms(2) by (cases k; cases n) (auto simp: ha_defs)
  show "recent secs (hp_now s') s' k" using ha_invD(4) [OF assms(1), of k] assms(2) by (cases k; cases n) (auto simp: ha_defs)
qed (use ha_invD(1) [OF assms(1)] assms(2) in auto)

lemma restart_inv:
  assumes "0 \<le> secs" and "ha_inv secs s" and "ha_exec secs (Restart n) s = Inr (s', rc)"
  shows "ha_inv secs s'"
proof (cases "nd_up (hp_node s n)")
  case True
  with assms show ?thesis by simp
next
  case False
  with assms(3) have s': "s' = s\<lparr>hp_node := (hp_node s)(n := boot_node secs n (hp_now s))\<rparr>" by simp
  show ?thesis
  proof (rule ha_invI)
    fix k
    show "node_ok secs s' k"
      using ha_invD(2) [OF assms(2), of k] ha_invD(1) [OF assms(2)] s' by (cases k; cases n) (auto simp: ha_defs boot_node_def)
    show "facing_ok s' k" using ha_invD(3) [OF assms(2), of k] s' by (cases k; cases n) (auto simp: ha_defs boot_node_def)
    show "recent secs (hp_now s') s' k" using assms(1) s' by (cases k; cases n) (auto simp: ha_defs boot_node_def)
  qed (use ha_invD(1) [OF assms(2)] s' in auto)
qed

lemma tick_inv:
  assumes "ha_inv secs s" and "timely secs d s" and "ha_exec secs (Tick d) s = Inr (s', rc)"
  shows "ha_inv secs s'"
proof (rule ha_invI)
  fix k
  show "node_ok secs s' k" using ha_invD(2) [OF assms(1), of k] assms(2,3) by (auto simp: ha_defs timely_def)
  show "facing_ok s' k" using ha_invD(3) [OF assms(1), of k] assms(3) by (auto simp: ha_defs)
  show "recent secs (hp_now s') s' k" using assms(2,3) by (auto simp: ha_defs timely_def)
qed (use ha_invD(1) [OF assms(1)] assms(2,3) in \<open>auto simp: timely_def\<close>)

lemma known_state:
  assumes "ha_inv secs s"
  obtains st where "fo_state (nd_failover (hp_node s n)) = Some st"
  using ha_invD(2) [OF assms, of n] by (auto simp: node_ok_def Let_def)

text \<open>Of two nodes that are up, an active or passive one faces one in another state.\<close>

lemma states_differ:
  assumes "ha_inv secs s" "nd_up (hp_node s n)" "nd_up (hp_node s (\<not> n))"
    "fo_state (nd_failover (hp_node s n)) = Some st" "fo_state (nd_failover (hp_node s (\<not> n))) = Some st"
  shows "st = amq_ha_state_pending"
  using ha_invD(3) [OF assms(1), of n] assms(2-5) by (cases st) (auto simp: facing_ok_def state_of_def)

definition heard :: "int \<Rightarrow> amq_ha_state \<Rightarrow> amq_failover \<Rightarrow> amq_failover" where
  "heard now st self =
     self\<lparr>fo_last_peer_time := now,
          fo_state := (case st of
             amq_ha_state_pending \<Rightarrow>
               if fo_primary self \<or> fo_state self \<noteq> Some amq_ha_state_pending then Some amq_ha_state_active else fo_state self
           | amq_ha_state_active \<Rightarrow> Some amq_ha_state_passive
           | amq_ha_state_passive \<Rightarrow> fo_state self)\<rparr>"

lemma handler_heard:
  assumes "fo_state fo = Some st" "fo_state self = Some st'" "st = st' \<Longrightarrow> st = amq_ha_state_pending"
  shows "s_content_handler now (snd (amq_failover_send_state fo)) self = Inr (heard now st self)"
  unfolding handler_reads_state [OF assms(1)] using assms
  by (cases st; cases st'; cases self) (simp_all add: amq_failover_execute_def heard_def)

lemma notify_inv:
  assumes "ha_inv secs s"
  shows "\<exists>s'. ha_exec secs (Notify n) s = Inr (s', False) \<and> ha_inv secs s'"
proof (cases "nd_up (hp_node s n) \<and> nd_up (hp_node s (\<not> n))")
  case True
  obtain st st' where st: "fo_state (nd_failover (hp_node s n)) = Some st"
    "fo_state (nd_failover (hp_node s (\<not> n))) = Some st'"
    using known_state [OF assms] by metis
  let ?s = "update_failover (\<not> n) (heard (hp_now s) st (nd_failover (hp_node s (\<not> n)))) s"
  have exec: "ha_exec secs (Notify n) s = Inr (?s, False)"
    using True handler_heard [OF st states_differ [OF assms, of n]] st by simp
  have "ha_inv secs ?s"
  proof (rule ha_invI)
    fix k
    show "node_ok secs ?s k"
      using ha_invD(2) [OF assms, of k] by (cases k; cases n) (auto simp: ha_defs update_failover_def heard_def split: amq_ha_state.splits)
    show "facing_ok ?s k"
      using ha_invD(3) [OF assms, of n] ha_invD(3) [OF assms, of "\<not> n"] ha_invD(2) [OF assms, of n]
        ha_invD(2) [OF assms, of "\<not> n"] True st
      by (cases k; cases n; cases st; cases st') (auto simp: ha_defs update_failover_def heard_def)
    show "recent secs (hp_now ?s) ?s k"
      using ha_invD(4) [OF assms, of k] ha_invD(2) [OF assms, of k]
      by (cases k; cases n) (auto simp: ha_defs update_failover_def heard_def)
  qed (use ha_invD(1) [OF assms] in \<open>auto simp: update_failover_def\<close>)
  with exec show ?thesis by blast
next
  case False
  with assms show ?thesis by auto
qed

text \<open>An application that connects makes a passive node active only when the other one is not.\<close>

lemma expired_peer:
  assumes "ha_inv secs s" "nd_up (hp_node s n)" "fo_state (nd_failover (hp_node s n)) = Some amq_ha_state_passive"
    "hp_now s - last_heard s n > secs * 1000000"
  shows "state_of s (\<not> n) = None \<or> state_of s (\<not> n) = Some amq_ha_state_pending"
  using ha_invD(3,4) [OF assms(1), of n] assms(2-4)
  by (cases "nd_up (hp_node s (\<not> n))") (auto simp: facing_ok_def state_of_def recent_def)

lemma connect_inv:
  assumes "ha_inv secs s"
  shows "\<exists>s' rc. ha_exec secs (Connect n) s = Inr (s', rc) \<and> ha_inv secs s'"
proof (cases "nd_up (hp_node s n)")
  case True
  let ?fo = "nd_failover (hp_node s n)"
  obtain st where st: "fo_state ?fo = Some st" using known_state [OF assms] by blast
  have t: "fo_timeout ?fo = secs * 1000000" using ha_invD(2) [OF assms, of n] by (simp add: node_ok_def Let_def)
  have same: "update_failover n ?fo s = s" by (simp add: update_failover_def)
  show ?thesis
  proof (cases "st = amq_ha_state_passive \<and> hp_now s - last_heard s n > secs * 1000000")
    case expired: True
    let ?s = "update_failover n (?fo\<lparr>fo_state := Some amq_ha_state_active\<rparr>) s"
    have "ha_exec secs (Connect n) s = Inr (?s, True)"
      using True expired st t by (simp add: amq_failover_execute_def last_heard_def)
    moreover have "ha_inv secs ?s"
    proof (rule ha_invI)
      fix k
      show "node_ok secs ?s k" using ha_invD(2) [OF assms, of k]
        by (cases k; cases n) (auto simp: ha_defs update_failover_def)
      show "facing_ok ?s k"
        using ha_invD(3) [OF assms, of n] ha_invD(3) [OF assms, of "\<not> n"]
          expired_peer [OF assms True] expired True st
        by (cases k; cases n) (auto simp: facing_ok_def state_of_def last_heard_def update_failover_def)
      show "recent secs (hp_now ?s) ?s k" using ha_invD(4) [OF assms, of k]
        by (cases k; cases n) (auto simp: ha_defs update_failover_def)
    qed (use ha_invD(1) [OF assms] in \<open>auto simp: update_failover_def\<close>)
    ultimately show ?thesis by blast
  next
    case False
    then have "\<exists>rc. ha_exec secs (Connect n) s = Inr (s, rc)"
      using True st t same by (cases st) (auto simp: amq_failover_execute_def last_heard_def)
    with assms show ?thesis by blast
  qed
next
  case False
  with assms show ?thesis by auto
qed

text \<open>Every event that may happen is handled, and keeps the invariant.\<close>

lemma exec_inv:
  assumes "0 \<le> secs" "ha_inv secs s" "allowed_event secs e s"
  shows "\<exists>s' rc. ha_exec secs e s = Inr (s', rc) \<and> ha_inv secs s'"
proof (cases e)
  case (Notify n)
  with notify_inv [OF assms(2), of n] show ?thesis by blast
next
  case (Connect n)
  with connect_inv [OF assms(2), of n] show ?thesis by blast
next
  case (Crash n)
  then obtain s' where "ha_exec secs e s = Inr (s', False)" by simp
  with Crash crash_inv [OF assms(2)] show ?thesis by blast
next
  case (Restart n)
  then obtain s' where "ha_exec secs e s = Inr (s', False)" by simp
  with Restart restart_inv [OF assms(1,2)] show ?thesis by blast
next
  case (Tick d)
  then obtain s' where "ha_exec secs e s = Inr (s', False)" by simp
  with Tick tick_inv [OF assms(2)] assms(3) show ?thesis by auto
qed

lemma reach_inv: "ha_reach secs s \<Longrightarrow> 0 \<le> secs \<Longrightarrow> ha_inv secs s"
proof (induction rule: ha_reach.induct)
  case (start now)
  then show ?case by (simp add: start_inv)
next
  case (step s e s' rc)
  then show ?case using exec_inv [of secs s e] by auto
qed

section \<open>Properties\<close>

text \<open>
  C10. However two brokers of a pair are started, stopped, connected to and told of each other's state,
  as long as the network delivers the state of a broker within the failover timeout, no event makes an
  agent stop with a failed assertion, at most one of them is active, and they are never both passive.
\<close>

theorem failover_single_master:
  assumes "ha_reach secs s" and "0 \<le> secs" and "allowed_event secs e s"
  shows "(\<exists>s' rc. ha_exec secs e s = Inr (s', rc)) \<and>
    \<not> (state_of s True = Some amq_ha_state_active \<and> state_of s False = Some amq_ha_state_active) \<and>
    \<not> (state_of s True = Some amq_ha_state_passive \<and> state_of s False = Some amq_ha_state_passive)"
proof -
  have inv: "ha_inv secs s" using reach_inv assms by blast
  then show ?thesis
    using exec_inv [OF assms(2) inv assms(3)] ha_invD(3) [OF inv, of True]
    by (auto simp: facing_ok_def state_of_def split: if_splits)
qed

text \<open>A run: the primary and the backup agree, the primary stops, and after the timeout an application connects to the backup.\<close>

fun ha_run :: "int \<Rightarrow> ha_event list \<Rightarrow> ha_pair \<Rightarrow> ha_pair option" where
  "ha_run secs [] s = Some s"
| "ha_run secs (e # es) s =
     (if allowed_event secs e s
      then case ha_exec secs e s of Inl f \<Rightarrow> None | Inr (s', rc) \<Rightarrow> ha_run secs es s'
      else None)"

lemma ha_run_reach: "ha_reach secs s \<Longrightarrow> ha_run secs es s = Some s' \<Longrightarrow> ha_reach secs s'"
proof (induction es arbitrary: s)
  case (Cons e es)
  then show ?case by (auto split: if_splits sum.splits intro: ha_reach.step)
qed simp

definition takeover :: "ha_event list" where
  "takeover = [Notify False, Notify True, Crash True, Tick 11000000, Connect False]"

lemmas run_defs = takeover_def ha_start_def boot_node_def timely_def recent_def all_bool_eq handler_reads_state
  amq_failover_execute_def update_failover_def state_of_def last_heard_def

theorem failover_single_master_witness:
  "(\<exists>s' rc. ha_exec 10 (Notify True) (ha_start 10 0) = Inr (s', rc)) \<and>
    \<not> (state_of (ha_start 10 0) True = Some amq_ha_state_active \<and> state_of (ha_start 10 0) False = Some amq_ha_state_active) \<and>
    \<not> (state_of (ha_start 10 0) True = Some amq_ha_state_passive \<and> state_of (ha_start 10 0) False = Some amq_ha_state_passive)"
  by (rule failover_single_master) (simp_all add: ha_reach.start)

text \<open>
  C18. In every reachable state in which both brokers are up, three status messages, from the backup, the
  primary and the backup again, leave exactly one of them active and the other passive.
\<close>

theorem failover_settles:
  assumes "ha_reach secs s" and "0 \<le> secs" and "nd_up (hp_node s True)" and "nd_up (hp_node s False)"
  shows "\<exists>s' n. ha_run secs [Notify False, Notify True, Notify False] s = Some s' \<and>
    state_of s' n = Some amq_ha_state_active \<and> state_of s' (\<not> n) = Some amq_ha_state_passive"
proof -
  have inv: "ha_inv secs s" using reach_inv assms by blast
  obtain p b where st: "fo_state (nd_failover (hp_node s True)) = Some p" "fo_state (nd_failover (hp_node s False)) = Some b"
    using known_state [OF inv] by metis
  have prim: "fo_primary (nd_failover (hp_node s True))" "\<not> fo_primary (nd_failover (hp_node s False))"
    using ha_invD(2) [OF inv, of True] ha_invD(2) [OF inv, of False] by (simp_all add: node_ok_def Let_def)
  have "p = b \<Longrightarrow> p = amq_ha_state_pending" using states_differ [OF inv, of True p] st assms(3,4) by simp
  with st prim assms(3,4) show ?thesis
    by (cases p; cases b) (auto simp: handler_reads_state amq_failover_execute_def update_failover_def state_of_def)
qed

theorem failover_settles_witness:
  "\<exists>s' n. ha_run 10 [Notify False, Notify True, Notify False] (ha_start 10 0) = Some s' \<and>
    state_of s' n = Some amq_ha_state_active \<and> state_of s' (\<not> n) = Some amq_ha_state_passive"
  by (rule failover_settles [OF ha_reach.start]) (simp_all add: ha_start_def boot_node_def)

text \<open>
  C17. When the other broker has been silent for longer than the timeout and is down, an application
  that connects is accepted, and the broker is active from then on, unless it is one that still waits
  for the first message of its peer: a waiting primary accepts and goes on waiting, a waiting backup
  refuses for ever.
\<close>

theorem failover_takes_over:
  assumes "ha_reach secs s" and "0 \<le> secs" and "nd_up (hp_node s n)" and "\<not> nd_up (hp_node s (\<not> n))"
    and "hp_now s - last_heard s n > secs * 1000000"
  shows "\<exists>s' rc. ha_exec secs (Connect n) s = Inr (s', rc) \<and>
    (rc \<longleftrightarrow> n \<or> state_of s n \<noteq> Some amq_ha_state_pending) \<and>
    state_of s' n = (if state_of s n = Some amq_ha_state_pending then state_of s n else Some amq_ha_state_active)"
proof -
  have inv: "ha_inv secs s" using reach_inv assms by blast
  obtain st where "fo_state (nd_failover (hp_node s n)) = Some st" using known_state [OF inv] by blast
  with assms(3,5) ha_invD(2) [OF inv, of n] show ?thesis
    by (cases st) (auto simp: node_ok_def Let_def amq_failover_execute_def last_heard_def state_of_def update_failover_def)
qed

definition orphaned :: ha_pair where
  "orphaned = the (ha_run 10 [Notify False, Notify True, Crash True, Tick 11000000] (ha_start 10 0))"

theorem failover_takes_over_witness:
  "\<exists>s' rc. ha_exec 10 (Connect False) orphaned = Inr (s', rc) \<and>
    (rc \<longleftrightarrow> False \<or> state_of orphaned False \<noteq> Some amq_ha_state_pending) \<and>
    state_of s' False = (if state_of orphaned False = Some amq_ha_state_pending then state_of orphaned False
      else Some amq_ha_state_active)"
proof (rule failover_takes_over)
  have "\<exists>s. ha_run 10 [Notify False, Notify True, Crash True, Tick 11000000] (ha_start 10 0) = Some s"
    by (simp add: run_defs)
  then have "ha_run 10 [Notify False, Notify True, Crash True, Tick 11000000] (ha_start 10 0) = Some orphaned"
    unfolding orphaned_def by (metis option.sel)
  then show "ha_reach 10 orphaned"
    by (rule ha_run_reach [OF ha_reach.start, rotated]) simp
qed (simp_all add: orphaned_def run_defs)

text \<open>The answers to a sequence of events: for a connection, whether the application is accepted.\<close>

fun ha_answers :: "int \<Rightarrow> ha_event list \<Rightarrow> ha_pair \<Rightarrow> (bool list \<times> ha_pair) c_result" where
  "ha_answers secs [] s = Inr ([], s)"
| "ha_answers secs (e # es) s =
     c_bind (ha_exec secs e s) (\<lambda>(s, rc). c_bind (ha_answers secs es s) (\<lambda>(rcs, s). Inr (rc # rcs, s)))"

fun is_connect :: "ha_event \<Rightarrow> bool" where
  "is_connect (Connect n) = True"
| "is_connect e = False"

text \<open>No broker stops, and no message of the backup arrives.\<close>

fun stays_apart :: "ha_event \<Rightarrow> bool" where
  "stays_apart (Notify n) = n"
| "stays_apart (Crash n) = False"
| "stays_apart e = True"

lemma apart_step:
  assumes "state_of s True = Some amq_ha_state_pending" "fo_primary (nd_failover (hp_node s True))"
    and "state_of s False = Some amq_ha_state_active" "stays_apart e"
  shows "\<exists>s'. ha_exec secs e s = Inr (s', is_connect e) \<and> state_of s' True = Some amq_ha_state_pending \<and>
    fo_primary (nd_failover (hp_node s' True)) \<and> state_of s' False = Some amq_ha_state_active"
proof -
  have up: "nd_up (hp_node s True)" "fo_state (nd_failover (hp_node s True)) = Some amq_ha_state_pending"
    "nd_up (hp_node s False)" "fo_state (nd_failover (hp_node s False)) = Some amq_ha_state_active"
    using assms(1,3) by (auto simp: state_of_def split: if_splits)
  show ?thesis
  proof (cases e)
    case (Notify n)
    with up assms(2,4) show ?thesis
      by (simp add: handler_reads_state [of _ amq_ha_state_pending] amq_failover_execute_def update_failover_def state_of_def)
  next
    case (Connect n)
    with up assms(2) show ?thesis by (cases n) (simp_all add: amq_failover_execute_def update_failover_def state_of_def)
  next
    case (Restart n)
    with up assms(2) show ?thesis by (cases n) (simp_all add: state_of_def)
  qed (use up assms(2,4) in \<open>simp_all add: state_of_def\<close>)
qed

lemma apart_run:
  assumes "state_of s True = Some amq_ha_state_pending" "fo_primary (nd_failover (hp_node s True))"
    and "state_of s False = Some amq_ha_state_active" "list_all stays_apart es"
  shows "\<exists>s'. ha_answers secs es s = Inr (map is_connect es, s') \<and> state_of s' True = Some amq_ha_state_pending \<and>
    state_of s' False = Some amq_ha_state_active"
  using assms
proof (induction es arbitrary: s)
  case (Cons e es)
  then obtain t where t: "ha_exec secs e s = Inr (t, is_connect e)" "state_of t True = Some amq_ha_state_pending"
    "fo_primary (nd_failover (hp_node t True))" "state_of t False = Some amq_ha_state_active"
    using apart_step [of s e secs] by auto
  with Cons.IH [OF t(2-4)] Cons.prems(4) show ?case by auto
qed simp

text \<open>
  C36. When the primary is down and the backup has taken over, a primary that comes up again accepts every
  application that connects, while it still waits to hear from the backup, and the backup accepts every
  application too: whatever happens until one of them stops or a message of the backup arrives.
\<close>

theorem failover_split_clients:
  assumes "\<not> nd_up (hp_node s True)" and "state_of s False = Some amq_ha_state_active" and "list_all stays_apart es"
  shows "\<exists>s'. ha_answers secs (Restart True # es) s = Inr (False # map is_connect es, s') \<and>
    state_of s' True = Some amq_ha_state_pending \<and> state_of s' False = Some amq_ha_state_active"
proof -
  let ?s = "s\<lparr>hp_node := (hp_node s)(True := boot_node secs True (hp_now s))\<rparr>"
  have "state_of ?s True = Some amq_ha_state_pending" "fo_primary (nd_failover (hp_node ?s True))"
    "state_of ?s False = Some amq_ha_state_active"
    using assms(2) by (simp_all add: state_of_def boot_node_def amq_failover_new_def split: if_splits)
  from apart_run [OF this assms(3), of secs] assms(1) show ?thesis by auto
qed

theorem failover_split_clients_witness:
  "\<exists>s s'. ha_reach 10 s \<and> ha_answers 10 [Restart True, Connect True, Connect False] s = Inr ([False, True, True], s') \<and>
    state_of s' True = Some amq_ha_state_pending \<and> state_of s' False = Some amq_ha_state_active"
proof -
  have "\<exists>s. ha_run 10 takeover (ha_start 10 0) = Some s \<and> \<not> nd_up (hp_node s True) \<and> state_of s False = Some amq_ha_state_active"
    by (simp add: run_defs)
  then obtain s where s: "ha_run 10 takeover (ha_start 10 0) = Some s" "\<not> nd_up (hp_node s True)"
    "state_of s False = Some amq_ha_state_active" by blast
  have "ha_reach 10 s" using ha_run_reach [OF ha_reach.start [of 0 10] s(1)] by simp
  moreover have "list_all stays_apart [Connect True, Connect False]" by simp
  note failover_split_clients [OF s(2,3) this, of 10, unfolded list.map is_connect.simps]
  ultimately show ?thesis by blast
qed

end
