(* ===== verification/Amq_Login.thy ===== *)
theory Amq_Login
  imports Icl_Shortstr Amq_Failover
begin

text \<open>
  Opening a connection to the broker, \<^verbatim>\<open>server/amq_server_connection.icl\<close>: the plain authentication of
  the Start-Ok method against the users of the configuration, and the checks of the Open method, with
  the exception of \<^verbatim>\<open>tooling/base2/asl/asl_server_connection.icl\<close> that refuses a connection.

  The configuration is the list of the users in its security section, or none if there is no such
  section.  Uninitialised stack memory is an argument.  What a client says of itself, and logging, are
  left out.
\<close>

section \<open>Data\<close>

record connection_exception =
  xc_reply_code :: nat
  xc_reply_text :: string
  xc_faulting_class_id :: nat
  xc_faulting_method_id :: nat

record login_connection =
  lc_authorised :: bool
  lc_user_name :: string
  lc_group :: nat
  lc_exception :: "connection_exception option"

record plain_user =
  us_name :: string
  us_password :: string
  us_group :: string

definition AMQ_CONNECTION_GROUP_NORMAL :: nat where "AMQ_CONNECTION_GROUP_NORMAL = 1"
definition AMQ_CONNECTION_GROUP_SUPER :: nat where "AMQ_CONNECTION_GROUP_SUPER = 2"
definition ASL_INVALID_PATH :: nat where "ASL_INVALID_PATH = 402"
definition ASL_ACCESS_REFUSED :: nat where "ASL_ACCESS_REFUSED = 403"
definition ASL_SYNTAX_ERROR :: nat where "ASL_SYNTAX_ERROR = 502"
definition ASL_INTERNAL_ERROR :: nat where "ASL_INTERNAL_ERROR = 541"
definition AMQ_SERVER_CONNECTION :: nat where "AMQ_SERVER_CONNECTION = 10"
definition AMQ_SERVER_CONNECTION_START_OK :: nat where "AMQ_SERVER_CONNECTION_START_OK = 11"
definition AMQ_SERVER_CONNECTION_OPEN :: nat where "AMQ_SERVER_CONNECTION_OPEN = 40"

section \<open>Operations\<close>

text \<open>The arguments are in the order of the method's declaration, the method id before the class id.\<close>

definition raise_exception :: "nat \<Rightarrow> string \<Rightarrow> nat \<Rightarrow> nat \<Rightarrow> login_connection \<Rightarrow> login_connection" where
  "raise_exception reply_code reply_text faulting_method_id faulting_class_id self =
     self\<lparr>lc_exception := Some \<lparr>xc_reply_code = reply_code, xc_reply_text = reply_text,
       xc_faulting_class_id = faulting_class_id, xc_faulting_method_id = faulting_method_id\<rparr>\<rparr>"

text \<open>The loop that looks for a null octet backwards; it does not look at the octet at offset zero.\<close>

fun scan_back :: "byte list \<Rightarrow> nat \<Rightarrow> nat c_result" where
  "scan_back data 0 = Inr 0"
| "scan_back data (Suc n) = c_bind (c_read data (Suc n)) (\<lambda>b. if b = 0 then Inr (Suc n) else scan_back data n)"

definition chars :: "byte list \<Rightarrow> string" where
  "chars bs = map (\<lambda>b. char_of (unat b)) bs"

definition s_collect_plain_token :: "byte list \<Rightarrow> qbyte \<Rightarrow> (string \<times> qbyte) c_result" where
  "s_collect_plain_token data token_end =
     (let token_end = token_end - 1 in
      c_bind (scan_back data (unat token_end)) (\<lambda>token_null.
        let token_size = unat token_end - token_null in
        if token_size > ICL_SHORTSTR_MAX then Inr ([], word_of_nat token_null)
        else c_bind (mem_get data (token_null + 1) token_size) (\<lambda>token.
          Inr (chars token, word_of_nat token_null))))"

definition set_group :: "string \<Rightarrow> plain_user \<Rightarrow> login_connection \<Rightarrow> login_connection" where
  "set_group login u self =
     (let self = self\<lparr>lc_user_name := login\<rparr> in
      if us_group u = ''normal'' then self\<lparr>lc_group := AMQ_CONNECTION_GROUP_NORMAL\<rparr>
      else if us_group u = ''super'' then self\<lparr>lc_group := AMQ_CONNECTION_GROUP_SUPER\<rparr>
      else raise_exception ASL_INTERNAL_ERROR ''Bad server configuration'' 0 0 self)"

definition s_auth_plain ::
    "string \<Rightarrow> plain_user list option \<Rightarrow> byte list \<Rightarrow> login_connection \<Rightarrow> (login_connection \<times> nat) c_result" where
  "s_auth_plain stack_login users response self =
     c_bind (s_collect_plain_token response (word_of_nat (length response))) (\<lambda>(password, token_null).
     c_bind (if token_null \<noteq> 0
             then c_bind (s_collect_plain_token response token_null) (\<lambda>(login, token_null). Inr login)
             else Inr stack_login) (\<lambda>login.
       if login = [] \<or> password = []
       then Inr (raise_exception ASL_SYNTAX_ERROR ''Missing authentication data''
              AMQ_SERVER_CONNECTION AMQ_SERVER_CONNECTION_START_OK self, 0)
       else case users of
           None \<Rightarrow> Inr (raise_exception ASL_INTERNAL_ERROR ''Bad server configuration'' 0 0 self, 0)
         | Some us \<Rightarrow>
             let self = (case find (\<lambda>u. us_name u = login \<and> us_password u = password) us of
                           None \<Rightarrow> self
                         | Some u \<Rightarrow> set_group login u self)
             in Inr (self, lc_group self)))"

definition amq_server_connection_start_ok ::
    "string \<Rightarrow> plain_user list option \<Rightarrow> byte list \<Rightarrow> login_connection \<Rightarrow> login_connection c_result" where
  "amq_server_connection_start_ok stack_login users response self =
     c_bind (s_auth_plain stack_login users response (self\<lparr>lc_authorised := False\<rparr>)) (\<lambda>(self, group).
       if group \<noteq> 0 then Inr (self\<lparr>lc_authorised := True\<rparr>)
       else Inr (raise_exception ASL_ACCESS_REFUSED ''Invalid authentication data''
              AMQ_SERVER_CONNECTION AMQ_SERVER_CONNECTION_START_OK self))"

definition refuse_open :: "nat \<Rightarrow> string \<Rightarrow> login_connection \<Rightarrow> login_connection" where
  "refuse_open reply_code reason self =
     raise_exception reply_code reason AMQ_SERVER_CONNECTION AMQ_SERVER_CONNECTION_OPEN self"

definition amq_server_connection_open ::
    "int \<Rightarrow> bool \<Rightarrow> string \<Rightarrow> string \<Rightarrow> login_connection \<Rightarrow> amq_failover \<Rightarrow> (login_connection \<times> amq_failover) c_result" where
  "amq_server_connection_open time_now locked config_vhost virtual_host self failover =
     (if locked \<and> lc_group self = AMQ_CONNECTION_GROUP_NORMAL
      then Inr (refuse_open ASL_ACCESS_REFUSED ''Connections not allowed at present'' self, failover)
      else if virtual_host \<noteq> config_vhost
      then Inr (refuse_open ASL_INVALID_PATH ''vhost is incorrect'' self, failover)
      else if fo_enabled failover \<and> lc_group self = AMQ_CONNECTION_GROUP_NORMAL
      then c_bind (amq_failover_execute time_now amq_ha_event_new_connection failover) (\<lambda>(failover, rc).
             if rc then Inr (self, failover)
             else Inr (refuse_open ASL_ACCESS_REFUSED ''Connections not allowed at present'' self, failover))
      else Inr (self, failover))"

section \<open>The tokens of a response\<close>

lemma scan_back_null:
  assumes "0 \<notin> set s" "pre \<noteq> []"
  shows "scan_back (pre @ 0 # s @ rest) (length pre + length s) = Inr (length pre)"
  using assms
proof (induction s arbitrary: rest rule: rev_induct)
  case Nil
  then obtain n where n: "length pre = Suc n" by (cases pre) auto
  with c_read_append [of pre 0 rest] show ?case by simp
next
  case (snoc x s)
  from snoc.IH [of "x # rest"] snoc.prems show ?case
    by (simp add: c_read_def nth_append)
qed

lemma scan_back_start:
  assumes "0 \<notin> set s"
  shows "scan_back (b # s @ rest) (length s) = Inr 0"
  using assms
proof (induction s arbitrary: rest rule: rev_induct)
  case (snoc x s)
  from snoc.IH [of "x # rest"] snoc.prems show ?case by (simp add: c_read_def nth_append)
qed simp

lemma scan_back_beyond: "length data \<le> n \<Longrightarrow> 0 < n \<Longrightarrow> scan_back data n = Inl Out_Of_Bounds"
  by (cases n) (simp_all add: c_read_def)

lemma unat_qbyte: "n < 2 ^ 32 \<Longrightarrow> unat (word_of_nat n :: qbyte) = n"
  by (simp add: unat_of_nat take_bit_eq_mod)

text \<open>
  The text after the last null octet of the part of the response before \<open>token_end\<close>, or after the first
  octet if there is no null octet.
\<close>

lemma collect_token:
  assumes "data = pre @ 0 # s @ rest" "0 \<notin> set s" "length s \<le> ICL_SHORTSTR_MAX" "length data < 2 ^ 32"
  shows "s_collect_plain_token data (word_of_nat (length pre + length s + 1)) = Inr (chars s, word_of_nat (length pre))"
proof -
  have "length pre + length s < 2 ^ 32" using assms(1,4) by simp
  then have e: "unat (word_of_nat (length pre + length s + 1) - 1 :: qbyte) = length pre + length s"
    using unat_qbyte [of "length pre + length s"] by simp
  have scan: "scan_back data (length pre + length s) = Inr (length pre)"
    using scan_back_null [OF assms(2)] scan_back_start [OF assms(2)] assms(1) by (cases "pre = []") auto
  have "mem_get data (length pre + 1) (length s) = Inr s"
    using mem_get_append [of "pre @ [0]" s rest] assms(1) by simp
  with e scan assms(3) show ?thesis by (simp add: s_collect_plain_token_def Let_def)
qed

section \<open>Properties\<close>

definition plain_response :: "byte list \<Rightarrow> byte list \<Rightarrow> byte list" where
  "plain_response login password = 0 # login @ 0 # password"

definition token_ok :: "byte list \<Rightarrow> bool" where
  "token_ok s \<longleftrightarrow> 0 \<notin> set s \<and> s \<noteq> [] \<and> length s \<le> ICL_SHORTSTR_MAX"

lemma auth_tokens:
  assumes "token_ok login" "token_ok password"
  shows "s_auth_plain junk users (plain_response login password) self =
    (case users of
       None \<Rightarrow> Inr (raise_exception ASL_INTERNAL_ERROR ''Bad server configuration'' 0 0 self, 0)
     | Some us \<Rightarrow>
         (let self = (case find (\<lambda>u. us_name u = chars login \<and> us_password u = chars password) us of
                        None \<Rightarrow> self
                      | Some u \<Rightarrow> set_group (chars login) u self)
          in Inr (self, lc_group self)))"
proof -
  let ?r = "plain_response login password"
  have len: "length ?r < 2 ^ 32" and l: "length login < 2 ^ 32 - 1"
    using assms by (simp_all add: token_ok_def plain_response_def ICL_SHORTSTR_MAX_def)
  define w where "w = (word_of_nat (length (0 # login)) :: qbyte)"
  have p: "s_collect_plain_token ?r (word_of_nat (length ?r)) = Inr (chars password, w)"
    unfolding w_def using collect_token [of ?r "0 # login" password "[]"] assms len by (simp add: token_ok_def plain_response_def)
  have g: "s_collect_plain_token ?r w = Inr (chars login, 0)"
    unfolding w_def using collect_token [of ?r "[]" login "0 # password"] assms len by (simp add: token_ok_def plain_response_def)
  have "unat w = length (0 # login)" unfolding w_def using l by (intro unat_qbyte) simp
  then have "w \<noteq> 0" by auto
  moreover have "chars login \<noteq> []" "chars password \<noteq> []" using assms by (simp_all add: token_ok_def chars_def)
  ultimately show ?thesis unfolding s_auth_plain_def p by (simp add: g split: option.splits)
qed

text \<open>
  C19. A client that sends a login and a password of 1 to 255 octets each is authorised exactly if the
  configuration has a user with that name and password, the first of which is in one of the two groups;
  it gets the name and the group of that user, and nothing else of the connection changes.  Any other
  client is refused with an exception and has no group.
\<close>

theorem plain_login_correct:
  assumes "token_ok login" and "token_ok password" and "lc_group self = 0"
  shows "\<exists>self'. amq_server_connection_start_ok junk (Some us) (plain_response login password) self = Inr self' \<and>
    (case find (\<lambda>u. us_name u = chars login \<and> us_password u = chars password) us of
       Some u \<Rightarrow>
         if us_group u = ''normal'' \<or> us_group u = ''super''
         then self' = self\<lparr>lc_authorised := True, lc_user_name := us_name u,
                lc_group := (if us_group u = ''normal'' then AMQ_CONNECTION_GROUP_NORMAL else AMQ_CONNECTION_GROUP_SUPER)\<rparr>
         else \<not> lc_authorised self' \<and> lc_group self' = 0 \<and> map_option xc_reply_code (lc_exception self') = Some ASL_ACCESS_REFUSED
     | None \<Rightarrow>
         \<not> lc_authorised self' \<and> lc_group self' = 0 \<and> map_option xc_reply_code (lc_exception self') = Some ASL_ACCESS_REFUSED)"
proof (cases "find (\<lambda>u. us_name u = chars login \<and> us_password u = chars password) us")
  case None
  with assms(3) show ?thesis
    by (simp add: amq_server_connection_start_ok_def auth_tokens [OF assms(1,2)] raise_exception_def Let_def)
next
  case (Some u)
  then have "us_name u = chars login" by (auto simp: find_Some_iff)
  with Some assms(3) show ?thesis
    by (cases self) (auto simp: amq_server_connection_start_ok_def auth_tokens [OF assms(1,2)] set_group_def raise_exception_def
      AMQ_CONNECTION_GROUP_NORMAL_def AMQ_CONNECTION_GROUP_SUPER_def Let_def)
qed

definition guest :: plain_user where
  "guest = \<lparr>us_name = ''AB'', us_password = ''C'', us_group = ''normal''\<rparr>"

definition new_connection :: login_connection where
  "new_connection = \<lparr>lc_authorised = False, lc_user_name = [], lc_group = 0, lc_exception = None\<rparr>"

theorem plain_login_correct_witness:
  "\<exists>self'. amq_server_connection_start_ok ''junk'' (Some [guest]) (plain_response [65, 66] [67]) new_connection = Inr self' \<and>
    (case find (\<lambda>u. us_name u = chars [65, 66] \<and> us_password u = chars [67]) [guest] of
       Some u \<Rightarrow>
         if us_group u = ''normal'' \<or> us_group u = ''super''
         then self' = new_connection\<lparr>lc_authorised := True, lc_user_name := us_name u,
                lc_group := (if us_group u = ''normal'' then AMQ_CONNECTION_GROUP_NORMAL else AMQ_CONNECTION_GROUP_SUPER)\<rparr>
         else \<not> lc_authorised self' \<and> lc_group self' = 0 \<and> map_option xc_reply_code (lc_exception self') = Some ASL_ACCESS_REFUSED
     | None \<Rightarrow>
         \<not> lc_authorised self' \<and> lc_group self' = 0 \<and> map_option xc_reply_code (lc_exception self') = Some ASL_ACCESS_REFUSED)"
  by (rule plain_login_correct) (simp_all add: token_ok_def ICL_SHORTSTR_MAX_def new_connection_def)

text \<open>
  C38. A response that holds a password and no login leaves the login uninitialised: it is compared with
  the user names as the stack memory has it, so that who knows the password alone is authorised if the
  memory still holds the name.
\<close>

theorem plain_login_uninitialised:
  assumes "token_ok password" and "us_password u = chars password" and "us_group u = ''normal''"
    and "us_name u \<noteq> []" and "lc_group self = 0"
  shows "\<exists>self'. amq_server_connection_start_ok stack (Some [u]) (0 # password) self = Inr self' \<and>
    (lc_authorised self' \<longleftrightarrow> stack = us_name u)"
proof -
  have p: "s_collect_plain_token (0 # password) (word_of_nat (length (0 # password))) = Inr (chars password, 0)"
    using collect_token [of "0 # password" "[]" password "[]"] assms(1)
    by (simp add: token_ok_def ICL_SHORTSTR_MAX_def)
  have "chars password \<noteq> []" using assms(1) by (simp add: token_ok_def chars_def)
  then show ?thesis
    unfolding amq_server_connection_start_ok_def s_auth_plain_def p using assms(2-5)
    by (cases "stack = us_name u"; cases "stack = []")
      (auto simp: set_group_def raise_exception_def AMQ_CONNECTION_GROUP_NORMAL_def Let_def)
qed

theorem plain_login_uninitialised_witness:
  "\<exists>self'. amq_server_connection_start_ok ''AB'' (Some [guest]) [0, 67] new_connection = Inr self' \<and>
    (lc_authorised self' \<longleftrightarrow> ''AB'' = us_name guest)"
proof (rule plain_login_uninitialised)
  show "us_password guest = chars [67]" by code_simp
qed (simp_all add: token_ok_def ICL_SHORTSTR_MAX_def new_connection_def guest_def)

text \<open>
  An empty response makes the offset of the last octet wrap around to the largest 32-bit number, and
  the scan for the password reads there.
\<close>

theorem empty_response_overreads:
  "amq_server_connection_start_ok stack users [] self = Inl Out_Of_Bounds"
proof -
  have "unat (- 1 :: qbyte) \<noteq> 0" by (simp only: unsigned_eq_0_iff) simp
  then have "scan_back [] (unat (- 1 :: qbyte)) = Inl Out_Of_Bounds" by (intro scan_back_beyond) auto
  then show ?thesis
    by (simp add: amq_server_connection_start_ok_def s_auth_plain_def s_collect_plain_token_def Let_def)
qed

definition serves :: "int \<Rightarrow> amq_failover \<Rightarrow> bool" where
  "serves now fo \<longleftrightarrow>
     (case fo_state fo of
        Some amq_ha_state_pending \<Rightarrow> fo_primary fo
      | Some amq_ha_state_active \<Rightarrow> True
      | Some amq_ha_state_passive \<Rightarrow> now - fo_last_peer_time fo > fo_timeout fo
      | None \<Rightarrow> False)"

text \<open>
  C20. The Open method accepts a connection to the configured virtual host, and of an application (a
  connection of the normal group) only if the broker is not locked and, where failover is enabled,
  serves as the master: it is active, waits as the primary, or has not heard from the master for
  longer than the timeout.  Any other connection gets an exception, and the failover state changes
  only with an application that makes a passive broker the master.
\<close>

theorem connection_open_gate:
  assumes "fo_enabled fo \<longrightarrow> fo_state fo \<noteq> None" and "lc_exception self = None"
  shows "\<exists>self' fo'. amq_server_connection_open now locked config_vhost vhost self fo = Inr (self', fo') \<and>
    (lc_exception self' = None \<longleftrightarrow> vhost = config_vhost \<and>
       (lc_group self = AMQ_CONNECTION_GROUP_NORMAL \<longrightarrow> \<not> locked \<and> (fo_enabled fo \<longrightarrow> serves now fo))) \<and>
    (fo' \<noteq> fo \<longrightarrow> lc_exception self' = None \<and> fo_state fo = Some amq_ha_state_passive \<and>
       fo' = fo\<lparr>fo_state := Some amq_ha_state_active\<rparr>)"
proof (cases "fo_enabled fo \<and> lc_group self = AMQ_CONNECTION_GROUP_NORMAL")
  case True
  with assms(1) obtain st where "fo_state fo = Some st" by auto
  with True assms(2) show ?thesis
    by (cases st) (auto simp: amq_server_connection_open_def refuse_open_def raise_exception_def serves_def
      amq_failover_execute_def)
next
  case False
  with assms(2) show ?thesis
    by (auto simp: amq_server_connection_open_def refuse_open_def raise_exception_def)
qed

theorem connection_open_gate_witness:
  "\<exists>self' fo'. amq_server_connection_open 50 False ''/'' ''/'' new_connection (amq_failover_new '''' ''primary'' 10) = Inr (self', fo') \<and>
    (lc_exception self' = None \<longleftrightarrow> ''/'' = ''/'' \<and>
       (lc_group new_connection = AMQ_CONNECTION_GROUP_NORMAL \<longrightarrow> \<not> False \<and>
         (fo_enabled (amq_failover_new '''' ''primary'' 10) \<longrightarrow> serves 50 (amq_failover_new '''' ''primary'' 10)))) \<and>
    (fo' \<noteq> amq_failover_new '''' ''primary'' 10 \<longrightarrow> lc_exception self' = None \<and>
       fo_state (amq_failover_new '''' ''primary'' 10) = Some amq_ha_state_passive \<and>
       fo' = (amq_failover_new '''' ''primary'' 10)\<lparr>fo_state := Some amq_ha_state_active\<rparr>)"
  by (rule connection_open_gate) (simp_all add: new_connection_def)

text \<open>The class and the method of a refused Open change places in the exception.\<close>

lemma open_refused_ids:
  assumes "lc_group self = AMQ_CONNECTION_GROUP_NORMAL"
  shows "\<exists>self'. amq_server_connection_open now True config_vhost vhost self fo = Inr (self', fo) \<and>
    map_option xc_faulting_class_id (lc_exception self') = Some AMQ_SERVER_CONNECTION_OPEN \<and>
    map_option xc_faulting_method_id (lc_exception self') = Some AMQ_SERVER_CONNECTION"
  using assms by (simp add: amq_server_connection_open_def refuse_open_def raise_exception_def)

end
