(* ===== verification/Amq_Broker.thy ===== *)
theory Amq_Broker
  imports Amq_Exchange_Kinds Amq_Queue Amq_Login
begin

text \<open>
  The broker: the tables of exchanges and queues (\<^verbatim>\<open>server/amq_broker.icl\<close>), the creation of the two
  kinds of object with their configuration, and the protocol methods a client calls
  (\<^verbatim>\<open>server/amq_server.asl\<close>), put together with the exchanges and queues of the other theories.

  The methods of an exchange, of a queue and of the broker object are asynchronous: calling one puts a
  message in the mailbox of the object, which works on its messages in order, while different objects
  work at the same time.  The mailboxes are one list of calls here, in the order they were made; a step
  of the broker takes a call that has no earlier one for the same object and runs it to its end.
  A protocol method runs to its end too, and is a step of its own.

  Objects are known by their addresses; an object that others still link to goes on working after it has
  been taken out of the tables, so queues and exchanges stay in the stores \<open>br_queues\<close> and
  \<open>br_exchanges\<close>.  What is sent to clients is appended to \<open>br_sent\<close>.  The consumers of a channel, the
  console, leases and the links of the federation to other brokers are left out.
\<close>

section \<open>Data\<close>

record broker_exchange =
  bx_name :: string
  bx_internal :: bool
  bx_destroyed :: bool
  bx_state :: amq_exchange

record broker_queue =
  bq_name :: string
  bq_state :: amq_queue

record channel_context =
  cc_current_exchange :: string
  cc_current_queue :: string

datatype broker_call =
    Call_Bind nat "nat option" queue_ref string "byte list"
  | Call_Unbind nat queue_ref string "byte list"
  | Call_Publish nat "nat option" amq_content bool bool
  | Call_Drop nat queue_ref
  | Call_Queue_Publish nat "nat option" amq_content bool
  | Call_Get nat "nat option"
  | Call_Purge nat "nat option" bool
  | Call_Dispatch nat
  | Call_Self_Destruct nat
  | Call_Auto_Delete nat
  | Call_Delete_Queue nat
  | Call_Unbind_Connections nat

datatype broker_object = Exchange_Object nat | Queue_Object nat | Timer_Object nat | Broker_Object

fun call_target :: "broker_call \<Rightarrow> broker_object" where
  "call_target (Call_Bind x ch q key args) = Exchange_Object x"
| "call_target (Call_Unbind x q key args) = Exchange_Object x"
| "call_target (Call_Publish x ch content mandatory immediate) = Exchange_Object x"
| "call_target (Call_Drop x q) = Exchange_Object x"
| "call_target (Call_Queue_Publish q ch content immediate) = Queue_Object q"
| "call_target (Call_Get q ch) = Queue_Object q"
| "call_target (Call_Purge q ch nowait) = Queue_Object q"
| "call_target (Call_Dispatch q) = Queue_Object q"
| "call_target (Call_Self_Destruct q) = Queue_Object q"
| "call_target (Call_Auto_Delete q) = Timer_Object q"
| "call_target (Call_Delete_Queue q) = Broker_Object"
| "call_target (Call_Unbind_Connections q) = Broker_Object"

datatype broker_event =
    Queue_Event nat queue_event
  | Exchange_Declare_Ok nat
  | Exchange_Delete_Ok nat
  | Queue_Declare_Ok nat string nat nat
  | Queue_Bind_Ok nat
  | Queue_Unbind_Ok nat
  | Queue_Delete_Ok nat nat
  | Message_Returned nat amq_content
  | Error_On_Channel nat nat string
  | Error_On_Connection nat nat string

record amq_broker =
  br_exchange_table :: "string \<rightharpoonup> nat"
  br_exchange_list :: "nat list"
  br_exchanges :: "nat \<rightharpoonup> broker_exchange"
  br_default_exchange :: nat
  br_queue_table :: "string \<rightharpoonup> nat"
  br_queues :: "nat \<rightharpoonup> broker_queue"
  br_contexts :: "nat \<Rightarrow> channel_context"
  br_channels :: "nat \<rightharpoonup> amq_server_channel"
  br_connections :: "nat \<rightharpoonup> amq_server_connection"
  br_own_queues :: "nat \<Rightarrow> nat list"
  br_queue_index :: qbyte
  br_calls :: "broker_call list"
  br_sent :: "broker_event list"

definition ASL_NOT_FOUND :: nat where "ASL_NOT_FOUND = 404"
definition ASL_COMMAND_INVALID :: nat where "ASL_COMMAND_INVALID = 503"
definition ASL_RESOURCE_ERROR :: nat where "ASL_RESOURCE_ERROR = 506"
definition ASL_NOT_ALLOWED :: nat where "ASL_NOT_ALLOWED = 530"
definition ASL_NOT_IMPLEMENTED :: nat where "ASL_NOT_IMPLEMENTED = 540"

definition post :: "broker_call list \<Rightarrow> amq_broker \<Rightarrow> amq_broker" where
  "post cs b = b\<lparr>br_calls := br_calls b @ cs\<rparr>"

definition reply :: "broker_event \<Rightarrow> amq_broker \<Rightarrow> amq_broker" where
  "reply e b = b\<lparr>br_sent := br_sent b @ [e]\<rparr>"

section \<open>Exchanges\<close>

definition amq_exchange_type_lookup :: "string \<Rightarrow> exchange_type option" where
  "amq_exchange_type_lookup type_name =
     (if type_name = ''system'' then Some AMQ_EXCHANGE_SYSTEM
      else if type_name = ''fanout'' then Some AMQ_EXCHANGE_FANOUT
      else if type_name = ''direct'' then Some AMQ_EXCHANGE_DIRECT
      else if type_name = ''topic'' then Some AMQ_EXCHANGE_TOPIC
      else if type_name = ''headers'' then Some AMQ_EXCHANGE_HEADERS
      else if type_name = ''regexp'' then Some AMQ_EXCHANGE_REGEXP
      else None)"

definition amq_exchange_type_name :: "exchange_type \<Rightarrow> string" where
  "amq_exchange_type_name t =
     (case t of
        AMQ_EXCHANGE_SYSTEM \<Rightarrow> ''system'' | AMQ_EXCHANGE_FANOUT \<Rightarrow> ''fanout'' | AMQ_EXCHANGE_DIRECT \<Rightarrow> ''direct''
      | AMQ_EXCHANGE_TOPIC \<Rightarrow> ''topic'' | AMQ_EXCHANGE_HEADERS \<Rightarrow> ''headers'' | AMQ_EXCHANGE_REGEXP \<Rightarrow> ''regexp'')"

definition amq_federation_type_lookup :: "string \<Rightarrow> federation_type option" where
  "amq_federation_type_lookup type_name =
     (if type_name = ''none'' then Some AMQ_FEDERATION_NONE
      else if type_name = ''subscriber'' then Some AMQ_FEDERATION_SUBSCRIBER
      else if type_name = ''publisher'' then Some AMQ_FEDERATION_PUBLISHER
      else if type_name = ''locator'' then Some AMQ_FEDERATION_LOCATOR
      else if type_name = ''fanout'' then Some AMQ_FEDERATION_FANOUT
      else if type_name = ''service'' then Some AMQ_FEDERATION_SERVICE
      else None)"

text \<open>
  The configuration: the federation section, with one entry per \<^verbatim>\<open>federate\<close> element, the queue profiles
  with the name and value of each limit, and two settings of the queues.  Whether a name matches a
  pattern is the business of the regular expression library.
\<close>

record federate_entry =
  fe_exchange :: "string option"
  fe_attach :: "string option"
  fe_type :: "string option"

record broker_config =
  cf_exchange_env :: exchange_env
  cf_matches :: "string \<Rightarrow> string \<Rightarrow> bool"
  cf_attach :: string
  cf_attach_all :: string
  cf_federate :: "federate_entry list"
  cf_profiles :: "string \<rightharpoonup> (string \<times> string) list"
  cf_no_ack :: bool
  cf_queue_timeout :: nat

definition exchange_federation :: "broker_config \<Rightarrow> exchange_type \<Rightarrow> string \<Rightarrow> bool \<Rightarrow> bool \<Rightarrow> federation_type" where
  "exchange_federation cf t name internal auto_federate =
     (let default_type = (if t = AMQ_EXCHANGE_HEADERS then AMQ_FEDERATION_SERVICE else AMQ_FEDERATION_FANOUT);
          located = find (\<lambda>e. case fe_exchange e of None \<Rightarrow> False | Some pattern \<Rightarrow> cf_matches cf name pattern) (cf_federate cf);
          (federation_type, federation_valid) =
            (case located of
               Some e \<Rightarrow>
                 (case fe_type e of
                    Some type_name \<Rightarrow>
                      (case amq_federation_type_lookup type_name of
                         Some ft \<Rightarrow> (ft, ft \<noteq> AMQ_FEDERATION_NONE)
                       | None \<Rightarrow> (default_type, False))
                  | None \<Rightarrow>
                      (default_type, (case fe_attach e of None \<Rightarrow> cf_attach cf | Some a \<Rightarrow> a) \<noteq> []))
             | None \<Rightarrow>
                 (default_type, cf_attach cf \<noteq> [] \<and> (auto_federate \<or> cf_matches cf name (cf_attach_all cf))));
          federation_valid =
            (federation_valid \<and> \<not> (t = AMQ_EXCHANGE_SYSTEM \<or> internal \<or> name = ''$default$''))
      in if federation_valid then federation_type else AMQ_FEDERATION_NONE)"

text \<open>A new exchange goes into the table, unless its name is there already, and into the list.\<close>

definition exchange_new ::
    "broker_config \<Rightarrow> nat \<Rightarrow> exchange_type \<Rightarrow> string \<Rightarrow> bool \<Rightarrow> bool \<Rightarrow> amq_broker \<Rightarrow> nat option \<times> amq_broker" where
  "exchange_new cf new t name internal auto_federate b =
     (if br_exchange_table b name \<noteq> None then (None, b)
      else (Some new,
        b\<lparr>br_exchange_table := (br_exchange_table b)(name \<mapsto> new),
          br_exchange_list := br_exchange_list b @ [new],
          br_exchanges := (br_exchanges b)(new \<mapsto>
            \<lparr>bx_name = name, bx_internal = internal, bx_destroyed = False,
             bx_state = amq_exchange_new t (exchange_federation cf t name internal auto_federate)\<rparr>)\<rparr>))"

definition s_exchange_declare ::
    "broker_config \<Rightarrow> nat \<Rightarrow> string \<Rightarrow> exchange_type \<Rightarrow> bool \<Rightarrow> bool \<Rightarrow> amq_broker \<Rightarrow> amq_broker c_result" where
  "s_exchange_declare cf new name t default_exchange auto_federate b =
     (case exchange_new cf new t name default_exchange auto_federate b of
        (None, b) \<Rightarrow> Inl Assert_Failed
      | (Some x, b) \<Rightarrow> Inr (if default_exchange then b\<lparr>br_default_exchange := x\<rparr> else b))"

definition automatic_wiring :: "(string \<times> exchange_type \<times> bool \<times> bool) list" where
  "automatic_wiring =
     [(''$default$'', AMQ_EXCHANGE_DIRECT, True, False), (''amq.fanout'', AMQ_EXCHANGE_FANOUT, False, False),
      (''amq.direct'', AMQ_EXCHANGE_DIRECT, False, False), (''amq.topic'', AMQ_EXCHANGE_TOPIC, False, False),
      (''amq.headers'', AMQ_EXCHANGE_HEADERS, False, False), (''amq.regexp'', AMQ_EXCHANGE_REGEXP, False, False),
      (''amq.system'', AMQ_EXCHANGE_SYSTEM, False, False), (''amq.status'', AMQ_EXCHANGE_DIRECT, False, False),
      (''amq.notify'', AMQ_EXCHANGE_TOPIC, False, False), (''amq.service'', AMQ_EXCHANGE_DIRECT, False, True),
      (''amq.data'', AMQ_EXCHANGE_TOPIC, False, True), (''amq.dataex'', AMQ_EXCHANGE_HEADERS, False, True)]"

fun declare_all ::
    "broker_config \<Rightarrow> nat \<Rightarrow> (string \<times> exchange_type \<times> bool \<times> bool) list \<Rightarrow> amq_broker \<Rightarrow> amq_broker c_result" where
  "declare_all cf new [] b = Inr b"
| "declare_all cf new ((name, t, default_exchange, auto_federate) # es) b =
     c_bind (s_exchange_declare cf new name t default_exchange auto_federate b) (declare_all cf (new + 1) es)"

definition empty_broker :: "(nat \<rightharpoonup> amq_server_channel) \<Rightarrow> (nat \<rightharpoonup> amq_server_connection) \<Rightarrow> amq_broker" where
  "empty_broker chs cns =
     \<lparr>br_exchange_table = Map.empty, br_exchange_list = [], br_exchanges = Map.empty, br_default_exchange = 0,
      br_queue_table = Map.empty, br_queues = Map.empty,
      br_contexts = (\<lambda>_. \<lparr>cc_current_exchange = [], cc_current_queue = []\<rparr>),
      br_channels = chs, br_connections = cns, br_own_queues = (\<lambda>_. []), br_queue_index = 0,
      br_calls = [], br_sent = []\<rparr>"

text \<open>The exchanges of a new broker get the addresses from 1.\<close>

definition amq_broker_new ::
    "broker_config \<Rightarrow> (nat \<rightharpoonup> amq_server_channel) \<Rightarrow> (nat \<rightharpoonup> amq_server_connection) \<Rightarrow> amq_broker c_result" where
  "amq_broker_new cf chs cns = declare_all cf 1 automatic_wiring (empty_broker chs cns)"

text \<open>Destroying an exchange takes it out of the table and the list; the object is a zombie from then on.\<close>

definition exchange_destroy :: "nat \<Rightarrow> amq_broker \<Rightarrow> amq_broker" where
  "exchange_destroy x b =
     (case br_exchanges b x of
        None \<Rightarrow> b
      | Some bx \<Rightarrow>
          b\<lparr>br_exchange_table := (if br_exchange_table b (bx_name bx) = Some x
              then (br_exchange_table b)(bx_name bx := None) else br_exchange_table b),
            br_exchange_list := filter (\<lambda>y. y \<noteq> x) (br_exchange_list b),
            br_exchanges := (br_exchanges b)(x \<mapsto> bx\<lparr>bx_destroyed := True\<rparr>)\<rparr>)"

text \<open>A call on an exchange: on a zombie it does nothing.\<close>

definition post_exchange :: "nat \<Rightarrow> broker_call \<Rightarrow> amq_broker \<Rightarrow> amq_broker" where
  "post_exchange x c b =
     (case br_exchanges b x of
        None \<Rightarrow> b
      | Some bx \<Rightarrow> if bx_destroyed bx then b else post [c] b)"

section \<open>Queues\<close>

definition new_queue :: "broker_config \<Rightarrow> nat option \<Rightarrow> bool \<Rightarrow> bool \<Rightarrow> amq_queue" where
  "new_queue cf connection exclusive auto_delete =
     \<lparr>q_connection = connection, q_enabled = True, q_exclusive = exclusive, q_auto_delete = auto_delete,
      q_locked = False, q_warn_limit = 0, q_drop_limit = 0, q_trim_limit = 0, q_kill_limit = 0,
      q_feed_on = False, q_feed_no_local = False, q_traffic_in = 0, q_traffic_out = 0, q_contents_in = 0,
      q_contents_out = 0, q_drop_count = 0, q_warned = False, q_dropped = False, q_trimmed = False,
      q_consumer_list = [], q_content_list = [], q_delivery_tag = 0, q_channels = Map.empty,
      q_connections = Map.empty, q_config_no_ack = cf_no_ack cf, q_config_timeout = cf_queue_timeout cf, q_sent = []\<rparr>"

fun limits_loop :: "(string \<times> string) list \<Rightarrow> amq_queue \<Rightarrow> amq_queue" where
  "limits_loop [] q = q"
| "limits_loop ((action_text, limit_text) # limits) q =
     (let limit_value = unat (word_of_int (atoi limit_text) :: qbyte) in
      limits_loop limits
        (if action_text = ''warn'' then q\<lparr>q_warn_limit := limit_value\<rparr>
         else if action_text = ''drop'' then q\<lparr>q_drop_limit := limit_value\<rparr>
         else if action_text = ''trim'' then q\<lparr>q_trim_limit := limit_value\<rparr>
         else if action_text = ''kill'' then q\<lparr>q_kill_limit := limit_value\<rparr>
         else q))"

definition s_set_queue_limits :: "broker_config \<Rightarrow> string \<Rightarrow> amq_queue \<Rightarrow> amq_queue option" where
  "s_set_queue_limits cf profile q = map_option (\<lambda>limits. limits_loop limits q) (cf_profiles cf profile)"

definition PROFILE_KEY :: "byte list" where
  "PROFILE_KEY = [112, 114, 111, 102, 105, 108, 101]"

text \<open>
  The profile of a new queue, and its limits.  An unknown profile is logged with the address of the owner's
  connection, which is read through a null pointer if the queue has no owner.  A table of arguments that
  is badly formed is reported to the null connection.  The first component of the result is the queue,
  if it was made, the second says whether the connection got an error.
\<close>

definition amq_queue_new ::
    "broker_config \<Rightarrow> nat option \<Rightarrow> bool \<Rightarrow> bool \<Rightarrow> byte list \<Rightarrow> (amq_queue option \<times> bool) c_result option" where
  "amq_queue_new cf connection exclusive auto_delete arguments =
     (let q = new_queue cf connection exclusive auto_delete in
      map_option (\<lambda>r. c_bind r (\<lambda>arg_list.
        case arg_list of
          None \<Rightarrow> Inl Assert_Failed
        | Some fs \<Rightarrow>
            c_bind (case find (\<lambda>f. field_name f = PROFILE_KEY) fs of
                      None \<Rightarrow> Inr (if exclusive then ''private'' else ''shared'')
                    | Some profile_field \<Rightarrow>
                        field_text (env_junk (cf_exchange_env cf)) (env_fmt (cf_exchange_env cf)) profile_field) (\<lambda>profile.
              case s_set_queue_limits cf profile q of
                Some q \<Rightarrow> Inr (Some q, False)
              | None \<Rightarrow> if connection = None then Inl Null_Pointer else Inr (None, True))))
        (table_fields arguments))"

definition queue_ref_of :: "nat \<Rightarrow> broker_queue \<Rightarrow> queue_ref" where
  "queue_ref_of q bq = \<lparr>qr_addr = q, qr_name = bq_name bq, qr_exclusive = q_exclusive (bq_state bq)\<rparr>"

definition queue_search :: "amq_broker \<Rightarrow> string \<Rightarrow> (nat \<times> broker_queue) option" where
  "queue_search b name =
     (case br_queue_table b name of
        None \<Rightarrow> None
      | Some q \<Rightarrow> (case br_queues b q of None \<Rightarrow> None | Some bq \<Rightarrow> Some (q, bq)))"

section \<open>The methods of exchanges\<close>

text \<open>The channel and the connection a protocol method came in on.\<close>

record channel_ref =
  cr_channel :: nat
  cr_connection :: nat

definition channel_error :: "channel_ref \<Rightarrow> nat \<Rightarrow> string \<Rightarrow> amq_broker \<Rightarrow> amq_broker" where
  "channel_error cr reply_code reply_text b = reply (Error_On_Channel (cr_channel cr) reply_code reply_text) b"

definition connection_error :: "channel_ref \<Rightarrow> nat \<Rightarrow> string \<Rightarrow> amq_broker \<Rightarrow> amq_broker" where
  "connection_error cr reply_code reply_text b = reply (Error_On_Connection (cr_connection cr) reply_code reply_text) b"

definition ipr_str_prefixed :: "string \<Rightarrow> string \<Rightarrow> bool" where
  "ipr_str_prefixed s pre \<longleftrightarrow>
     (case (s, pre) of ([], []) \<Rightarrow> True | (c # _, d # _) \<Rightarrow> c = d | _ \<Rightarrow> False) \<and>
     length pre \<le> length s \<and> take (length pre) s = pre"

definition set_current_exchange :: "channel_ref \<Rightarrow> string \<Rightarrow> amq_broker \<Rightarrow> amq_broker" where
  "set_current_exchange cr name b =
     b\<lparr>br_contexts := (br_contexts b)(cr_channel cr := (br_contexts b (cr_channel cr))\<lparr>cc_current_exchange := name\<rparr>)\<rparr>"

definition set_current_queue :: "channel_ref \<Rightarrow> string \<Rightarrow> amq_broker \<Rightarrow> amq_broker" where
  "set_current_queue cr name b =
     b\<lparr>br_contexts := (br_contexts b)(cr_channel cr := (br_contexts b (cr_channel cr))\<lparr>cc_current_queue := name\<rparr>)\<rparr>"

definition exchange_declare_finish :: "channel_ref \<Rightarrow> exchange_type \<Rightarrow> bool \<Rightarrow> nat \<Rightarrow> amq_broker \<Rightarrow> amq_broker" where
  "exchange_declare_finish cr t nowait x b =
     (case br_exchanges b x of
        None \<Rightarrow> b
      | Some bx \<Rightarrow>
          if ex_type (bx_state bx) = t then
            let b = set_current_exchange cr (bx_name bx) b
            in if nowait then b else reply (Exchange_Declare_Ok (cr_channel cr)) b
          else connection_error cr ASL_NOT_ALLOWED ''Exchange exists with different type'' b)"

definition exchange_declare ::
    "broker_config \<Rightarrow> nat \<Rightarrow> channel_ref \<Rightarrow> string \<Rightarrow> string \<Rightarrow> bool \<Rightarrow> bool \<Rightarrow> bool \<Rightarrow> amq_broker \<Rightarrow> amq_broker" where
  "exchange_declare cf new cr type_name name passive internal nowait b =
     (case amq_exchange_type_lookup type_name of
        None \<Rightarrow> connection_error cr ASL_COMMAND_INVALID ''Unknown exchange type'' b
      | Some t \<Rightarrow>
          (case br_exchange_table b name of
             Some x \<Rightarrow> exchange_declare_finish cr t nowait x b
           | None \<Rightarrow>
               if passive then channel_error cr ASL_NOT_FOUND ''No such exchange defined'' b
               else if ipr_str_prefixed name ''amq.'' then channel_error cr ASL_ACCESS_REFUSED ''Exchange name not allowed'' b
               else (case exchange_new cf new t name internal False b of
                       (None, b) \<Rightarrow> (case br_exchange_table b name of
                                         None \<Rightarrow> b | Some x \<Rightarrow> exchange_declare_finish cr t nowait x b)
                     | (Some x, b) \<Rightarrow> exchange_declare_finish cr t nowait x b)))"

definition exchange_delete :: "channel_ref \<Rightarrow> string \<Rightarrow> bool \<Rightarrow> amq_broker \<Rightarrow> amq_broker" where
  "exchange_delete cr name nowait b =
     (let name = (if name = [] then cc_current_exchange (br_contexts b (cr_channel cr)) else name) in
      if ipr_str_prefixed name ''amq.'' then channel_error cr ASL_ACCESS_REFUSED ''Exchange name not allowed'' b
      else case br_exchange_table b name of
          None \<Rightarrow> channel_error cr ASL_NOT_FOUND ''No such exchange defined'' b
        | Some x \<Rightarrow>
            exchange_destroy x (if nowait then b else reply (Exchange_Delete_Ok (cr_channel cr)) b))"

section \<open>The methods of queues\<close>

text \<open>The end of a declaration, for a queue that was found or made.\<close>

definition queue_declare_finish :: "channel_ref \<Rightarrow> bool \<Rightarrow> bool \<Rightarrow> nat \<Rightarrow> broker_queue \<Rightarrow> amq_broker \<Rightarrow> amq_broker" where
  "queue_declare_finish cr exclusive nowait q bq b =
     (let queue = bq_state bq in
      if exclusive \<and> q_connection queue = None then b
      else if exclusive \<and> q_connection queue \<noteq> Some (cr_connection cr)
      then channel_error cr ASL_ACCESS_REFUSED ''Queue cannot be made exclusive to this connection'' b
      else let b = set_current_queue cr (bq_name bq) b
           in if nowait then b
              else reply (Queue_Declare_Ok (cr_channel cr) (bq_name bq)
                     (amq_queue_basic_message_count queue) (amq_queue_basic_consumer_count queue)) b)"

definition add_queue :: "nat \<Rightarrow> broker_queue \<Rightarrow> amq_broker \<Rightarrow> amq_broker" where
  "add_queue new bq b =
     b\<lparr>br_queue_table := (br_queue_table b)(bq_name bq \<mapsto> new), br_queues := (br_queues b)(new \<mapsto> bq)\<rparr>"

definition own_queue :: "nat \<Rightarrow> nat \<Rightarrow> amq_broker \<Rightarrow> amq_broker" where
  "own_queue cn q b = b\<lparr>br_own_queues := (br_own_queues b)(cn := br_own_queues b cn @ [q])\<rparr>"

definition queue_declare_made ::
    "nat \<Rightarrow> channel_ref \<Rightarrow> string \<Rightarrow> bool \<Rightarrow> bool \<Rightarrow> amq_queue option \<Rightarrow> bool \<Rightarrow> amq_broker \<Rightarrow> amq_broker" where
  "queue_declare_made new cr name exclusive nowait made err b =
     (let b = (if err then connection_error cr ASL_SYNTAX_ERROR ''Unknown queue profile requested'' b else b) in
      case made of
        None \<Rightarrow> connection_error cr ASL_RESOURCE_ERROR ''Unable to declare queue'' b
      | Some queue \<Rightarrow>
          let bq = \<lparr>bq_name = name, bq_state = queue\<rparr>;
              b = add_queue new bq b;
              b = post_exchange (br_default_exchange b)
                    (Call_Bind (br_default_exchange b) None (queue_ref_of new bq) name []) b;
              b = (if exclusive then own_queue (cr_connection cr) new b else b)
          in queue_declare_finish cr exclusive nowait new bq b)"

definition queue_declare ::
    "broker_config \<Rightarrow> nat \<Rightarrow> channel_ref \<Rightarrow> string \<Rightarrow> bool \<Rightarrow> bool \<Rightarrow> bool \<Rightarrow> bool \<Rightarrow> bool \<Rightarrow> byte list \<Rightarrow>
     amq_broker \<Rightarrow> amq_broker c_result option" where
  "queue_declare cf new cr name passive durable exclusive auto_delete nowait arguments b =
     (let (name, b) = (if name = [] then (''auto.'' @ format_d (br_queue_index b), b\<lparr>br_queue_index := br_queue_index b + 1\<rparr>)
                       else (name, b)) in
      case queue_search b name of
        Some (q, bq) \<Rightarrow> Some (Inr (queue_declare_finish cr exclusive nowait q bq b))
      | None \<Rightarrow>
          if passive then Some (Inr (channel_error cr ASL_NOT_FOUND ''No such queue defined'' b))
          else if durable then Some (Inr (channel_error cr ASL_NOT_IMPLEMENTED ''Durable queues not supported'' b))
          else map_option (\<lambda>r. c_bind r (\<lambda>(made, err). Inr (queue_declare_made new cr name exclusive nowait made err b)))
            (amq_queue_new cf (if exclusive then Some (cr_connection cr) else None) exclusive
               (exclusive \<or> auto_delete) arguments))"

text \<open>The current queue of the channel stands for a blank name, and its name for a blank routing key.\<close>

definition named_queue :: "amq_broker \<Rightarrow> channel_ref \<Rightarrow> string \<Rightarrow> string" where
  "named_queue b cr name = (if name = [] then cc_current_queue (br_contexts b (cr_channel cr)) else name)"

definition binding_key :: "amq_broker \<Rightarrow> channel_ref \<Rightarrow> string \<Rightarrow> string \<Rightarrow> string" where
  "binding_key b cr name key =
     (if name = [] \<and> key = [] then cc_current_queue (br_contexts b (cr_channel cr)) else key)"

definition queue_bind :: "channel_ref \<Rightarrow> string \<Rightarrow> string \<Rightarrow> string \<Rightarrow> bool \<Rightarrow> byte list \<Rightarrow> amq_broker \<Rightarrow> amq_broker" where
  "queue_bind cr name exchange key nowait arguments b =
     (case br_exchange_table b exchange of
        None \<Rightarrow> channel_error cr ASL_NOT_FOUND ''No such exchange defined'' b
      | Some x \<Rightarrow>
          (case queue_search b (named_queue b cr name) of
             None \<Rightarrow> channel_error cr ASL_NOT_FOUND ''No such queue defined'' b
           | Some (q, bq) \<Rightarrow>
               let b = post_exchange x (Call_Bind x (Some (cr_channel cr)) (queue_ref_of q bq) (binding_key b cr name key) arguments) b
               in if nowait then b else reply (Queue_Bind_Ok (cr_channel cr)) b))"

definition queue_unbind :: "channel_ref \<Rightarrow> string \<Rightarrow> string \<Rightarrow> string \<Rightarrow> bool \<Rightarrow> byte list \<Rightarrow> amq_broker \<Rightarrow> amq_broker" where
  "queue_unbind cr name exchange key nowait arguments b =
     (case br_exchange_table b exchange of
        None \<Rightarrow> channel_error cr ASL_NOT_FOUND ''No such exchange defined'' b
      | Some x \<Rightarrow>
          (case queue_search b (named_queue b cr name) of
             None \<Rightarrow> channel_error cr ASL_NOT_FOUND ''No such queue defined'' b
           | Some (q, bq) \<Rightarrow>
               let b = post_exchange x (Call_Unbind x (queue_ref_of q bq) (binding_key b cr name key) arguments) b
               in if nowait then b else reply (Queue_Unbind_Ok (cr_channel cr)) b))"

definition queue_delete :: "channel_ref \<Rightarrow> string \<Rightarrow> bool \<Rightarrow> amq_broker \<Rightarrow> amq_broker" where
  "queue_delete cr name nowait b =
     (case queue_search b (named_queue b cr name) of
        None \<Rightarrow> channel_error cr ASL_NOT_FOUND ''No such queue defined'' b
      | Some (q, bq) \<Rightarrow>
          post [Call_Self_Destruct q]
            (if nowait then b
             else reply (Queue_Delete_Ok (cr_channel cr) (amq_queue_basic_message_count (bq_state bq))) b))"

definition queue_purge :: "channel_ref \<Rightarrow> string \<Rightarrow> bool \<Rightarrow> amq_broker \<Rightarrow> amq_broker" where
  "queue_purge cr name nowait b =
     (case queue_search b (named_queue b cr name) of
        None \<Rightarrow> channel_error cr ASL_NOT_FOUND ''No such queue defined'' b
      | Some (q, bq) \<Rightarrow> post [Call_Purge q (Some (cr_channel cr)) nowait] b)"

section \<open>The methods of contents\<close>

definition connection_id :: "amq_broker \<Rightarrow> nat \<Rightarrow> string" where
  "connection_id b cn = (case br_connections b cn of None \<Rightarrow> [] | Some c \<Rightarrow> cn_id c)"

definition basic_publish ::
    "channel_ref \<Rightarrow> string \<Rightarrow> string \<Rightarrow> bool \<Rightarrow> bool \<Rightarrow> amq_content \<Rightarrow> amq_broker \<Rightarrow> amq_broker" where
  "basic_publish cr exchange key mandatory immediate content b =
     (case (if exchange = [] then Some (br_default_exchange b) else br_exchange_table b exchange) of
        None \<Rightarrow> channel_error cr ASL_NOT_FOUND ''No such exchange defined'' b
      | Some x \<Rightarrow>
          (case br_exchanges b x of
             None \<Rightarrow> b
           | Some bx \<Rightarrow>
               if \<not> bx_internal bx \<or> exchange = [] then
                 let content = content\<lparr>ct_routing_key := key, ct_producer_id := connection_id b (cr_connection cr)\<rparr>
                 in post_exchange x (Call_Publish x (Some (cr_channel cr)) content mandatory immediate) b
               else channel_error cr ASL_ACCESS_REFUSED ''Exchange is for internal use only'' b))"

definition basic_get :: "channel_ref \<Rightarrow> string \<Rightarrow> amq_broker \<Rightarrow> amq_broker" where
  "basic_get cr name b =
     (case queue_search b (named_queue b cr name) of
        None \<Rightarrow> channel_error cr ASL_NOT_FOUND ''No such queue defined'' b
      | Some (q, bq) \<Rightarrow> post [Call_Get q (Some (cr_channel cr))] b)"

section \<open>The calls\<close>

definition update_exchange :: "nat \<Rightarrow> amq_exchange \<Rightarrow> amq_broker \<Rightarrow> amq_broker" where
  "update_exchange x st b =
     b\<lparr>br_exchanges := (br_exchanges b)(x := map_option (\<lambda>bx. bx\<lparr>bx_state := st\<rparr>) (br_exchanges b x))\<rparr>"

text \<open>What a method of a queue sends: the calls among it go to the mailboxes.\<close>

fun event_calls :: "nat \<Rightarrow> queue_event \<Rightarrow> broker_call list" where
  "event_calls q Dispatch_Queue = [Call_Dispatch q]"
| "event_calls q Self_Destruct = [Call_Self_Destruct q]"
| "event_calls q Delete_Queue = [Call_Delete_Queue q]"
| "event_calls q Unbind_Queue = [Call_Unbind_Connections q]"
| "event_calls q Auto_Delete_Timer = [Call_Auto_Delete q]"
| "event_calls q e = []"

definition queue_view :: "amq_broker \<Rightarrow> broker_queue \<Rightarrow> amq_queue" where
  "queue_view b bq =
     (bq_state bq)\<lparr>q_channels := br_channels b, q_connections := br_connections b, q_sent := []\<rparr>"

definition queue_store :: "nat \<Rightarrow> broker_queue \<Rightarrow> amq_queue \<Rightarrow> amq_broker \<Rightarrow> amq_broker" where
  "queue_store q bq queue b =
     b\<lparr>br_queues := (br_queues b)(q \<mapsto> bq\<lparr>bq_state := queue\<rparr>), br_channels := q_channels queue,
       br_calls := br_calls b @ concat (map (event_calls q) (q_sent queue)),
       br_sent := br_sent b @ map (Queue_Event q) (filter (\<lambda>e. event_calls q e = []) (q_sent queue))\<rparr>"

definition run_queue :: "nat \<Rightarrow> (amq_queue \<Rightarrow> amq_queue c_result) \<Rightarrow> amq_broker \<Rightarrow> amq_broker c_result" where
  "run_queue q f b =
     (case br_queues b q of
        None \<Rightarrow> Inr b
      | Some bq \<Rightarrow> c_bind (f (queue_view b bq)) (\<lambda>queue. Inr (queue_store q bq queue b)))"

text \<open>Taking a queue out of the table, and asking every exchange to drop its bindings.\<close>

definition amq_broker_delete_queue :: "nat \<Rightarrow> amq_broker \<Rightarrow> amq_broker" where
  "amq_broker_delete_queue q b =
     (case br_queues b q of
        None \<Rightarrow> b
      | Some bq \<Rightarrow>
          (post (map (\<lambda>x. Call_Drop x (queue_ref_of q bq)) (br_exchange_list b)) b)
            \<lparr>br_queue_table := (if br_queue_table b (bq_name bq) = Some q
               then (br_queue_table b)(bq_name bq := None) else br_queue_table b)\<rparr>)"

definition amq_broker_unbind_queue :: "nat \<Rightarrow> amq_broker \<Rightarrow> amq_broker" where
  "amq_broker_unbind_queue q b = b\<lparr>br_own_queues := (\<lambda>cn. remove1 q (br_own_queues b cn))\<rparr>"

definition exec_bind ::
    "broker_config \<Rightarrow> nat \<Rightarrow> nat \<Rightarrow> nat option \<Rightarrow> queue_ref \<Rightarrow> string \<Rightarrow> byte list \<Rightarrow> amq_broker \<Rightarrow> amq_broker c_result option" where
  "exec_bind cf new x ch queue key arguments b =
     (case br_exchanges b x of
        None \<Rightarrow> Some (Inr b)
      | Some bx \<Rightarrow>
          map_option (\<lambda>r. c_bind r (\<lambda>(st, err).
            let b = update_exchange x st b
            in Inr (case (err, ch) of
                 (True, Some a) \<Rightarrow> reply (Error_On_Channel a ASL_NOT_ALLOWED ''Invalid bind mix for service federation'') b
               | _ \<Rightarrow> b)))
            (amq_exchange_bind_queue (exchange_compile (cf_exchange_env cf) (ex_type (bx_state bx))) new (ch \<noteq> None)
               queue key arguments (bx_state bx)))"

text \<open>A publication calls every queue it is for; a message without a route goes back to its sender.\<close>

definition exec_publish ::
    "broker_config \<Rightarrow> nat \<Rightarrow> nat option \<Rightarrow> amq_content \<Rightarrow> bool \<Rightarrow> bool \<Rightarrow> amq_broker \<Rightarrow> amq_broker c_result option" where
  "exec_publish cf x ch content mandatory immediate b =
     (case br_exchanges b x of
        None \<Rightarrow> Some (Inr b)
      | Some bx \<Rightarrow>
          map_option (\<lambda>r. c_bind r (\<lambda>(st, outcome).
            let b = update_exchange x st b;
                b = post (map (\<lambda>q. Call_Queue_Publish q ch content immediate) (po_queues outcome)) b;
                connection = Option.bind (Option.bind ch (br_channels b)) (\<lambda>c. Option.bind (ch_connection c) (br_connections b))
            in Inr (if po_returned outcome \<and> connection \<noteq> None
                    then reply (Message_Returned (the ch) (content\<lparr>ct_returned := True\<rparr>)) b else b)))
            (amq_exchange_publish (exchange_publish_fn (cf_exchange_env cf) (ex_type (bx_state bx))) (ch \<noteq> None)
               mandatory content (bx_state bx)))"

definition broker_exec :: "broker_config \<Rightarrow> nat \<Rightarrow> broker_call \<Rightarrow> amq_broker \<Rightarrow> amq_broker c_result option" where
  "broker_exec cf new c b =
     (case c of
        Call_Bind x ch queue key arguments \<Rightarrow> exec_bind cf new x ch queue key arguments b
      | Call_Unbind x queue key arguments \<Rightarrow>
          (case br_exchanges b x of
             None \<Rightarrow> Some (Inr b)
           | Some bx \<Rightarrow> Some (c_bind (amq_exchange_unbind_queue (exchange_unbind (ex_type (bx_state bx))) queue key arguments (bx_state bx))
               (\<lambda>st. Inr (update_exchange x st b))))
      | Call_Publish x ch content mandatory immediate \<Rightarrow> exec_publish cf x ch content mandatory immediate b
      | Call_Drop x queue \<Rightarrow>
          (case br_exchanges b x of
             None \<Rightarrow> Some (Inr b)
           | Some bx \<Rightarrow> Some (c_bind (amq_exchange_broker_unbind_queue (exchange_unbind (ex_type (bx_state bx))) queue (bx_state bx))
               (\<lambda>st. Inr (update_exchange x st b))))
      | Call_Queue_Publish q ch content immediate \<Rightarrow> Some (run_queue q (amq_queue_publish ch content immediate) b)
      | Call_Get q ch \<Rightarrow> Some (run_queue q (\<lambda>queue. Inr (amq_queue_get ch queue)) b)
      | Call_Purge q ch nowait \<Rightarrow> Some (run_queue q (\<lambda>queue. Inr (amq_queue_purge ch nowait queue)) b)
      | Call_Dispatch q \<Rightarrow> Some (run_queue q amq_queue_dispatch b)
      | Call_Self_Destruct q \<Rightarrow> Some (run_queue q (\<lambda>queue. Inr (amq_queue_self_destruct queue)) b)
      | Call_Auto_Delete q \<Rightarrow> Some (run_queue q (\<lambda>queue. Inr (amq_queue_auto_delete queue)) b)
      | Call_Delete_Queue q \<Rightarrow> Some (Inr (amq_broker_delete_queue q b))
      | Call_Unbind_Connections q \<Rightarrow> Some (Inr (amq_broker_unbind_queue q b)))"

section \<open>Steps\<close>

text \<open>A call may be taken if no earlier one is for the same object.\<close>

definition ready :: "nat \<Rightarrow> broker_call list \<Rightarrow> bool" where
  "ready i cs \<longleftrightarrow> i < length cs \<and> list_all (\<lambda>c. call_target c \<noteq> call_target (cs ! i)) (take i cs)"

definition take_call :: "nat \<Rightarrow> amq_broker \<Rightarrow> amq_broker" where
  "take_call i b = b\<lparr>br_calls := take i (br_calls b) @ drop (Suc i) (br_calls b)\<rparr>"

definition broker_step :: "broker_config \<Rightarrow> nat \<Rightarrow> nat \<Rightarrow> amq_broker \<Rightarrow> amq_broker c_result option" where
  "broker_step cf new i b =
     (if ready i (br_calls b) then broker_exec cf new (br_calls b ! i) (take_call i b) else Some (Inr b))"

datatype client_method =
    Exchange_Declare string string bool bool bool
  | Exchange_Delete string bool
  | Queue_Declare string bool bool bool bool bool "byte list"
  | Queue_Bind string string string bool "byte list"
  | Queue_Unbind string string string bool "byte list"
  | Queue_Delete string bool
  | Queue_Purge string bool
  | Basic_Publish string string bool bool amq_content
  | Basic_Get string

definition client_exec ::
    "broker_config \<Rightarrow> nat \<Rightarrow> channel_ref \<Rightarrow> client_method \<Rightarrow> amq_broker \<Rightarrow> amq_broker c_result option" where
  "client_exec cf new cr m b =
     (case m of
        Exchange_Declare type_name name passive internal nowait \<Rightarrow>
          Some (Inr (exchange_declare cf new cr type_name name passive internal nowait b))
      | Exchange_Delete name nowait \<Rightarrow> Some (Inr (exchange_delete cr name nowait b))
      | Queue_Declare name passive durable exclusive auto_delete nowait arguments \<Rightarrow>
          queue_declare cf new cr name passive durable exclusive auto_delete nowait arguments b
      | Queue_Bind name exchange key nowait arguments \<Rightarrow> Some (Inr (queue_bind cr name exchange key nowait arguments b))
      | Queue_Unbind name exchange key nowait arguments \<Rightarrow> Some (Inr (queue_unbind cr name exchange key nowait arguments b))
      | Queue_Delete name nowait \<Rightarrow> Some (Inr (queue_delete cr name nowait b))
      | Queue_Purge name nowait \<Rightarrow> Some (Inr (queue_purge cr name nowait b))
      | Basic_Publish exchange key mandatory immediate content \<Rightarrow>
          Some (Inr (basic_publish cr exchange key mandatory immediate content b))
      | Basic_Get name \<Rightarrow> Some (Inr (basic_get cr name b)))"

text \<open>A new object gets an address that no exchange and no queue has.\<close>

definition free_address :: "nat \<Rightarrow> amq_broker \<Rightarrow> bool" where
  "free_address a b \<longleftrightarrow> a \<noteq> 0 \<and> br_exchanges b a = None \<and> br_queues b a = None"

inductive broker_reach :: "broker_config \<Rightarrow> amq_broker \<Rightarrow> amq_broker \<Rightarrow> bool" for cf b0 where
  begin_broker: "broker_reach cf b0 b0"
| client_step: "broker_reach cf b0 b \<Longrightarrow> free_address new b \<Longrightarrow> client_exec cf new cr m b = Some (Inr b') \<Longrightarrow>
     broker_reach cf b0 b'"
| object_step: "broker_reach cf b0 b \<Longrightarrow> broker_step cf new i b = Some (Inr b') \<Longrightarrow> broker_reach cf b0 b'"

end
