(* ===== verification/Amq_Exchange_Properties.thy ===== *)
theory Amq_Exchange_Properties
  imports Amq_Exchange_Kinds
begin

text \<open>
  The properties of exchanges: each implementation refines the specification in every reachable state,
  and what the exchange does outside the conditions of the refinement.
\<close>

section \<open>Refinement\<close>

abbreviation kind_exec :: "exchange_env \<Rightarrow> exchange_type \<Rightarrow> command \<Rightarrow> amq_exchange \<Rightarrow> (amq_exchange \<times> nat list) c_result option" where
  "kind_exec env t \<equiv> exec (exchange_compile env t) (exchange_unbind t) (exchange_publish_fn env t)"

abbreviation kind_reach ::
    "exchange_env \<Rightarrow> exchange_type \<Rightarrow> (command \<Rightarrow> amq_exchange \<Rightarrow> bool) \<Rightarrow> amq_exchange \<Rightarrow>
     (string \<times> byte list \<times> nat) set \<Rightarrow> bool" where
  "kind_reach env t ok \<equiv>
     ex_reach (exchange_compile env t) (exchange_unbind t) (exchange_publish_fn env t) ok t AMQ_FEDERATION_NONE"

abbreviation direct_ok :: "(nat \<Rightarrow> string) \<Rightarrow> command \<Rightarrow> amq_exchange \<Rightarrow> bool" where
  "direct_ok qn \<equiv> command_ok qn AMQ_EXCHANGE_DIRECT plain_admits (\<lambda>_ _. True) key_hits"

text \<open>
  C1. A direct exchange refines its specification, the set of queues bound under each key.  In every
  state it can reach from its creation by binding without arguments, unbinding, deleting queues and
  publishing, every further such operation succeeds, changes the set of bound queues as the
  specification says, and a message is put exactly once on each queue bound under its routing key and
  on no other.
\<close>

theorem direct_exchange_refines:
  assumes "inj qn" and "kind_reach env AMQ_EXCHANGE_DIRECT (direct_ok qn) x B" and "direct_ok qn cmd x"
  shows "\<exists>y out. kind_exec env AMQ_EXCHANGE_DIRECT cmd x = Some (Inr (y, out)) \<and>
    kind_reach env AMQ_EXCHANGE_DIRECT (direct_ok qn) y (spec_step AMQ_EXCHANGE_DIRECT cmd B) \<and>
    bound y = spec_step AMQ_EXCHANGE_DIRECT cmd B \<and> distinct out \<and> set out = spec_output key_hits cmd B"
  by (rule direct.exchange_refines [OF assms(2,1,3)])

definition queue_name :: "nat \<Rightarrow> string" where
  "queue_name q = replicate q CHR ''q''"

lemma queue_name_inj: "inj queue_name"
  by (rule injI) (metis queue_name_def length_replicate)

definition queue_at :: "nat \<Rightarrow> queue_ref" where
  "queue_at q = \<lparr>qr_addr = q, qr_name = queue_name q, qr_exclusive = False\<rparr>"

definition void_env :: exchange_env where
  "void_env = \<lparr>env_re = (\<lambda>_ _. False), env_junk = (\<lambda>_. 0), env_fmt = void_format, env_counts = (\<lambda>_. 5)\<rparr>"

lemma bind_new_ok:
  "admits (amq_exchange_new t fed) (spec_key t key) args \<Longrightarrow>
   command_ok queue_name t admits accepts hits (Bind 40 True (queue_at 7) key args) (amq_exchange_new t fed)"
  by (simp add: command_ok_def queue_at_def has_room_def amq_exchange_new_def ipr_index_new_def BITS_CAP_def
      IPR_BITS_SIZE_def)

theorem direct_exchange_refines_witness:
  "\<exists>y out. kind_exec void_env AMQ_EXCHANGE_DIRECT (Bind 40 True (queue_at 7) ''k'' [])
     (amq_exchange_new AMQ_EXCHANGE_DIRECT AMQ_FEDERATION_NONE) = Some (Inr (y, out)) \<and> bound y = {(''k'', [], 7)}"
  using direct_exchange_refines [where env = void_env, OF queue_name_inj ex_reach.reach_new bind_new_ok [where key = "''k''" and args = "[]"]]
  by (auto simp: plain_admits_def spec_step_def spec_key_def queue_at_def)

abbreviation fanout_ok :: "(nat \<Rightarrow> string) \<Rightarrow> command \<Rightarrow> amq_exchange \<Rightarrow> bool" where
  "fanout_ok qn \<equiv> command_ok qn AMQ_EXCHANGE_FANOUT fanout_admits (\<lambda>_ _. True) all_hits"

text \<open>
  C4. A fanout exchange refines its specification: in every reachable state, with bindings made
  without arguments, every operation succeeds, and a message is put exactly once on each bound queue,
  whatever the routing keys of the message and of the bindings.
\<close>

theorem fanout_exchange_refines:
  assumes "inj qn" and "kind_reach env AMQ_EXCHANGE_FANOUT (fanout_ok qn) x B" and "fanout_ok qn cmd x"
  shows "\<exists>y out. kind_exec env AMQ_EXCHANGE_FANOUT cmd x = Some (Inr (y, out)) \<and>
    kind_reach env AMQ_EXCHANGE_FANOUT (fanout_ok qn) y (spec_step AMQ_EXCHANGE_FANOUT cmd B) \<and>
    bound y = spec_step AMQ_EXCHANGE_FANOUT cmd B \<and> distinct out \<and> set out = spec_output all_hits cmd B"
  by (rule fanout.exchange_refines [OF assms(2,1,3)])

theorem fanout_exchange_refines_witness:
  "\<exists>y out. kind_exec void_env AMQ_EXCHANGE_FANOUT (Bind 40 True (queue_at 7) ''k'' [])
     (amq_exchange_new AMQ_EXCHANGE_FANOUT AMQ_FEDERATION_NONE) = Some (Inr (y, out)) \<and> bound y = {([], [], 7)}"
  using fanout_exchange_refines [where env = void_env, OF queue_name_inj ex_reach.reach_new bind_new_ok [where key = "''k''" and args = "[]"]]
  by (auto simp: fanout_admits_def spec_step_def spec_key_def queue_at_def)

abbreviation topic_ok :: "exchange_env \<Rightarrow> (nat \<Rightarrow> string) \<Rightarrow> command \<Rightarrow> amq_exchange \<Rightarrow> bool" where
  "topic_ok env qn \<equiv> command_ok qn AMQ_EXCHANGE_TOPIC (topic_admits (env_re env)) (\<lambda>_ _. True) (topic_hits (env_re env))"

text \<open>
  C2. A topic exchange refines its specification: in every reachable state every operation succeeds,
  and a message is put exactly once on each queue bound under a pattern that its routing key matches
  and on no other.  A pattern must fit its buffer, and a key without wildcards must not be bound for
  the first time after a wildcard pattern that matches it, unless a message with that key has been
  published before.
\<close>

theorem topic_exchange_refines:
  assumes "inj qn" and "kind_reach env AMQ_EXCHANGE_TOPIC (topic_ok env qn) x B" and "topic_ok env qn cmd x"
  shows "\<exists>y out. kind_exec env AMQ_EXCHANGE_TOPIC cmd x = Some (Inr (y, out)) \<and>
    kind_reach env AMQ_EXCHANGE_TOPIC (topic_ok env qn) y (spec_step AMQ_EXCHANGE_TOPIC cmd B) \<and>
    bound y = spec_step AMQ_EXCHANGE_TOPIC cmd B \<and> distinct out \<and>
    set out = spec_output (topic_hits (env_re env)) cmd B"
  by (rule topic.exchange_refines [OF assms(2,1,3)])

lemma star_pattern: "s_topic_to_regexp ''a.*'' = Inr (True, ''^a`.(?: |`w*)$'')"
  by code_simp

theorem topic_exchange_refines_witness:
  "\<exists>y out. kind_exec void_env AMQ_EXCHANGE_TOPIC (Bind 40 True (queue_at 7) ''a.*'' [])
     (amq_exchange_new AMQ_EXCHANGE_TOPIC AMQ_FEDERATION_NONE) = Some (Inr (y, out)) \<and> bound y = {(''a.*'', [], 7)}"
  using topic_exchange_refines [where env = void_env, OF queue_name_inj ex_reach.reach_new bind_new_ok [where key = "''a.*''" and args = "[]"]]
  by (auto simp: topic_admits_def table_fields_empty star_pattern spec_step_def spec_key_def queue_at_def)

abbreviation headers_ok :: "exchange_env \<Rightarrow> (nat \<Rightarrow> string) \<Rightarrow> command \<Rightarrow> amq_exchange \<Rightarrow> bool" where
  "headers_ok env qn \<equiv> command_ok qn AMQ_EXCHANGE_HEADERS (headers_admits env) (headers_accepts env) (headers_hits env)"

text \<open>
  C3. A headers exchange refines its specification: in every reachable state every operation
  succeeds, and a message is put exactly once on each queue of a binding whose arguments it meets, all
  of them or, if the arguments say so, any, and on no other queue.  The index keys of the arguments of
  a binding, and those of the headers of a message, are distinct.
\<close>

theorem headers_exchange_refines:
  assumes "inj qn" and "kind_reach env AMQ_EXCHANGE_HEADERS (headers_ok env qn) x B" and "headers_ok env qn cmd x"
  shows "\<exists>y out. kind_exec env AMQ_EXCHANGE_HEADERS cmd x = Some (Inr (y, out)) \<and>
    kind_reach env AMQ_EXCHANGE_HEADERS (headers_ok env qn) y (spec_step AMQ_EXCHANGE_HEADERS cmd B) \<and>
    bound y = spec_step AMQ_EXCHANGE_HEADERS cmd B \<and> distinct out \<and>
    set out = spec_output (headers_hits env) cmd B"
  by (rule headers.exchange_refines [OF assms(2,1,3)])

theorem headers_exchange_refines_witness:
  "\<exists>y out. kind_exec void_env AMQ_EXCHANGE_HEADERS (Bind 40 True (queue_at 7) [] [3, 97, 98, 99, 86])
     (amq_exchange_new AMQ_EXCHANGE_HEADERS AMQ_FEDERATION_NONE) = Some (Inr (y, out)) \<and>
     bound y = {([], [3, 97, 98, 99, 86], 7)}"
proof -
  have "asked_keys void_env [3, 97, 98, 99, 86] = Inr [''abc'']"
    using void_tables(1) void_keys(3) by (simp add: asked_keys_def void_env_def)
  then have "headers_admits void_env (amq_exchange_new AMQ_EXCHANGE_HEADERS AMQ_FEDERATION_NONE)
      (spec_key AMQ_EXCHANGE_HEADERS []) [3, 97, 98, 99, 86]" by (simp add: headers_admits_def)
  from headers_exchange_refines [where env = void_env, OF queue_name_inj ex_reach.reach_new bind_new_ok, OF this]
  show ?thesis by (auto simp: spec_step_def spec_key_def queue_at_def)
qed

section \<open>Outside the conditions\<close>

lemma same_binding_asD: "same_binding_as x k a p \<Longrightarrow> key_at x p = k \<and> args_at x p = a"
  by (auto simp: same_binding_as_def split: option.splits)

lemma topic_key_unbound:
  assumes "topic_state re x" and "s_topic_to_regexp k = Inr (False, r)" and "amq_index_search (ex_indices x) k = None"
    and "p \<in> set (ex_binding_list x)"
  shows "key_at x p \<noteq> k"
  using assms by (auto simp: topic_state_def topic_inv_def)

lemma single_route:
  assumes "bits_wf bits" and "bits_abs bits = {n}" and "ix_data (ex_binding_index y) n = p" and "p \<noteq> 0"
    and "ex_bindings y p = Some b" and "bn_queue_set b = [q]" and "q \<noteq> 0"
  shows "exchange_route y bits = Inr [q]"
proof -
  obtain ns where ns: "ipr_bits_members bits = Inr ns" "set ns = {n}" "distinct ns"
    using bm.members_set [OF assms(1)] assms(2) by auto
  then have "length ns = 1" using distinct_card [of ns] by simp
  with ns(2) have "ns = [n]" by (cases ns) auto
  with ns(1) assms(3-) show ?thesis
    by (simp add: exchange_route_def amq_binding_collect_def AMQ_QUEUE_SET_MAX_def exchange_deliver_def)
qed

text \<open>
  C32. When a queue is bound to a topic under a key without wildcards that the exchange has not met,
  the index made for the key holds this binding only: a message with that key goes to this queue alone,
  whatever wildcard patterns match the key.
\<close>

theorem topic_exact_hides_wildcard:
  assumes ok: "ex_wf x" "topic_state (env_re env) x" "ex_type x = AMQ_EXCHANGE_TOPIC" and room: "has_room x"
    and new: "new \<noteq> 0" "new \<notin> set (ex_binding_list x)" and q: "qr_addr queue \<noteq> 0"
    and k: "s_topic_to_regexp k = Inr (False, r)" "amq_index_search (ex_indices x) k = None" "k \<noteq> []"
    and m: "ct_routing_key m = k"
  shows "\<exists>y. amq_exchange_bind_queue (exchange_compile env AMQ_EXCHANGE_TOPIC) new channel queue k [] x =
      Some (Inr (y, False)) \<and>
    exchange_publish_fn env AMQ_EXCHANGE_TOPIC y m = Some (Inr (y, [qr_addr queue]))"
proof -
  obtain ix n where ix: "ipr_index_insert (ex_binding_index x) new = Some (Inr (ix, n))" "0 < n" "n < BITS_CAP"
    "ix_data ix = (ix_data (ex_binding_index x))(n := new)"
    using index_room [of "ex_binding_index x" new] ok(1) room new(1) by (auto simp: has_room_def ex_wf_def)
  obtain bits where bits: "ipr_bits_set ipr_bits_new n = Inr bits" "bits_wf bits" "bits_abs bits = {n}"
    using bm.put_ok [OF bm.wf_new ix(3)] by (auto simp: bm.abs_new)
  let ?b = "new_binding k [] (qr_exclusive queue) n"
  let ?b' = "?b\<lparr>bn_is_wildcard := False, bn_regexp := r\<rparr>" and ?i = "ex_indices x @ [(k, bits)]"
  let ?x = "hash_with x k new"
  have ind: "ex_indices ?x = ex_indices x" by (simp add: hash_with_def)
  have "exchange_compile env AMQ_EXCHANGE_TOPIC (?x\<lparr>ex_binding_index := ix, ex_bindings := (ex_bindings x)(new \<mapsto> ?b)\<rparr>) new =
      Some (Inr (?x\<lparr>ex_binding_index := ix, ex_bindings := (ex_bindings x)(new \<mapsto> ?b'), ex_indices := ?i\<rparr>, 0))"
    using k(1,2) bits(1)
    by (simp add: exchange_compile_def amq_exchange_topic_compile_def new_binding_def ind index_mark_new)
  moreover have "\<forall>p\<in>set (ex_binding_list x). \<not> same_binding_as x k [] p"
    using topic_key_unbound [OF ok(2) k(1,2)] by (auto dest: same_binding_asD)
  ultimately have bind: "amq_exchange_bind_queue (exchange_compile env AMQ_EXCHANGE_TOPIC) new channel queue k [] x =
      Some (Inr (attach_queue (add_binding ?x new ?b' ix ?i) new queue, False))" (is "_ = Some (Inr (?y, _))")
    using ok(3) ix(1,2) table_fields_empty
    by (intro bind_new_form [where n = n and fs = "[]"]) (simp_all add: spec_key_def)
  have y: "ex_bindings ?y new = Some (?b'\<lparr>bn_queue_set := [qr_addr queue]\<rparr>)"
    "ex_binding_index ?y = ix" "ex_indices ?y = ?i"
    by (simp_all add: attach_queue_def Let_def add_binding_def new_binding_def amq_binding_bind_queue_def)
  have "exchange_route ?y bits = Inr [qr_addr queue]"
    by (rule single_route [OF bits(2,3) _ new(1) y(1) _ q]) (simp_all add: ix(4) y(2))
  moreover have "amq_index_search (ex_indices ?y) k = Some bits"
    using k(2) by (simp add: y(3) amq_index_search_def map_add_def)
  ultimately have "exchange_publish_fn env AMQ_EXCHANGE_TOPIC ?y m = Some (Inr (?y, [qr_addr queue]))"
    using m k(3) by (simp add: exchange_publish_fn_def amq_exchange_topic_publish_def topic_reindex_def)
  with bind show ?thesis by blast
qed

definition all_env :: exchange_env where
  "all_env = void_env\<lparr>env_re := (\<lambda>_ _. True)\<rparr>"

definition keyed_message :: "string \<Rightarrow> amq_content" where
  "keyed_message key = \<lparr>ct_message_id = '''', ct_producer_id = '''', ct_routing_key = key, ct_headers = [], ct_body_size = 0,
     ct_immediate = False, ct_returned = False\<rparr>"

theorem topic_exact_hides_wildcard_witness:
  "\<exists>y. amq_exchange_bind_queue (exchange_compile all_env AMQ_EXCHANGE_TOPIC) 41 True (queue_at 8) ''a.b'' [] demo_exchange =
      Some (Inr (y, False)) \<and>
    exchange_publish_fn all_env AMQ_EXCHANGE_TOPIC y (keyed_message ''a.b'') = Some (Inr (y, [8])) \<and>
    topic_hits (env_re all_env) (key_at demo_exchange 40) [] (keyed_message ''a.b'') \<and> queues_at demo_exchange 40 = [7]"
proof -
  have d: "ex_type demo_exchange = AMQ_EXCHANGE_TOPIC" "ex_binding_list demo_exchange = [40]"
    "ex_indices demo_exchange = []" "key_at demo_exchange 40 = ''a.*''" "has_room demo_exchange"
    "bn_is_wildcard (binding_at demo_exchange 40)" "bn_regexp (binding_at demo_exchange 40) = ''^a`.(?: |`w*)$''"
    "queues_at demo_exchange 40 = [7]"
    by (simp_all add: demo_exchange_def amq_exchange_new_def has_room_def BITS_CAP_def IPR_BITS_SIZE_def)
  have st: "topic_state (env_re all_env) demo_exchange"
    using demo_exchange_inv by (simp add: topic_state_def d star_pattern)
  have wf: "ex_wf demo_exchange" using demo_exchange_inv by (simp add: topic_inv_def cache_inv_def)
  have "s_topic_to_regexp ''a.b'' = Inr (False, ''^a`.b$'')" by code_simp
  from topic_exact_hides_wildcard [OF wf st d(1,5), of 41 "queue_at 8", OF _ _ _ this, of "keyed_message ''a.b''" True]
  show ?thesis
    by (simp add: d queue_at_def keyed_message_def amq_index_search_def topic_hits_def star_pattern all_env_def)
qed

text \<open>
  A direct exchange routes by its hash table, which has one binding per key.  A queue bound under
  a key that is bound already, with arguments of its own, is bound but never reached: publishing
  under that key does what it did before.
\<close>

theorem direct_arguments_unrouted:
  assumes ok: "ex_ok qn x" "ex_type x = AMQ_EXCHANGE_DIRECT" "inj qn" and room: "has_room x"
    and new: "new \<noteq> 0" "new \<notin> set (ex_binding_list x)"
    and q: "qr_name queue = qn (qr_addr queue)" "qr_addr queue \<noteq> 0"
    and args: "table_fields args = Some (Inr (Some fs))" "\<forall>p\<in>set (ex_binding_list x). args_at x p \<noteq> args"
    and key: "p \<in> set (ex_binding_list x)" "key_at x p = k"
  shows "\<exists>y. amq_exchange_bind_queue (exchange_compile env AMQ_EXCHANGE_DIRECT) new channel queue k args x =
      Some (Inr (y, False)) \<and> (k, args, qr_addr queue) \<in> bound y \<and>
    amq_exchange_direct_publish y k = amq_exchange_direct_publish x k"
proof -
  have base: "ex_base x" and wf: "ex_wf x" using ok(1) by (auto simp: ex_ok_def ex_base_def)
  obtain r where r: "ex_binding_hash x k = Some r" "r \<in> set (ex_binding_list x)"
    using base key by (auto simp: ex_base_def)
  obtain ix n where ix: "ipr_index_insert (ex_binding_index x) new = Some (Inr (ix, n))" "0 < n" "n < BITS_CAP"
    "ix_inv ix" "ix_data (ex_binding_index x) n = 0" "ix_data ix = (ix_data (ex_binding_index x))(n := new)"
    using index_room [of "ex_binding_index x" new] wf room new(1) by (auto simp: has_room_def ex_wf_def)
  let ?b = "new_binding k args (qr_exclusive queue) n"
  have h: "hash_with x k new = x" using r(1) by (simp add: hash_with_def)
  have "\<forall>p\<in>set (ex_binding_list x). \<not> same_binding_as x k args p"
    using args(2) by (auto dest: same_binding_asD)
  then have bind: "amq_exchange_bind_queue (exchange_compile env AMQ_EXCHANGE_DIRECT) new channel queue k args x =
      Some (Inr (attach_queue (add_binding (hash_with x k new) new ?b ix (ex_indices x)) new queue, False))"
    using ok(2) ix(1,2) args(1)
    by (intro bind_new_form [where n = n and fs = fs]) (simp_all add: exchange_compile_def h spec_key_def)
  let ?a = "add_binding x new ?b ix (ex_indices x)"
  have fresh: "fresh_binding x new ?b ix" using new ix by (simp add: fresh_binding_def new_binding_def)
  have "?a = add_binding (x\<lparr>ex_binding_hash := (if ex_binding_hash x (bn_routing_key ?b) = None
      then (ex_binding_hash x)(bn_routing_key ?b \<mapsto> new) else ex_binding_hash x)\<rparr>) new ?b ix (ex_indices x)"
    using r(1) by (simp add: new_binding_def)
  note a = add_binding_ok [OF ok(1) fresh _ _ refl this]
  have ka: "ex_ok qn ?a" "new \<in> set (ex_binding_list ?a)" "binding_at ?a new = ?b"
    using a args(2) by (auto simp: new_binding_def)
  let ?y = "attach_queue ?a new queue"
  have "key_at ?a new = k" "args_at ?a new = args" unfolding ka(3) by (simp_all add: new_binding_def)
  then have "(k, args, qr_addr queue) \<in> bound ?y"
    using attach_queue_ok [OF ka(1) ok(3) ka(2) q] by simp
  moreover have "ex_binding_hash ?y = ex_binding_hash x" "ex_bindings ?y r = ex_bindings x r"
    using new(2) r(2) by (auto simp: attach_queue_def Let_def add_binding_def)
  then have "amq_exchange_direct_publish ?y k = amq_exchange_direct_publish x k"
    by (simp add: amq_exchange_direct_publish_def r(1))
  ultimately show ?thesis using bind unfolding h by blast
qed

definition direct_one :: amq_exchange where
  "direct_one = (amq_exchange_new AMQ_EXCHANGE_DIRECT AMQ_FEDERATION_NONE)\<lparr>
     ex_binding_list := [40], ex_binding_hash := [''k'' \<mapsto> 40],
     ex_binding_index := \<lparr>ix_size = 1, ix_data = (\<lambda>_. 0)(11 := 40)\<rparr>,
     ex_bindings := [40 \<mapsto> (new_binding ''k'' [] False 11)\<lparr>bn_queue_set := [7]\<rparr>],
     ex_queue_bindings := [queue_name 7 \<mapsto> [40]]\<rparr>"

lemma direct_one_ok: "ex_ok queue_name direct_one"
proof -
  have "ix_used \<lparr>ix_size = 1, ix_data = (\<lambda>_. 0)(11 := 40)\<rparr> = {11}"
    using index_max_pos by (auto simp: ix_used_def)
  then have "ex_wf direct_one"
    by (simp add: ex_wf_def direct_one_def ix_inv_def BITS_CAP_def IPR_BITS_SIZE_def new_binding_def)
  then show ?thesis
    using inj_eq [OF queue_name_inj]
    by (auto simp: ex_ok_def ex_base_def direct_one_def queue_list_def new_binding_def)
qed

theorem direct_arguments_unrouted_witness:
  "\<exists>y. amq_exchange_bind_queue (exchange_compile void_env AMQ_EXCHANGE_DIRECT) 41 True (queue_at 8) ''k''
      [3, 97, 98, 99, 86] direct_one = Some (Inr (y, False)) \<and> (''k'', [3, 97, 98, 99, 86], 8) \<in> bound y \<and>
    amq_exchange_direct_publish y ''k'' = Inr [7]"
proof -
  have d: "ex_type direct_one = AMQ_EXCHANGE_DIRECT" "ex_binding_list direct_one = [40]" "has_room direct_one"
    "key_at direct_one 40 = ''k''" "args_at direct_one 40 = []"
    by (simp_all add: direct_one_def amq_exchange_new_def has_room_def BITS_CAP_def IPR_BITS_SIZE_def new_binding_def)
  have "amq_exchange_direct_publish direct_one ''k'' = Inr [7]"
    by (simp add: amq_exchange_direct_publish_def direct_one_def new_binding_def amq_binding_collect_def
        AMQ_QUEUE_SET_MAX_def exchange_deliver_def)
  with direct_arguments_unrouted [OF direct_one_ok d(1) queue_name_inj d(3), of 41 "queue_at 8", OF _ _ _ _ void_tables(1),
      of 40 "''k''" void_env True]
  show ?thesis by (simp add: d queue_at_def)
qed

text \<open>
  Binding to a fanout exchange replaces the routing key by the empty one, unbinding does not:
  unbinding with any other key succeeds and leaves the queue bound.
\<close>

theorem fanout_unbind_ignored:
  assumes "inj qn" and "kind_reach env AMQ_EXCHANGE_FANOUT (fanout_ok qn) x B"
    and "qr_name queue = qn (qr_addr queue)" and "key \<noteq> []"
  shows "\<exists>y. kind_exec env AMQ_EXCHANGE_FANOUT (Unbind queue key args) x = Some (Inr (y, [])) \<and> bound y = B"
proof -
  have x: "fanout.good qn x" "bound x = B" using fanout.reach_refines [OF assms(2,1)] by auto
  have ok: "fanout_ok qn (Unbind queue key args) x" using assms(3) by (simp add: command_ok_def)
  have "(key, args, qr_addr queue) \<notin> B"
    using fanout.good_simps(4) [OF x(1)] assms(4) x(2) by (auto simp: fanout_inv_def bound_def)
  then have "spec_step AMQ_EXCHANGE_FANOUT (Unbind queue key args) B = B"
    "spec_output all_hits (Unbind queue key args) B = {}" by (auto simp: spec_step_def spec_output_def)
  with fanout.exchange_refines [OF assms(2,1) ok] show ?thesis by auto
qed

theorem fanout_unbind_ignored_witness:
  "\<exists>x y. kind_reach void_env AMQ_EXCHANGE_FANOUT (fanout_ok queue_name) x {([], [], 7)} \<and>
     kind_exec void_env AMQ_EXCHANGE_FANOUT (Unbind (queue_at 7) ''k'' []) x = Some (Inr (y, [])) \<and>
     bound y = {([], [], 7)}"
proof -
  obtain x where x: "kind_reach void_env AMQ_EXCHANGE_FANOUT (fanout_ok queue_name) x {([], [], 7)}"
    using fanout.exchange_refines [OF ex_reach.reach_new queue_name_inj bind_new_ok [where key = "''k''" and args = "[]"],
        where env = void_env and fed = AMQ_FEDERATION_NONE]
    by (auto simp: fanout_admits_def spec_step_def spec_key_def queue_at_def)
  from fanout_unbind_ignored [OF queue_name_inj x, of "queue_at 7" "''k''" "[]"] x show ?thesis
    by (auto simp: queue_at_def)
qed

text \<open>
  Arguments that are not a well-formed field table make a bind to an exchange of any type fail an
  assertion of the broker, unless a binding with the same key and arguments exists.
\<close>

theorem bind_bad_arguments:
  assumes wf: "ex_wf x" and "has_room x" and "new \<noteq> 0" and "table_fields args = Some (Inr None)"
    and "\<forall>p\<in>set (ex_binding_list x). args_at x p \<noteq> args"
  shows "amq_exchange_bind_queue compile new channel queue key args x = Some (Inl Assert_Failed)"
proof -
  obtain ix n where "ipr_index_insert (ex_binding_index x) new = Some (Inr (ix, n))" "0 < n"
    using index_room [of "ex_binding_index x" new] wf assms(2,3) by (auto simp: has_room_def ex_wf_def)
  then have "amq_binding_new x new k args e = Some (Inl Assert_Failed)" for k e
    using assms(4) by (simp add: amq_binding_new_def)
  moreover have "find (same_binding_as x k args) (ex_binding_list x) = None" for k
    using assms(5) by (auto simp: find_None_iff dest: same_binding_asD)
  ultimately show ?thesis by (simp add: amq_exchange_bind_queue_def Let_def)
qed

theorem bind_bad_arguments_witness:
  "amq_exchange_bind_queue (exchange_compile void_env AMQ_EXCHANGE_HEADERS) 40 True (queue_at 7) [] [0, 88, 0]
     (amq_exchange_new AMQ_EXCHANGE_HEADERS AMQ_FEDERATION_NONE) = Some (Inl Assert_Failed)"
proof (rule bind_bad_arguments)
  show "table_fields [0, 88, 0] = Some (Inr None)" by code_simp
  show "has_room (amq_exchange_new AMQ_EXCHANGE_HEADERS AMQ_FEDERATION_NONE)"
    by (simp add: has_room_def amq_exchange_new_def ipr_index_new_def BITS_CAP_def IPR_BITS_SIZE_def)
qed (simp_all add: ex_wf_new, simp add: amq_exchange_new_def)

end
