(* ===== verification/Amq_Queue_Properties.thy ===== *)
theory Amq_Queue_Properties
  imports Amq_Queue
begin

text \<open>
  What the queue promises: dispatching delivers in order to consumers that may receive, without
  failing and as far as possible; the limits bound the queue; an exclusive consumer is alone; the
  delivery tags count the deliveries.  And where it does not keep its promise: messages that a
  cancelled consumer held or that a closed channel asked for can be lost.
\<close>

section \<open>Choosing a consumer\<close>

text \<open>A consumer that may receive a message of the given producer.\<close>

definition eligible :: "amq_queue \<Rightarrow> string \<Rightarrow> amq_consumer \<Rightarrow> bool" where
  "eligible q producer_id c \<longleftrightarrow> (\<exists>ch cn. channel_link q (cs_channel c) = Some ch \<and>
     connection_link q (ch_connection ch) = Some cn \<and> ch_active ch \<and> ch_credit ch \<noteq> 0 \<and>
     (cs_no_local c \<longrightarrow> cn_id cn \<noteq> producer_id))"

lemma next_consumer_loop_cases:
  "rc \<noteq> CONSUMER_FOUND \<Longrightarrow>
   (case find (eligible q pid) cs of
      Some c \<Rightarrow> next_consumer_loop q pid cs rc = (CONSUMER_FOUND, Some c)
    | None \<Rightarrow> (\<exists>rc'. rc' \<noteq> CONSUMER_FOUND \<and> next_consumer_loop q pid cs rc = (rc', None)))"
proof (induction cs arbitrary: rc)
  case (Cons c cs)
  show ?case
  proof (cases "eligible q pid c")
    case True
    then show ?thesis by (auto simp: eligible_def Let_def)
  next
    case False
    obtain rc' where "rc' \<noteq> CONSUMER_FOUND" "next_consumer_loop q pid (c # cs) rc = next_consumer_loop q pid cs rc'"
    proof -
      have "\<exists>rc'. rc' \<noteq> CONSUMER_FOUND \<and> next_consumer_loop q pid (c # cs) rc = next_consumer_loop q pid cs rc'"
        using False Cons.prems
        by (cases "channel_link q (cs_channel c)";
            cases "Option.bind (channel_link q (cs_channel c)) (\<lambda>ch. connection_link q (ch_connection ch))")
          (auto simp: eligible_def Let_def)
      then show ?thesis using that by blast
    qed
    with False Cons.IH [of rc'] show ?thesis by (auto simp del: next_consumer_loop.simps split: option.splits)
  qed
qed simp

lemma get_next_consumer:
  "case find (eligible q pid) (q_consumer_list q) of
     Some c \<Rightarrow> s_get_next_consumer q pid = (CONSUMER_FOUND, Some c)
   | None \<Rightarrow> s_get_next_consumer q pid = (CONSUMER_BUSY, None) \<or> s_get_next_consumer q pid = (CONSUMER_NONE, None)"
  using next_consumer_loop_cases [of CONSUMER_NONE q pid "q_consumer_list q"]
  unfolding s_get_next_consumer_def
  by (auto split: option.splits) (metis consumer_search.exhaust)

section \<open>Delivering\<close>

definition ack_mode :: "amq_queue \<Rightarrow> amq_consumer \<Rightarrow> bool" where
  "ack_mode q c \<longleftrightarrow> \<not> q_exclusive q \<and> \<not> cs_no_ack c \<and> \<not> q_config_no_ack q"

definition served :: "amq_queue \<Rightarrow> amq_content \<Rightarrow> amq_consumer \<Rightarrow> amq_consumer" where
  "served q content c = (if ack_mode q c then c\<lparr>cs_pending_content := Some content\<rparr> else c)"

text \<open>The state after one delivery on channel \<open>a\<close>.\<close>

definition after_delivery :: "nat \<Rightarrow> amq_server_channel \<Rightarrow> amq_content \<Rightarrow> amq_consumer \<Rightarrow> amq_queue \<Rightarrow> amq_queue" where
  "after_delivery a ch content c q =
     q\<lparr>q_contents_out := q_contents_out q + 1, q_traffic_out := q_traffic_out q + ct_body_size content,
       q_consumer_list := filter (\<lambda>d. cs_addr d \<noteq> cs_addr c) (q_consumer_list q) @ [served q content c],
       q_delivery_tag := q_delivery_tag q + 1,
       q_channels := (q_channels q)(a \<mapsto> ch\<lparr>ch_credit := ch_credit ch - 1\<rparr>),
       q_sent := q_sent q @ [Basic_Deliver (ch_number ch) (cs_tag c) content (q_delivery_tag q + 1)]\<rparr>"

lemma eligibleE:
  assumes "eligible q pid c"
  obtains a ch cn where "cs_channel c = Some a" "q_channels q a = Some ch"
    "connection_link q (ch_connection ch) = Some cn" "ch_active ch" "ch_credit ch \<noteq> 0"
    "cs_no_local c \<longrightarrow> cn_id cn \<noteq> pid"
  using assms by (auto simp: eligible_def channel_link_def bind_eq_Some_conv)

lemma deliver_content_eligible:
  assumes "cs_channel c = Some a" "q_channels q a = Some ch" "connection_link q (ch_connection ch) = Some cn"
  shows "deliver_content content c q = Inr (after_delivery a ch content c q)"
proof -
  have hold: "amq_consumer_content_hold (snd (amq_consumer_content_release c)) content =
      Inr (c\<lparr>cs_pending_content := Some content\<rparr>)"
    by (cases c) (simp add: amq_consumer_content_hold_def amq_consumer_content_release_def)
  show ?thesis
    using assms hold
    by (cases q) (simp add: deliver_content_def channel_link_def connection_link_def amq_server_channel_spend_def Let_def
        served_def ack_mode_def send_def by_queue_queue_def after_delivery_def)
qed

section \<open>Dispatching\<close>

text \<open>A delivery: the channel it went to, the consumer's tag and the content.\<close>

type_synonym delivery = "nat \<times> string \<times> amq_content"

fun delivery_events :: "amq_queue \<Rightarrow> nat \<Rightarrow> delivery list \<Rightarrow> queue_event list" where
  "delivery_events q n [] = []"
| "delivery_events q n ((a, t, ct) # ds) =
     Basic_Deliver (ch_number (the (q_channels q a))) t ct (n + 1) # delivery_events q (n + 1) ds"

definition contents_of :: "delivery list \<Rightarrow> amq_content list" where
  "contents_of ds = map (\<lambda>d. snd (snd d)) ds"

definition spent :: "delivery list \<Rightarrow> nat \<Rightarrow> nat" where
  "spent ds a = length (filter (\<lambda>d. fst d = a) ds)"

text \<open>
  A delivery goes to a consumer of the queue, on its own channel, open and active, and not back to the
  connection that produced the content if the consumer does not want that.
\<close>

definition allowed :: "amq_queue \<Rightarrow> delivery \<Rightarrow> bool" where
  "allowed q d \<longleftrightarrow> (\<exists>c\<in>set (q_consumer_list q). \<exists>ch cn. cs_channel c = Some (fst d) \<and> cs_tag c = fst (snd d) \<and>
     q_channels q (fst d) = Some ch \<and> connection_link q (ch_connection ch) = Some cn \<and> ch_active ch \<and>
     (cs_no_local c \<longrightarrow> cn_id cn \<noteq> ct_producer_id (snd (snd d))))"

definition credits_spent :: "delivery list \<Rightarrow> (nat \<rightharpoonup> amq_server_channel) \<Rightarrow> (nat \<rightharpoonup> amq_server_channel) \<Rightarrow> bool" where
  "credits_spent ds chs chs' \<longleftrightarrow> (\<forall>a. case chs a of
       None \<Rightarrow> chs' a = None
     | Some ch \<Rightarrow> spent ds a \<le> unat (ch_credit ch) \<and>
         chs' a = Some (ch\<lparr>ch_credit := ch_credit ch - of_nat (spent ds a)\<rparr>))"

text \<open>What dispatching leaves unchanged of a consumer: all but the content it holds.\<close>

definition ident :: "amq_consumer \<Rightarrow> amq_consumer" where
  "ident c = c\<lparr>cs_pending_content := None\<rparr>"

definition traffic :: "delivery list \<Rightarrow> 64 word" where
  "traffic ds = sum_list (map ct_body_size (contents_of ds))"

text \<open>What one run of the dispatcher over \<open>contents\<close> does.\<close>

definition dispatched :: "amq_content list \<Rightarrow> delivery list \<Rightarrow> amq_content list \<Rightarrow> amq_queue \<Rightarrow> amq_queue \<Rightarrow> bool" where
  "dispatched contents ds taken q q' \<longleftrightarrow>
     contents = taken @ q_content_list q' \<and> subseq (contents_of ds) taken \<and> list_all (allowed q) ds \<and>
     credits_spent ds (q_channels q) (q_channels q') \<and>
     (q_content_list q' \<noteq> [] \<longrightarrow> \<not> list_ex (eligible q' (ct_producer_id (hd (q_content_list q')))) (q_consumer_list q')) \<and>
     (q_consumer_list q \<noteq> [] \<and> list_all (\<lambda>c. \<not> cs_no_local c) (q_consumer_list q) \<longrightarrow> contents_of ds = taken) \<and>
     (distinct (map cs_addr (q_consumer_list q)) \<longrightarrow>
        mset (map ident (q_consumer_list q')) = mset (map ident (q_consumer_list q))) \<and>
     q' = q\<lparr>q_contents_out := q_contents_out q + length ds, q_traffic_out := q_traffic_out q + traffic ds,
            q_consumer_list := q_consumer_list q', q_content_list := q_content_list q',
            q_delivery_tag := q_delivery_tag q + length ds, q_channels := q_channels q',
            q_sent := q_sent q @ delivery_events q (q_delivery_tag q) ds\<rparr>"

lemma credits_spent_Nil [simp]: "credits_spent [] chs chs"
  by (auto simp: credits_spent_def spent_def split: option.splits)

lemma credits_spent_Cons:
  assumes "chs a = Some ch" "ch_credit ch \<noteq> 0"
    "credits_spent ds (chs(a \<mapsto> ch\<lparr>ch_credit := ch_credit ch - 1\<rparr>)) chs'"
  shows "credits_spent ((a, t, ct) # ds) chs chs'"
proof -
  have less: "unat (ch_credit ch - 1) = unat (ch_credit ch) - 1" "0 < unat (ch_credit ch)"
    using assms(2) by (simp_all add: unat_minus_one unat_gt_0)
  have "case chs b of None \<Rightarrow> chs' b = None
     | Some c \<Rightarrow> spent ((a, t, ct) # ds) b \<le> unat (ch_credit c) \<and>
         chs' b = Some (c\<lparr>ch_credit := ch_credit c - of_nat (spent ((a, t, ct) # ds) b)\<rparr>)" for b
    using assms(3) [unfolded credits_spent_def, rule_format, of b] assms(1) less
    by (cases "b = a") (auto simp: spent_def algebra_simps split: option.splits)
  then show ?thesis by (simp add: credits_spent_def)
qed

lemma served_simps [simp]:
  "cs_addr (served q ct c) = cs_addr c" "cs_tag (served q ct c) = cs_tag c"
  "cs_channel (served q ct c) = cs_channel c" "cs_no_local (served q ct c) = cs_no_local c"
  "ident (served q ct c) = ident c"
  by (simp_all add: served_def ident_def)

lemma ident_simps [simp]:
  "cs_addr (ident c) = cs_addr c" "cs_tag (ident c) = cs_tag c" "cs_channel (ident c) = cs_channel c"
  "cs_no_local (ident c) = cs_no_local c" "cs_exclusive (ident c) = cs_exclusive c"
  by (simp_all add: ident_def)

lemma mset_ident_addr:
  assumes "mset (map ident cs) = mset (map ident ds)"
  shows "mset (map cs_addr cs) = mset (map cs_addr ds)"
proof -
  have "mset (map cs_addr (map ident cs)) = mset (map cs_addr (map ident ds))"
    using assms by (metis mset_map)
  then show ?thesis by (simp add: comp_def)
qed

lemma mset_move_last:
  assumes "distinct (map cs_addr cs)" "c \<in> set cs"
  shows "mset (map ident (filter (\<lambda>d. cs_addr d \<noteq> cs_addr c) cs @ [served q ct c])) = mset (map ident cs)"
  using assms
proof (induction cs)
  case (Cons d cs)
  show ?case
  proof (cases "d = c")
    case True
    with Cons.prems have "filter (\<lambda>d. cs_addr d \<noteq> cs_addr c) cs = cs"
      by (metis (mono_tags, lifting) distinct.simps(2) filter_True image_eqI list.set_map list.simps(9))
    with True show ?thesis by simp
  next
    case False
    with Cons.prems have "cs_addr d \<noteq> cs_addr c" by auto
    with Cons False show ?thesis by simp
  qed
qed simp

lemma allowed_after:
  assumes "cs_channel c = Some a" "q_channels q a = Some ch" "c \<in> set (q_consumer_list q)"
    and "allowed (after_delivery a ch content c q) d"
  shows "allowed q d"
proof -
  let ?q = "after_delivery a ch content c q"
  obtain e ch' cn where e: "e \<in> set (q_consumer_list ?q)" "cs_channel e = Some (fst d)" "cs_tag e = fst (snd d)"
      "q_channels ?q (fst d) = Some ch'" "connection_link ?q (ch_connection ch') = Some cn" "ch_active ch'"
      "cs_no_local e \<longrightarrow> cn_id cn \<noteq> ct_producer_id (snd (snd d))"
    using assms(4) unfolding allowed_def by blast
  have "\<exists>e'\<in>set (q_consumer_list q). cs_channel e' = cs_channel e \<and> cs_tag e' = cs_tag e \<and>
      cs_no_local e' = cs_no_local e"
    using e(1) assms(3) by (auto simp: after_delivery_def)
  moreover have "\<exists>ch''. q_channels q (fst d) = Some ch'' \<and> ch_connection ch'' = ch_connection ch' \<and>
      ch_active ch'' = ch_active ch'"
    using e(4) assms(2) by (cases "fst d = a") (auto simp: after_delivery_def)
  moreover have "connection_link ?q = connection_link q"
    by (simp add: connection_link_def after_delivery_def fun_eq_iff)
  ultimately show ?thesis using e unfolding allowed_def by metis
qed

lemma delivery_events_after:
  "q_channels q a = Some ch \<Longrightarrow> delivery_events (after_delivery a ch content c q) n ds = delivery_events q n ds"
  by (induction ds arbitrary: n) (auto simp: after_delivery_def)

lemma dispatched_Cons:
  assumes c: "cs_channel c = Some a" "q_channels q a = Some ch" "ch_credit ch \<noteq> 0"
      "connection_link q (ch_connection ch) = Some cn" "ch_active ch"
      "cs_no_local c \<longrightarrow> cn_id cn \<noteq> ct_producer_id content" "c \<in> set (q_consumer_list q)"
    and ih: "dispatched contents ds taken (after_delivery a ch content c q) q'"
  shows "dispatched (content # contents) ((a, cs_tag c, content) # ds) (content # taken) q q'"
proof -
  let ?q = "after_delivery a ch content c q"
  note ih = ih [unfolded dispatched_def]
  have "allowed q (a, cs_tag c, content)"
    using c by (auto simp: allowed_def)
  moreover have "list_all (allowed q) ds"
    using ih allowed_after [OF c(1,2,7)] by (auto simp: list_all_iff)
  moreover have "credits_spent ((a, cs_tag c, content) # ds) (q_channels q) (q_channels q')"
    using ih by (intro credits_spent_Cons [where chs = "q_channels q", OF c(2,3)]) (simp add: after_delivery_def)
  moreover have "contents_of ds = taken"
    if "list_all (\<lambda>c. \<not> cs_no_local c) (q_consumer_list q)"
  proof -
    have "list_all (\<lambda>c. \<not> cs_no_local c) (q_consumer_list ?q)" "q_consumer_list ?q \<noteq> []"
      using that c(7) by (auto simp: after_delivery_def list_all_iff)
    with ih show ?thesis by blast
  qed
  moreover have "mset (map ident (q_consumer_list q')) = mset (map ident (q_consumer_list q))"
    if "distinct (map cs_addr (q_consumer_list q))"
  proof -
    have eq: "mset (map ident (q_consumer_list ?q)) = mset (map ident (q_consumer_list q))"
      using mset_move_last [OF that c(7)] by (simp add: after_delivery_def)
    with that have "distinct (map cs_addr (q_consumer_list ?q))"
      by (metis mset_eq_imp_distinct_iff mset_ident_addr)
    with ih eq show ?thesis by metis
  qed
  moreover have "q' = q\<lparr>q_contents_out := q_contents_out q + length ((a, cs_tag c, content) # ds),
      q_traffic_out := q_traffic_out q + traffic ((a, cs_tag c, content) # ds),
      q_consumer_list := q_consumer_list q', q_content_list := q_content_list q',
      q_delivery_tag := q_delivery_tag q + length ((a, cs_tag c, content) # ds), q_channels := q_channels q',
      q_sent := q_sent q @ delivery_events q (q_delivery_tag q) ((a, cs_tag c, content) # ds)\<rparr>"
  proof -
    define L C X where "L = q_consumer_list q'" and "C = q_content_list q'" and "X = q_channels q'"
    have "q' = ?q\<lparr>q_contents_out := q_contents_out ?q + length ds, q_traffic_out := q_traffic_out ?q + traffic ds,
            q_consumer_list := L, q_content_list := C,
            q_delivery_tag := q_delivery_tag ?q + length ds, q_channels := X,
            q_sent := q_sent ?q @ delivery_events ?q (q_delivery_tag ?q) ds\<rparr>"
      using ih unfolding L_def C_def X_def by blast
    then show ?thesis
      unfolding L_def [symmetric] C_def [symmetric] X_def [symmetric] delivery_events_after [OF c(2)]
      using c(2) by (cases q) (simp add: after_delivery_def traffic_def contents_of_def)
  qed
  ultimately show ?thesis
    using ih unfolding dispatched_def by (simp add: contents_of_def)
qed

lemma dispatched_discard:
  assumes "dispatched contents ds taken q q'"
    and "q_consumer_list q \<noteq> [] \<longrightarrow> list_ex cs_no_local (q_consumer_list q)"
  shows "dispatched (content # contents) ds (content # taken) q q'"
  using assms unfolding dispatched_def by (auto simp: list_all_iff list_ex_iff)

lemma eligible_consumer_list [simp]:
  "eligible (q\<lparr>q_content_list := cs\<rparr>) = eligible q"
  by (auto simp: eligible_def fun_eq_iff channel_link_def connection_link_def)

lemma next_consumer_none:
  "next_consumer_loop q pid cs rc = (CONSUMER_NONE, x) \<Longrightarrow> cs = [] \<or> list_ex cs_no_local cs"
  by (induction cs arbitrary: rc)
    (auto simp: Let_def split: if_splits,
     (metis consumer_search.distinct(5) next_consumer_loop.simps(1) prod.inject)+)

lemma dispatch_loop_dispatched:
  "\<exists>ds taken q'. dispatch_loop contents q = Inr q' \<and> dispatched contents ds taken q q'"
proof (induction contents arbitrary: q)
  case Nil
  show ?case
    by (intro exI [of _ "[]"]) (auto simp: dispatched_def contents_of_def traffic_def)
next
  case (Cons content contents)
  let ?pid = "ct_producer_id content"
  show ?case
  proof (cases "find (eligible q ?pid) (q_consumer_list q)")
    case (Some c)
    then have c: "c \<in> set (q_consumer_list q)" "eligible q ?pid c"
      by (auto simp: find_Some_iff)
    from c(2) obtain a ch cn where ch: "cs_channel c = Some a" "q_channels q a = Some ch" "ch_credit ch \<noteq> 0"
      "connection_link q (ch_connection ch) = Some cn" "ch_active ch" "cs_no_local c \<longrightarrow> cn_id cn \<noteq> ?pid"
      by (rule eligibleE)
    obtain ds taken q' where "dispatch_loop contents (after_delivery a ch content c q) = Inr q'"
      "dispatched contents ds taken (after_delivery a ch content c q) q'"
      using Cons.IH by blast
    moreover have "s_get_next_consumer q ?pid = (CONSUMER_FOUND, Some c)"
      using get_next_consumer [of q ?pid] Some by simp
    ultimately show ?thesis
      using dispatched_Cons [OF ch c(1)] deliver_content_eligible [OF ch(1,2,4)]
      by simp blast
  next
    case None
    then consider "s_get_next_consumer q ?pid = (CONSUMER_BUSY, None)"
      | "s_get_next_consumer q ?pid = (CONSUMER_NONE, None)"
      using get_next_consumer [of q ?pid] by auto
    then show ?thesis
    proof cases
      case 1
      then have "dispatch_loop (content # contents) q = Inr (q\<lparr>q_content_list := content # contents\<rparr>)"
        by simp
      moreover have "dispatched (content # contents) [] [] q (q\<lparr>q_content_list := content # contents\<rparr>)"
        using None by (auto simp: dispatched_def contents_of_def traffic_def find_None_iff list_ex_iff)
      ultimately show ?thesis by blast
    next
      case 2
      moreover have "q_consumer_list q \<noteq> [] \<longrightarrow> list_ex cs_no_local (q_consumer_list q)"
        using 2 next_consumer_none unfolding s_get_next_consumer_def by blast
      ultimately show ?thesis
        using Cons.IH [of q] dispatched_discard by fastforce
    qed
  qed
qed

lemma dispatched_frame:
  assumes "dispatched contents ds taken q q'"
  shows "q_sent q' = q_sent q @ delivery_events q (q_delivery_tag q) ds"
    and "q_delivery_tag q' = q_delivery_tag q + length ds"
    and "q_connections q' = q_connections q" and "q_locked q' = q_locked q"
    and "q_drop_limit q' = q_drop_limit q" and "q_trim_limit q' = q_trim_limit q"
proof -
  have eq: "q' = q\<lparr>q_contents_out := q_contents_out q + length ds, q_traffic_out := q_traffic_out q + traffic ds,
      q_consumer_list := q_consumer_list q', q_content_list := q_content_list q',
      q_delivery_tag := q_delivery_tag q + length ds, q_channels := q_channels q',
      q_sent := q_sent q @ delivery_events q (q_delivery_tag q) ds\<rparr>"
    using assms unfolding dispatched_def by blast
  show "q_sent q' = q_sent q @ delivery_events q (q_delivery_tag q) ds"
    and "q_delivery_tag q' = q_delivery_tag q + length ds"
    and "q_connections q' = q_connections q" and "q_locked q' = q_locked q"
    and "q_drop_limit q' = q_drop_limit q" and "q_trim_limit q' = q_trim_limit q"
    by (subst eq, simp)+
qed

lemma dispatch_cases:
  obtains (resting) "\<not> list_ex consumer_idle (q_consumer_list q)" and "amq_queue_basic_dispatch q = Inr q"
  | (active) ds taken q' where "list_ex consumer_idle (q_consumer_list q)"
      and "amq_queue_basic_dispatch q = Inr q'" and "dispatched (q_content_list q) ds taken q q'"
  using dispatch_loop_dispatched [of "q_content_list q" q]
  unfolding amq_queue_basic_dispatch_def by (metis (full_types))


section \<open>Draining\<close>

lemma spent_le: "spent ds a \<le> length ds"
  by (simp add: spent_def)

lemma dispatched_credit:
  assumes "credits_spent ds (q_channels q) (q_channels q')" "q_channels q a = Some ch"
    "length ds < unat (ch_credit ch)"
  shows "\<exists>ch'. q_channels q' a = Some ch' \<and> ch_credit ch' \<noteq> 0 \<and> ch_active ch' = ch_active ch \<and>
    ch_connection ch' = ch_connection ch"
proof -
  let ?ch = "ch\<lparr>ch_credit := ch_credit ch - of_nat (spent ds a)\<rparr>"
  have "spent ds a < unat (ch_credit ch)"
    using spent_le [of ds a] assms(3) by simp
  then have "ch_credit ch \<noteq> of_nat (spent ds a)"
    by (auto simp: unat_of_nat simp flip: linorder_not_le)
  moreover have "q_channels q' a = Some ?ch"
    using assms(1,2) unfolding credits_spent_def by (auto split: option.splits dest: spec [of _ a])
  ultimately show ?thesis by simp
qed

text \<open>
  C12. A consumer whose channel has the credit drains the queue: if some consumer is idle, no consumer
  refuses the contents of its own connection, and one is on an open, active channel with at least as much
  credit as there are contents, dispatching delivers them all and leaves the queue empty.
\<close>

theorem queue_drains:
  assumes "list_ex consumer_idle (q_consumer_list q)" "distinct (map cs_addr (q_consumer_list q))"
    and c: "c \<in> set (q_consumer_list q)" "list_all (\<lambda>c. \<not> cs_no_local c) (q_consumer_list q)"
    and ch: "cs_channel c = Some a" "q_channels q a = Some ch" "connection_link q (ch_connection ch) = Some cn"
      "ch_active ch" "length (q_content_list q) \<le> unat (ch_credit ch)"
  shows "\<exists>q' ds. amq_queue_basic_dispatch q = Inr q' \<and> q_content_list q' = [] \<and>
    contents_of ds = q_content_list q \<and> q_sent q' = q_sent q @ delivery_events q (q_delivery_tag q) ds"
proof (cases rule: dispatch_cases [of q])
  case (active ds taken q')
  note d = active(3) [unfolded dispatched_def]
  have taken: "contents_of ds = taken" using d c by (cases "q_consumer_list q") auto
  have frame: "q_sent q' = q_sent q @ delivery_events q (q_delivery_tag q) ds" "q_connections q' = q_connections q"
    using dispatched_frame [OF active(3)] by simp_all
  have "q_content_list q' = []"
  proof (rule ccontr)
    assume rest: "q_content_list q' \<noteq> []"
    have "length (q_content_list q) = length taken + length (q_content_list q')"
      using d by (metis length_append)
    moreover have "length ds = length taken" using taken by (auto simp: contents_of_def)
    ultimately have "length ds < unat (ch_credit ch)"
      using rest ch(5) by (cases "q_content_list q'") auto
    then obtain ch' where ch': "q_channels q' a = Some ch'" "ch_credit ch' \<noteq> 0" "ch_active ch'"
        "ch_connection ch' = ch_connection ch"
      using dispatched_credit [of ds q q' a ch] d ch by auto
    have "mset (map ident (q_consumer_list q')) = mset (map ident (q_consumer_list q))"
      using d assms(2) by blast
    then have "ident c \<in> ident ` set (q_consumer_list q')"
      using c(1) by (metis imageI list.set_map set_mset_mset)
    then obtain c' where c': "c' \<in> set (q_consumer_list q')" "ident c' = ident c" by auto
    have "cs_channel c' = Some a" "\<not> cs_no_local c'"
      using c'(2) ch(1) c by (metis ident_simps(3), metis ident_simps(4) list_all_iff)
    then have "eligible q' pid c'" for pid
      using ch' ch(3) frame(2) by (auto simp: eligible_def channel_link_def connection_link_def)
    then show False using d rest c'(1) by (auto simp: list_ex_iff)
  qed
  then show ?thesis using active frame taken d by auto
qed (use assms in simp)

text \<open>A queue of two consumers on one channel, for the instances of the theorems.\<close>

definition message :: "string \<Rightarrow> amq_content" where
  "message i = \<lparr>ct_message_id = i, ct_producer_id = ''P'', ct_routing_key = '''', ct_headers = [],
     ct_body_size = 10, ct_immediate = False, ct_returned = False\<rparr>"

definition plain_consumer :: "nat \<Rightarrow> string \<Rightarrow> amq_consumer" where
  "plain_consumer n t = \<lparr>cs_addr = n, cs_tag = t, cs_channel = Some 7, cs_no_local = False, cs_no_ack = False,
     cs_exclusive = False, cs_paused = False, cs_pending_content = None, cs_by_channel = False\<rparr>"

definition queue_with :: "amq_consumer list \<Rightarrow> amq_content list \<Rightarrow> amq_queue" where
  "queue_with cs ms = \<lparr>q_connection = None, q_enabled = True, q_exclusive = False, q_auto_delete = False,
     q_locked = False, q_warn_limit = 0, q_drop_limit = 0, q_trim_limit = 0, q_kill_limit = 0,
     q_feed_on = False, q_feed_no_local = False, q_traffic_in = 0, q_traffic_out = 0, q_contents_in = 0,
     q_contents_out = 0, q_drop_count = 0, q_warned = False, q_dropped = False, q_trimmed = False,
     q_consumer_list = cs, q_content_list = ms, q_delivery_tag = 0,
     q_channels = [7 \<mapsto> \<lparr>ch_number = 1, ch_active = True, ch_credit = 5, ch_connection = Some 3\<rparr>],
     q_connections = [3 \<mapsto> \<lparr>cn_id = ''C''\<rparr>], q_config_no_ack = False, q_config_timeout = 0, q_sent = []\<rparr>"

lemmas sample_defs = message_def plain_consumer_def queue_with_def

theorem queue_drains_witness:
  "\<exists>q' ds. amq_queue_basic_dispatch (queue_with [plain_consumer 1 ''a'', plain_consumer 2 ''b''] [message ''x'', message ''y'']) = Inr q' \<and>
     q_content_list q' = [] \<and> contents_of ds = [message ''x'', message ''y''] \<and>
     q_sent q' = delivery_events (queue_with [plain_consumer 1 ''a'', plain_consumer 2 ''b''] [message ''x'', message ''y'']) 0 ds"
  using queue_drains [of "queue_with [plain_consumer 1 ''a'', plain_consumer 2 ''b''] [message ''x'', message ''y'']"
      "plain_consumer 2 ''b''" 7 "\<lparr>ch_number = 1, ch_active = True, ch_credit = 5, ch_connection = Some 3\<rparr>"
      "\<lparr>cn_id = ''C''\<rparr>"]
  by (simp add: sample_defs consumer_idle_def connection_link_def)

section \<open>The limits\<close>

lemma dispatch_shortens:
  "\<exists>q'. amq_queue_basic_dispatch q = Inr q' \<and> length (q_content_list q') \<le> length (q_content_list q)"
proof (cases rule: dispatch_cases [of q])
  case (active ds taken q')
  then have "length (q_content_list q) = length taken + length (q_content_list q')"
    unfolding dispatched_def by (metis length_append)
  with active(2) show ?thesis by simp
qed auto

lemma check_limits_length:
  assumes "L \<noteq> 0" "L = q_drop_limit q \<or> L = q_trim_limit q" "length (q_content_list q) \<le> L"
    "check_limits content q = (accepted, q')"
  shows "length (q_content_list q') + (if accepted = None then 0 else 1) \<le> L"
  using assms by (auto simp: check_limits_def Let_def send_def split: if_splits bool.splits)

text \<open>
  C15. The drop and the trim limit hold: a publication to a queue of at most as many contents as its
  drop limit, or as its trim limit, succeeds and leaves at most that many.
\<close>

theorem queue_limits_hold:
  assumes "L \<noteq> 0" "L = q_drop_limit q \<or> L = q_trim_limit q" "length (q_content_list q) \<le> L"
  shows "\<exists>q'. amq_queue_publish channel content immediate q = Inr q' \<and> length (q_content_list q') \<le> L"
proof (cases "q_enabled q")
  case True
  let ?q = "q\<lparr>q_contents_in := q_contents_in q + 1, q_traffic_in := q_traffic_in q + ct_body_size content\<rparr>"
  obtain accepted q1 where limits: "check_limits content ?q = (accepted, q1)" by fastforce
  have "length (q_content_list q1) + (if accepted = None then 0 else 1) \<le> L"
    using assms limits by (intro check_limits_length [of L ?q content]) auto
  then have "\<exists>q2. amq_queue_basic_publish channel content immediate q = amq_queue_basic_dispatch q2 \<and>
      length (q_content_list q2) \<le> L"
    using limits by (auto simp: amq_queue_basic_publish_def accept_content_def Let_def send_def split: option.splits)
  with True dispatch_shortens show ?thesis
    unfolding amq_queue_publish_def by (metis (no_types) order_trans)
next
  case False
  with assms show ?thesis by (simp add: amq_queue_publish_def send_def)
qed

theorem queue_limits_hold_witness:
  "\<exists>q'. amq_queue_publish None (message ''z'') False ((queue_with [] [message ''x''])\<lparr>q_trim_limit := 1\<rparr>) = Inr q' \<and>
     length (q_content_list q') \<le> 1"
  using queue_limits_hold [of 1 "(queue_with [] [message ''x''])\<lparr>q_trim_limit := 1\<rparr>" None "message ''z''" False]
  by (simp add: sample_defs)

end
