(* ===== verification/Amq_Broker_Properties.thy ===== *)
theory Amq_Broker_Properties
  imports Amq_Broker Amq_Exchange_Properties Amq_Queue_Properties
begin

text \<open>
  The properties of the broker: its tables stay sound and the standard exchanges stay in place whatever
  clients do and however the objects' work is interleaved; a message published through a protocol
  method reaches the queues it is for; and the ways in which a client brings the broker down or makes
  it lose messages.
\<close>

section \<open>The tables\<close>

text \<open>What the tables and the identity of objects are about; most steps leave it alone.\<close>

definition bx_identity :: "broker_exchange \<Rightarrow> string \<times> bool \<times> bool" where
  "bx_identity bx = (bx_name bx, bx_internal bx, bx_destroyed bx)"

definition tables_of :: "amq_broker \<Rightarrow> (string \<rightharpoonup> nat) \<times> nat list \<times> (nat \<rightharpoonup> string \<times> bool \<times> bool) \<times> (string \<rightharpoonup> nat) \<times> (nat \<rightharpoonup> string)" where
  "tables_of b =
     (br_exchange_table b, br_exchange_list b, (\<lambda>x. map_option bx_identity (br_exchanges b x)),
      br_queue_table b, (\<lambda>q. map_option bq_name (br_queues b q)))"

definition tables_ok :: "amq_broker \<Rightarrow> bool" where
  "tables_ok b \<longleftrightarrow>
     (\<forall>name x. br_exchange_table b name = Some x \<longleftrightarrow>
        (\<exists>bx. br_exchanges b x = Some bx \<and> bx_name bx = name \<and> \<not> bx_destroyed bx)) \<and>
     (\<forall>x. x \<in> set (br_exchange_list b) \<longleftrightarrow> (\<exists>bx. br_exchanges b x = Some bx \<and> \<not> bx_destroyed bx)) \<and>
     distinct (br_exchange_list b) \<and>
     (\<forall>name q. br_queue_table b name = Some q \<longrightarrow> (\<exists>bq. br_queues b q = Some bq \<and> bq_name bq = name))"

lemma bx_identity_Some:
  "(\<exists>bx. br_exchanges b x = Some bx \<and> bx_name bx = name \<and> \<not> bx_destroyed bx) \<longleftrightarrow>
   (\<exists>i. map_option bx_identity (br_exchanges b x) = Some (name, i, False))"
  by (cases "br_exchanges b x") (auto simp: bx_identity_def)

lemma tables_ok_alt:
  "tables_ok b \<longleftrightarrow>
     (case tables_of b of (et, el, xs, qt, qs) \<Rightarrow>
        (\<forall>name x. et name = Some x \<longleftrightarrow> (\<exists>i. xs x = Some (name, i, False))) \<and>
        (\<forall>x. x \<in> set el \<longleftrightarrow> (\<exists>name i. xs x = Some (name, i, False))) \<and> distinct el \<and>
        (\<forall>name q. qt name = Some q \<longrightarrow> qs q = Some name))"
proof -
  have "(\<exists>bx. br_exchanges b x = Some bx \<and> \<not> bx_destroyed bx) \<longleftrightarrow>
      (\<exists>name i. map_option bx_identity (br_exchanges b x) = Some (name, i, False))" for x
    by (cases "br_exchanges b x") (auto simp: bx_identity_def)
  then show ?thesis unfolding tables_ok_def tables_of_def bx_identity_Some by simp
qed

lemma tables_frame: "tables_of b' = tables_of b \<Longrightarrow> tables_ok b \<Longrightarrow> tables_ok b'"
  by (simp add: tables_ok_alt)

named_theorems tables_simps

lemma tables_updates [tables_simps]:
  "tables_of (b\<lparr>br_calls := cs\<rparr>) = tables_of b" "tables_of (b\<lparr>br_sent := es\<rparr>) = tables_of b"
  "tables_of (b\<lparr>br_contexts := ctx\<rparr>) = tables_of b" "tables_of (b\<lparr>br_channels := chs\<rparr>) = tables_of b"
  "tables_of (b\<lparr>br_own_queues := own\<rparr>) = tables_of b" "tables_of (b\<lparr>br_queue_index := n\<rparr>) = tables_of b"
  "tables_of (b\<lparr>br_default_exchange := d\<rparr>) = tables_of b"
  by (simp_all add: tables_of_def)

lemma tables_messages [tables_simps]:
  "tables_of (post cs b) = tables_of b" "tables_of (reply e b) = tables_of b"
  "tables_of (channel_error cr n t b) = tables_of b" "tables_of (connection_error cr n t b) = tables_of b"
  "tables_of (take_call i b) = tables_of b" "tables_of (own_queue cn q b) = tables_of b"
  "tables_of (set_current_queue cr name b) = tables_of b" "tables_of (set_current_exchange cr name b) = tables_of b"
  "tables_of (amq_broker_unbind_queue q b) = tables_of b"
  by (simp_all add: post_def reply_def channel_error_def connection_error_def take_call_def own_queue_def
      set_current_queue_def set_current_exchange_def amq_broker_unbind_queue_def tables_updates)

lemma tables_post_exchange [tables_simps]: "tables_of (post_exchange x c b) = tables_of b"
  by (auto simp: post_exchange_def tables_simps split: option.splits)

lemma tables_update_exchange [tables_simps]: "tables_of (update_exchange x st b) = tables_of b"
  by (cases "br_exchanges b x") (auto simp: tables_of_def update_exchange_def bx_identity_def fun_eq_iff)

lemma tables_finish [tables_simps]:
  "tables_of (exchange_declare_finish cr t nowait x b) = tables_of b"
  "tables_of (queue_declare_finish cr exclusive nowait q bq b) = tables_of b"
  by (auto simp: exchange_declare_finish_def queue_declare_finish_def tables_simps Let_def split: option.splits)

lemma tables_run_queue: "run_queue q f b = Inr b' \<Longrightarrow> tables_of b' = tables_of b"
  by (auto simp: run_queue_def queue_store_def tables_of_def c_bind_Inr_iff fun_eq_iff split: option.splits)

lemma tables_exchange_new:
  assumes "tables_ok b" and "br_exchanges b new = None" and "exchange_new cf new t name internal fed b = (r, b')"
  shows "tables_ok b'"
    and "name' \<noteq> name \<Longrightarrow> br_exchange_table b' name' = br_exchange_table b name'"
proof -
  have "new \<notin> set (br_exchange_list b)" using assms(1,2) by (auto simp: tables_ok_def)
  then show "tables_ok b'"
    using assms by (auto simp: exchange_new_def tables_ok_def split: if_splits)
  show "name' \<noteq> name \<Longrightarrow> br_exchange_table b' name' = br_exchange_table b name'"
    using assms(3) by (auto simp: exchange_new_def split: if_splits)
qed

lemma tables_exchange_destroy:
  assumes "tables_ok b"
  shows "tables_ok (exchange_destroy x b)"
    and "br_exchange_table b name \<noteq> Some x \<Longrightarrow> br_exchange_table (exchange_destroy x b) name = br_exchange_table b name"
proof -
  show "tables_ok (exchange_destroy x b)"
    using assms by (auto simp: exchange_destroy_def tables_ok_def split: option.splits) (metis option.inject)
  show "br_exchange_table (exchange_destroy x b) name = br_exchange_table b name"
    if "br_exchange_table b name \<noteq> Some x"
    using that by (auto simp: exchange_destroy_def split: option.splits)
qed

lemma tables_delete_queue:
  assumes "tables_ok b"
  shows "tables_ok (amq_broker_delete_queue q b)"
    and "br_exchange_table (amq_broker_delete_queue q b) = br_exchange_table b"
  using assms by (auto simp: amq_broker_delete_queue_def tables_ok_def post_def split: option.splits)

lemma tables_add_queue:
  assumes "tables_ok b" and "br_queues b new = None"
  shows "tables_ok (add_queue new bq b)" and "br_exchange_table (add_queue new bq b) = br_exchange_table b"
  using assms by (auto simp: add_queue_def tables_ok_def) (metis option.distinct(1))

text \<open>The names that start as the standard ones do keep their exchanges.\<close>

definition standard_kept :: "amq_broker \<Rightarrow> amq_broker \<Rightarrow> bool" where
  "standard_kept b b' \<longleftrightarrow>
     (\<forall>name. ipr_str_prefixed name ''amq.'' \<longrightarrow> br_exchange_table b' name = br_exchange_table b name)"

definition sound_step :: "amq_broker \<Rightarrow> amq_broker \<Rightarrow> bool" where
  "sound_step b b' \<longleftrightarrow> (tables_ok b \<longrightarrow> tables_ok b') \<and> (tables_ok b \<longrightarrow> standard_kept b b')"

lemma sound_frame: "tables_of b' = tables_of b \<Longrightarrow> sound_step b b'"
  using tables_frame by (auto simp: sound_step_def standard_kept_def tables_of_def)

lemma sound_trans: "sound_step a b \<Longrightarrow> tables_of c = tables_of b \<Longrightarrow> sound_step a c"
  using tables_frame by (auto simp: sound_step_def standard_kept_def tables_of_def)

lemma sound_exchange_declare:
  assumes "br_exchanges b new = None"
  shows "sound_step b (exchange_declare cf new cr type_name name passive internal nowait b)"
proof -
  have new: "sound_step b b'" if "exchange_new cf new t name internal False b = (r, b')"
    "\<not> ipr_str_prefixed name ''amq.''" for t r b'
    using tables_exchange_new [OF _ assms that(1)] that(2) unfolding sound_step_def standard_kept_def by metis
  show ?thesis
  proof (cases "amq_exchange_type_lookup type_name")
    case None
    then show ?thesis by (simp add: exchange_declare_def sound_frame tables_simps)
  next
    case (Some t)
    show ?thesis
    proof (cases "br_exchange_table b name = None \<and> \<not> passive \<and> \<not> ipr_str_prefixed name ''amq.''")
      case True
      obtain r b' where b': "exchange_new cf new t name internal False b = (r, b')" by fastforce
      from Some True b' show ?thesis
        by (auto simp: exchange_declare_def tables_simps intro!: sound_trans [OF new [OF b']] split: option.splits)
    next
      case False
      with Some show ?thesis
        by (auto simp: exchange_declare_def sound_frame tables_simps split: option.splits)
    qed
  qed
qed

lemma sound_exchange_delete: "sound_step b (exchange_delete cr name nowait b)"
proof -
  let ?name = "if name = [] then cc_current_exchange (br_contexts b (cr_channel cr)) else name"
  let ?b = "if nowait then b else reply (Exchange_Delete_Ok (cr_channel cr)) b"
  have t: "tables_of ?b = tables_of b" "br_exchange_table ?b = br_exchange_table b"
    by (simp_all add: tables_simps reply_def)
  show ?thesis
  proof (cases "ipr_str_prefixed ?name ''amq.'' \<or> br_exchange_table b ?name = None")
    case True
    then show ?thesis
      by (auto simp: exchange_delete_def sound_frame tables_simps Let_def split: option.splits)
  next
    case False
    then obtain x where x: "br_exchange_table b ?name = Some x" "\<not> ipr_str_prefixed ?name ''amq.''" by auto
    have "sound_step b (exchange_destroy x ?b)"
      unfolding sound_step_def
    proof (intro conjI impI)
      assume ok: "tables_ok b"
      then have ok': "tables_ok ?b" using tables_frame t(1) by blast
      then show "tables_ok (exchange_destroy x ?b)" by (rule tables_exchange_destroy)
      have "br_exchange_table b n \<noteq> Some x" if "ipr_str_prefixed n ''amq.''" for n
        using ok x that unfolding tables_ok_def by (metis option.inject)
      then show "standard_kept b (exchange_destroy x ?b)"
        using tables_exchange_destroy(2) [OF ok'] t(2) by (simp add: standard_kept_def)
    qed
    with x show ?thesis unfolding exchange_delete_def Let_def by (simp split del: if_split)
  qed
qed

lemma sound_declare_made:
  assumes "br_queues b new = None"
  shows "sound_step b (queue_declare_made new cr name exclusive nowait made err b)"
proof -
  let ?b = "if err then connection_error cr ASL_SYNTAX_ERROR ''Unknown queue profile requested'' b else b"
  have b: "tables_of ?b = tables_of b" "br_queues ?b new = None"
    using assms by (simp_all add: tables_simps connection_error_def reply_def)
  show ?thesis
  proof (cases made)
    case None
    then show ?thesis by (simp add: queue_declare_made_def Let_def sound_frame tables_simps)
  next
    case (Some queue)
    let ?bq = "\<lparr>bq_name = name, bq_state = queue\<rparr>"
    have "sound_step b (add_queue new ?bq ?b)"
      using tables_add_queue [OF _ b(2)] tables_frame [OF b(1)] b(1)
      by (simp add: sound_step_def standard_kept_def tables_of_def)
    moreover have "tables_of (queue_declare_made new cr name exclusive nowait made err b) = tables_of (add_queue new ?bq ?b)"
      using Some by (simp add: queue_declare_made_def Let_def tables_simps)
    ultimately show ?thesis by (rule sound_trans)
  qed
qed

lemma sound_queue_declare:
  assumes "br_queues b new = None"
    and "queue_declare cf new cr name passive durable exclusive auto_delete nowait arguments b = Some (Inr b')"
  shows "sound_step b b'"
proof -
  obtain name1 b1 where n: "(if name = [] then (''auto.'' @ format_d (br_queue_index b), b\<lparr>br_queue_index := br_queue_index b + 1\<rparr>)
      else (name, b)) = (name1, b1)" by fastforce
  then have t: "tables_of b1 = tables_of b" "br_queues b1 new = None"
    using assms(1) by (auto simp: tables_simps split: if_splits)
  have start: "sound_step b c" if "sound_step b1 c" for c
    using that t(1) tables_frame [of b1 b] by (auto simp: sound_step_def standard_kept_def tables_of_def)
  show ?thesis
    using assms(2) unfolding queue_declare_def n Let_def prod.case
    by (auto simp: c_bind_Inr_iff tables_simps t sound_frame split: option.splits if_splits
        intro!: start sound_declare_made)
qed

lemma tables_queue_methods [tables_simps]:
  "tables_of (queue_bind cr name x key nowait arguments b) = tables_of b"
  "tables_of (queue_unbind cr name x key nowait arguments b) = tables_of b"
  "tables_of (queue_delete cr name nowait b) = tables_of b"
  "tables_of (queue_purge cr name nowait b) = tables_of b"
  "tables_of (basic_publish cr x key mandatory immediate content b) = tables_of b"
  "tables_of (basic_get cr name b) = tables_of b"
  by (auto simp: queue_bind_def queue_unbind_def queue_delete_def queue_purge_def basic_publish_def basic_get_def
      Let_def tables_simps split: option.splits)

lemma sound_client:
  assumes "free_address new b" and "client_exec cf new cr m b = Some (Inr b')"
  shows "sound_step b b'"
proof (cases m)
  case (Queue_Declare name p d e a n arguments)
  with assms sound_queue_declare show ?thesis by (auto simp: client_exec_def free_address_def)
next
  case (Exchange_Declare type_name name p i n)
  with assms sound_exchange_declare show ?thesis by (auto simp: client_exec_def free_address_def)
next
  case (Exchange_Delete name n)
  with assms sound_exchange_delete show ?thesis by (auto simp: client_exec_def)
qed (use assms in \<open>auto simp: client_exec_def tables_simps intro!: sound_frame\<close>)

lemma tables_exec_bind: "exec_bind cf new x ch queue key arguments b = Some (Inr b') \<Longrightarrow> tables_of b' = tables_of b"
  by (auto simp: exec_bind_def c_bind_Inr_iff tables_simps Let_def split: option.splits bool.splits)

lemma tables_exec_publish:
  "exec_publish cf x ch content mandatory immediate b = Some (Inr b') \<Longrightarrow> tables_of b' = tables_of b"
  by (auto simp: exec_publish_def c_bind_Inr_iff tables_simps Let_def split: option.splits)

lemma sound_delete_queue: "sound_step b (amq_broker_delete_queue q b)"
  using tables_delete_queue [of b q] by (auto simp: sound_step_def standard_kept_def)

lemma sound_exec:
  assumes "broker_exec cf new c b = Some (Inr b')"
  shows "sound_step b b'"
proof (cases c)
  case (Call_Bind x ch queue key arguments)
  with assms show ?thesis by (auto simp: broker_exec_def intro!: sound_frame tables_exec_bind)
next
  case (Call_Publish x ch content mandatory immediate)
  with assms show ?thesis by (auto simp: broker_exec_def intro!: sound_frame tables_exec_publish)
next
  case (Call_Delete_Queue q)
  with assms show ?thesis by (simp add: broker_exec_def) (metis sound_delete_queue)
qed (use assms in \<open>auto simp: broker_exec_def tables_simps c_bind_Inr_iff intro!: sound_frame dest!: tables_run_queue
      split: option.splits\<close>)

lemma sound_object_step:
  assumes "broker_step cf new i b = Some (Inr b')"
  shows "sound_step b b'"
proof (cases "ready i (br_calls b)")
  case True
  with assms have "sound_step (take_call i b) b'" by (auto simp: broker_step_def intro!: sound_exec)
  then show ?thesis
    using tables_frame [of "take_call i b" b] by (auto simp: sound_step_def standard_kept_def tables_simps take_call_def)
next
  case False
  with assms show ?thesis by (simp add: broker_step_def sound_frame)
qed

lemma tables_declare_all:
  assumes "declare_all cf new es b = Inr b'" and "tables_ok b" and "\<forall>x\<ge>new. br_exchanges b x = None"
  shows "tables_ok b'"
  using assms
proof (induction cf new es b arbitrary: b' rule: declare_all.induct)
  case (2 cf new name t default_exchange auto_federate es b)
  from "2.prems"(1) obtain b1 where b1: "s_exchange_declare cf new name t default_exchange auto_federate b = Inr b1"
    "declare_all cf (new + 1) es b1 = Inr b'" by (auto simp: c_bind_Inr_iff)
  obtain r b2 where b2: "exchange_new cf new t name default_exchange auto_federate b = (r, b2)" by fastforce
  have "tables_ok b2" using tables_exchange_new(1) [OF "2.prems"(2) _ b2] "2.prems"(3) by simp
  then have "tables_ok b1" using b1(1) b2 tables_frame [of b1 b2]
    by (auto simp: s_exchange_declare_def tables_simps split: option.splits if_splits)
  moreover have "\<forall>x\<ge>new + 1. br_exchanges b1 x = None"
    using b1(1) "2.prems"(3) by (auto simp: s_exchange_declare_def exchange_new_def split: if_splits)
  ultimately show ?case using "2.IH" b1(2) by blast
qed simp

lemma tables_new: "amq_broker_new cf chs cns = Inr b \<Longrightarrow> tables_ok b"
  unfolding amq_broker_new_def
  by (rule tables_declare_all) (auto simp: empty_broker_def tables_ok_def)

lemma broker_reach_sound:
  assumes "broker_reach cf b0 b" and "tables_ok b0"
  shows "tables_ok b \<and> standard_kept b0 b"
  using assms
proof induction
  case begin_broker
  then show ?case by (simp add: standard_kept_def)
next
  case (client_step b new cr m b')
  with sound_client show ?case by (auto simp: sound_step_def standard_kept_def)
next
  case (object_step b new i b')
  with sound_object_step show ?case by (auto simp: sound_step_def standard_kept_def)
qed

text \<open>
  C8. Whatever clients do and in whatever order the objects get to their work, the tables of the broker stay
  sound: a name stands for at most one exchange, which is not destroyed and is the one in the list, every name in the
  queue table stands for a queue of that name, and the names that start with \<^verbatim>\<open>amq.\<close> stand for the
  exchanges the broker has made itself.
\<close>

theorem broker_tables_sound:
  assumes "amq_broker_new cf chs cns = Inr b0" and "broker_reach cf b0 b"
  shows "tables_ok b \<and> standard_kept b0 b"
  using broker_reach_sound [OF assms(2) tables_new [OF assms(1)]] .

lemma broker_new_default:
  "\<exists>b0 bx. amq_broker_new cf chs cns = Inr b0 \<and> br_default_exchange b0 = 1 \<and> br_exchange_table b0 ''$default$'' = Some 1 \<and>
    br_exchanges b0 1 = Some bx \<and> bx_name bx = ''$default$'' \<and> free_address 13 b0"
  by (simp add: amq_broker_new_def automatic_wiring_def s_exchange_declare_def exchange_new_def empty_broker_def
      free_address_def)

section \<open>Publishing\<close>

definition kind_hits :: "exchange_env \<Rightarrow> exchange_type \<Rightarrow> string \<Rightarrow> byte list \<Rightarrow> amq_content \<Rightarrow> bool" where
  "kind_hits env t =
     (case t of
        AMQ_EXCHANGE_DIRECT \<Rightarrow> key_hits
      | AMQ_EXCHANGE_FANOUT \<Rightarrow> all_hits
      | AMQ_EXCHANGE_TOPIC \<Rightarrow> topic_hits (env_re env)
      | AMQ_EXCHANGE_REGEXP \<Rightarrow> regexp_hits (env_re env)
      | AMQ_EXCHANGE_HEADERS \<Rightarrow> headers_hits env
      | AMQ_EXCHANGE_SYSTEM \<Rightarrow> (\<lambda>k a m. False))"

definition kind_ok :: "exchange_env \<Rightarrow> (nat \<Rightarrow> string) \<Rightarrow> exchange_type \<Rightarrow> command \<Rightarrow> amq_exchange \<Rightarrow> bool" where
  "kind_ok env qn t =
     (case t of
        AMQ_EXCHANGE_DIRECT \<Rightarrow> direct_ok qn
      | AMQ_EXCHANGE_FANOUT \<Rightarrow> fanout_ok qn
      | AMQ_EXCHANGE_TOPIC \<Rightarrow> topic_ok env qn
      | AMQ_EXCHANGE_REGEXP \<Rightarrow> command_ok qn AMQ_EXCHANGE_REGEXP decodes (\<lambda>_ _. True) (regexp_hits (env_re env))
      | AMQ_EXCHANGE_HEADERS \<Rightarrow> headers_ok env qn
      | AMQ_EXCHANGE_SYSTEM \<Rightarrow> (\<lambda>cmd x. False))"

text \<open>What all kinds of exchange do with a message, by the contract they share.\<close>

lemma kind_publish:
  assumes "inj qn" and "kind_reach env t (kind_ok env qn t) x B" and "kind_ok env qn t (Publish channel mandatory m) x"
  shows "\<exists>y outcome. amq_exchange_publish (exchange_publish_fn env t) channel mandatory m x = Some (Inr (y, outcome)) \<and>
    distinct (po_queues outcome) \<and> set (po_queues outcome) = {q. \<exists>k a. (k, a, q) \<in> B \<and> kind_hits env t k a m} \<and> ex_type x = t"
proof -
  have "(\<exists>y out. kind_exec env t (Publish channel mandatory m) x = Some (Inr (y, out)) \<and>
      distinct out \<and> set out = spec_output (kind_hits env t) (Publish channel mandatory m) B) \<and> ex_type x = t"
  proof (cases t)
    case AMQ_EXCHANGE_DIRECT
    then have r: "kind_reach env AMQ_EXCHANGE_DIRECT (kind_ok env qn AMQ_EXCHANGE_DIRECT) x B" "kind_ok env qn AMQ_EXCHANGE_DIRECT (Publish channel mandatory m) x"
      using assms(2,3) by simp_all
    note r = r [unfolded kind_ok_def exchange_type.case]
    from direct.exchange_refines [OF r(1) assms(1) r(2)] direct.good_simps(5) [OF conjunct1 [OF direct.reach_refines [OF r(1) assms(1)]]]
    show ?thesis unfolding AMQ_EXCHANGE_DIRECT kind_hits_def exchange_type.case by blast
  next
    case AMQ_EXCHANGE_FANOUT
    then have r: "kind_reach env AMQ_EXCHANGE_FANOUT (kind_ok env qn AMQ_EXCHANGE_FANOUT) x B" "kind_ok env qn AMQ_EXCHANGE_FANOUT (Publish channel mandatory m) x"
      using assms(2,3) by simp_all
    note r = r [unfolded kind_ok_def exchange_type.case]
    from fanout.exchange_refines [OF r(1) assms(1) r(2)] fanout.good_simps(5) [OF conjunct1 [OF fanout.reach_refines [OF r(1) assms(1)]]]
    show ?thesis unfolding AMQ_EXCHANGE_FANOUT kind_hits_def exchange_type.case by blast
  next
    case AMQ_EXCHANGE_TOPIC
    then have r: "kind_reach env AMQ_EXCHANGE_TOPIC (kind_ok env qn AMQ_EXCHANGE_TOPIC) x B" "kind_ok env qn AMQ_EXCHANGE_TOPIC (Publish channel mandatory m) x"
      using assms(2,3) by simp_all
    note r = r [unfolded kind_ok_def exchange_type.case]
    from topic.exchange_refines [OF r(1) assms(1) r(2)] topic.good_simps(5) [OF conjunct1 [OF topic.reach_refines [OF r(1) assms(1)]]]
    show ?thesis unfolding AMQ_EXCHANGE_TOPIC kind_hits_def exchange_type.case by blast
  next
    case AMQ_EXCHANGE_REGEXP
    then have r: "kind_reach env AMQ_EXCHANGE_REGEXP (kind_ok env qn AMQ_EXCHANGE_REGEXP) x B" "kind_ok env qn AMQ_EXCHANGE_REGEXP (Publish channel mandatory m) x"
      using assms(2,3) by simp_all
    note r = r [unfolded kind_ok_def exchange_type.case]
    from regexp.exchange_refines [OF r(1) assms(1) r(2)] regexp.good_simps(5) [OF conjunct1 [OF regexp.reach_refines [OF r(1) assms(1)]]]
    show ?thesis unfolding AMQ_EXCHANGE_REGEXP kind_hits_def exchange_type.case by blast
  next
    case AMQ_EXCHANGE_HEADERS
    then have r: "kind_reach env AMQ_EXCHANGE_HEADERS (kind_ok env qn AMQ_EXCHANGE_HEADERS) x B" "kind_ok env qn AMQ_EXCHANGE_HEADERS (Publish channel mandatory m) x"
      using assms(2,3) by simp_all
    note r = r [unfolded kind_ok_def exchange_type.case]
    from headers.exchange_refines [OF r(1) assms(1) r(2)] headers.good_simps(5) [OF conjunct1 [OF headers.reach_refines [OF r(1) assms(1)]]]
    show ?thesis unfolding AMQ_EXCHANGE_HEADERS kind_hits_def exchange_type.case by blast
  next
    case AMQ_EXCHANGE_SYSTEM
    with assms(3) show ?thesis by (simp add: kind_ok_def)
  qed
  then show ?thesis by (auto simp: exec_def spec_output_def c_bind_Inr_iff)
qed

lemma queue_publish_returns: "\<exists>q'. amq_queue_publish channel content immediate q = Inr q'"
proof (cases "q_enabled q")
  case True
  then show ?thesis
    unfolding amq_queue_publish_def amq_queue_basic_publish_def Let_def
    by (auto split: prod.split) (metis dispatch_cases)
qed (simp add: amq_queue_publish_def)

text \<open>The first calls of the broker, in the order they were made.\<close>

fun run_calls :: "broker_config \<Rightarrow> nat \<Rightarrow> amq_broker \<Rightarrow> amq_broker c_result option" where
  "run_calls cf 0 b = Some (Inr b)"
| "run_calls cf (Suc n) b =
     (case broker_step cf 0 0 b of
        None \<Rightarrow> None
      | Some (Inl e) \<Rightarrow> Some (Inl e)
      | Some (Inr b) \<Rightarrow> run_calls cf n b)"

definition published :: "nat option \<Rightarrow> amq_content \<Rightarrow> bool \<Rightarrow> amq_broker \<Rightarrow> amq_broker \<Rightarrow> nat \<Rightarrow> bool" where
  "published ch m immediate b b' q \<longleftrightarrow>
     (\<exists>bq bq' chs. br_queues b q = Some bq \<and> br_queues b' q = Some bq' \<and> bq_name bq' = bq_name bq \<and>
        amq_queue_publish ch m immediate ((bq_state bq)\<lparr>q_channels := chs, q_connections := br_connections b, q_sent := []\<rparr>) =
        Inr (bq_state bq'))"

lemma step_first: "br_calls b = c # cs \<Longrightarrow> broker_step cf new 0 b = broker_exec cf new c (b\<lparr>br_calls := cs\<rparr>)"
  by (simp add: broker_step_def ready_def take_call_def)

lemma run_queue_publishes:
  assumes "br_calls b = map (\<lambda>q. Call_Queue_Publish q ch m immediate) qs @ rest" and "distinct qs"
    and "\<forall>q\<in>set qs. br_queues b q \<noteq> None"
  shows "\<exists>b'. run_calls cf (length qs) b = Some (Inr b') \<and> (\<forall>q. q \<notin> set qs \<longrightarrow> br_queues b' q = br_queues b q) \<and>
    (\<forall>q\<in>set qs. published ch m immediate b b' q) \<and> br_connections b' = br_connections b"
  using assms
proof (induction qs arbitrary: b rest)
  case (Cons q qs)
  then obtain bq where bq: "br_queues b q = Some bq" by auto
  let ?b = "b\<lparr>br_calls := map (\<lambda>q. Call_Queue_Publish q ch m immediate) qs @ rest\<rparr>"
  obtain q' where q': "amq_queue_publish ch m immediate (queue_view ?b bq) = Inr q'" using queue_publish_returns by blast
  let ?c = "queue_store q bq q' ?b"
  have step: "broker_step cf 0 0 b = Some (Inr ?c)"
    using Cons.prems(1) bq q' by (simp add: step_first broker_exec_def run_queue_def)
  have calls: "br_calls ?c = map (\<lambda>q. Call_Queue_Publish q ch m immediate) qs @ (rest @ concat (map (event_calls q) (q_sent q')))"
    by (simp add: queue_store_def)
  have frame: "br_queues ?c r = br_queues b r" if "r \<noteq> q" for r using that by (simp add: queue_store_def)
  have cn: "br_connections ?c = br_connections b" by (simp add: queue_store_def)
  have "distinct qs" "\<forall>r\<in>set qs. br_queues ?c r \<noteq> None" using Cons.prems(2,3) by (simp_all add: queue_store_def)
  from Cons.IH [OF calls this] obtain b' where b': "run_calls cf (length qs) ?c = Some (Inr b')"
    "\<forall>r. r \<notin> set qs \<longrightarrow> br_queues b' r = br_queues ?c r" "\<forall>r\<in>set qs. published ch m immediate ?c b' r"
    "br_connections b' = br_connections ?c" by blast
  have "q \<notin> set qs" using Cons.prems(2) by simp
  then have "br_queues b' q = Some (bq\<lparr>bq_state := q'\<rparr>)" using b'(2) by (simp add: queue_store_def)
  with bq q' have "published ch m immediate b b' q" by (auto simp: published_def queue_view_def)
  moreover have "published ch m immediate b b' r" if "r \<in> set qs" for r
  proof -
    have "r \<noteq> q" using that \<open>q \<notin> set qs\<close> by auto
    moreover have "published ch m immediate ?c b' r" using b'(3) that by blast
    ultimately show ?thesis using frame [of r] cn by (simp add: published_def)
  qed
  ultimately show ?case using step b' frame cn by auto
qed simp

text \<open>What a client's publication stamps on its content.\<close>

definition stamped :: "amq_broker \<Rightarrow> channel_ref \<Rightarrow> string \<Rightarrow> amq_content \<Rightarrow> amq_content" where
  "stamped b cr key m = m\<lparr>ct_routing_key := key, ct_producer_id := connection_id b (cr_connection cr)\<rparr>"

lemma basic_publish_posts:
  assumes "tables_ok b" and "br_exchange_table b exchange = Some x" and "exchange \<noteq> []"
    and "br_exchanges b x = Some bx" and "\<not> bx_internal bx"
  shows "basic_publish cr exchange key mandatory immediate m b =
    post [Call_Publish x (Some (cr_channel cr)) (stamped b cr key m) mandatory immediate] b"
proof -
  have "\<not> bx_destroyed bx" using assms(1,2,4) unfolding tables_ok_def by fastforce
  with assms(2-5) show ?thesis by (simp add: basic_publish_def post_exchange_def stamped_def)
qed

text \<open>
  C5. A client that publishes a message to an exchange by its name, while the objects of the broker have
  nothing else to do: the exchange puts the message, stamped with its routing key and producer, on each queue
  that is bound so as to be hit by it, exactly once, and no other queue changes.  The exchange is of any of
  the five kinds, not internal, and in a state it can reach by the operations under which it refines its
  specification: there is room for each binding; a direct or fanout exchange has bindings without arguments
  only; a pattern of a topic exchange fits its buffer, and no key without wildcards has been bound first
  after a pattern that matches it and before a message with that key; the arguments of a binding of a headers
  exchange have distinct index keys.  The message has distinct header keys for a headers exchange, is not
  forwarded to another broker instead, and hits no more queues, counted for each binding, than a queue set
  holds; the queues it hits exist.
\<close>

theorem publish_reaches_bound_queues:
  assumes "tables_ok b" and "br_exchange_table b exchange = Some x" and "exchange \<noteq> []"
    and "br_exchanges b x = Some bx" and "\<not> bx_internal bx" and "br_calls b = []"
    and "inj qn" and "kind_reach (cf_exchange_env cf) t (kind_ok (cf_exchange_env cf) qn t) (bx_state bx) B"
    and "kind_ok (cf_exchange_env cf) qn t (Publish True mandatory (stamped b cr key m)) (bx_state bx)"
    and "Q = {q. \<exists>k a. (k, a, q) \<in> B \<and> kind_hits (cf_exchange_env cf) t k a (stamped b cr key m)}"
    and "\<forall>q\<in>Q. br_queues b q \<noteq> None"
  shows "\<exists>b'. run_calls cf (Suc (card Q)) (basic_publish cr exchange key mandatory immediate m b) = Some (Inr b') \<and>
    (\<forall>q\<in>Q. published (Some (cr_channel cr)) (stamped b cr key m) immediate b b' q) \<and>
    (\<forall>q. q \<notin> Q \<longrightarrow> br_queues b' q = br_queues b q)"
proof -
  let ?m = "stamped b cr key m" and ?ch = "Some (cr_channel cr)"
  obtain y outcome where y: "amq_exchange_publish (exchange_publish_fn (cf_exchange_env cf) t) True mandatory ?m (bx_state bx) =
      Some (Inr (y, outcome))" "distinct (po_queues outcome)" "set (po_queues outcome) = Q" "ex_type (bx_state bx) = t"
    using kind_publish [OF assms(7-9)] unfolding assms(10) by blast
  let ?post = "basic_publish cr exchange key mandatory immediate m b"
  have p: "?post = b\<lparr>br_calls := [Call_Publish x ?ch ?m mandatory immediate]\<rparr>"
    using basic_publish_posts [OF assms(1-5)] assms(6) by (simp add: post_def)
  obtain c where c: "broker_step cf 0 0 ?post = Some (Inr c)"
    "br_calls c = map (\<lambda>q. Call_Queue_Publish q ?ch ?m immediate) (po_queues outcome) @ []"
    "br_queues c = br_queues b" "br_connections c = br_connections b"
    using p assms(4,6) y(1,4)
    by (auto simp: step_first broker_exec_def exec_publish_def update_exchange_def post_def reply_def Let_def)
  have len: "length (po_queues outcome) = card Q" using y(2,3) distinct_card by metis
  have "\<forall>q\<in>set (po_queues outcome). br_queues c q \<noteq> None" using assms(11) y(3) c(3) by simp
  from run_queue_publishes [OF c(2) y(2) this, of cf] obtain b' where
    "run_calls cf (card Q) c = Some (Inr b')" "\<forall>q. q \<notin> Q \<longrightarrow> br_queues b' q = br_queues c q"
    "\<forall>q\<in>Q. published ?ch ?m immediate c b' q" unfolding y(3) len by blast
  with c show ?thesis by (auto simp: published_def)
qed

text \<open>A broker with one direct exchange and one queue, bound to it under the key \<open>k\<close>.\<close>

definition demo_config :: broker_config where
  "demo_config = \<lparr>cf_exchange_env = void_env, cf_matches = (\<lambda>_ _. False), cf_attach = [], cf_attach_all = [],
     cf_federate = [], cf_profiles = [''shared'' \<mapsto> [], ''private'' \<mapsto> []], cf_no_ack = False, cf_queue_timeout = 0\<rparr>"

definition demo_broker :: "amq_exchange \<Rightarrow> amq_broker" where
  "demo_broker st = (empty_broker Map.empty Map.empty)\<lparr>
     br_exchange_table := [''x'' \<mapsto> 1], br_exchange_list := [1],
     br_exchanges := [1 \<mapsto> \<lparr>bx_name = ''x'', bx_internal = False, bx_destroyed = False, bx_state = st\<rparr>],
     br_queue_table := [queue_name 7 \<mapsto> 7],
     br_queues := [7 \<mapsto> \<lparr>bq_name = queue_name 7, bq_state = new_queue demo_config None False False\<rparr>]\<rparr>"

definition demo_channel :: channel_ref where
  "demo_channel = \<lparr>cr_channel = 5, cr_connection = 6\<rparr>"

theorem broker_tables_sound_witness:
  "\<exists>b0 b. amq_broker_new demo_config Map.empty Map.empty = Inr b0 \<and> b = exchange_delete demo_channel ''$default$'' True b0 \<and>
    br_exchange_table b ''$default$'' = None \<and> tables_ok b \<and> standard_kept b0 b"
proof -
  obtain b0 bx where b0: "amq_broker_new demo_config Map.empty Map.empty = Inr b0" "br_exchange_table b0 ''$default$'' = Some 1"
    "br_exchanges b0 1 = Some bx" "bx_name bx = ''$default$''" "free_address 13 b0"
    using broker_new_default by blast
  let ?b = "exchange_delete demo_channel ''$default$'' True b0"
  have "client_exec demo_config 13 demo_channel (Exchange_Delete ''$default$'' True) b0 = Some (Inr ?b)" by (simp add: client_exec_def)
  from broker_tables_sound [OF b0(1) broker_reach.client_step [OF broker_reach.begin_broker b0(5) this]]
  have "tables_ok ?b \<and> standard_kept b0 ?b" .
  moreover have "br_exchange_table ?b ''$default$'' = None"
    using b0 by (simp add: exchange_delete_def ipr_str_prefixed_def exchange_destroy_def)
  ultimately show ?thesis using b0(1) by blast
qed

lemma demo_tables: "tables_ok (demo_broker st)"
  by (auto simp: tables_ok_def demo_broker_def)

lemma direct_bound:
  "\<exists>y. ex_binding_list y = [40] \<and> queues_at y 40 = [7] \<and> ex_federation_type y = AMQ_FEDERATION_NONE \<and>
    kind_reach env AMQ_EXCHANGE_DIRECT (direct_ok queue_name) y {(''k'', [], 7)}"
proof -
  let ?x = "amq_exchange_new AMQ_EXCHANGE_DIRECT AMQ_FEDERATION_NONE"
  have "ix_inv (ex_binding_index ?x)" "3 * ix_size (ex_binding_index ?x) + 17 \<le> BITS_CAP"
    using ex_wf_new [of AMQ_EXCHANGE_DIRECT AMQ_FEDERATION_NONE]
    by (simp_all add: ex_wf_def amq_exchange_new_def ipr_index_new_def BITS_CAP_def IPR_BITS_SIZE_def)
  then obtain ix n where ix: "ipr_index_insert (ex_binding_index ?x) 40 = Some (Inr (ix, n))" "0 < n"
    using index_room [of "ex_binding_index ?x" 40] by auto
  have "amq_exchange_bind_queue (exchange_compile env AMQ_EXCHANGE_DIRECT) 40 True (queue_at 7) ''k'' [] ?x =
    Some (Inr (attach_queue (add_binding (hash_with ?x ''k'' 40) 40
      (new_binding ''k'' [] (qr_exclusive (queue_at 7)) n) ix (ex_indices ?x)) 40 (queue_at 7), False))"
    by (rule bind_new_form [OF _ _ ix table_fields_empty])
      (simp_all add: spec_key_def amq_exchange_new_def hash_with_def exchange_compile_def)
  then obtain y where y: "kind_exec env AMQ_EXCHANGE_DIRECT (Bind 40 True (queue_at 7) ''k'' []) ?x = Some (Inr (y, []))"
    "ex_binding_list y = [40]" "queues_at y 40 = [7]" "ex_federation_type y = AMQ_FEDERATION_NONE"
    by (simp add: exec_def)
      (simp add: attach_queue_def add_binding_def hash_with_def new_binding_def amq_exchange_new_def queue_at_def
        amq_binding_bind_queue_def)
  have "direct_ok queue_name (Bind 40 True (queue_at 7) ''k'' []) ?x"
    by (rule bind_new_ok) (simp add: plain_admits_def)
  note ok = this
  have "kind_reach env AMQ_EXCHANGE_DIRECT (direct_ok queue_name) ?x {}" by (rule ex_reach.reach_new)
  from ex_reach.reach_step [OF this ok y(1)] have "kind_reach env AMQ_EXCHANGE_DIRECT (direct_ok queue_name) y
      (spec_step AMQ_EXCHANGE_DIRECT (Bind 40 True (queue_at 7) ''k'' []) {})" .
  with y show ?thesis by (auto simp: spec_step_def spec_key_def queue_at_def)
qed

theorem publish_reaches_bound_queues_witness:
  "\<exists>st b'. run_calls demo_config 2 (basic_publish demo_channel ''x'' ''k'' False False (keyed_message []) (demo_broker st)) =
      Some (Inr b') \<and>
    published (Some 5) (stamped (demo_broker st) demo_channel ''k'' (keyed_message [])) False (demo_broker st) b' 7"
proof -
  obtain st where st: "ex_binding_list st = [40]" "queues_at st 40 = [7]" "ex_federation_type st = AMQ_FEDERATION_NONE"
    and reach: "kind_reach void_env AMQ_EXCHANGE_DIRECT (direct_ok queue_name) st {(''k'', [], 7)}"
    using direct_bound by blast
  let ?m = "stamped (demo_broker st) demo_channel ''k'' (keyed_message [])"
  have "hit_bindings key_hits st ?m \<subseteq> {40}" using st(1) by (auto simp: hit_bindings_def)
  then have hb: "hit_bindings key_hits st ?m = {} \<or> hit_bindings key_hits st ?m = {40}" by auto
  have "(\<Sum>p\<in>hit_bindings key_hits st ?m. length (queues_at st p)) \<le> AMQ_QUEUE_SET_MAX"
    using hb st(2) by (elim disjE) (simp_all add: AMQ_QUEUE_SET_MAX_def)
  then have ok: "direct_ok queue_name (Publish True False ?m) st"
    using st(3) by (simp add: command_ok_def)
  have Q: "{7 :: nat} = {q. \<exists>k a. (k, a, q) \<in> {(''k'', [] :: byte list, 7)} \<and> kind_hits void_env AMQ_EXCHANGE_DIRECT k a ?m}"
    by (auto simp: kind_hits_def key_hits_def stamped_def)
  have cf: "cf_exchange_env demo_config = void_env" by (simp add: demo_config_def)
  let ?bx = "\<lparr>bx_name = ''x'', bx_internal = False, bx_destroyed = False, bx_state = st\<rparr>"
  have b: "br_exchange_table (demo_broker st) ''x'' = Some 1" "br_exchanges (demo_broker st) 1 = Some ?bx" "\<not> bx_internal ?bx"
    "br_calls (demo_broker st) = []" "\<forall>q\<in>{7}. br_queues (demo_broker st) q \<noteq> None"
    by (simp_all add: demo_broker_def empty_broker_def)
  have reach': "kind_reach (cf_exchange_env demo_config) AMQ_EXCHANGE_DIRECT
      (kind_ok (cf_exchange_env demo_config) queue_name AMQ_EXCHANGE_DIRECT) (bx_state ?bx) {(''k'', [], 7)}"
    using reach by (simp add: cf kind_ok_def)
  have ok': "kind_ok (cf_exchange_env demo_config) queue_name AMQ_EXCHANGE_DIRECT (Publish True False ?m) (bx_state ?bx)"
    using ok by (simp add: cf kind_ok_def)
  note publish_reaches_bound_queues [OF demo_tables b(1) _ b(2-4) queue_name_inj reach' ok' Q [folded cf] b(5)]
  then show ?thesis by (fastforce simp: demo_channel_def numeral_2_eq_2)
qed

section \<open>Deleting a queue\<close>

lemma reach_nothing:
  assumes "ex_reach compile unbind route ok t fed x B" and "\<And>cmd x. \<not> ok cmd x"
  shows "x = amq_exchange_new t fed \<and> B = {}"
  using assms by cases auto

text \<open>What all kinds of exchange do when a queue goes away, by the contract they share.\<close>

lemma kind_drop:
  assumes "inj qn" and "kind_reach env t (kind_ok env qn t) x B" and "qr_name queue = qn (qr_addr queue)"
  shows "\<exists>y. amq_exchange_broker_unbind_queue (exchange_unbind t) queue x = Inr y \<and>
    bound y = {(k, a, r) \<in> bound x. r \<noteq> qr_addr queue} \<and> ex_type x = t"
proof (cases t)
  case AMQ_EXCHANGE_DIRECT
  note r = assms(2) [unfolded AMQ_EXCHANGE_DIRECT kind_ok_def exchange_type.case]
  note g = conjunct1 [OF direct.reach_refines [OF r assms(1)]]
  from direct.drop_refines [OF g assms(1,3)] direct.good_simps(5) [OF g] show ?thesis
    unfolding AMQ_EXCHANGE_DIRECT by blast
next
  case AMQ_EXCHANGE_FANOUT
  note r = assms(2) [unfolded AMQ_EXCHANGE_FANOUT kind_ok_def exchange_type.case]
  note g = conjunct1 [OF fanout.reach_refines [OF r assms(1)]]
  from fanout.drop_refines [OF g assms(1,3)] fanout.good_simps(5) [OF g] show ?thesis
    unfolding AMQ_EXCHANGE_FANOUT by blast
next
  case AMQ_EXCHANGE_TOPIC
  note r = assms(2) [unfolded AMQ_EXCHANGE_TOPIC kind_ok_def exchange_type.case]
  note g = conjunct1 [OF topic.reach_refines [OF r assms(1)]]
  from topic.drop_refines [OF g assms(1,3)] topic.good_simps(5) [OF g] show ?thesis
    unfolding AMQ_EXCHANGE_TOPIC by blast
next
  case AMQ_EXCHANGE_REGEXP
  note r = assms(2) [unfolded AMQ_EXCHANGE_REGEXP kind_ok_def exchange_type.case]
  note g = conjunct1 [OF regexp.reach_refines [OF r assms(1)]]
  from regexp.drop_refines [OF g assms(1,3)] regexp.good_simps(5) [OF g] show ?thesis
    unfolding AMQ_EXCHANGE_REGEXP by blast
next
  case AMQ_EXCHANGE_HEADERS
  note r = assms(2) [unfolded AMQ_EXCHANGE_HEADERS kind_ok_def exchange_type.case]
  note g = conjunct1 [OF headers.reach_refines [OF r assms(1)]]
  from headers.drop_refines [OF g assms(1,3)] headers.good_simps(5) [OF g] show ?thesis
    unfolding AMQ_EXCHANGE_HEADERS by blast
next
  case AMQ_EXCHANGE_SYSTEM
  have "x = amq_exchange_new AMQ_EXCHANGE_SYSTEM AMQ_FEDERATION_NONE"
    using reach_nothing [OF assms(2)] by (simp add: kind_ok_def AMQ_EXCHANGE_SYSTEM)
  then show ?thesis
    by (simp add: AMQ_EXCHANGE_SYSTEM amq_exchange_broker_unbind_queue_def amq_exchange_new_def bound_def)
qed

lemma run_drops:
  assumes "br_calls b = map (\<lambda>x. Call_Drop x queue) xs" and "distinct xs" and "inj qn"
    and "qr_name queue = qn (qr_addr queue)"
    and "\<forall>x\<in>set xs. \<exists>bx t B. br_exchanges b x = Some bx \<and>
      kind_reach (cf_exchange_env cf) t (kind_ok (cf_exchange_env cf) qn t) (bx_state bx) B"
  shows "\<exists>b'. run_calls cf (length xs) b = Some (Inr b') \<and> br_calls b' = [] \<and> br_queue_table b' = br_queue_table b \<and>
    (\<forall>x. x \<notin> set xs \<longrightarrow> br_exchanges b' x = br_exchanges b x) \<and>
    (\<forall>x\<in>set xs. \<exists>bx'. br_exchanges b' x = Some bx' \<and>
       bound (bx_state bx') = {(k, a, r) \<in> bound (bx_state (the (br_exchanges b x))). r \<noteq> qr_addr queue})"
  using assms
proof (induction xs arbitrary: b)
  case (Cons x xs)
  from Cons.prems(5) obtain bx t B where bx: "br_exchanges b x = Some bx"
    "kind_reach (cf_exchange_env cf) t (kind_ok (cf_exchange_env cf) qn t) (bx_state bx) B" by auto
  from kind_drop [OF Cons.prems(3) bx(2) Cons.prems(4)] obtain y where
    y: "amq_exchange_broker_unbind_queue (exchange_unbind (ex_type (bx_state bx))) queue (bx_state bx) = Inr y"
      "bound y = {(k, a, r) \<in> bound (bx_state bx). r \<noteq> qr_addr queue}" by blast
  let ?c = "update_exchange x y (b\<lparr>br_calls := map (\<lambda>x. Call_Drop x queue) xs\<rparr>)"
  have step: "broker_step cf 0 0 b = Some (Inr ?c)"
    using Cons.prems(1) bx(1) y(1) by (simp add: step_first broker_exec_def)
  have c: "br_calls ?c = map (\<lambda>x. Call_Drop x queue) xs" "br_queue_table ?c = br_queue_table b"
    "br_exchanges ?c = (br_exchanges b)(x \<mapsto> bx\<lparr>bx_state := y\<rparr>)"
    using bx(1) by (simp_all add: update_exchange_def)
  have x: "x \<notin> set xs" "distinct xs" using Cons.prems(2) by simp_all
  then have "\<forall>x\<in>set xs. \<exists>bx t B. br_exchanges ?c x = Some bx \<and>
      kind_reach (cf_exchange_env cf) t (kind_ok (cf_exchange_env cf) qn t) (bx_state bx) B"
    using Cons.prems(5) unfolding c(3) by auto
  from Cons.IH [OF c(1) x(2) Cons.prems(3,4) this] obtain b' where b': "run_calls cf (length xs) ?c = Some (Inr b')"
    "br_calls b' = []" "br_queue_table b' = br_queue_table ?c" "\<forall>r. r \<notin> set xs \<longrightarrow> br_exchanges b' r = br_exchanges ?c r"
    "\<forall>r\<in>set xs. \<exists>bx'. br_exchanges b' r = Some bx' \<and>
       bound (bx_state bx') = {(k, a, q) \<in> bound (bx_state (the (br_exchanges ?c r))). q \<noteq> qr_addr queue}" by blast
  have other: "br_exchanges ?c r = br_exchanges b r" if "r \<in> set xs" for r using that x(1) unfolding c(3) by auto
  have "\<forall>r\<in>set (x # xs). \<exists>bx'. br_exchanges b' r = Some bx' \<and>
       bound (bx_state bx') = {(k, a, q) \<in> bound (bx_state (the (br_exchanges b r))). q \<noteq> qr_addr queue}"
    using b'(4,5) other x(1) y(2) bx(1) c(3) by auto
  with step b'(1-4) c show ?case by auto
qed simp

lemma free_consumers_calls:
  "concat (map (event_calls a) (q_sent (free_consumers cs q))) = concat (map (event_calls a) (q_sent q))"
  by (induction cs arbitrary: q) (auto simp: send_def split: option.splits)

lemma destruct_calls:
  "concat (map (event_calls a) (q_sent (amq_queue_self_destruct q))) =
     concat (map (event_calls a) (q_sent q)) @ Call_Delete_Queue a # (if q_exclusive q then [Call_Unbind_Connections a] else [])"
  by (simp add: amq_queue_self_destruct_def amq_queue_basic_stop_def free_consumers_calls Let_def) (simp add: send_def)

lemma run_calls_add: "run_calls cf m b = Some (Inr c) \<Longrightarrow> run_calls cf (m + n) b = run_calls cf n c"
  by (induction m arbitrary: b) (auto split: option.splits sum.splits)



section \<open>What a client can break\<close>

text \<open>
  C37. The default exchange has a name that clients may use: a client that deletes \<^verbatim>\<open>$default$\<close> in a new
  broker destroys it, and what clients publish to the default exchange afterwards is lost without a word, also if
  it is mandatory.
\<close>

theorem default_exchange_deletable:
  "\<exists>b0 b. amq_broker_new cf chs cns = Inr b0 \<and> b = exchange_delete cr ''$default$'' nowait b0 \<and>
    br_exchange_table b ''$default$'' = None \<and>
    (\<forall>cr key mandatory immediate m. basic_publish cr [] key mandatory immediate m b = b)"
proof -
  obtain b0 bx where b0: "amq_broker_new cf chs cns = Inr b0" "br_default_exchange b0 = 1"
    "br_exchange_table b0 ''$default$'' = Some 1" "br_exchanges b0 1 = Some bx" "bx_name bx = ''$default$''"
    using broker_new_default by blast
  then show ?thesis
    by (auto simp: exchange_delete_def ipr_str_prefixed_def exchange_destroy_def reply_def basic_publish_def
        post_exchange_def Let_def)
qed

text \<open>The arguments with which a client asks for the profile \<open>x\<close>.\<close>

definition profile_arguments :: "byte list" where
  "profile_arguments = [7, 112, 114, 111, 102, 105, 108, 101, 83, 0, 0, 0, 1, 120]"

definition profile_field :: asl_field where
  "profile_field = \<lparr>links = 0, zombie = False, list_head = Some 0, list_prev = 0, list_next = 0,
     field_name = PROFILE_KEY, field_type = 83, decimals = 0,
     field_string = Some \<lparr>cur_size = 1, ls_data = [120, 0]\<rparr>, field_integer = 0\<rparr>"

lemma profile_argument:
  "table_fields profile_arguments = Some (Inr (Some [profile_field]))"
  "field_name profile_field = PROFILE_KEY"
  "field_text junk fmt profile_field = Inr ''x''"
proof -
  show "table_fields profile_arguments = Some (Inr (Some [profile_field]))" by code_simp
  show "field_name profile_field = PROFILE_KEY" by (simp add: profile_field_def)
  show "field_text junk fmt profile_field = Inr ''x''"
  proof -
    have "suppress_nulls \<lparr>cur_size = 1, ls_data = [120, 0]\<rparr> = Inr \<lparr>cur_size = 1, ls_data = [120, 0]\<rparr>"
      by (simp add: suppress_nulls_def mem_get_def)
    moreover have "c_chars [120, 0] = Inr ''x''" by code_simp
    moreover have "field_type profile_field = ASL_FIELD_TYPE_STRING" by code_simp
    ultimately show ?thesis
      by (simp add: field_text_def asl_field_string_def profile_field_def)
  qed
qed

text \<open>
  A client that declares a queue for all connections and asks for a profile that the configuration
  does not have makes the broker read the address of the queue's owner through a null pointer.
\<close>

theorem unknown_profile_crashes:
  assumes "cf_profiles cf ''x'' = None" and "name \<noteq> []" and "queue_search b name = None"
  shows "queue_declare cf new cr name False False False auto_delete nowait profile_arguments b = Some (Inl Null_Pointer)"
proof -
  show ?thesis using assms
    by (simp add: queue_declare_def amq_queue_new_def s_set_queue_limits_def profile_argument)
qed

theorem unknown_profile_crashes_witness:
  "queue_declare demo_config 8 demo_channel ''q'' False False False False False profile_arguments
     (empty_broker Map.empty Map.empty) = Some (Inl Null_Pointer)"
  by (rule unknown_profile_crashes) (simp_all add: demo_config_def queue_search_def empty_broker_def)

section \<open>Names and defaults\<close>

lemma type_lookup_name: "amq_exchange_type_lookup (amq_exchange_type_name t) = Some t"
  by (cases t) (simp_all add: amq_exchange_type_lookup_def amq_exchange_type_name_def)

text \<open>A client cannot publish to an internal exchange by its name.\<close>

lemma internal_publish_refused:
  assumes "br_exchange_table b exchange = Some x" "br_exchanges b x = Some bx" "bx_internal bx" "exchange \<noteq> []"
  shows "basic_publish cr exchange key mandatory immediate m b =
    reply (Error_On_Channel (cr_channel cr) ASL_ACCESS_REFUSED ''Exchange is for internal use only'') b"
  using assms by (simp add: basic_publish_def channel_error_def)

text \<open>
  Without a configured type, a federated direct exchange is of the fanout type; the comment in the
  source gives it the service type, which it reserves for headers exchanges.
\<close>

lemma direct_federates_as_fanout:
  assumes "cf_federate cf = []" "cf_attach cf \<noteq> []" "name \<noteq> ''$default$''"
  shows "exchange_federation cf AMQ_EXCHANGE_DIRECT name False True = AMQ_FEDERATION_FANOUT"
    and "exchange_federation cf AMQ_EXCHANGE_HEADERS name False True = AMQ_FEDERATION_SERVICE"
  using assms by (simp_all add: exchange_federation_def)

end
