(* ===== verification/Amq_Queue_Steps.thy ===== *)
theory Amq_Queue_Steps
  imports Amq_Queue_Properties
begin

text \<open>
  The queue as a state machine: the methods in any order, interleaved with changes of the channels and
  connections, and the invariant every reachable state has.  Then three orders of events in which the
  queue does not keep what it promises to a consumer.
\<close>

section \<open>Steps and reachable states\<close>

text \<open>
  Channels and connections come, go and change under the queue, and the channels pause and resume their
  consumers and take them off their own lists.
\<close>

definition same_consumers :: "amq_queue \<Rightarrow> amq_consumer list \<Rightarrow> bool" where
  "same_consumers q cs \<longleftrightarrow>
     map (\<lambda>c. (cs_addr c, cs_exclusive c)) cs = map (\<lambda>c. (cs_addr c, cs_exclusive c)) (q_consumer_list q)"

text \<open>
  The flag of a step tells that a consumer was cancelled that the queue does not list: the queue refused
  it, and its channel was closed, or its client cancelled it, before the refusal reached the channel.
\<close>

inductive queue_step :: "bool \<Rightarrow> amq_queue \<Rightarrow> amq_queue \<Rightarrow> bool" where
  publish: "amq_queue_publish channel content immediate q = Inr q' \<Longrightarrow> queue_step False q q'"
| get: "queue_step False q (amq_queue_get channel q)"
| consume: "cs_addr c \<notin> cs_addr ` set (q_consumer_list q) \<Longrightarrow> queue_step False q (amq_queue_consume c active nowait q)"
| cancel: "c \<in> set (q_consumer_list q) \<Longrightarrow> amq_queue_cancel c notify nowait q = Inr q' \<Longrightarrow> queue_step False q q'"
| cancel_refused: "cs_addr c \<notin> cs_addr ` set (q_consumer_list q) \<Longrightarrow> amq_queue_cancel c notify nowait q = Inr q' \<Longrightarrow>
    queue_step True q q'"
| ack: "c \<in> set (q_consumer_list q) \<or> cs_addr c \<notin> cs_addr ` set (q_consumer_list q) \<Longrightarrow>
     amq_queue_consumer_ack c q = Inr q' \<Longrightarrow> queue_step False q q'"
| purge: "queue_step False q (amq_queue_purge channel nowait q)"
| dispatch: "amq_queue_dispatch q = Inr q' \<Longrightarrow> queue_step False q q'"
| timer: "queue_step False q (amq_queue_auto_delete q)"
| destruct: "queue_step False q (amq_queue_self_destruct q)"
| unbind: "amq_queue_unbind_connection q = Inr q' \<Longrightarrow> queue_step False q q'"
| outside: "same_consumers q cs \<Longrightarrow>
    queue_step False q (q\<lparr>q_channels := chs, q_connections := cns, q_consumer_list := cs\<rparr>)"

definition initial_queue :: "amq_queue \<Rightarrow> bool" where
  "initial_queue q \<longleftrightarrow> q_consumer_list q = [] \<and> q_content_list q = [] \<and> q_sent q = [] \<and> q_delivery_tag q = 0"

text \<open>The states a queue can reach, and whether a consumer that it had refused has been cancelled on the way.\<close>

inductive queue_reachable :: "bool \<Rightarrow> amq_queue \<Rightarrow> bool" where
  init: "initial_queue q \<Longrightarrow> queue_reachable False q"
| step: "queue_reachable r q \<Longrightarrow> queue_step refused q q' \<Longrightarrow> queue_reachable (r \<or> refused) q'"

section \<open>The invariant\<close>

fun delivery_tags :: "queue_event list \<Rightarrow> nat list" where
  "delivery_tags [] = []"
| "delivery_tags (Basic_Deliver n t c d # es) = d # delivery_tags es"
| "delivery_tags (e # es) = delivery_tags es"

text \<open>
  No consumer is listed twice, at most one is exclusive, the delivery tags sent are 1, 2, ... up to the
  tag counter; and an exclusive consumer has locked the queue and is alone, unless a refused one was
  cancelled, which unlocks the queue.
\<close>

definition exclusive_alone :: "amq_queue \<Rightarrow> bool" where
  "exclusive_alone q \<longleftrightarrow> (\<forall>c\<in>set (q_consumer_list q). cs_exclusive c \<longrightarrow> q_locked q \<and> length (q_consumer_list q) = 1)"

definition tags_counted :: "amq_queue \<Rightarrow> bool" where
  "tags_counted q \<longleftrightarrow> delivery_tags (q_sent q) = [1..<q_delivery_tag q + 1]"

definition one_exclusive :: "amq_queue \<Rightarrow> bool" where
  "one_exclusive q \<longleftrightarrow> length (filter cs_exclusive (q_consumer_list q)) \<le> 1"

definition queue_inv :: "bool \<Rightarrow> amq_queue \<Rightarrow> bool" where
  "queue_inv r q \<longleftrightarrow> distinct (map cs_addr (q_consumer_list q)) \<and> one_exclusive q \<and> tags_counted q \<and>
     (r \<or> exclusive_alone q)"

lemma delivery_tags_append [simp]: "delivery_tags (es @ fs) = delivery_tags es @ delivery_tags fs"
  by (induction es rule: delivery_tags.induct) auto

lemma delivery_tags_events [simp]: "delivery_tags (delivery_events q n ds) = [n + 1..<n + 1 + length ds]"
  by (induction q n ds rule: delivery_events.induct) (simp_all add: upt_conv_Cons del: upt_Suc)

text \<open>The invariant depends on the consumers' addresses and exclusiveness, the lock and the tags.\<close>

definition who :: "amq_consumer list \<Rightarrow> (nat \<times> bool) multiset" where
  "who cs = mset (map (\<lambda>c. (cs_addr c, cs_exclusive c)) cs)"

lemma who_facts:
  assumes "who cs = who ds"
  shows "mset (map cs_addr cs) = mset (map cs_addr ds)" and "length cs = length ds"
    and "(\<lambda>c. (cs_addr c, cs_exclusive c)) ` set cs = (\<lambda>c. (cs_addr c, cs_exclusive c)) ` set ds"
    and "length (filter cs_exclusive cs) = length (filter cs_exclusive ds)"
proof -
  have "image_mset fst (who cs) = image_mset fst (who ds)" using assms by simp
  then show "mset (map cs_addr cs) = mset (map cs_addr ds)"
    by (simp add: who_def multiset.map_comp comp_def)
  show "length cs = length ds" using arg_cong [OF assms, of size] by (simp add: who_def)
  show "(\<lambda>c. (cs_addr c, cs_exclusive c)) ` set cs = (\<lambda>c. (cs_addr c, cs_exclusive c)) ` set ds"
    using arg_cong [OF assms, of set_mset] by (simp add: who_def)
  have "size (filter_mset snd (who es)) = length (filter cs_exclusive es)" for es
    by (simp add: who_def filter_mset_image_mset comp_def flip: mset_filter size_mset)
  then show "length (filter cs_exclusive cs) = length (filter cs_exclusive ds)" using assms by metis
qed

lemma queue_inv_cong:
  assumes "queue_inv r q" "who (q_consumer_list q') = who (q_consumer_list q)" "q_locked q' = q_locked q"
    "tags_counted q'"
  shows "queue_inv r q'"
proof -
  note w = who_facts [OF assms(2)]
  have "distinct (map cs_addr (q_consumer_list q'))"
    using assms(1) w(1) unfolding queue_inv_def by (metis mset_eq_imp_distinct_iff)
  moreover have "q_locked q' \<and> length (q_consumer_list q') = 1"
    if c: "c \<in> set (q_consumer_list q')" "cs_exclusive c" and alone: "exclusive_alone q" for c
  proof -
    have "(cs_addr c, True) \<in> (\<lambda>c. (cs_addr c, cs_exclusive c)) ` set (q_consumer_list q')"
      using c by force
    then obtain d where "d \<in> set (q_consumer_list q)" "cs_exclusive d" unfolding w(3) by auto
    then show ?thesis using alone assms(3) w(2) unfolding exclusive_alone_def by metis
  qed
  ultimately show ?thesis
    using assms(1,4) w(4) unfolding queue_inv_def exclusive_alone_def one_exclusive_def by auto
qed

lemma dispatch_keeps:
  assumes "queue_inv r q" "amq_queue_basic_dispatch q = Inr q'"
  shows dispatch_who: "who (q_consumer_list q') = who (q_consumer_list q)" and dispatch_inv: "queue_inv r q'"
proof -
  have "who (q_consumer_list q') = who (q_consumer_list q) \<and> queue_inv r q'"
  proof (cases rule: dispatch_cases [of q])
    case (active ds taken q'')
    with assms(2) have d: "dispatched (q_content_list q) ds taken q q'" by simp
    have "mset (map ident (q_consumer_list q')) = mset (map ident (q_consumer_list q))"
      using d assms(1) unfolding dispatched_def queue_inv_def by blast
    then have "image_mset (\<lambda>c. (cs_addr c, cs_exclusive c)) (mset (map ident (q_consumer_list q'))) =
        image_mset (\<lambda>c. (cs_addr c, cs_exclusive c)) (mset (map ident (q_consumer_list q)))"
      by simp
    then have who: "who (q_consumer_list q') = who (q_consumer_list q)"
      by (simp add: who_def multiset.map_comp comp_def)
    moreover have "tags_counted q'"
      using assms(1) dispatched_frame(1,2) [OF d] upt_add_eq_append [of 1 "q_delivery_tag q + 1" "length ds"]
      by (simp add: queue_inv_def tags_counted_def)
    ultimately show ?thesis
      using assms(1) dispatched_frame(4) [OF d] by (blast intro: queue_inv_cong)
  qed (use assms in simp)
  then show "who (q_consumer_list q') = who (q_consumer_list q)" and "queue_inv r q'" by simp_all
qed

text \<open>What the invariant reads of the state; most of a method leaves it alone.\<close>

definition queue_core :: "amq_queue \<Rightarrow> amq_consumer list \<times> bool \<times> nat list \<times> nat" where
  "queue_core q = (q_consumer_list q, q_locked q, delivery_tags (q_sent q), q_delivery_tag q)"

named_theorems queue_core_simps

lemma core_send [queue_core_simps]:
  "queue_core (send (Basic_Return n ct) q) = queue_core q" "queue_core (send (Basic_Get_Ok n ct k) q) = queue_core q"
  "queue_core (send (Basic_Get_Empty n) q) = queue_core q" "queue_core (send (Basic_Consume_Ok n t) q) = queue_core q"
  "queue_core (send (Basic_Cancel_Ok n t) q) = queue_core q" "queue_core (send (Queue_Purge_Ok n k) q) = queue_core q"
  "queue_core (send (Channel_Error ch t) q) = queue_core q" "queue_core (send (Channel_Cancel n t) q) = queue_core q"
  "queue_core (send (Connection_Error n) q) = queue_core q" "queue_core (send Dispatch_Queue q) = queue_core q"
  "queue_core (send Self_Destruct q) = queue_core q" "queue_core (send Delete_Queue q) = queue_core q"
  "queue_core (send Unbind_Queue q) = queue_core q" "queue_core (send Auto_Delete_Timer q) = queue_core q"
  by (simp_all add: queue_core_def send_def)

lemma core_updates [queue_core_simps]:
  "queue_core (q\<lparr>q_content_list := x1\<rparr>) = queue_core q" "queue_core (q\<lparr>q_contents_in := x2\<rparr>) = queue_core q"
  "queue_core (q\<lparr>q_traffic_in := x6\<rparr>) = queue_core q" "queue_core (q\<lparr>q_warned := x3\<rparr>) = queue_core q"
  "queue_core (q\<lparr>q_dropped := x3\<rparr>) = queue_core q" "queue_core (q\<lparr>q_trimmed := x3\<rparr>) = queue_core q"
  "queue_core (q\<lparr>q_drop_count := x2\<rparr>) = queue_core q" "queue_core (q\<lparr>q_feed_on := x3\<rparr>) = queue_core q"
  "queue_core (q\<lparr>q_feed_no_local := x3\<rparr>) = queue_core q" "queue_core (q\<lparr>q_channels := x4\<rparr>) = queue_core q"
  "queue_core (q\<lparr>q_connections := x5\<rparr>) = queue_core q"
  by (simp_all add: queue_core_def)

lemma queue_inv_core: "queue_core q' = queue_core q \<Longrightarrow> queue_inv r q \<Longrightarrow> queue_inv r q'"
  by (auto simp: queue_core_def queue_inv_def exclusive_alone_def one_exclusive_def tags_counted_def)

lemma core_check_limits [queue_core_simps]: "queue_core (snd (check_limits content q)) = queue_core q"
  by (auto simp: check_limits_def Let_def queue_core_simps split: bool.splits)

lemma core_accept [queue_core_simps]: "queue_core (accept_content channel content immediate q) = queue_core q"
  by (simp add: accept_content_def queue_core_simps split: option.splits)

lemma publish_inv:
  assumes "queue_inv r q" "amq_queue_publish channel content immediate q = Inr q'"
  shows "queue_inv r q'"
proof (cases "q_enabled q")
  case True
  let ?q = "q\<lparr>q_contents_in := q_contents_in q + 1, q_traffic_in := q_traffic_in q + ct_body_size content\<rparr>"
  obtain accepted q1 where limits: "check_limits content ?q = (accepted, q1)" by fastforce
  then have q1: "queue_core q1 = queue_core q"
    using core_check_limits [of content ?q] by (simp add: queue_core_simps)
  have "\<exists>q2. amq_queue_basic_dispatch q2 = Inr q' \<and> queue_core q2 = queue_core q1"
    using True limits assms(2)
    by (cases accepted)
      (force simp: amq_queue_publish_def amq_queue_basic_publish_def queue_core_simps)+
  then show ?thesis
    using q1 assms(1) dispatch_inv by (metis queue_inv_core)
next
  case False
  with assms have "queue_core q' = queue_core q"
    by (auto simp: amq_queue_publish_def queue_core_simps)
  with assms(1) show ?thesis by (rule queue_inv_core [rotated])
qed

lemma core_get [queue_core_simps]: "queue_core (amq_queue_get channel q) = queue_core q"
  by (simp add: amq_queue_get_def amq_queue_basic_get_def Let_def queue_core_simps split: option.splits)

lemma core_purge [queue_core_simps]: "queue_core (amq_queue_purge channel nowait q) = queue_core q"
  by (simp add: amq_queue_purge_def amq_queue_basic_purge_def Let_def queue_core_simps)

lemma core_timer [queue_core_simps]: "queue_core (amq_queue_auto_delete q) = queue_core q"
  by (simp add: amq_queue_auto_delete_def queue_core_simps)

lemma core_unbind: "amq_queue_unbind_connection q = Inr q' \<Longrightarrow> queue_core q' = queue_core q"
  by (auto simp: amq_queue_unbind_connection_def Let_def queue_core_simps split: if_splits)

lemma core_free_consumers [queue_core_simps]: "queue_core (free_consumers cs q) = queue_core q"
  by (induction cs q rule: free_consumers.induct) (simp_all add: queue_core_simps split: option.splits)

lemma destruct_inv: "queue_inv r q \<Longrightarrow> queue_inv r (amq_queue_self_destruct q)"
proof -
  assume inv: "queue_inv r q"
  define q1 where "q1 = (let q = send Delete_Queue q in if q_exclusive q then send Unbind_Queue q else q)"
  define q2 where "q2 = free_consumers (q_consumer_list q1) q1"
  have "queue_core q2 = queue_core q"
    by (simp add: q2_def q1_def Let_def queue_core_simps)
  moreover have "amq_queue_self_destruct q = q2\<lparr>q_consumer_list := []\<rparr>"
    by (simp add: amq_queue_self_destruct_def amq_queue_basic_stop_def q1_def q2_def Let_def)
  ultimately show ?thesis
    using inv by (auto simp: queue_inv_def queue_core_def tags_counted_def exclusive_alone_def one_exclusive_def)
qed

lemma core_attach:
  assumes "cs_addr c \<notin> cs_addr ` set (q_consumer_list q)"
  shows "queue_core (consume_attach c active nowait q) =
    queue_core (q\<lparr>q_consumer_list := q_consumer_list q @ [c\<lparr>cs_paused := \<not> active\<rparr>]\<rparr>)"
proof -
  have "filter (\<lambda>d. cs_addr d \<noteq> cs_addr c) (q_consumer_list q) = q_consumer_list q"
    using assms by (metis (mono_tags, lifting) filter_True image_eqI)
  then show ?thesis
    by (simp add: consume_attach_def Let_def queue_core_simps amq_queue_basic_consume_def by_queue_queue_def queue_core_def send_def)
qed

lemma consume_error_None:
  "consume_error c q = None \<Longrightarrow> if cs_exclusive c then q_consumer_list q = [] else \<not> q_locked q"
  by (auto simp: consume_error_def Let_def amq_queue_basic_consumer_count_def split: if_splits)

lemma consume_inv:
  assumes "queue_inv r q" "cs_addr c \<notin> cs_addr ` set (q_consumer_list q)"
  shows "queue_inv r (amq_queue_consume c active nowait q)"
proof (cases "consume_error c q")
  case None
  let ?q = "if cs_exclusive c then q\<lparr>q_locked := True\<rparr> else q"
  let ?q' = "?q\<lparr>q_consumer_list := q_consumer_list ?q @ [c\<lparr>cs_paused := \<not> active\<rparr>]\<rparr>"
  have "queue_inv r ?q'"
    using assms consume_error_None [OF None]
    by (auto simp: queue_inv_def exclusive_alone_def one_exclusive_def tags_counted_def)
  moreover have "queue_core (amq_queue_consume c active nowait q) = queue_core ?q'"
    using None core_attach [of c ?q active nowait] assms(2) by (simp add: amq_queue_consume_def)
  ultimately show ?thesis by (rule queue_inv_core [rotated])
next
  case (Some msg)
  then have "queue_core (amq_queue_consume c active nowait q) = queue_core q"
    by (simp add: amq_queue_consume_def queue_core_simps split: option.splits)
  then show ?thesis using assms(1) by (rule queue_inv_core)
qed

lemma exclusive_alone_remove:
  assumes "distinct (map cs_addr (q_consumer_list q))" "exclusive_alone q" "cs_addr c \<in> cs_addr ` set (q_consumer_list q)"
  shows "d \<in> set (filter (\<lambda>d. cs_addr d \<noteq> cs_addr c) (q_consumer_list q)) \<Longrightarrow> \<not> cs_exclusive d"
  using assms unfolding exclusive_alone_def
  by (cases "q_consumer_list q"; cases "tl (q_consumer_list q)") (auto split: if_splits)

lemma consumer_update_keeps:
  assumes "queue_inv r q" "cs_exclusive c = cs_exclusive d" "cs_addr c = cs_addr d" "d \<in> set (q_consumer_list q)"
  shows "who (q_consumer_list (consumer_update c q)) = who (q_consumer_list q)" "queue_inv r (consumer_update c q)"
proof -
  have "cs_exclusive e = cs_exclusive d" if "e \<in> set (q_consumer_list q)" "cs_addr e = cs_addr d" for e
    using that assms by (metis distinct_map inj_onD queue_inv_def)
  then have "map (\<lambda>c. (cs_addr c, cs_exclusive c)) (q_consumer_list (consumer_update c q)) =
      map (\<lambda>c. (cs_addr c, cs_exclusive c)) (q_consumer_list q)"
    using assms(2,3) by (auto simp: consumer_update_def)
  then show who: "who (q_consumer_list (consumer_update c q)) = who (q_consumer_list q)"
    unfolding who_def by simp
  have "tags_counted (consumer_update c q)"
    using assms(1) by (simp add: queue_inv_def tags_counted_def consumer_update_def)
  with who show "queue_inv r (consumer_update c q)"
    using assms(1) by (auto intro: queue_inv_cong simp: consumer_update_def)
qed

lemma release_simps [simp]:
  "cs_exclusive (snd (amq_consumer_content_release c)) = cs_exclusive c"
  "cs_addr (snd (amq_consumer_content_release c)) = cs_addr c"
  by (simp_all add: amq_consumer_content_release_def)

text \<open>Cancelling hands back a held content and then takes the consumer off the list.\<close>

lemma basic_cancel_keeps:
  assumes "queue_inv r q" "amq_queue_basic_cancel c q = Inr q'"
  shows "\<exists>q1. q' = consumer_destroy c q1 \<and> queue_inv r q1 \<and> who (q_consumer_list q1) = who (q_consumer_list q)"
proof (cases "cs_pending_content c")
  case None
  with assms show ?thesis by (auto simp: amq_queue_basic_cancel_def split: if_splits)
next
  case (Some content)
  let ?q = "q\<lparr>q_content_list := content # q_content_list q\<rparr>"
  let ?find = "\<lambda>q. find (\<lambda>d. cs_addr d = cs_addr c) (q_consumer_list q)"
  have "\<exists>q1. amq_queue_basic_dispatch ?q = Inr q1 \<and>
    q' = consumer_destroy c (case ?find q1 of None \<Rightarrow> q1 | Some d \<Rightarrow> consumer_update (snd (amq_consumer_content_release d)) q1)"
    using assms(2) Some unfolding amq_queue_basic_cancel_def
    by (cases "cs_by_channel c"; cases "amq_queue_basic_dispatch ?q") auto
  then obtain q1 where q1: "amq_queue_basic_dispatch ?q = Inr q1"
    "q' = consumer_destroy c (case ?find q1 of None \<Rightarrow> q1 | Some d \<Rightarrow> consumer_update (snd (amq_consumer_content_release d)) q1)"
    by blast
  have "queue_inv r ?q" using queue_inv_core [of ?q q] assms(1) by (simp add: queue_core_simps)
  note keeps = dispatch_who [OF this q1(1)] dispatch_inv [OF this q1(1)]
  show ?thesis
  proof (cases "?find q1")
    case (Some d)
    then have "d \<in> set (q_consumer_list q1)" by (auto simp: find_Some_iff)
    from consumer_update_keeps [OF keeps(2) _ _ this, of "snd (amq_consumer_content_release d)"]
    show ?thesis using keeps q1(2) Some by auto
  qed (use keeps q1(2) in auto)
qed

lemma filtered_fewer: "length (filter p (filter t xs)) \<le> length (filter p xs)"
  by (induction xs) auto

lemma cancel_inv:
  assumes "queue_inv r q" "refused \<or> c \<in> set (q_consumer_list q)" "amq_queue_cancel c notify nowait q = Inr q'"
  shows "queue_inv (r \<or> refused) q'"
proof -
  define q0 where "q0 = (if notify \<and> \<not> nowait \<and> channel_connection q (cs_channel c) \<noteq> None
    then send (Basic_Cancel_Ok (ch_number (the (channel_link q (cs_channel c)))) (cs_tag c)) q else q)"
  have q0: "queue_core q0 = queue_core q" by (simp add: q0_def queue_core_simps)
  obtain q1 where q1: "amq_queue_basic_cancel c q0 = Inr q1"
    and "q' = cancel_finish q1"
    using assms(3) unfolding amq_queue_cancel_def Let_def q0_def [symmetric]
    by (cases "amq_queue_basic_cancel c q0") auto
  then have q': "queue_core q' = queue_core (q1\<lparr>q_locked := False\<rparr>)"
    by (simp add: cancel_finish_def Let_def queue_core_def send_def)
  have "queue_inv r q0" using queue_inv_core q0 assms(1) by blast
  from basic_cancel_keeps [OF this q1] obtain q2 where q2: "q1 = consumer_destroy c q2" "queue_inv r q2"
    "who (q_consumer_list q2) = who (q_consumer_list q0)" by blast
  have "exclusive_alone (q1\<lparr>q_locked := False\<rparr>)" if "\<not> r" "\<not> refused"
  proof -
    have "cs_addr c \<in> cs_addr ` set (q_consumer_list q2)"
      using who_facts(1) [OF q2(3)] q0 assms(2) that(2)
      by (metis Pair_inject queue_core_def image_eqI list.set_map mset_eq_setD)
    then have "\<not> cs_exclusive d" if "d \<in> set (q_consumer_list q1)" for d
      using exclusive_alone_remove [of q2 c d] q2 \<open>\<not> r\<close> that unfolding queue_inv_def consumer_destroy_def by simp
    then show ?thesis by (simp add: exclusive_alone_def)
  qed
  moreover have "one_exclusive q1"
    using q2(1,2) le_trans [OF filtered_fewer] by (auto simp: queue_inv_def one_exclusive_def consumer_destroy_def)
  ultimately have "queue_inv (r \<or> refused) (q1\<lparr>q_locked := False\<rparr>)"
    using q2 by (auto simp: queue_inv_def one_exclusive_def tags_counted_def consumer_destroy_def distinct_map_filter)
  then show ?thesis by (rule queue_inv_core [OF q'])
qed

lemma update_unlisted:
  assumes "cs_addr c \<notin> cs_addr ` set (q_consumer_list q)"
  shows "consumer_update c q = q"
proof -
  have "map (\<lambda>d. if cs_addr d = cs_addr c then c else d) cs = cs" if "cs_addr c \<notin> cs_addr ` set cs" for cs
    using that by (induction cs) auto
  with assms show ?thesis by (simp add: consumer_update_def)
qed

lemma ack_inv:
  assumes "queue_inv r q" "c \<in> set (q_consumer_list q) \<or> cs_addr c \<notin> cs_addr ` set (q_consumer_list q)"
    "amq_queue_consumer_ack c q = Inr q'"
  shows "queue_inv r q'"
proof -
  have "queue_inv r (consumer_update (snd (amq_consumer_content_release c)) q)"
    using assms(1,2) consumer_update_keeps(2) [of r q "snd (amq_consumer_content_release c)" c]
      update_unlisted [of "snd (amq_consumer_content_release c)" q] by auto
  then show ?thesis
    using assms(1,3) dispatch_inv
    by (auto simp: amq_queue_consumer_ack_def amq_queue_basic_consumer_ack_def split: option.splits)
qed

lemma outside_inv:
  assumes "queue_inv r q" "same_consumers q cs"
  shows "queue_inv r (q\<lparr>q_channels := chs, q_connections := cns, q_consumer_list := cs\<rparr>)"
proof -
  have "who cs = who (q_consumer_list q)"
    using assms(2) by (simp add: same_consumers_def who_def)
  then show ?thesis
    using assms(1) queue_inv_cong [OF assms(1), of "q\<lparr>q_channels := chs, q_connections := cns, q_consumer_list := cs\<rparr>"]
    by (simp add: queue_inv_def tags_counted_def)
qed

lemma step_inv: "queue_step refused q q' \<Longrightarrow> queue_inv r q \<Longrightarrow> queue_inv (r \<or> refused) q'"
proof (induction rule: queue_step.induct)
  case (cancel c q notify nowait q')
  then show ?case using cancel_inv [of r q False c] by simp
next
  case (cancel_refused c q notify nowait q')
  then show ?case using cancel_inv [of r q True c] by simp
next
  case (dispatch q q')
  then show ?case using dispatch_inv by (simp add: amq_queue_dispatch_def)
qed (simp only: simp_thms, blast intro: publish_inv consume_inv ack_inv destruct_inv outside_inv
      queue_inv_core [OF core_get] queue_inv_core [OF core_purge] queue_inv_core [OF core_timer]
      queue_inv_core [OF core_unbind])+

lemma reachable_inv: "queue_reachable r q \<Longrightarrow> queue_inv r q"
proof (induction rule: queue_reachable.induct)
  case (init q)
  then show ?case
    by (simp add: initial_queue_def queue_inv_def exclusive_alone_def one_exclusive_def tags_counted_def)
qed (blast intro: step_inv)

text \<open>
  C7. In every state a queue can reach, however publications, gets, new consumers, cancellations of attached
  and of refused consumers, acknowledgements, purges, dispatches and changes of the channels are ordered, no
  consumer is listed twice, at most one consumer is exclusive, and the delivery tags sent so far are exactly
  1, 2, ..., up to the tag counter, in this order.  As long as no consumer has been cancelled that the queue
  had refused, an exclusive consumer has the queue locked and is the only consumer.
\<close>

theorem queue_invariant:
  assumes "queue_reachable r q"
  shows "distinct (map cs_addr (q_consumer_list q)) \<and> length (filter cs_exclusive (q_consumer_list q)) \<le> 1 \<and>
    delivery_tags (q_sent q) = [1..<q_delivery_tag q + 1] \<and>
    (r \<or> (\<forall>c\<in>set (q_consumer_list q). cs_exclusive c \<longrightarrow> q_locked q \<and> q_consumer_list q = [c]))"
  using reachable_inv [OF assms]
  by (auto simp: queue_inv_def one_exclusive_def tags_counted_def exclusive_alone_def length_Suc_conv)

theorem queue_invariant_witness:
  "\<exists>q. q = amq_queue_consume ((plain_consumer 1 ''a'')\<lparr>cs_exclusive := True\<rparr>) True False (queue_with [] []) \<and>
    q_locked q \<and> q_consumer_list q = [(plain_consumer 1 ''a'')\<lparr>cs_exclusive := True, cs_paused := False\<rparr>]"
proof -
  let ?c = "(plain_consumer 1 ''a'')\<lparr>cs_exclusive := True\<rparr>"
  let ?q = "amq_queue_consume ?c True False (queue_with [] [])"
  have "queue_reachable False (queue_with [] [])"
    by (rule queue_reachable.init) (simp add: initial_queue_def sample_defs)
  moreover have "queue_step False (queue_with [] []) ?q"
    by (rule queue_step.consume) (simp add: sample_defs)
  ultimately have "queue_reachable False ?q" using queue_reachable.step by fastforce
  moreover have "q_consumer_list ?q = [?c\<lparr>cs_paused := False\<rparr>]"
    by (simp add: amq_queue_consume_def consume_error_def consume_attach_def amq_queue_basic_consumer_count_def
        amq_queue_basic_consume_def by_queue_queue_def channel_link_def connection_link_def channel_connection_def
        send_def sample_defs Let_def)
  ultimately show ?thesis using queue_invariant [of False ?q] by simp
qed

section \<open>Messages and locks that get lost\<close>

text \<open>
  The check for an idle consumer guards the dispatcher as a whole: once any consumer is idle, the first
  eligible one gets the content, even if it holds another.
\<close>

lemma filter_other:
  "a \<notin> cs_addr ` set cs \<Longrightarrow> filter (\<lambda>d. cs_addr d \<noteq> a) cs = cs"
  by (metis (mono_tags, lifting) filter_True image_eqI)

lemma dispatch_to_first:
  assumes "q_consumer_list q = c # cs" "cs_addr c \<notin> cs_addr ` set cs" "list_ex consumer_idle cs"
    "q_content_list q = [m]" "eligible q (ct_producer_id m) c"
  shows "\<exists>q' ch. amq_queue_basic_dispatch q = Inr q' \<and> channel_link q (cs_channel c) = Some ch \<and>
    q_content_list q' = [] \<and> q_consumer_list q' = cs @ [served q m c] \<and>
    q_sent q' = q_sent q @ [Basic_Deliver (ch_number ch) (cs_tag c) m (q_delivery_tag q + 1)]"
proof -
  obtain a ch cn where ch: "cs_channel c = Some a" "q_channels q a = Some ch"
    "connection_link q (ch_connection ch) = Some cn"
    using assms(5) by (rule eligibleE)
  have "s_get_next_consumer q (ct_producer_id m) = (CONSUMER_FOUND, Some c)"
    using get_next_consumer [of q "ct_producer_id m"] assms(1,5) by simp
  then have "amq_queue_basic_dispatch q = Inr ((after_delivery a ch m c q)\<lparr>q_content_list := []\<rparr>)"
    using assms deliver_content_eligible [OF ch] by (simp add: amq_queue_basic_dispatch_def)
  then show ?thesis
    using ch assms(1) filter_other [OF assms(2)] by (simp add: after_delivery_def channel_link_def)
qed



text \<open>
  C34. A queue with one content, whose first consumer is eligible for it, wants acknowledgements and still
  holds a content it has not acknowledged, serves this consumer again if some other consumer is idle: the
  content it held is dropped although it was never acknowledged.
\<close>

theorem unacknowledged_overwritten:
  assumes "q_consumer_list q = c # cs" "cs_addr c \<notin> cs_addr ` set cs" "list_ex consumer_idle cs"
    "cs_pending_content c = Some x" "ack_mode q c" "q_content_list q = [m]" "eligible q (ct_producer_id m) c"
  shows "\<exists>q' n. amq_queue_basic_dispatch q = Inr q' \<and> q_content_list q' = [] \<and>
    q_consumer_list q' = cs @ [c\<lparr>cs_pending_content := Some m\<rparr>] \<and>
    q_sent q' = q_sent q @ [Basic_Deliver n (cs_tag c) m (q_delivery_tag q + 1)]"
  using dispatch_to_first [of q c cs m] assms by (auto simp: served_def)

theorem unacknowledged_overwritten_witness:
  "\<exists>q' n. amq_queue_basic_dispatch
      (queue_with [(plain_consumer 1 ''a'')\<lparr>cs_pending_content := Some (message ''x'')\<rparr>, plain_consumer 2 ''b''] [message ''y'']) = Inr q' \<and>
     q_content_list q' = [] \<and>
     q_consumer_list q' = [plain_consumer 2 ''b'', (plain_consumer 1 ''a'')\<lparr>cs_pending_content := Some (message ''y'')\<rparr>] \<and>
     q_sent q' = [Basic_Deliver n ''a'' (message ''y'') 1]"
  using unacknowledged_overwritten [of "queue_with [(plain_consumer 1 ''a'')\<lparr>cs_pending_content := Some (message ''x'')\<rparr>, plain_consumer 2 ''b''] [message ''y'']"
      "(plain_consumer 1 ''a'')\<lparr>cs_pending_content := Some (message ''x'')\<rparr>" "[plain_consumer 2 ''b'']" "message ''x''" "message ''y''"]
  by (simp add: sample_defs consumer_idle_def eligible_def channel_link_def connection_link_def ack_mode_def)

text \<open>
  Cancelling a consumer that was refused, and is not in the list, unlocks the queue of an exclusive
  consumer: the next consumer that asks is attached beside it.
\<close>

theorem exclusive_consumer_joined:
  assumes "q_consumer_list q = [d]" "cs_exclusive d" "\<not> q_exclusive q"
    and "cs_addr c \<noteq> cs_addr d" "cs_pending_content c = None" "\<not> cs_by_channel c"
    and "\<not> cs_exclusive e" "cs_addr e \<noteq> cs_addr d"
  shows "\<exists>q'. amq_queue_cancel c notify nowait q = Inr q' \<and>
    q_consumer_list (amq_queue_consume e True nowait' q') = [d, e\<lparr>cs_paused := False\<rparr>]"
proof -
  define q0 where "q0 = (if notify \<and> \<not> nowait \<and> channel_connection q (cs_channel c) \<noteq> None
    then send (Basic_Cancel_Ok (ch_number (the (channel_link q (cs_channel c)))) (cs_tag c)) q else q)"
  have q0: "q_consumer_list q0 = [d]" "\<not> q_exclusive q0"
    using assms(1,3) by (simp_all add: q0_def send_def)
  have "consumer_destroy c q0 = q0"
    using q0(1) assms(4) by (cases q0) (simp add: consumer_destroy_def)
  then have cancel: "amq_queue_basic_cancel c q0 = Inr q0"
    using assms(5,6) by (simp add: amq_queue_basic_cancel_def)
  have q1: "amq_queue_cancel c notify nowait q = Inr (cancel_finish q0)"
    unfolding amq_queue_cancel_def Let_def q0_def [symmetric] using cancel by simp
  let ?q = "cancel_finish q0"
  have q: "q_consumer_list ?q = [d]" "\<not> q_exclusive ?q" "\<not> q_locked ?q"
    using q0 by (simp_all add: cancel_finish_def amq_queue_basic_consumer_count_def send_def Let_def)
  then have "consume_error e ?q = None"
    using assms(7) by (simp add: consume_error_def)
  moreover have "queue_core (consume_attach e True nowait' ?q) = queue_core (?q\<lparr>q_consumer_list := [d, e\<lparr>cs_paused := False\<rparr>]\<rparr>)"
    using core_attach [of e ?q True nowait'] assms(8) q(1) by simp
  ultimately have "q_consumer_list (amq_queue_consume e True nowait' ?q) = [d, e\<lparr>cs_paused := False\<rparr>]"
    using assms(7) by (simp add: amq_queue_consume_def queue_core_def)
  with q1 show ?thesis by blast
qed

theorem exclusive_consumer_joined_witness:
  "\<exists>q'. amq_queue_cancel (plain_consumer 2 ''b'') True False
       ((queue_with [(plain_consumer 1 ''a'')\<lparr>cs_exclusive := True\<rparr>] [])\<lparr>q_locked := True\<rparr>) = Inr q' \<and>
     q_consumer_list (amq_queue_consume (plain_consumer 3 ''c'') True False q') =
       [(plain_consumer 1 ''a'')\<lparr>cs_exclusive := True\<rparr>, (plain_consumer 3 ''c'')\<lparr>cs_paused := False\<rparr>]"
  using exclusive_consumer_joined [of "(queue_with [(plain_consumer 1 ''a'')\<lparr>cs_exclusive := True\<rparr>] [])\<lparr>q_locked := True\<rparr>"
      "(plain_consumer 1 ''a'')\<lparr>cs_exclusive := True\<rparr>" "plain_consumer 2 ''b''" "plain_consumer 3 ''c''" True False False]
  by (simp add: sample_defs)

end
