(* ===== verification/Amq_Channel.thy ===== *)
theory Amq_Channel
  imports Amq_Queue_Steps C_Chars
begin

text \<open>
  Channels and their consumers, \<^verbatim>\<open>server/amq_server_channel.icl\<close> and \<^verbatim>\<open>server/amq_consumer.icl\<close>, put together
  with the queues of \<open>Amq_Queue\<close>.

  A consumer is an object that a channel and a queue share: the channel creates it, enters it in the
  table of its connection, pauses it and takes it off its own list; the queue has it in its list,
  gives it contents and destroys it.  The objects are in the store \<open>dl_consumers\<close>; a queue method runs on
  the queue with the consumers of its list as they are in the store, and leaves them there.  A
  destroyed consumer stays in the store, as others may still have a link to it.

  Channels and queues are asynchronous objects: a call goes to the mailbox of the object, which works on
  it later.  The mailboxes are one list of calls, in the order they were made; a step takes a call that has
  no earlier one for the same object and runs it to its end.

  A queue that is being destroyed, the set \<open>dl_dying\<close>, does the work in its mailbox and then frees its
  consumers and its contents; from the moment it is destroyed, further calls to it fail with the return
  code -1 that the methods of a destroyed object give.  A channel whose call to cancel a consumer fails
  leaves the consumer as it is, or destroys it itself when the channel is closed.
\<close>

section \<open>Data\<close>

record consumer_object =
  co_consumer :: amq_consumer
  co_connection :: nat
  co_queue :: nat
  co_destroyed :: bool

text \<open>The fields of \<^verbatim>\<open>Basic.Consume\<close>.\<close>

record consume_method =
  cm_tag :: string
  cm_no_local :: bool
  cm_no_ack :: bool
  cm_exclusive :: bool
  cm_nowait :: bool

datatype delivery_call =
    Ch_Flow nat bool
  | Ch_Consume nat nat consume_method
  | Ch_Ack nat
  | Ch_Cancel nat string bool bool
  | Ch_Destroy nat
  | Qu_Consume nat nat bool bool
  | Qu_Cancel nat nat bool bool
  | Qu_Ack nat nat
  | Qu_Dispatch nat
  | Qu_Publish nat "nat option" amq_content bool
  | Qu_Self_Destruct nat
  | Qu_Auto_Delete nat
  | Qu_Destroy nat

datatype delivery_object = Channel_Of nat | Queue_Of nat | Timer_Of nat

fun delivery_target :: "delivery_call \<Rightarrow> delivery_object" where
  "delivery_target (Ch_Flow ch active) = Channel_Of ch"
| "delivery_target (Ch_Consume ch q m) = Channel_Of ch"
| "delivery_target (Ch_Ack ch) = Channel_Of ch"
| "delivery_target (Ch_Cancel ch tag sync nowait) = Channel_Of ch"
| "delivery_target (Ch_Destroy ch) = Channel_Of ch"
| "delivery_target (Qu_Consume q c active nowait) = Queue_Of q"
| "delivery_target (Qu_Cancel q c notify nowait) = Queue_Of q"
| "delivery_target (Qu_Ack q c) = Queue_Of q"
| "delivery_target (Qu_Dispatch q) = Queue_Of q"
| "delivery_target (Qu_Publish q ch content immediate) = Queue_Of q"
| "delivery_target (Qu_Self_Destruct q) = Queue_Of q"
| "delivery_target (Qu_Auto_Delete q) = Timer_Of q"
| "delivery_target (Qu_Destroy q) = Queue_Of q"

datatype delivery_event =
    Queue_Sent nat queue_event
  | Flow_Ok nat bool
  | Consume_Ok nat string
  | Cancel_Ok nat string
  | Channel_Failed nat nat string

record delivery_state =
  dl_queues :: "nat \<rightharpoonup> amq_queue"
  dl_consumers :: "nat \<rightharpoonup> consumer_object"
  dl_tables :: "nat \<Rightarrow> string \<rightharpoonup> nat"
  dl_last_tag :: "nat \<Rightarrow> qbyte"
  dl_lists :: "nat \<Rightarrow> nat list"
  dl_channels :: "nat \<rightharpoonup> amq_server_channel"
  dl_connections :: "nat \<rightharpoonup> amq_server_connection"
  dl_dying :: "nat set"
  dl_private_credit :: qbyte
  dl_shared_credit :: qbyte
  dl_calls :: "delivery_call list"
  dl_events :: "delivery_event list"

text \<open>A call to a queue that is being destroyed fails, and leaves nothing in the mailbox.\<close>

definition call_fails :: "delivery_state \<Rightarrow> delivery_call \<Rightarrow> bool" where
  "call_fails s c = (case delivery_target c of Queue_Of q \<Rightarrow> q \<in> dl_dying s | _ \<Rightarrow> False)"

definition mail :: "delivery_call list \<Rightarrow> delivery_state \<Rightarrow> delivery_state" where
  "mail cs s = s\<lparr>dl_calls := dl_calls s @ filter (\<lambda>c. \<not> call_fails s c) cs\<rparr>"

definition say :: "delivery_event \<Rightarrow> delivery_state \<Rightarrow> delivery_state" where
  "say e s = s\<lparr>dl_events := dl_events s @ [e]\<rparr>"

definition put_consumer :: "nat \<Rightarrow> (amq_consumer \<Rightarrow> amq_consumer) \<Rightarrow> delivery_state \<Rightarrow> delivery_state" where
  "put_consumer a f s =
     s\<lparr>dl_consumers := (dl_consumers s)(a := map_option (\<lambda>co. co\<lparr>co_consumer := f (co_consumer co)\<rparr>) (dl_consumers s a))\<rparr>"

section \<open>Consumers\<close>

text \<open>
  A new consumer goes into the table of its connection under its tag, or under the next number of the
  connection if it has none; if the tag is taken there is no consumer.
\<close>

definition amq_consumer_new :: "nat \<Rightarrow> nat \<Rightarrow> nat \<Rightarrow> nat \<Rightarrow> consume_method \<Rightarrow> delivery_state \<Rightarrow> string option \<times> delivery_state" where
  "amq_consumer_new new cn ch q m s =
     (let (tag, s) = (if cm_tag m = []
            then (format_d (dl_last_tag s cn), s\<lparr>dl_last_tag := (dl_last_tag s)(cn := dl_last_tag s cn + 1)\<rparr>)
            else (cm_tag m, s)) in
      if dl_tables s cn tag \<noteq> None then (None, s)
      else (Some tag,
        s\<lparr>dl_tables := (dl_tables s)(cn := (dl_tables s cn)(tag \<mapsto> new)),
          dl_consumers := (dl_consumers s)(new \<mapsto>
            \<lparr>co_consumer = \<lparr>cs_addr = new, cs_tag = tag, cs_channel = Some ch, cs_no_local = cm_no_local m,
               cs_no_ack = cm_no_ack m, cs_exclusive = cm_exclusive m, cs_paused = False,
               cs_pending_content = None, cs_by_channel = False\<rparr>,
             co_connection = cn, co_queue = q, co_destroyed = False\<rparr>)\<rparr>))"

text \<open>Taking a consumer off the list of its channel.\<close>

definition by_channel_remove :: "nat \<Rightarrow> delivery_state \<Rightarrow> delivery_state" where
  "by_channel_remove a s =
     (put_consumer a (\<lambda>c. c\<lparr>cs_by_channel := False\<rparr>) s)
       \<lparr>dl_lists := (\<lambda>ch. filter (\<lambda>b. b \<noteq> a) (dl_lists s ch))\<rparr>"

text \<open>
  Destroying a consumer, once: it leaves the table of its connection and the lists of its channel and of
  its queue, and gives up its channel and the content it holds.
\<close>

definition amq_consumer_destroy :: "nat \<Rightarrow> delivery_state \<Rightarrow> delivery_state" where
  "amq_consumer_destroy a s =
     (case dl_consumers s a of
        None \<Rightarrow> s
      | Some co \<Rightarrow>
          if co_destroyed co then s
          else let cn = co_connection co; s = by_channel_remove a s in
            s\<lparr>dl_tables := (dl_tables s)(cn := (dl_tables s cn)(cs_tag (co_consumer co) := None)),
              dl_queues := (\<lambda>q. map_option (consumer_destroy (co_consumer co)) (dl_queues s q)),
              dl_consumers := (dl_consumers s)(a \<mapsto> co\<lparr>co_destroyed := True,
                co_consumer := (co_consumer co)\<lparr>cs_channel := None, cs_pending_content := None, cs_by_channel := False\<rparr>\<rparr>)\<rparr>)"

section \<open>The methods of a channel\<close>

fun flow_loop :: "bool \<Rightarrow> nat list \<Rightarrow> delivery_state \<Rightarrow> delivery_state" where
  "flow_loop active [] s = s"
| "flow_loop active (a # as) s =
     (case dl_consumers s a of
        None \<Rightarrow> flow_loop active as s
      | Some co \<Rightarrow>
          let s = put_consumer a (\<lambda>c. c\<lparr>cs_paused := \<not> active\<rparr>) s;
              q = co_queue co;
              s = s\<lparr>dl_queues := (dl_queues s)(q := map_option (\<lambda>queue. queue\<lparr>q_feed_on := active\<rparr>) (dl_queues s q))\<rparr>
          in flow_loop active as (if active then mail [Qu_Dispatch q] s else s))"

definition amq_server_channel_flow :: "nat \<Rightarrow> bool \<Rightarrow> delivery_state \<Rightarrow> delivery_state" where
  "amq_server_channel_flow ch active s =
     (case dl_channels s ch of
        None \<Rightarrow> s
      | Some c \<Rightarrow>
          say (Flow_Ok ch active) (flow_loop active (dl_lists s ch)
            (s\<lparr>dl_channels := (dl_channels s)(ch \<mapsto> c\<lparr>ch_active := active\<rparr>)\<rparr>)))"

definition RESOURCE_ERROR :: nat where "RESOURCE_ERROR = 506"
definition NOT_ALLOWED :: nat where "NOT_ALLOWED = 530"

text \<open>The credit a channel gets with a consumer, from the configuration, at least one.\<close>

definition initial_credit :: "bool \<Rightarrow> delivery_state \<Rightarrow> qbyte" where
  "initial_credit exclusive s =
     (let credit = (if exclusive then dl_private_credit s else dl_shared_credit s)
      in if credit = 0 then 1 else credit)"

definition amq_server_channel_consume :: "nat \<Rightarrow> nat \<Rightarrow> nat \<Rightarrow> consume_method \<Rightarrow> delivery_state \<Rightarrow> delivery_state" where
  "amq_server_channel_consume new ch q m s =
     (case (dl_channels s ch, Option.bind (dl_channels s ch) ch_connection, dl_queues s q) of
        (Some c, Some cn, Some queue) \<Rightarrow>
          (case (if cm_tag m = [] then None else dl_tables s cn (cm_tag m)) of
             Some a \<Rightarrow>
               if map_option co_queue (dl_consumers s a) = Some q
               then (if cm_nowait m then s else say (Consume_Ok ch (cm_tag m)) s)
               else say (Channel_Failed ch NOT_ALLOWED ''Consumer tag used on other queue'') s
           | None \<Rightarrow>
               (case amq_consumer_new new cn ch q m s of
                  (None, s) \<Rightarrow> say (Channel_Failed ch RESOURCE_ERROR ''Unable to create consumer'') s
                | (Some tag, s) \<Rightarrow>
                    let s = put_consumer new (\<lambda>c. c\<lparr>cs_by_channel := True\<rparr>) s;
                        s = s\<lparr>dl_lists := (dl_lists s)(ch := dl_lists s ch @ [new]),
                              dl_channels := (dl_channels s)(ch \<mapsto> c\<lparr>ch_credit := initial_credit (q_exclusive queue) s\<rparr>)\<rparr>
                    in mail [Qu_Consume q new (ch_active c) (cm_nowait m)] s))
      | _ \<Rightarrow> s)"

text \<open>Every consumer of the channel is acknowledged; the delivery tag and the flag of the method are not used.\<close>

definition consumer_queue :: "delivery_state \<Rightarrow> nat \<Rightarrow> nat" where
  "consumer_queue s a = (case dl_consumers s a of None \<Rightarrow> 0 | Some co \<Rightarrow> co_queue co)"

definition amq_server_channel_ack :: "nat \<Rightarrow> delivery_state \<Rightarrow> delivery_state" where
  "amq_server_channel_ack ch s = mail (map (\<lambda>a. Qu_Ack (consumer_queue s a) a) (dl_lists s ch)) s"

definition amq_server_channel_earn :: "nat \<Rightarrow> delivery_state \<Rightarrow> delivery_state" where
  "amq_server_channel_earn ch s =
     (case dl_channels s ch of
        None \<Rightarrow> s
      | Some c \<Rightarrow>
          let s = s\<lparr>dl_channels := (dl_channels s)(ch \<mapsto> c\<lparr>ch_credit := ch_credit c + 1\<rparr>)\<rparr>
          in if ch_credit c + 1 = 1 then mail (map (\<lambda>a. Qu_Dispatch (consumer_queue s a)) (dl_lists s ch)) s else s)"

text \<open>In a queue's list.\<close>

definition attached :: "delivery_state \<Rightarrow> nat \<Rightarrow> bool" where
  "attached s a \<longleftrightarrow>
     (case dl_queues s (consumer_queue s a) of
        None \<Rightarrow> False
      | Some queue \<Rightarrow> a \<in> cs_addr ` set (q_consumer_list queue))"

text \<open>\<^verbatim>\<open>amq_queue_link (consumer->queue)\<close>: null for a consumer that has been destroyed.\<close>

definition queue_link :: "delivery_state \<Rightarrow> nat \<Rightarrow> nat option" where
  "queue_link s a =
     (case dl_consumers s a of
        None \<Rightarrow> None
      | Some co \<Rightarrow> if co_destroyed co then None else Some (co_queue co))"

text \<open>The asynchronous call of \<^verbatim>\<open>amq_queue_cancel\<close>, and whether it failed.\<close>

definition queue_cancel_call :: "nat \<Rightarrow> nat \<Rightarrow> bool \<Rightarrow> bool \<Rightarrow> delivery_state \<Rightarrow> bool \<times> delivery_state" where
  "queue_cancel_call q a notify nowait s =
     (let c = Qu_Cancel q a notify nowait in (call_fails s c, mail [c] s))"

text \<open>
  If the queue is gone, or the call to it fails, the channel only gives up its reference: the consumer is
  left dangling, off the channel's list and in the table of the connection.
\<close>

definition amq_server_channel_cancel :: "nat \<Rightarrow> string \<Rightarrow> bool \<Rightarrow> bool \<Rightarrow> delivery_state \<Rightarrow> delivery_state c_result" where
  "amq_server_channel_cancel ch tag sync nowait s =
     (case Option.bind (dl_channels s ch) ch_connection of
        None \<Rightarrow> Inr s
      | Some cn \<Rightarrow>
          (case dl_tables s cn tag of
             Some a \<Rightarrow>
               let s = by_channel_remove a s in
               if sync then
                 (case queue_link s a of
                    None \<Rightarrow> Inr s
                  | Some q \<Rightarrow> let (failed, s) = queue_cancel_call q a True nowait s in Inr s)
               else if attached s a then Inl Assert_Failed
               else Inr (amq_consumer_destroy a s)
           | None \<Rightarrow> Inr (if sync then say (Cancel_Ok ch tag) s else s)))"

definition close_consumer :: "nat \<Rightarrow> delivery_state \<Rightarrow> delivery_state" where
  "close_consumer a s =
     (let s = by_channel_remove a s;
          (failed, s) = queue_cancel_call (consumer_queue s a) a False True s
      in if failed then amq_consumer_destroy a s else s)"

definition amq_server_channel_destroy :: "nat \<Rightarrow> delivery_state \<Rightarrow> delivery_state" where
  "amq_server_channel_destroy ch s =
     (let s = fold close_consumer (dl_lists s ch) s
      in s\<lparr>dl_channels := (dl_channels s)(ch := None)\<rparr>)"

section \<open>The methods of a queue\<close>

definition refreshed :: "delivery_state \<Rightarrow> amq_consumer \<Rightarrow> amq_consumer" where
  "refreshed s c = (case dl_consumers s (cs_addr c) of None \<Rightarrow> c | Some co \<Rightarrow> co_consumer co)"

definition delivery_view :: "delivery_state \<Rightarrow> amq_queue \<Rightarrow> amq_queue" where
  "delivery_view s queue =
     queue\<lparr>q_channels := dl_channels s, q_connections := dl_connections s,
       q_consumer_list := map (refreshed s) (q_consumer_list queue), q_sent := []\<rparr>"

fun sent_calls :: "nat \<Rightarrow> queue_event \<Rightarrow> delivery_call list" where
  "sent_calls q Dispatch_Queue = [Qu_Dispatch q]"
| "sent_calls q Self_Destruct = [Qu_Self_Destruct q]"
| "sent_calls q Auto_Delete_Timer = [Qu_Auto_Delete q]"
| "sent_calls q (Channel_Cancel ch tag) = [Ch_Cancel ch tag False True]"
| "sent_calls q e = []"

definition written :: "amq_consumer list \<Rightarrow> (nat \<rightharpoonup> consumer_object) \<Rightarrow> (nat \<rightharpoonup> consumer_object)" where
  "written cs m a =
     (case find (\<lambda>c. cs_addr c = a) cs of
        None \<Rightarrow> m a
      | Some c \<Rightarrow> map_option (\<lambda>co. co\<lparr>co_consumer := c\<rparr>) (m a))"

definition delivery_store :: "nat \<Rightarrow> amq_queue \<Rightarrow> delivery_state \<Rightarrow> delivery_state" where
  "delivery_store q queue s =
     s\<lparr>dl_queues := (dl_queues s)(q \<mapsto> queue), dl_channels := q_channels queue,
       dl_consumers := written (q_consumer_list queue) (dl_consumers s),
       dl_calls := dl_calls s @ filter (\<lambda>c. \<not> call_fails s c) (concat (map (sent_calls q) (q_sent queue))),
       dl_events := dl_events s @ map (Queue_Sent q) (filter (\<lambda>e. sent_calls q e = []) (q_sent queue))\<rparr>"

definition on_queue :: "nat \<Rightarrow> (amq_queue \<Rightarrow> amq_queue c_result) \<Rightarrow> delivery_state \<Rightarrow> delivery_state c_result" where
  "on_queue q f s =
     (case dl_queues s q of
        None \<Rightarrow> Inr s
      | Some queue \<Rightarrow> c_bind (f (delivery_view s queue)) (\<lambda>queue. Inr (delivery_store q queue s)))"

definition with_consumer :: "nat \<Rightarrow> (amq_consumer \<Rightarrow> delivery_state \<Rightarrow> delivery_state c_result) \<Rightarrow> delivery_state \<Rightarrow> delivery_state c_result" where
  "with_consumer a f s = (case dl_consumers s a of None \<Rightarrow> Inr s | Some co \<Rightarrow> f (co_consumer co) s)"

text \<open>
  A queue is destroyed once: the call goes to its mailbox, behind what is there, and the calls after it fail.
\<close>

definition amq_queue_destroy :: "nat \<Rightarrow> delivery_state \<Rightarrow> delivery_state" where
  "amq_queue_destroy q s =
     (if q \<in> dl_dying s then s
      else s\<lparr>dl_dying := insert q (dl_dying s), dl_calls := dl_calls s @ [Qu_Destroy q]\<rparr>)"

definition amq_queue_basic_destroy :: "amq_queue \<Rightarrow> amq_queue" where
  "amq_queue_basic_destroy queue = (amq_queue_basic_stop queue)\<lparr>q_content_list := []\<rparr>"

text \<open>The consumers that a queue had when it stopped, or was destroyed, are destroyed.\<close>

definition listed_consumers :: "nat \<Rightarrow> delivery_state \<Rightarrow> nat list" where
  "listed_consumers q s = (case dl_queues s q of None \<Rightarrow> [] | Some queue \<Rightarrow> map cs_addr (q_consumer_list queue))"

definition delivery_exec :: "nat \<Rightarrow> delivery_call \<Rightarrow> delivery_state \<Rightarrow> delivery_state c_result" where
  "delivery_exec new c s =
     (case c of
        Ch_Flow ch active \<Rightarrow> Inr (amq_server_channel_flow ch active s)
      | Ch_Consume ch q m \<Rightarrow> Inr (amq_server_channel_consume new ch q m s)
      | Ch_Ack ch \<Rightarrow> Inr (amq_server_channel_ack ch s)
      | Ch_Cancel ch tag sync nowait \<Rightarrow> amq_server_channel_cancel ch tag sync nowait s
      | Ch_Destroy ch \<Rightarrow> Inr (amq_server_channel_destroy ch s)
      | Qu_Consume q a active nowait \<Rightarrow>
          with_consumer a (\<lambda>c. on_queue q (\<lambda>queue. Inr (amq_queue_consume c active nowait queue))) s
      | Qu_Cancel q a notify nowait \<Rightarrow>
          c_bind (with_consumer a (\<lambda>c. on_queue q (amq_queue_cancel c notify nowait)) s) (\<lambda>s.
            Inr (amq_consumer_destroy a s))
      | Qu_Ack q a \<Rightarrow>
          with_consumer a (\<lambda>c s. on_queue q (amq_queue_consumer_ack c) (put_consumer a (snd \<circ> amq_consumer_content_release) s)) s
      | Qu_Dispatch q \<Rightarrow> on_queue q amq_queue_dispatch s
      | Qu_Publish q ch content immediate \<Rightarrow> on_queue q (amq_queue_publish ch content immediate) s
      | Qu_Self_Destruct q \<Rightarrow>
          c_bind (on_queue q (\<lambda>queue. Inr (amq_queue_self_destruct queue)) s) (\<lambda>s'.
            Inr (fold amq_consumer_destroy (listed_consumers q s) s'))
      | Qu_Auto_Delete q \<Rightarrow> on_queue q (\<lambda>queue. Inr (amq_queue_auto_delete queue)) s
      | Qu_Destroy q \<Rightarrow>
          c_bind (on_queue q (\<lambda>queue. Inr (amq_queue_basic_destroy queue)) s) (\<lambda>s'.
            Inr (fold amq_consumer_destroy (listed_consumers q s) s')))"

section \<open>Steps\<close>

definition may_run :: "nat \<Rightarrow> delivery_call list \<Rightarrow> bool" where
  "may_run i cs \<longleftrightarrow> i < length cs \<and> list_all (\<lambda>c. delivery_target c \<noteq> delivery_target (cs ! i)) (take i cs)"

definition delivery_step :: "nat \<Rightarrow> nat \<Rightarrow> delivery_state \<Rightarrow> delivery_state c_result" where
  "delivery_step new i s =
     (if may_run i (dl_calls s)
      then delivery_exec new (dl_calls s ! i) (s\<lparr>dl_calls := take i (dl_calls s) @ drop (Suc i) (dl_calls s)\<rparr>)
      else Inr s)"

text \<open>The calls a client's methods and the exchanges make.\<close>

fun from_outside :: "delivery_call \<Rightarrow> bool" where
  "from_outside (Ch_Flow ch active) = True"
| "from_outside (Ch_Consume ch q m) = True"
| "from_outside (Ch_Ack ch) = True"
| "from_outside (Ch_Cancel ch tag sync nowait) = sync"
| "from_outside (Ch_Destroy ch) = True"
| "from_outside (Qu_Publish q ch content immediate) = True"
| "from_outside (Qu_Self_Destruct q) = True"
| "from_outside c = False"

definition unused_channel :: "nat \<Rightarrow> delivery_state \<Rightarrow> bool" where
  "unused_channel ch s \<longleftrightarrow> (\<forall>co \<in> ran (dl_consumers s). cs_channel (co_consumer co) \<noteq> Some ch)"

definition delivery_start :: "delivery_state \<Rightarrow> bool" where
  "delivery_start s \<longleftrightarrow>
     (\<forall>queue \<in> ran (dl_queues s). q_consumer_list queue = []) \<and> dl_consumers s = Map.empty \<and>
     (\<forall>cn. dl_tables s cn = Map.empty) \<and> (\<forall>ch. dl_lists s ch = []) \<and> dl_calls s = [] \<and>
     dl_dying s = {}"

inductive delivery_reach :: "delivery_state \<Rightarrow> bool" where
  start: "delivery_start s \<Longrightarrow> delivery_reach s"
| call: "delivery_reach s \<Longrightarrow> from_outside c \<Longrightarrow> delivery_reach (mail [c] s)"
| earn: "delivery_reach s \<Longrightarrow> delivery_reach (amq_server_channel_earn ch s)"
| open_channel: "delivery_reach s \<Longrightarrow> unused_channel ch s \<Longrightarrow>
    delivery_reach (s\<lparr>dl_channels := (dl_channels s)(ch \<mapsto> c)\<rparr>)"
| connections: "delivery_reach s \<Longrightarrow> delivery_reach (s\<lparr>dl_connections := cns\<rparr>)"
| new_queue: "delivery_reach s \<Longrightarrow> dl_queues s q = None \<Longrightarrow> q_consumer_list queue = [] \<Longrightarrow>
    delivery_reach (s\<lparr>dl_queues := (dl_queues s)(q \<mapsto> queue)\<rparr>)"
| destroy_queue: "delivery_reach s \<Longrightarrow> dl_queues s q \<noteq> None \<Longrightarrow> delivery_reach (amq_queue_destroy q s)"
| object_step: "delivery_reach s \<Longrightarrow> dl_consumers s new = None \<Longrightarrow> delivery_step new i s = Inr s' \<Longrightarrow> delivery_reach s'"

end
