(* ===== verification/Amq_Channel_Spec.thy ===== *)
theory Amq_Channel_Spec
  imports Amq_Channel
begin

text \<open>
  What holds of the consumers of channels and queues: the methods of a queue add and drop consumers but
  leave alone what the channels know of them; the store of consumers, the tables of tags, the lists of
  channels and the lists of queues agree, and creating, taking off and destroying a consumer keep the
  agreement.
\<close>

section \<open>Queues and their consumers\<close>

text \<open>The part of a consumer that queues do not change.\<close>

definition mark :: "amq_consumer \<Rightarrow> nat \<times> string \<times> nat option \<times> bool" where
  "mark c = (cs_addr c, cs_tag c, cs_channel c, cs_by_channel c)"

lemma mark_addr: "mark c = mark d \<Longrightarrow> cs_addr c = cs_addr d"
  by (simp add: mark_def)

lemma mark_updates [simp]:
  "mark (c\<lparr>cs_paused := b\<rparr>) = mark c" "mark (c\<lparr>cs_pending_content := p\<rparr>) = mark c"
  "mark (snd (amq_consumer_content_release c)) = mark c" "mark (ident c) = mark c"
  by (simp_all add: mark_def amq_consumer_content_release_def ident_def)

definition listed :: "amq_queue \<Rightarrow> (nat \<times> string \<times> nat option \<times> bool) set" where
  "listed q = mark ` set (q_consumer_list q)"

text \<open>A method that adds no consumer.\<close>

definition keeps_roster :: "amq_queue \<Rightarrow> amq_queue \<Rightarrow> bool" where
  "keeps_roster q q' \<longleftrightarrow> (distinct (map cs_addr (q_consumer_list q)) \<longrightarrow>
     distinct (map cs_addr (q_consumer_list q')) \<and> listed q' \<subseteq> listed q)"

lemma roster_same: "q_consumer_list q' = q_consumer_list q \<Longrightarrow> keeps_roster q q'"
  by (simp add: keeps_roster_def listed_def)

lemma roster_trans: "keeps_roster q r \<Longrightarrow> keeps_roster r t \<Longrightarrow> keeps_roster q t"
  by (auto simp: keeps_roster_def)

lemma roster_dispatch:
  assumes "amq_queue_basic_dispatch q = Inr q'"
  shows "keeps_roster q q'"
proof (cases rule: dispatch_cases [of q])
  case (active ds taken r)
  with assms have d: "dispatched (q_content_list q) ds taken q q'" by simp
  show ?thesis unfolding keeps_roster_def
  proof
    assume dist: "distinct (map cs_addr (q_consumer_list q))"
    then have m: "mset (map ident (q_consumer_list q')) = mset (map ident (q_consumer_list q))"
      using d unfolding dispatched_def by blast
    then have "distinct (map cs_addr (q_consumer_list q'))"
      using dist mset_ident_addr [OF m] by (metis mset_eq_imp_distinct_iff)
    moreover have "mark ` set (map ident (q_consumer_list q')) = mark ` set (map ident (q_consumer_list q))"
      using m by (metis mset_eq_setD)
    ultimately show "distinct (map cs_addr (q_consumer_list q')) \<and> listed q' \<subseteq> listed q"
      by (simp add: listed_def image_image)
  qed
qed (use assms in \<open>simp add: keeps_roster_def\<close>)

lemma roster_update:
  assumes "\<forall>d\<in>set (q_consumer_list q). cs_addr d = cs_addr c \<longrightarrow> mark d = mark c"
  shows "keeps_roster q (consumer_update c q)"
  using assms
  by (auto simp: keeps_roster_def listed_def consumer_update_def comp_def image_iff cong: if_cong
      intro!: arg_cong [of _ _ distinct] elim!: iffD2 [OF arg_cong [of _ _ distinct], rotated] split: if_splits)
    (metis (mono_tags, lifting) map_eq_conv)+

lemma roster_destroy: "keeps_roster q (consumer_destroy c q)"
  by (auto simp: keeps_roster_def listed_def consumer_destroy_def distinct_map_filter)

lemma list_updates:
  "q_consumer_list (send e q) = q_consumer_list q"
  "q_consumer_list (snd (check_limits content q)) = q_consumer_list q"
  "q_consumer_list (accept_content channel content immediate q) = q_consumer_list q"
  "q_consumer_list (cancel_finish q) = q_consumer_list q"
  "q_consumer_list (amq_queue_auto_delete q) = q_consumer_list q"
  "q_consumer_list (amq_queue_self_destruct q) = []"
  by (auto simp: send_def check_limits_def accept_content_def cancel_finish_def amq_queue_auto_delete_def
      amq_queue_self_destruct_def amq_queue_basic_stop_def Let_def split: option.splits bool.splits)

lemma roster_publish:
  assumes "amq_queue_publish channel content immediate q = Inr q'"
  shows "keeps_roster q q'"
proof (cases "q_enabled q")
  case True
  let ?q = "q\<lparr>q_contents_in := q_contents_in q + 1, q_traffic_in := q_traffic_in q + ct_body_size content\<rparr>"
  obtain accepted q1 where limits: "check_limits content ?q = (accepted, q1)" by fastforce
  then have q1: "q_consumer_list q1 = q_consumer_list q"
    using list_updates(2) [of content ?q] by simp
  have "\<exists>q2. amq_queue_basic_dispatch q2 = Inr q' \<and> q_consumer_list q2 = q_consumer_list q"
    using True limits assms q1
    by (cases accepted) (force simp: amq_queue_publish_def amq_queue_basic_publish_def list_updates)+
  then show ?thesis using roster_dispatch roster_same roster_trans by metis
next
  case False
  with assms show ?thesis by (auto simp: amq_queue_publish_def list_updates intro: roster_same)
qed

lemma roster_ack:
  assumes "\<forall>d\<in>set (q_consumer_list q). cs_addr d = cs_addr c \<longrightarrow> mark d = mark c"
    and "amq_queue_consumer_ack c q = Inr q'"
  shows "keeps_roster q q'"
proof (cases "cs_pending_content c")
  case (Some content)
  let ?r = "snd (amq_consumer_content_release c)"
  have "amq_queue_basic_dispatch (consumer_update ?r q) = Inr q'"
    using assms(2) Some by (simp add: amq_queue_consumer_ack_def amq_queue_basic_consumer_ack_def)
  moreover have "keeps_roster q (consumer_update ?r q)" using roster_update [of q ?r] assms(1) by simp
  ultimately show ?thesis using roster_dispatch roster_trans by blast
qed (use assms in \<open>simp add: amq_queue_consumer_ack_def amq_queue_basic_consumer_ack_def roster_same\<close>)

text \<open>A cancellation also takes the consumer itself off the list.\<close>

lemma roster_basic_cancel:
  assumes "amq_queue_basic_cancel c q = Inr q'"
  shows "keeps_roster q q' \<and> cs_addr c \<notin> cs_addr ` set (q_consumer_list q')"
proof -
  obtain r where r: "q' = consumer_destroy c r" "keeps_roster q r"
  proof (cases "cs_pending_content c")
    case None
    with assms have "q' = consumer_destroy c q" by (auto simp: amq_queue_basic_cancel_def split: if_splits)
    with that show thesis using roster_same [of q q] by blast
  next
    case (Some content)
    let ?q = "q\<lparr>q_content_list := content # q_content_list q\<rparr>"
    from assms Some obtain q1 where q1: "amq_queue_basic_dispatch ?q = Inr q1"
      "q' = consumer_destroy c (case find (\<lambda>d. cs_addr d = cs_addr c) (q_consumer_list q1) of
         None \<Rightarrow> q1 | Some d \<Rightarrow> consumer_update (snd (amq_consumer_content_release d)) q1)"
      unfolding amq_queue_basic_cancel_def by (cases "cs_by_channel c"; cases "amq_queue_basic_dispatch ?q") auto
    have k: "keeps_roster q q1" using roster_trans [OF roster_same roster_dispatch [OF q1(1)]] by simp
    show thesis
    proof (cases "find (\<lambda>d. cs_addr d = cs_addr c) (q_consumer_list q1)")
      case None
      with q1(2) k that show thesis by simp
    next
      case (Some d)
      then have d: "d \<in> set (q_consumer_list q1)" by (auto simp: find_Some_iff)
      let ?r = "consumer_update (snd (amq_consumer_content_release d)) q1"
      have "keeps_roster q ?r" unfolding keeps_roster_def
      proof
        assume "distinct (map cs_addr (q_consumer_list q))"
        then have q1': "distinct (map cs_addr (q_consumer_list q1))" "listed q1 \<subseteq> listed q"
          using k by (simp_all add: keeps_roster_def)
        then have "\<forall>e\<in>set (q_consumer_list q1). cs_addr e = cs_addr d \<longrightarrow> e = d"
          using d by (auto simp: distinct_map inj_on_def)
        then have "keeps_roster q1 ?r" by (intro roster_update) auto
        with q1' show "distinct (map cs_addr (q_consumer_list ?r)) \<and> listed ?r \<subseteq> listed q"
          by (auto simp: keeps_roster_def)
      qed
      with q1(2) Some that show thesis by simp
    qed
  qed
  then have "keeps_roster q q'" using roster_destroy roster_trans by blast
  moreover have "cs_addr c \<notin> cs_addr ` set (q_consumer_list q')" using r(1) by (auto simp: consumer_destroy_def)
  ultimately show ?thesis by blast
qed

lemma roster_cancel:
  assumes "amq_queue_cancel c notify nowait q = Inr q'"
  shows "keeps_roster q q' \<and> cs_addr c \<notin> cs_addr ` set (q_consumer_list q')"
proof -
  define r where "r = (if notify \<and> \<not> nowait \<and> channel_connection q (cs_channel c) \<noteq> None
    then send (Basic_Cancel_Ok (ch_number (the (channel_link q (cs_channel c)))) (cs_tag c)) q else q)"
  obtain t where r: "amq_queue_basic_cancel c r = Inr t" "q' = cancel_finish t"
    using assms unfolding amq_queue_cancel_def Let_def r_def [symmetric] by (auto simp: c_bind_Inr_iff)
  have l: "q_consumer_list r = q_consumer_list q" by (simp add: r_def list_updates)
  with roster_basic_cancel [OF r(1)] roster_trans [OF roster_same [OF l]] r(2) show ?thesis
    by (auto simp: keeps_roster_def listed_def list_updates)
qed

text \<open>Attaching a consumer.\<close>

lemma roster_consume:
  "(distinct (map cs_addr (q_consumer_list q)) \<longrightarrow> distinct (map cs_addr (q_consumer_list (amq_queue_consume c active nowait q)))) \<and>
   listed (amq_queue_consume c active nowait q) \<subseteq> insert (mark c) (listed q)"
  by (auto simp: amq_queue_consume_def consume_attach_def amq_queue_basic_consume_def by_queue_queue_def listed_def
      Let_def list_updates distinct_map_filter split: option.splits)


section \<open>The invariant\<close>

text \<open>What the tables and lists are about of a consumer.\<close>

record consumer_face =
  fc_destroyed :: bool
  fc_connection :: nat
  fc_queue :: nat
  fc_mark :: "nat \<times> string \<times> nat option \<times> bool"

abbreviation fc_addr :: "consumer_face \<Rightarrow> nat" where "fc_addr f \<equiv> fst (fc_mark f)"
abbreviation fc_tag :: "consumer_face \<Rightarrow> string" where "fc_tag f \<equiv> fst (snd (fc_mark f))"
abbreviation fc_channel :: "consumer_face \<Rightarrow> nat option" where "fc_channel f \<equiv> fst (snd (snd (fc_mark f)))"
abbreviation fc_by_channel :: "consumer_face \<Rightarrow> bool" where "fc_by_channel f \<equiv> snd (snd (snd (fc_mark f)))"

definition face_of :: "consumer_object \<Rightarrow> consumer_face" where
  "face_of co = \<lparr>fc_destroyed = co_destroyed co, fc_connection = co_connection co, fc_queue = co_queue co,
     fc_mark = mark (co_consumer co)\<rparr>"

definition consumer_faces :: "delivery_state \<Rightarrow> nat \<rightharpoonup> consumer_face" where
  "consumer_faces s a = map_option face_of (dl_consumers s a)"

definition rosters :: "delivery_state \<Rightarrow> nat \<rightharpoonup> nat list" where
  "rosters s q = map_option (\<lambda>queue. map cs_addr (q_consumer_list queue)) (dl_queues s q)"

text \<open>
  The table of a connection has exactly its living consumers, under their tags; the list of a channel has
  exactly the consumers that are its own and on it, each once; the list of a queue has consumers of
  that queue only, each once; a living consumer that is off its channel's list is about to be cancelled
  by its queue, or its queue has been destroyed.  \<open>P\<close> is the set of calls under way, \<open>D\<close> the set of queues that
  have been destroyed.
\<close>

definition delivery_ok ::
    "nat set \<Rightarrow> delivery_call set \<Rightarrow> (nat \<rightharpoonup> consumer_face) \<Rightarrow> (nat \<Rightarrow> string \<rightharpoonup> nat) \<Rightarrow> (nat \<Rightarrow> nat list) \<Rightarrow> (nat \<rightharpoonup> nat list) \<Rightarrow> bool" where
  "delivery_ok D P F T L R \<longleftrightarrow>
     (\<forall>a f. F a = Some f \<longrightarrow> fc_addr f = a \<and> (fc_destroyed f \<longrightarrow> \<not> fc_by_channel f \<and> fc_channel f = None)) \<and>
     (\<forall>cn tag a. T cn tag = Some a \<longleftrightarrow> (\<exists>f. F a = Some f \<and> \<not> fc_destroyed f \<and> fc_connection f = cn \<and> fc_tag f = tag)) \<and>
     (\<forall>ch. distinct (L ch)) \<and>
     (\<forall>ch a. a \<in> set (L ch) \<longleftrightarrow> (\<exists>f. F a = Some f \<and> fc_by_channel f \<and> fc_channel f = Some ch)) \<and>
     (\<forall>q as. R q = Some as \<longrightarrow> distinct as \<and> (\<forall>a\<in>set as. \<exists>f. F a = Some f \<and> fc_queue f = q)) \<and>
     (\<forall>a f. F a = Some f \<longrightarrow> \<not> fc_destroyed f \<longrightarrow> \<not> fc_by_channel f \<longrightarrow>
        fc_queue f \<in> D \<or> (\<exists>n w. Qu_Cancel (fc_queue f) a n w \<in> P)) \<and>
     (\<forall>q a n w. Qu_Cancel q a n w \<in> P \<longrightarrow> (\<exists>f. F a = Some f \<and> fc_queue f = q \<and> \<not> fc_by_channel f)) \<and>
     (\<forall>q a n w. Qu_Consume q a n w \<in> P \<longrightarrow> (\<exists>f. F a = Some f \<and> fc_queue f = q))"

definition delivery_inv :: "delivery_call set \<Rightarrow> delivery_state \<Rightarrow> bool" where
  "delivery_inv P s \<longleftrightarrow> delivery_ok (dl_dying s) P (consumer_faces s) (dl_tables s) (dl_lists s) (rosters s)"

fun harmless :: "delivery_call \<Rightarrow> bool" where
  "harmless (Qu_Cancel q a n w) = False"
| "harmless (Qu_Consume q a n w) = False"
| "harmless c = True"

lemma harmless_calls: "harmless c \<Longrightarrow> c \<noteq> Qu_Cancel q a n w \<and> c \<noteq> Qu_Consume q a n w"
  by auto

lemma ok_harmless:
  assumes "delivery_ok D P F T L R" "\<forall>c\<in>P - Q. harmless c" "\<forall>c\<in>Q - P. harmless c"
  shows "delivery_ok D Q F T L R"
proof -
  have "Qu_Cancel q a n w \<in> P \<longleftrightarrow> Qu_Cancel q a n w \<in> Q" "Qu_Consume q a n w \<in> P \<longleftrightarrow> Qu_Consume q a n w \<in> Q" for q a n w
    using assms(2,3) by (metis Diff_iff harmless.simps)+
  with assms(1) show ?thesis unfolding delivery_ok_def by simp
qed


lemma okD:
  assumes "delivery_ok D P F T L R"
  shows "R q = Some as \<Longrightarrow> a \<in> set as \<Longrightarrow> \<exists>f. F a = Some f \<and> fc_queue f = q"
    and "F a = Some f \<Longrightarrow> \<not> fc_destroyed f \<Longrightarrow> \<not> fc_by_channel f \<Longrightarrow> fc_queue f \<in> D \<or> (\<exists>n w. Qu_Cancel (fc_queue f) a n w \<in> P)"
    and "T cn tag = Some a \<longleftrightarrow> (\<exists>f. F a = Some f \<and> \<not> fc_destroyed f \<and> fc_connection f = cn \<and> fc_tag f = tag)"
    and "a \<in> set (L ch) \<longleftrightarrow> (\<exists>f. F a = Some f \<and> fc_by_channel f \<and> fc_channel f = Some ch)"
    and "R q = Some as \<Longrightarrow> distinct as"
    and "F a = Some f \<Longrightarrow> fc_addr f = a"
    and "F a = Some f \<Longrightarrow> fc_destroyed f \<Longrightarrow> \<not> fc_by_channel f \<and> fc_channel f = None"
    and "Qu_Cancel q a n w \<in> P \<Longrightarrow> \<exists>f. F a = Some f \<and> fc_queue f = q \<and> \<not> fc_by_channel f"
    and "Qu_Consume q a n w \<in> P \<Longrightarrow> \<exists>f. F a = Some f \<and> fc_queue f = q"
proof -
  note parts = assms [unfolded delivery_ok_def]
  note tables = conjunct2 [OF parts] and lists = conjunct2 [OF conjunct2 [OF conjunct2 [OF parts]]]
  note queues = conjunct2 [OF lists] and calls = conjunct2 [OF conjunct2 [OF conjunct2 [OF lists]]]
  show "R q = Some as \<Longrightarrow> a \<in> set as \<Longrightarrow> \<exists>f. F a = Some f \<and> fc_queue f = q" "R q = Some as \<Longrightarrow> distinct as"
    using conjunct1 [OF queues] by simp_all
  show "F a = Some f \<Longrightarrow> \<not> fc_destroyed f \<Longrightarrow> \<not> fc_by_channel f \<Longrightarrow> fc_queue f \<in> D \<or> (\<exists>n w. Qu_Cancel (fc_queue f) a n w \<in> P)"
    using conjunct1 [OF conjunct2 [OF queues]] by simp
  show "T cn tag = Some a \<longleftrightarrow> (\<exists>f. F a = Some f \<and> \<not> fc_destroyed f \<and> fc_connection f = cn \<and> fc_tag f = tag)"
    using conjunct1 [OF tables] by simp
  show "a \<in> set (L ch) \<longleftrightarrow> (\<exists>f. F a = Some f \<and> fc_by_channel f \<and> fc_channel f = Some ch)"
    using conjunct1 [OF lists] by simp
  show "F a = Some f \<Longrightarrow> fc_addr f = a" "F a = Some f \<Longrightarrow> fc_destroyed f \<Longrightarrow> \<not> fc_by_channel f \<and> fc_channel f = None"
    using conjunct1 [OF parts] by simp_all
  show "Qu_Cancel q a n w \<in> P \<Longrightarrow> \<exists>f. F a = Some f \<and> fc_queue f = q \<and> \<not> fc_by_channel f"
    using conjunct1 [OF calls] by blast
  show "Qu_Consume q a n w \<in> P \<Longrightarrow> \<exists>f. F a = Some f \<and> fc_queue f = q"
    using conjunct2 [OF calls] by blast
qed

abbreviation taken_off :: "consumer_face \<Rightarrow> consumer_face" where
  "taken_off f \<equiv> f\<lparr>fc_mark := (fc_addr f, fc_tag f, fc_channel f, False)\<rparr>"

abbreviation buried :: "consumer_face \<Rightarrow> consumer_face" where
  "buried f \<equiv> f\<lparr>fc_destroyed := True, fc_mark := (fc_addr f, fc_tag f, None, False)\<rparr>"

definition without :: "nat \<Rightarrow> (nat \<Rightarrow> nat list) \<Rightarrow> nat \<Rightarrow> nat list" where
  "without a L = (\<lambda>ch. filter (\<lambda>b. b \<noteq> a) (L ch))"

lemma ok_leave:
  assumes "delivery_ok D P F T L R" "F a = Some f"
    and "Q = insert (Qu_Cancel (fc_queue f) a n w) P \<or> Q = P \<and> fc_queue f \<in> D"
  shows "delivery_ok D Q (F(a \<mapsto> taken_off f)) T (without a L) R"
proof -
  from assms have a: "fc_addr f = a" by (simp add: delivery_ok_def)
  show ?thesis
    unfolding delivery_ok_def
  proof (intro conjI)
    show "\<forall>b g. (F(a \<mapsto> taken_off f)) b = Some g \<longrightarrow>
        fc_addr g = b \<and> (fc_destroyed g \<longrightarrow> \<not> fc_by_channel g \<and> fc_channel g = None)"
      using assms(1,2) by (auto simp: delivery_ok_def)
    show "\<forall>cn tag b. T cn tag = Some b \<longleftrightarrow>
        (\<exists>g. (F(a \<mapsto> taken_off f)) b = Some g \<and> \<not> fc_destroyed g \<and> fc_connection g = cn \<and> fc_tag g = tag)"
      using assms(1,2) by (auto simp: delivery_ok_def)
    show "\<forall>ch. distinct (without a L ch)" using assms(1) by (simp add: delivery_ok_def without_def)
    show "\<forall>ch b. b \<in> set (without a L ch) \<longleftrightarrow>
        (\<exists>g. (F(a \<mapsto> taken_off f)) b = Some g \<and> fc_by_channel g \<and> fc_channel g = Some ch)"
      using assms(1,2) by (auto simp: delivery_ok_def without_def)
    show "\<forall>q as. R q = Some as \<longrightarrow> distinct as \<and> (\<forall>b\<in>set as. \<exists>g. (F(a \<mapsto> taken_off f)) b = Some g \<and> fc_queue g = q)"
      using assms(1,2) by (fastforce simp: delivery_ok_def)
    show "\<forall>b g. (F(a \<mapsto> taken_off f)) b = Some g \<longrightarrow> \<not> fc_destroyed g \<longrightarrow> \<not> fc_by_channel g \<longrightarrow>
        fc_queue g \<in> D \<or> (\<exists>n' w'. Qu_Cancel (fc_queue g) b n' w' \<in> Q)"
      using okD(2) [OF assms(1)] assms(3) by auto
    show "\<forall>q b n' w'. Qu_Cancel q b n' w' \<in> Q \<longrightarrow>
        (\<exists>g. (F(a \<mapsto> taken_off f)) b = Some g \<and> fc_queue g = q \<and> \<not> fc_by_channel g)"
      using okD(8) [OF assms(1)] assms(2,3) by fastforce
    show "\<forall>q b n' w'. Qu_Consume q b n' w' \<in> Q \<longrightarrow>
        (\<exists>g. (F(a \<mapsto> taken_off f)) b = Some g \<and> fc_queue g = q)"
      using okD(9) [OF assms(1)] assms(2,3) by fastforce
  qed
qed

definition unlisted :: "nat \<Rightarrow> (nat \<rightharpoonup> nat list) \<Rightarrow> nat \<rightharpoonup> nat list" where
  "unlisted a R q = map_option (filter (\<lambda>b. b \<noteq> a)) (R q)"

lemma ok_destroy:
  assumes "delivery_ok D P F T L R" "F a = Some f" "\<not> fc_destroyed f"
    and "Q \<subseteq> P" "\<forall>c\<in>P - Q. harmless c \<or> (\<exists>q n w. c = Qu_Cancel q a n w)"
  shows "delivery_ok D Q (F(a \<mapsto> buried f)) (T(fc_connection f := (T (fc_connection f))(fc_tag f := None))) (without a L)
    (unlisted a R)"
proof -
  from assms have a: "fc_addr f = a" by (simp add: delivery_ok_def)
  have unique: "fc_connection g = fc_connection f \<Longrightarrow> fc_tag g = fc_tag f \<Longrightarrow> b = a"
    if "F b = Some g" "\<not> fc_destroyed g" for b g
    using assms(1-3) that unfolding delivery_ok_def by (metis option.inject)
  have Q: "Qu_Cancel q b n w \<in> Q" if "Qu_Cancel q b n w \<in> P" "b \<noteq> a" for q b n w
    using assms(5) that by (metis Diff_iff delivery_call.inject(7) harmless.simps(1))
  show ?thesis
    unfolding delivery_ok_def
  proof (intro conjI)
    show "\<forall>b g. (F(a \<mapsto> buried f)) b = Some g \<longrightarrow>
        fc_addr g = b \<and> (fc_destroyed g \<longrightarrow> \<not> fc_by_channel g \<and> fc_channel g = None)"
      using assms(1,2) by (auto simp: delivery_ok_def)
    show "\<forall>cn tag b. (T(fc_connection f := (T (fc_connection f))(fc_tag f := None))) cn tag = Some b \<longleftrightarrow>
        (\<exists>g. (F(a \<mapsto> buried f)) b = Some g \<and> \<not> fc_destroyed g \<and> fc_connection g = cn \<and> fc_tag g = tag)"
      using assms(1,2) unique by (auto simp: delivery_ok_def)
    show "\<forall>ch. distinct (without a L ch)" using assms(1) by (simp add: delivery_ok_def without_def)
    show "\<forall>ch b. b \<in> set (without a L ch) \<longleftrightarrow>
        (\<exists>g. (F(a \<mapsto> buried f)) b = Some g \<and> fc_by_channel g \<and> fc_channel g = Some ch)"
      using assms(1) by (auto simp: delivery_ok_def without_def)
    show "\<forall>q as. unlisted a R q = Some as \<longrightarrow> distinct as \<and> (\<forall>b\<in>set as. \<exists>g. (F(a \<mapsto> buried f)) b = Some g \<and> fc_queue g = q)"
      using okD(1,5) [OF assms(1)] by (fastforce simp: unlisted_def)
    show "\<forall>b g. (F(a \<mapsto> buried f)) b = Some g \<longrightarrow> \<not> fc_destroyed g \<longrightarrow> \<not> fc_by_channel g \<longrightarrow>
        fc_queue g \<in> D \<or> (\<exists>n w. Qu_Cancel (fc_queue g) b n w \<in> Q)"
    proof (intro allI impI)
      fix b g
      assume b: "(F(a \<mapsto> buried f)) b = Some g" "\<not> fc_destroyed g" "\<not> fc_by_channel g"
      then have "b \<noteq> a" by (auto split: if_splits)
      with b okD(2) [OF assms(1), of b g] have "fc_queue g \<in> D \<or> (\<exists>n w. Qu_Cancel (fc_queue g) b n w \<in> P)" by auto
      with Q \<open>b \<noteq> a\<close> show "fc_queue g \<in> D \<or> (\<exists>n w. Qu_Cancel (fc_queue g) b n w \<in> Q)" by blast
    qed
    show "\<forall>q b n w. Qu_Cancel q b n w \<in> Q \<longrightarrow> (\<exists>g. (F(a \<mapsto> buried f)) b = Some g \<and> fc_queue g = q \<and> \<not> fc_by_channel g)"
      using okD(8) [OF assms(1)] assms(2,4) by fastforce
    show "\<forall>q b n w. Qu_Consume q b n w \<in> Q \<longrightarrow> (\<exists>g. (F(a \<mapsto> buried f)) b = Some g \<and> fc_queue g = q)"
      using okD(9) [OF assms(1)] assms(2,4) by fastforce
  qed
qed

lemma ok_new:
  assumes "delivery_ok D P F T L R" "F a = None" "T cn tag = None"
  shows "delivery_ok D (insert (Qu_Consume q a n w) P)
    (F(a \<mapsto> \<lparr>fc_destroyed = False, fc_connection = cn, fc_queue = q, fc_mark = (a, tag, Some ch, True)\<rparr>))
    (T(cn := (T cn)(tag \<mapsto> a))) (L(ch := L ch @ [a])) R"
proof -
  let ?F = "F(a \<mapsto> \<lparr>fc_destroyed = False, fc_connection = cn, fc_queue = q, fc_mark = (a, tag, Some ch, True)\<rparr>)"
  have fresh: "a \<notin> set (L c)" "T c t \<noteq> Some a" "R r = Some as \<Longrightarrow> a \<notin> set as" for c t r as
    using assms(2) okD(1,3,4) [OF assms(1)] by (simp, simp, metis option.distinct(1))
  have free: "F b = Some g \<Longrightarrow> \<not> fc_destroyed g \<Longrightarrow> fc_connection g = cn \<Longrightarrow> fc_tag g \<noteq> tag" for b g
    using assms(1,3) unfolding delivery_ok_def by (metis option.distinct(1))
  show ?thesis
    unfolding delivery_ok_def
  proof (intro conjI)
    show "\<forall>b g. ?F b = Some g \<longrightarrow> fc_addr g = b \<and> (fc_destroyed g \<longrightarrow> \<not> fc_by_channel g \<and> fc_channel g = None)"
      using assms(1) by (auto simp: delivery_ok_def)
    show "\<forall>c t b. (T(cn := (T cn)(tag \<mapsto> a))) c t = Some b \<longleftrightarrow>
        (\<exists>g. ?F b = Some g \<and> \<not> fc_destroyed g \<and> fc_connection g = c \<and> fc_tag g = t)"
      using assms(1,2) fresh(2) free by (auto simp: delivery_ok_def)
    show "\<forall>c. distinct ((L(ch := L ch @ [a])) c)" using assms(1) fresh(1) by (simp add: delivery_ok_def)
    show "\<forall>c b. b \<in> set ((L(ch := L ch @ [a])) c) \<longleftrightarrow> (\<exists>g. ?F b = Some g \<and> fc_by_channel g \<and> fc_channel g = Some c)"
      using assms(1,2) fresh(1) by (auto simp: delivery_ok_def)
    show "\<forall>r as. R r = Some as \<longrightarrow> distinct as \<and> (\<forall>b\<in>set as. \<exists>g. ?F b = Some g \<and> fc_queue g = r)"
      using assms(1,2) fresh(3) by (fastforce simp: delivery_ok_def)
    show "\<forall>b g. ?F b = Some g \<longrightarrow> \<not> fc_destroyed g \<longrightarrow> \<not> fc_by_channel g \<longrightarrow>
        fc_queue g \<in> D \<or> (\<exists>n' w'. Qu_Cancel (fc_queue g) b n' w' \<in> insert (Qu_Consume q a n w) P)"
      using assms(1) by (auto simp: delivery_ok_def)
    show "\<forall>r b n' w'. Qu_Cancel r b n' w' \<in> insert (Qu_Consume q a n w) P \<longrightarrow>
        (\<exists>g. ?F b = Some g \<and> fc_queue g = r \<and> \<not> fc_by_channel g)"
      using okD(8) [OF assms(1)] assms(2) by fastforce
    show "\<forall>r b n' w'. Qu_Consume r b n' w' \<in> insert (Qu_Consume q a n w) P \<longrightarrow> (\<exists>g. ?F b = Some g \<and> fc_queue g = r)"
      using okD(9) [OF assms(1)] assms(2) by fastforce
  qed
qed

lemma ok_roster:
  assumes "delivery_ok D P F T L R" "distinct as" "\<forall>a\<in>set as. \<exists>f. F a = Some f \<and> fc_queue f = q"
  shows "delivery_ok D P F T L (R(q \<mapsto> as))"
  using assms by (simp add: delivery_ok_def)

lemma ok_fewer:
  assumes "delivery_ok D P F T L R" "Q \<subseteq> P"
    and "\<And>a f. F a = Some f \<Longrightarrow> \<not> fc_destroyed f \<Longrightarrow> \<not> fc_by_channel f \<Longrightarrow>
      fc_queue f \<in> D \<or> (\<exists>n w. Qu_Cancel (fc_queue f) a n w \<in> Q)"
  shows "delivery_ok D Q F T L R"
proof -
  have "\<forall>q a n w. Qu_Cancel q a n w \<in> Q \<longrightarrow> (\<exists>f. F a = Some f \<and> fc_queue f = q \<and> \<not> fc_by_channel f)"
    "\<forall>q a n w. Qu_Consume q a n w \<in> Q \<longrightarrow> (\<exists>f. F a = Some f \<and> fc_queue f = q)"
    using okD(8,9) [OF assms(1)] assms(2) by (meson subsetD)+
  with assms(1,3) show ?thesis unfolding delivery_ok_def by simp
qed

lemma ok_dying:
  assumes "delivery_ok D P F T L R" "D \<subseteq> E"
  shows "delivery_ok E P F T L R"
proof -
  have "\<forall>a f. F a = Some f \<longrightarrow> \<not> fc_destroyed f \<longrightarrow> \<not> fc_by_channel f \<longrightarrow>
      fc_queue f \<in> E \<or> (\<exists>n w. Qu_Cancel (fc_queue f) a n w \<in> P)"
    using okD(2) [OF assms(1)] assms(2) by blast
  with assms(1) show ?thesis unfolding delivery_ok_def by simp
qed

end
