(* ===== verification/Amq_Channel_Properties.thy ===== *)
theory Amq_Channel_Properties
  imports Amq_Channel_Spec
begin

text \<open>
  The consumers of channels and queues: the agreement of their tables and lists is kept whatever the order
  in which the objects work; what closing a channel does in the end; and a race in which a client's
  consumer is lost.
\<close>

section \<open>The operations keep it\<close>

text \<open>Some more calls, none of which the invariant is about.\<close>

definition more_calls :: "delivery_state \<Rightarrow> delivery_state \<Rightarrow> bool" where
  "more_calls s s' \<longleftrightarrow> (\<exists>cs. dl_calls s' = dl_calls s @ cs \<and> list_all harmless cs)"

definition same_outline :: "delivery_state \<Rightarrow> delivery_state \<Rightarrow> bool" where
  "same_outline s s' \<longleftrightarrow> consumer_faces s' = consumer_faces s \<and> dl_tables s' = dl_tables s \<and> dl_lists s' = dl_lists s \<and>
     rosters s' = rosters s \<and> dl_dying s' = dl_dying s \<and> more_calls s s'"

lemma more_calls_trans: "more_calls s t \<Longrightarrow> more_calls t u \<Longrightarrow> more_calls s u"
  by (auto simp: more_calls_def)

lemma outline_trans: "same_outline s t \<Longrightarrow> same_outline t u \<Longrightarrow> same_outline s u"
  using more_calls_trans by (auto simp: same_outline_def)

lemma more_calls_refl: "dl_calls s' = dl_calls s \<Longrightarrow> more_calls s s'"
  by (simp add: more_calls_def)

lemma outline_refl: "same_outline s s"
  by (simp add: same_outline_def more_calls_refl)

lemma inv_harmless:
  "delivery_inv P s \<Longrightarrow> \<forall>c\<in>P - Q. harmless c \<Longrightarrow> \<forall>c\<in>Q - P. harmless c \<Longrightarrow> delivery_inv Q s"
  unfolding delivery_inv_def by (rule ok_harmless)

lemma inv_more:
  assumes "delivery_inv (set (dl_calls s)) s'" "more_calls s s'"
  shows "delivery_inv (set (dl_calls s')) s'"
proof (rule inv_harmless [OF assms(1)])
  show "\<forall>c\<in>set (dl_calls s) - set (dl_calls s'). harmless c" "\<forall>c\<in>set (dl_calls s') - set (dl_calls s). harmless c"
    using assms(2) by (auto simp: more_calls_def list_all_iff)
qed

lemma outline_inv:
  assumes "delivery_inv (set (dl_calls s)) s" "same_outline s s'"
  shows "delivery_inv (set (dl_calls s')) s'"
proof -
  have "delivery_inv (set (dl_calls s)) s'" using assms by (simp add: delivery_inv_def same_outline_def)
  then show ?thesis using inv_more assms(2) by (simp add: same_outline_def)
qed

lemma faces_put: "(\<And>c. mark (f c) = mark c) \<Longrightarrow> consumer_faces (put_consumer a f s) = consumer_faces s"
  by (rule ext) (simp add: consumer_faces_def put_consumer_def option.map_comp comp_def, simp add: face_of_def [abs_def])

lemma outline_put: "(\<And>c. mark (f c) = mark c) \<Longrightarrow> same_outline s (put_consumer a f s)"
  by (simp add: same_outline_def faces_put) (simp add: put_consumer_def rosters_def fun_eq_iff more_calls_refl)

lemma outline_mail: "list_all harmless cs \<Longrightarrow> same_outline s (mail cs s)"
  by (auto simp: same_outline_def mail_def consumer_faces_def rosters_def fun_eq_iff more_calls_def list_all_iff)

lemma outline_flow_loop: "same_outline s (flow_loop active as s)"
proof (induction active as s rule: flow_loop.induct)
  case (1 active s)
  then show ?case by (simp add: same_outline_def more_calls_refl)
next
  case (2 active a as s)
  show ?case
  proof (cases "dl_consumers s a")
    case None
    with 2 show ?thesis by simp
  next
    case (Some co)
    let ?p = "put_consumer a (\<lambda>c. c\<lparr>cs_paused := \<not> active\<rparr>) s"
    let ?s = "?p\<lparr>dl_queues := (dl_queues ?p)(co_queue co := map_option (\<lambda>queue. queue\<lparr>q_feed_on := active\<rparr>) (dl_queues ?p (co_queue co)))\<rparr>"
    let ?t = "if active then mail [Qu_Dispatch (co_queue co)] ?s else ?s"
    have ps: "same_outline ?p ?s"
      by (simp add: same_outline_def consumer_faces_def fun_eq_iff more_calls_refl)
        (simp add: rosters_def option.map_comp comp_def)
    have st: "same_outline ?s ?t" by (cases active) (simp_all only: if_True if_False outline_refl, rule outline_mail, simp)
    have sp: "same_outline s ?p" by (rule outline_put) simp
    have "flow_loop active (a # as) s = flow_loop active as ?t" using Some by (simp only: flow_loop.simps option.case Let_def)
    then show ?thesis
      using outline_trans [OF outline_trans [OF outline_trans [OF sp ps] st] 2(2) [OF Some refl refl refl]] by (rule ssubst)
  qed
qed

lemma outline_events: "same_outline s (say e s)" "same_outline s (s\<lparr>dl_channels := chs\<rparr>)" "same_outline s (s\<lparr>dl_connections := cns\<rparr>)"
  "same_outline s (s\<lparr>dl_last_tag := l\<rparr>)"
  by (simp_all add: same_outline_def say_def consumer_faces_def rosters_def fun_eq_iff more_calls_refl)

lemma outline_flow: "same_outline s (amq_server_channel_flow ch active s)"
proof (cases "dl_channels s ch")
  case None
  then show ?thesis by (simp add: amq_server_channel_flow_def same_outline_def more_calls_refl)
next
  case (Some c)
  show ?thesis unfolding amq_server_channel_flow_def Some option.case
    by (rule outline_trans [OF outline_trans [OF outline_events(2) outline_flow_loop] outline_events(1)])
qed

lemma outline_ack: "same_outline s (amq_server_channel_ack ch s)"
  unfolding amq_server_channel_ack_def by (rule outline_mail) (simp add: list_all_iff)

lemma outline_earn: "same_outline s (amq_server_channel_earn ch s)"
proof (cases "dl_channels s ch")
  case None
  then show ?thesis by (simp add: amq_server_channel_earn_def same_outline_def more_calls_refl)
next
  case (Some c)
  let ?s = "s\<lparr>dl_channels := (dl_channels s)(ch \<mapsto> c\<lparr>ch_credit := ch_credit c + 1\<rparr>)\<rparr>"
  have "same_outline ?s (mail (map (\<lambda>a. Qu_Dispatch (consumer_queue ?s a)) (dl_lists ?s ch)) ?s)"
    by (rule outline_mail) (simp add: list_all_iff)
  then have "same_outline s (mail (map (\<lambda>a. Qu_Dispatch (consumer_queue ?s a)) (dl_lists ?s ch)) ?s)"
    by (rule outline_trans [OF outline_events(2)])
  moreover have "same_outline s ?s" by (rule outline_events(2))
  ultimately show ?thesis using Some by (simp only: amq_server_channel_earn_def option.case Let_def split: if_split) simp
qed

section \<open>Creating and destroying consumers\<close>

lemma faces_remove:
  "consumer_faces (by_channel_remove a s) = (consumer_faces s)(a := map_option taken_off (consumer_faces s a))"
  by (rule ext) (auto simp: consumer_faces_def by_channel_remove_def put_consumer_def face_of_def mark_def option.map_comp comp_def)

lemma remove_frame [simp]:
  "dl_tables (by_channel_remove a s) = dl_tables s" "dl_lists (by_channel_remove a s) = without a (dl_lists s)"
  "rosters (by_channel_remove a s) = rosters s" "dl_calls (by_channel_remove a s) = dl_calls s"
  "dl_queues (by_channel_remove a s) = dl_queues s" "dl_channels (by_channel_remove a s) = dl_channels s"
  "consumer_queue (by_channel_remove a s) b = consumer_queue s b" "dl_dying (by_channel_remove a s) = dl_dying s"
  by (auto simp: by_channel_remove_def put_consumer_def without_def rosters_def consumer_queue_def fun_eq_iff split: option.splits)

lemma consumer_queue_face: "consumer_faces s a = Some f \<Longrightarrow> consumer_queue s a = fc_queue f"
  by (auto simp: consumer_faces_def consumer_queue_def face_of_def split: option.splits)

lemma queue_link_face:
  assumes "consumer_faces s a = Some f" "\<not> fc_destroyed f"
  shows "queue_link (by_channel_remove a s) a = Some (consumer_queue s a)"
  using assms by (auto simp: consumer_faces_def consumer_queue_def face_of_def queue_link_def by_channel_remove_def put_consumer_def)

lemma inv_leave:
  assumes "delivery_inv P s" "consumer_faces s a = Some f"
    and "Q = insert (Qu_Cancel (consumer_queue s a) a n w) P \<or> Q = P \<and> consumer_queue s a \<in> dl_dying s"
  shows "delivery_inv Q (by_channel_remove a s)"
  using ok_leave [OF assms(1) [unfolded delivery_inv_def] assms(2)] assms(2,3) consumer_queue_face [OF assms(2)]
  by (simp add: delivery_inv_def faces_remove)

lemma faces_destroy:
  assumes "consumer_faces s a = Some f" "\<not> fc_destroyed f" "fc_addr f = a"
  shows "consumer_faces (amq_consumer_destroy a s) = (consumer_faces s)(a \<mapsto> buried f)"
    and "dl_tables (amq_consumer_destroy a s) = (dl_tables s)(fc_connection f := (dl_tables s (fc_connection f))(fc_tag f := None))"
    and "dl_lists (amq_consumer_destroy a s) = without a (dl_lists s)"
    and "rosters (amq_consumer_destroy a s) = unlisted a (rosters s)" "dl_calls (amq_consumer_destroy a s) = dl_calls s"
    and "dl_dying (amq_consumer_destroy a s) = dl_dying s"
proof -
  from assms obtain co where co: "dl_consumers s a = Some co" "f = face_of co" "\<not> co_destroyed co"
    by (auto simp: consumer_faces_def face_of_def)
  then have d: "amq_consumer_destroy a s = (let t = by_channel_remove a s; cn = co_connection co in
      t\<lparr>dl_tables := (dl_tables t)(cn := (dl_tables t cn)(cs_tag (co_consumer co) := None)),
        dl_queues := (\<lambda>q. map_option (consumer_destroy (co_consumer co)) (dl_queues t q)),
        dl_consumers := (dl_consumers t)(a \<mapsto> co\<lparr>co_destroyed := True,
          co_consumer := (co_consumer co)\<lparr>cs_channel := None, cs_pending_content := None, cs_by_channel := False\<rparr>\<rparr>)\<rparr>)"
    by (simp add: amq_consumer_destroy_def Let_def)
  show "consumer_faces (amq_consumer_destroy a s) = (consumer_faces s)(a \<mapsto> buried f)"
    using co assms(3) faces_remove [of a s]
    by (auto simp: d Let_def consumer_faces_def fun_eq_iff face_of_def mark_def)
  show "dl_tables (amq_consumer_destroy a s) = (dl_tables s)(fc_connection f := (dl_tables s (fc_connection f))(fc_tag f := None))"
    using co by (simp add: d Let_def face_of_def mark_def)
  show "dl_lists (amq_consumer_destroy a s) = without a (dl_lists s)" "dl_calls (amq_consumer_destroy a s) = dl_calls s"
    "dl_dying (amq_consumer_destroy a s) = dl_dying s"
    by (simp_all add: d Let_def)
  have "cs_addr (co_consumer co) = a" using assms(3) co(2) by (simp add: face_of_def mark_def)
  then show "rosters (amq_consumer_destroy a s) = unlisted a (rosters s)"
    by (simp add: d Let_def rosters_def unlisted_def fun_eq_iff option.map_comp comp_def consumer_destroy_def filter_map)
qed

lemma destroy_nothing:
  assumes "\<forall>f. consumer_faces s a = Some f \<longrightarrow> fc_destroyed f"
  shows "amq_consumer_destroy a s = s"
  using assms by (auto simp: amq_consumer_destroy_def consumer_faces_def face_of_def split: option.splits)

text \<open>A consumer may be destroyed at any time; the call to cancel it is not needed any more.\<close>

lemma inv_destroy:
  assumes "delivery_inv P s" "Q \<subseteq> P" "\<forall>c\<in>P - Q. harmless c \<or> (\<exists>q n w. c = Qu_Cancel q a n w)"
  shows "delivery_inv Q (amq_consumer_destroy a s)"
proof (cases "\<exists>f. consumer_faces s a = Some f \<and> \<not> fc_destroyed f")
  case True
  then obtain f where f: "consumer_faces s a = Some f" "\<not> fc_destroyed f" by blast
  note ok = assms(1) [unfolded delivery_inv_def]
  have "fc_addr f = a" using okD(6) [OF ok f(1)] .
  note d = faces_destroy [OF f this]
  show ?thesis unfolding delivery_inv_def d using ok_destroy [OF ok f assms(2,3)] .
next
  case False
  then have same: "amq_consumer_destroy a s = s" by (intro destroy_nothing) auto
  have ok: "delivery_ok (dl_dying s) P (consumer_faces s) (dl_tables s) (dl_lists s) (rosters s)" using assms(1) by (simp add: delivery_inv_def)
  have Q: "Qu_Cancel q b n w \<in> Q" if "Qu_Cancel q b n w \<in> P" "b \<noteq> a" for q b n w
    using assms(3) that by (metis Diff_iff delivery_call.inject(7) harmless.simps(1))
  have "delivery_ok (dl_dying s) Q (consumer_faces s) (dl_tables s) (dl_lists s) (rosters s)"
  proof (rule ok_fewer [OF ok assms(2)])
    fix b g
    assume b: "consumer_faces s b = Some g" "\<not> fc_destroyed g" "\<not> fc_by_channel g"
    then have "b \<noteq> a" using False by auto
    with okD(2) [OF ok b] Q show "fc_queue g \<in> dl_dying s \<or> (\<exists>n w. Qu_Cancel (fc_queue g) b n w \<in> Q)" by blast
  qed
  then show ?thesis unfolding same delivery_inv_def .
qed

section \<open>The queues\<close>

lemma sent_harmless: "c \<in> set (sent_calls q e) \<Longrightarrow> harmless c"
  by (cases "(q, e)" rule: sent_calls.cases) auto

definition belongs :: "delivery_state \<Rightarrow> nat \<Rightarrow> nat \<times> string \<times> nat option \<times> bool \<Rightarrow> bool" where
  "belongs s q m \<longleftrightarrow> (\<exists>co. dl_consumers s (fst m) = Some co \<and> mark (co_consumer co) = m \<and> co_queue co = q)"

lemma view_list:
  assumes "delivery_inv P s" "dl_queues s q = Some queue"
  shows "distinct (map cs_addr (q_consumer_list (delivery_view s queue)))"
    and "m \<in> listed (delivery_view s queue) \<Longrightarrow> belongs s q m"
    and "d \<in> set (q_consumer_list (delivery_view s queue)) \<Longrightarrow>
      \<exists>co. dl_consumers s (cs_addr d) = Some co \<and> d = co_consumer co \<and> co_queue co = q"
    and "map cs_addr (q_consumer_list (delivery_view s queue)) = map cs_addr (q_consumer_list queue)"
proof -
  note ok = assms(1) [unfolded delivery_inv_def]
  have r: "rosters s q = Some (map cs_addr (q_consumer_list queue))" using assms(2) by (simp add: rosters_def)
  have at: "\<exists>co. dl_consumers s (cs_addr c) = Some co \<and> refreshed s c = co_consumer co \<and> co_queue co = q \<and>
      cs_addr (co_consumer co) = cs_addr c" if "c \<in> set (q_consumer_list queue)" for c
  proof -
    have "cs_addr c \<in> set (map cs_addr (q_consumer_list queue))" using that by simp
    from okD(1) [OF ok r this] obtain f where f: "consumer_faces s (cs_addr c) = Some f" "fc_queue f = q" by blast
    then obtain co where "dl_consumers s (cs_addr c) = Some co" "f = face_of co" by (auto simp: consumer_faces_def)
    with f okD(6) [OF ok f(1)] show ?thesis by (simp add: refreshed_def face_of_def mark_def)
  qed
  show addrs: "map cs_addr (q_consumer_list (delivery_view s queue)) = map cs_addr (q_consumer_list queue)"
    using at by (fastforce simp: delivery_view_def)
  show "distinct (map cs_addr (q_consumer_list (delivery_view s queue)))"
    unfolding addrs using okD(5) [OF ok r] .
  show d: "\<exists>co. dl_consumers s (cs_addr d) = Some co \<and> d = co_consumer co \<and> co_queue co = q"
    if "d \<in> set (q_consumer_list (delivery_view s queue))" for d
    using that at by (fastforce simp: delivery_view_def)
  show "belongs s q m" if "m \<in> listed (delivery_view s queue)"
    using that d by (fastforce simp: listed_def belongs_def mark_def)
qed

text \<open>A queue whose consumers are its own leaves the store and the tables as they were.\<close>

lemma store_inv:
  assumes inv: "delivery_inv P s"
    and dist: "distinct (map cs_addr (q_consumer_list queue))" and own: "\<forall>m\<in>listed queue. belongs s q m"
  shows "delivery_inv P (delivery_store q queue s)" and "more_calls s (delivery_store q queue s)"
    and "consumer_faces (delivery_store q queue s) = consumer_faces s"
    and "rosters (delivery_store q queue s) = (rosters s)(q \<mapsto> map cs_addr (q_consumer_list queue))"
proof -
  have at: "\<exists>co. dl_consumers s (cs_addr c) = Some co \<and> mark (co_consumer co) = mark c \<and> co_queue co = q"
    if "c \<in> set (q_consumer_list queue)" for c
  proof -
    have "mark c \<in> listed queue" using that by (simp add: listed_def)
    with own show ?thesis by (fastforce simp: belongs_def mark_def)
  qed
  have w: "map_option face_of (written (q_consumer_list queue) (dl_consumers s) a) = map_option face_of (dl_consumers s a)" for a
  proof (cases "find (\<lambda>c. cs_addr c = a) (q_consumer_list queue)")
    case (Some c)
    then have "c \<in> set (q_consumer_list queue)" "cs_addr c = a" by (auto simp: find_Some_iff)
    from at [OF this(1)] this(2) Some show ?thesis by (auto simp: written_def face_of_def)
  qed (simp add: written_def)
  then show f: "consumer_faces (delivery_store q queue s) = consumer_faces s"
    by (simp add: consumer_faces_def fun_eq_iff delivery_store_def)
  show r: "rosters (delivery_store q queue s) = (rosters s)(q \<mapsto> map cs_addr (q_consumer_list queue))"
    by (simp add: rosters_def fun_eq_iff delivery_store_def)
  show "more_calls s (delivery_store q queue s)"
    unfolding more_calls_def delivery_store_def
    by (rule exI [of _ "filter (\<lambda>c. \<not> call_fails s c) (concat (map (sent_calls q) (q_sent queue)))"])
      (auto simp: list_all_iff dest: sent_harmless)
  have t: "dl_tables (delivery_store q queue s) = dl_tables s" "dl_lists (delivery_store q queue s) = dl_lists s"
    "dl_dying (delivery_store q queue s) = dl_dying s"
    by (simp_all add: delivery_store_def)
  have "\<forall>a\<in>set (map cs_addr (q_consumer_list queue)). \<exists>f. consumer_faces s a = Some f \<and> fc_queue f = q"
    using at by (fastforce simp: consumer_faces_def face_of_def)
  from ok_roster [OF inv [unfolded delivery_inv_def] dist this]
  show "delivery_inv P (delivery_store q queue s)" by (simp add: delivery_inv_def f r t)
qed

text \<open>What a method of a queue does to the whole, given what it does to the queue's list.\<close>

lemma on_queue_inv:
  assumes "delivery_inv P s" and "on_queue q f s = Inr s'"
    and "\<And>queue queue'. dl_queues s q = Some queue \<Longrightarrow> f (delivery_view s queue) = Inr queue' \<Longrightarrow>
      keeps_roster (delivery_view s queue) queue'"
  shows "delivery_inv P s' \<and> more_calls s s' \<and> consumer_faces s' = consumer_faces s"
proof (cases "dl_queues s q")
  case None
  with assms show ?thesis by (simp add: on_queue_def more_calls_refl)
next
  case (Some queue)
  then obtain queue' where q: "f (delivery_view s queue) = Inr queue'" "s' = delivery_store q queue' s"
    using assms(2) by (auto simp: on_queue_def c_bind_Inr_iff)
  have "distinct (map cs_addr (q_consumer_list queue'))" "listed queue' \<subseteq> listed (delivery_view s queue)"
    using assms(3) [OF Some q(1)] view_list(1) [OF assms(1) Some] by (simp_all add: keeps_roster_def)
  then show ?thesis
    unfolding q(2) using store_inv [OF assms(1)] view_list(2) [OF assms(1) Some] by (meson subsetD)
qed

section \<open>The steps\<close>

lemma consumer_new_cases:
  assumes "amq_consumer_new new cn ch q m s = (r, t)"
  obtains (taken) "r = None" "same_outline s t"
  | (made) tag where "r = Some tag" "dl_tables s cn tag = None" "dl_lists t = dl_lists s" "rosters t = rosters s" "dl_calls t = dl_calls s" "dl_dying t = dl_dying s"
      "dl_tables t = (dl_tables s)(cn := (dl_tables s cn)(tag \<mapsto> new))"
      "consumer_faces t = (consumer_faces s)(new \<mapsto> \<lparr>fc_destroyed = False, fc_connection = cn, fc_queue = q, fc_mark = (new, tag, Some ch, False)\<rparr>)"
proof -
  obtain tag u where u: "(if cm_tag m = []
      then (format_d (dl_last_tag s cn), s\<lparr>dl_last_tag := (dl_last_tag s)(cn := dl_last_tag s cn + 1)\<rparr>)
      else (cm_tag m, s)) = (tag, u)" by fastforce
  then have same: "same_outline s u" using outline_events(4) [of s] outline_refl [of s] by (auto split: if_splits)
  have keep: "dl_consumers u = dl_consumers s" "dl_tables u = dl_tables s" "dl_lists u = dl_lists s" "dl_queues u = dl_queues s"
    "dl_calls u = dl_calls s" "dl_dying u = dl_dying s"
    using u by (auto split: if_splits)
  show thesis
  proof (cases "dl_tables s cn tag")
    case (Some a)
    with u keep have "r = None" "t = u" using assms by (auto simp: amq_consumer_new_def)
    with same taken show thesis by blast
  next
    case None
    with u keep(2) have r: "r = Some tag" and t: "t =
      u\<lparr>dl_tables := (dl_tables u)(cn := (dl_tables u cn)(tag \<mapsto> new)),
        dl_consumers := (dl_consumers u)(new \<mapsto>
          \<lparr>co_consumer = \<lparr>cs_addr = new, cs_tag = tag, cs_channel = Some ch, cs_no_local = cm_no_local m,
             cs_no_ack = cm_no_ack m, cs_exclusive = cm_exclusive m, cs_paused = False,
             cs_pending_content = None, cs_by_channel = False\<rparr>,
           co_connection = cn, co_queue = q, co_destroyed = False\<rparr>)\<rparr>"
      using assms by (auto simp: amq_consumer_new_def)
    show thesis
      by (rule made [OF r None]) (simp_all add: t keep consumer_faces_def rosters_def fun_eq_iff face_of_def mark_def)
  qed
qed

lemma inv_calls [simp]: "delivery_inv P (mail cs s) = delivery_inv P s" "delivery_inv P (s\<lparr>dl_calls := cs\<rparr>) = delivery_inv P s"
  by (simp_all add: delivery_inv_def mail_def consumer_faces_def [abs_def] rosters_def [abs_def])

lemma inv_drop:
  assumes "delivery_inv (insert c P) s" "\<And>q a n w. c \<noteq> Qu_Cancel q a n w"
  shows "delivery_inv P s"
  using ok_fewer [OF assms(1) [unfolded delivery_inv_def], of P] okD(2) [OF assms(1) [unfolded delivery_inv_def]] assms(2)
  unfolding delivery_inv_def by (metis insertE subset_insertI)

lemma inv_consume:
  assumes inv: "delivery_inv (set (dl_calls s)) s" and new: "dl_consumers s new = None"
  shows "delivery_inv (set (dl_calls (amq_server_channel_consume new ch q m s))) (amq_server_channel_consume new ch q m s)"
proof (cases "\<exists>c cn queue. dl_channels s ch = Some c \<and> ch_connection c = Some cn \<and> dl_queues s q = Some queue")
  case False
  with inv show ?thesis by (auto simp: amq_server_channel_consume_def split: option.splits)
next
  case True
  then obtain c cn queue where c: "dl_channels s ch = Some c" "ch_connection c = Some cn" "dl_queues s q = Some queue" by blast
  note said = outline_inv [OF inv outline_events(1)]
  show ?thesis
  proof (cases "if cm_tag m = [] then None else dl_tables s cn (cm_tag m)")
    case (Some a)
    with c inv said show ?thesis by (auto simp: amq_server_channel_consume_def)
  next
    case None
    obtain r t where n: "amq_consumer_new new cn ch q m s = (r, t)" by fastforce
    then show ?thesis
    proof (cases rule: consumer_new_cases)
      case taken
      then have "amq_server_channel_consume new ch q m s = say (Channel_Failed ch RESOURCE_ERROR ''Unable to create consumer'') t"
        using c None n by (simp add: amq_server_channel_consume_def)
      then show ?thesis using outline_inv [OF inv outline_trans [OF taken(2) outline_events(1)]] by simp
    next
      case (made tag)
      let ?u = "put_consumer new (\<lambda>c. c\<lparr>cs_by_channel := True\<rparr>) t"
      let ?v = "?u\<lparr>dl_lists := (dl_lists ?u)(ch := dl_lists ?u ch @ [new]),
          dl_channels := (dl_channels ?u)(ch \<mapsto> c\<lparr>ch_credit := initial_credit (q_exclusive queue) ?u\<rparr>)\<rparr>"
      have e: "amq_server_channel_consume new ch q m s = mail [Qu_Consume q new (ch_active c) (cm_nowait m)] ?v"
        using c None n made(1) by (simp add: amq_server_channel_consume_def Let_def)
      obtain co where co: "dl_consumers t new = Some co" "face_of co =
          \<lparr>fc_destroyed = False, fc_connection = cn, fc_queue = q, fc_mark = (new, tag, Some ch, False)\<rparr>"
      proof -
        have "consumer_faces t new = Some \<lparr>fc_destroyed = False, fc_connection = cn, fc_queue = q, fc_mark = (new, tag, Some ch, False)\<rparr>"
          using made(8) by simp
        then show thesis using that by (auto simp: consumer_faces_def)
      qed
      have f: "consumer_faces ?v = (consumer_faces s)(new \<mapsto> \<lparr>fc_destroyed = False, fc_connection = cn, fc_queue = q, fc_mark = (new, tag, Some ch, True)\<rparr>)"
      proof (rule ext)
        fix a
        have "consumer_faces t a = (if a = new then Some (face_of co) else consumer_faces s a)" using made(8) co(2) by simp
        then show "consumer_faces ?v a = ((consumer_faces s)(new \<mapsto> \<lparr>fc_destroyed = False, fc_connection = cn, fc_queue = q, fc_mark = (new, tag, Some ch, True)\<rparr>)) a"
          using co by (auto simp: consumer_faces_def put_consumer_def face_of_def mark_def)
      qed
      have l: "dl_tables ?v = (dl_tables s)(cn := (dl_tables s cn)(tag \<mapsto> new))" "dl_lists ?v = (dl_lists s)(ch := dl_lists s ch @ [new])"
        "rosters ?v = rosters s" "dl_calls ?v = dl_calls s" "dl_dying ?v = dl_dying s"
        using made(3-7) by (simp_all add: put_consumer_def rosters_def fun_eq_iff)
      have "consumer_faces s new = None" using new by (simp add: consumer_faces_def)
      from ok_new [OF inv [unfolded delivery_inv_def] this made(2), of q "ch_active c" "cm_nowait m" ch]
      have "delivery_inv (insert (Qu_Consume q new (ch_active c) (cm_nowait m)) (set (dl_calls s))) ?v"
        unfolding delivery_inv_def f l .
      then have "delivery_inv (set (dl_calls (mail [Qu_Consume q new (ch_active c) (cm_nowait m)] ?v))) ?v"
        using inv_drop [of "Qu_Consume q new (ch_active c) (cm_nowait m)" "set (dl_calls s)" ?v] l(4)
        by (auto simp: mail_def)
      then show ?thesis unfolding e by simp
    qed
  qed
qed

lemma destroy_calls [simp]: "dl_calls (amq_consumer_destroy a s) = dl_calls s" "dl_events (amq_consumer_destroy a s) = dl_events s"
  "dl_dying (amq_consumer_destroy a s) = dl_dying s"
  by (simp_all add: amq_consumer_destroy_def by_channel_remove_def put_consumer_def Let_def split: option.splits)

lemma fold_destroy:
  assumes "delivery_inv P s"
  shows "delivery_inv P (fold amq_consumer_destroy as s) \<and> dl_calls (fold amq_consumer_destroy as s) = dl_calls s"
  using assms
proof (induction as arbitrary: s)
  case (Cons a as)
  have "delivery_inv P (amq_consumer_destroy a s)" by (rule inv_destroy [OF Cons.prems]) auto
  from Cons.IH [OF this] show ?case by simp
qed simp

lemma inv_cancel:
  assumes "delivery_inv (set (dl_calls s)) s" "amq_server_channel_cancel ch tag sync nowait s = Inr s'"
  shows "delivery_inv (set (dl_calls s')) s'"
proof (cases "Option.bind (dl_channels s ch) ch_connection")
  case None
  with assms show ?thesis by (simp add: amq_server_channel_cancel_def)
next
  case (Some cn)
  show ?thesis
  proof (cases "dl_tables s cn tag")
    case None
    with Some assms have "s' = (if sync then say (Cancel_Ok ch tag) s else s)" by (auto simp: amq_server_channel_cancel_def)
    then show ?thesis using assms(1) outline_inv [OF assms(1) outline_events(1)] by simp
  next
    case (Some a)
    note some = \<open>Option.bind (dl_channels s ch) ch_connection = Some cn\<close> Some
    obtain f where f: "consumer_faces s a = Some f" using okD(3) [OF assms(1) [unfolded delivery_inv_def]] Some by blast
    show ?thesis
    proof (cases sync)
      case True
      let ?c = "Qu_Cancel (consumer_queue s a) a True nowait" and ?r = "by_channel_remove a s"
      have alive: "\<not> fc_destroyed f" using okD(3) [OF assms(1) [unfolded delivery_inv_def], of cn tag a] some(2) f by auto
      have "queue_link ?r a = Some (consumer_queue s a)" using queue_link_face [OF f alive] .
      with some assms(2) True have s': "s' = mail [?c] ?r"
        by (auto simp: amq_server_channel_cancel_def queue_cancel_call_def Let_def)
      then have "set (dl_calls s') = insert ?c (set (dl_calls s)) \<or>
          set (dl_calls s') = set (dl_calls s) \<and> consumer_queue s a \<in> dl_dying s"
        by (auto simp: mail_def call_fails_def)
      from inv_leave [OF assms(1) f this] show ?thesis using s' by simp
    next
      case False
      with some assms(2) have s': "s' = amq_consumer_destroy a (by_channel_remove a s)"
        by (auto simp: amq_server_channel_cancel_def Let_def split: if_splits)
      show ?thesis unfolding s' destroy_calls remove_frame
        by (rule inv_destroy [OF inv_leave [OF assms(1) f disjI1 [OF refl], where n = True and w = True]]) auto
    qed
  qed
qed

lemma queue_face_cong: "consumer_faces t b = consumer_faces s b \<Longrightarrow> consumer_queue t b = consumer_queue s b"
  by (auto simp: consumer_faces_def consumer_queue_def face_of_def split: option.splits)

text \<open>Closing the channel of a consumer: its queue is to cancel it, or it is destroyed at once.\<close>

lemma close_step:
  assumes inv: "delivery_inv (set (dl_calls s)) s" and f: "consumer_faces s a = Some f" "\<not> fc_destroyed f"
  defines "u \<equiv> close_consumer a s" and "dying \<equiv> consumer_queue s a \<in> dl_dying s"
  shows "delivery_inv (set (dl_calls u)) u" and "dl_dying u = dl_dying s"
    and "dl_calls u = dl_calls s @ (if dying then [] else [Qu_Cancel (consumer_queue s a) a False True])"
    and "b \<noteq> a \<Longrightarrow> consumer_faces u b = consumer_faces s b"
    and "rosters u r = Some xs \<Longrightarrow> \<exists>bs. rosters s r = Some bs \<and> set xs \<subseteq> set bs"
    and "dying \<Longrightarrow> (\<exists>g. consumer_faces u a = Some g \<and> fc_destroyed g) \<and> (\<forall>r xs. rosters u r = Some xs \<longrightarrow> a \<notin> set xs)"
proof -
  let ?c = "Qu_Cancel (consumer_queue s a) a False True" and ?r = "by_channel_remove a s"
  have calls: "dl_calls (mail [?c] ?r) = dl_calls s @ (if dying then [] else [?c])"
    by (simp add: mail_def call_fails_def dying_def)
  have q: "set (dl_calls (mail [?c] ?r)) = insert ?c (set (dl_calls s)) \<or>
      set (dl_calls (mail [?c] ?r)) = set (dl_calls s) \<and> consumer_queue s a \<in> dl_dying s"
    unfolding calls by (simp add: dying_def)
  have left: "delivery_inv (set (dl_calls (mail [?c] ?r))) (mail [?c] ?r)"
    using inv_leave [OF inv f(1) q] by simp
  have "consumer_faces (mail [?c] ?r) = consumer_faces ?r" "rosters (mail [?c] ?r) = rosters ?r"
    by (simp_all add: mail_def consumer_faces_def [abs_def] rosters_def [abs_def])
  then have faces: "consumer_faces (mail [?c] ?r) = (consumer_faces s)(a \<mapsto> taken_off f)" "rosters (mail [?c] ?r) = rosters s"
    "dl_dying (mail [?c] ?r) = dl_dying s"
    using faces_remove [of a s] f(1) by (simp_all add: mail_def)
  have u: "u = (if dying then amq_consumer_destroy a (mail [?c] ?r) else mail [?c] ?r)"
    by (simp add: u_def close_consumer_def queue_cancel_call_def Let_def call_fails_def dying_def)
  have addr: "fc_addr f = a" using okD(6) [OF inv [unfolded delivery_inv_def] f(1)] .
  have "consumer_faces (mail [?c] ?r) a = Some (taken_off f)" "\<not> fc_destroyed (taken_off f)" "fc_addr (taken_off f) = a"
    using faces f(2) addr by simp_all
  note d = faces_destroy [OF this]
  show "delivery_inv (set (dl_calls u)) u"
    using left inv_destroy [OF left] by (simp add: u)
  show "dl_dying u = dl_dying s" using faces by (simp add: u)
  show "dl_calls u = dl_calls s @ (if dying then [] else [?c])" using calls by (simp add: u)
  show "consumer_faces u b = consumer_faces s b" if "b \<noteq> a" using that faces(1) d(1) by (simp add: u)
  show "\<exists>bs. rosters s r = Some bs \<and> set xs \<subseteq> set bs" if "rosters u r = Some xs"
    using that faces(2) d(4) by (auto simp: u unlisted_def split: if_splits)
  show "(\<exists>g. consumer_faces u a = Some g \<and> fc_destroyed g) \<and> (\<forall>r xs. rosters u r = Some xs \<longrightarrow> a \<notin> set xs)" if dying
    using that d(1,4) by (auto simp: u unlisted_def)
qed

lemma close_all:
  assumes "delivery_inv (set (dl_calls s)) s" "\<forall>a\<in>set as. \<exists>f. consumer_faces s a = Some f \<and> \<not> fc_destroyed f" "distinct as"
  shows "delivery_inv (set (dl_calls (fold close_consumer as s))) (fold close_consumer as s) \<and>
    dl_calls (fold close_consumer as s) =
      dl_calls s @ map (\<lambda>a. Qu_Cancel (consumer_queue s a) a False True) (filter (\<lambda>a. consumer_queue s a \<notin> dl_dying s) as) \<and>
    (\<forall>b. b \<notin> set as \<longrightarrow> consumer_faces (fold close_consumer as s) b = consumer_faces s b) \<and>
    (\<forall>r xs. rosters (fold close_consumer as s) r = Some xs \<longrightarrow> (\<exists>bs. rosters s r = Some bs \<and> set xs \<subseteq> set bs)) \<and>
    (\<forall>a\<in>set as. consumer_queue s a \<in> dl_dying s \<longrightarrow>
      (\<exists>g. consumer_faces (fold close_consumer as s) a = Some g \<and> fc_destroyed g) \<and>
      (\<forall>r xs. rosters (fold close_consumer as s) r = Some xs \<longrightarrow> a \<notin> set xs))"
  using assms
proof (induction as arbitrary: s)
  case (Cons a as)
  let ?u = "close_consumer a s"
  from Cons.prems(2) obtain f where f: "consumer_faces s a = Some f" "\<not> fc_destroyed f" by auto
  note step = close_step [OF Cons.prems(1) f]
  have same: "consumer_faces ?u b = consumer_faces s b" "consumer_queue ?u b = consumer_queue s b" if "b \<in> set as" for b
  proof -
    have "b \<noteq> a" using Cons.prems(3) that by auto
    then show "consumer_faces ?u b = consumer_faces s b" by (rule step(4))
    then show "consumer_queue ?u b = consumer_queue s b" by (rule queue_face_cong)
  qed
  have "\<forall>b\<in>set as. \<exists>f. consumer_faces ?u b = Some f \<and> \<not> fc_destroyed f" using same Cons.prems(2) by simp
  note IH = Cons.IH [OF step(1) this, unfolded step(2)] 
  have "distinct as" using Cons.prems(3) by simp
  note IH = IH [OF this]
  have sel: "filter (\<lambda>b. consumer_queue ?u b \<notin> dl_dying s) as = filter (\<lambda>b. consumer_queue s b \<notin> dl_dying s) as"
    using same(2) by (auto intro: filter_cong)
  have cs: "map (\<lambda>b. Qu_Cancel (consumer_queue ?u b) b False True) (filter (\<lambda>b. consumer_queue s b \<notin> dl_dying s) as) =
      map (\<lambda>b. Qu_Cancel (consumer_queue s b) b False True) (filter (\<lambda>b. consumer_queue s b \<notin> dl_dying s) as)"
    using same(2) by auto
  let ?t = "fold close_consumer as ?u"
  have 1: "delivery_inv (set (dl_calls ?t)) ?t" using IH by blast
  have 2: "dl_calls ?t = dl_calls s @ map (\<lambda>b. Qu_Cancel (consumer_queue s b) b False True)
      (filter (\<lambda>b. consumer_queue s b \<notin> dl_dying s) (a # as))"
    using conjunct1 [OF conjunct2 [OF IH]] step(3) unfolding sel cs by simp
  have 3: "\<forall>b. b \<notin> set (a # as) \<longrightarrow> consumer_faces ?t b = consumer_faces s b" using IH step(4) by simp
  have 4: "\<forall>r xs. rosters ?t r = Some xs \<longrightarrow> (\<exists>bs. rosters s r = Some bs \<and> set xs \<subseteq> set bs)"
    using IH step(5) by (meson subset_trans)
  have 5: "(\<exists>g. consumer_faces ?t a = Some g \<and> fc_destroyed g) \<and> (\<forall>r xs. rosters ?t r = Some xs \<longrightarrow> a \<notin> set xs)"
    if dying: "consumer_queue s a \<in> dl_dying s"
  proof -
    have "consumer_faces ?t a = consumer_faces ?u a" using IH Cons.prems(3) by simp
    moreover have "a \<notin> set xs" if "rosters ?t r = Some xs" for r xs
      using IH that step(6) [OF dying] by (meson subsetD)
    ultimately show ?thesis using step(6) [OF dying] by simp
  qed
  have 6: "\<forall>b\<in>set as. consumer_queue s b \<in> dl_dying s \<longrightarrow>
      (\<exists>g. consumer_faces ?t b = Some g \<and> fc_destroyed g) \<and> (\<forall>r xs. rosters ?t r = Some xs \<longrightarrow> b \<notin> set xs)"
    using IH same(2) by simp
  have "fold close_consumer (a # as) s = ?t" by simp
  with 1 2 3 4 5 6 show ?case by simp
qed simp

lemma channel_list_alive:
  assumes "delivery_inv P s"
  shows "\<forall>a\<in>set (dl_lists s ch). \<exists>f. consumer_faces s a = Some f \<and> \<not> fc_destroyed f" and "distinct (dl_lists s ch)"
  using okD(4,7) [OF assms [unfolded delivery_inv_def]] assms by (blast, simp add: delivery_inv_def delivery_ok_def)

lemma channel_destroy_frame:
  "consumer_faces (amq_server_channel_destroy ch s) = consumer_faces (fold close_consumer (dl_lists s ch) s)"
  "rosters (amq_server_channel_destroy ch s) = rosters (fold close_consumer (dl_lists s ch) s)"
  "dl_calls (amq_server_channel_destroy ch s) = dl_calls (fold close_consumer (dl_lists s ch) s)"
  "delivery_inv P (amq_server_channel_destroy ch s) = delivery_inv P (fold close_consumer (dl_lists s ch) s)"
  by (simp_all add: amq_server_channel_destroy_def Let_def delivery_inv_def consumer_faces_def [abs_def] rosters_def [abs_def])

lemma inv_channel_destroy:
  assumes "delivery_inv (set (dl_calls s)) s"
  shows "delivery_inv (set (dl_calls (amq_server_channel_destroy ch s))) (amq_server_channel_destroy ch s)"
  unfolding channel_destroy_frame by (rule conjunct1 [OF close_all [OF assms channel_list_alive [OF assms, of ch]]])

lemma inv_queue_consume:
  assumes inv: "delivery_inv (insert (Qu_Consume q a active nowait) (set (dl_calls s))) s"
    and run: "with_consumer a (\<lambda>c. on_queue q (\<lambda>queue. Inr (amq_queue_consume c active nowait queue))) s = Inr s'"
  shows "delivery_inv (set (dl_calls s')) s'"
proof -
  have fewer: "delivery_inv (set (dl_calls s)) s" using inv_drop [OF inv] by simp
  obtain f where f: "consumer_faces s a = Some f" "fc_queue f = q" using okD(9) [OF inv [unfolded delivery_inv_def]] by blast
  then obtain co where co: "dl_consumers s a = Some co" "f = face_of co" by (auto simp: consumer_faces_def)
  have "fc_addr f = a" by (rule okD(6) [OF inv [unfolded delivery_inv_def] f(1)])
  with co f have own: "belongs s q (mark (co_consumer co))" by (auto simp: belongs_def face_of_def)
  show ?thesis
  proof (cases "dl_queues s q")
    case None
    with run co fewer show ?thesis by (simp add: with_consumer_def on_queue_def)
  next
    case (Some queue)
    let ?q = "amq_queue_consume (co_consumer co) active nowait (delivery_view s queue)"
    have s': "s' = delivery_store q ?q s" using run co Some by (simp add: with_consumer_def on_queue_def)
    have "distinct (map cs_addr (q_consumer_list ?q))" "\<forall>m\<in>listed ?q. belongs s q m"
      using roster_consume [of "delivery_view s queue" "co_consumer co" active nowait]
        view_list(1,2) [OF fewer Some] own by blast+
    from store_inv(1,2) [OF fewer this] show ?thesis unfolding s' by (rule inv_more)
  qed
qed

lemma inv_queue_cancel:
  assumes inv: "delivery_inv (insert (Qu_Cancel q a notify nowait) (set (dl_calls s))) s"
    and run: "with_consumer a (\<lambda>c. on_queue q (amq_queue_cancel c notify nowait)) s = Inr t"
  shows "delivery_inv (set (dl_calls (amq_consumer_destroy a t))) (amq_consumer_destroy a t)"
proof -
  have t: "delivery_inv (insert (Qu_Cancel q a notify nowait) (set (dl_calls s))) t \<and> more_calls s t"
  proof (cases "dl_consumers s a")
    case None
    with run inv show ?thesis by (simp add: with_consumer_def more_calls_refl)
  next
    case (Some co)
    with run have "on_queue q (amq_queue_cancel (co_consumer co) notify nowait) s = Inr t" by (simp add: with_consumer_def)
    from on_queue_inv [OF inv this] roster_cancel show ?thesis by blast
  qed
  have more: "delivery_inv (insert (Qu_Cancel q a notify nowait) (set (dl_calls t))) t"
    by (rule inv_harmless [OF conjunct1 [OF t]]) (use t in \<open>auto simp: more_calls_def list_all_iff\<close>)
  show ?thesis unfolding destroy_calls by (rule inv_destroy [OF more]) auto
qed

lemma inv_queue_ack:
  assumes inv: "delivery_inv (set (dl_calls s)) s"
    and run: "with_consumer a (\<lambda>c s. on_queue q (amq_queue_consumer_ack c) (put_consumer a (snd \<circ> amq_consumer_content_release) s)) s = Inr s'"
  shows "delivery_inv (set (dl_calls s')) s'"
proof (cases "dl_consumers s a")
  case None
  with run inv show ?thesis by (simp add: with_consumer_def)
next
  case (Some co)
  let ?t = "put_consumer a (snd \<circ> amq_consumer_content_release) s"
  have out: "same_outline s ?t" by (rule outline_put) simp
  note t = outline_inv [OF inv out]
  have addr: "cs_addr (co_consumer co) = a"
    using okD(6) [OF inv [unfolded delivery_inv_def], of a "face_of co"] Some by (simp add: consumer_faces_def face_of_def mark_def)
  have "keeps_roster (delivery_view ?t queue) queue'"
    if queue: "dl_queues ?t q = Some queue" and ack: "amq_queue_consumer_ack (co_consumer co) (delivery_view ?t queue) = Inr queue'"
    for queue queue'
  proof (rule roster_ack [OF _ ack], intro ballI impI)
    fix d
    assume d: "d \<in> set (q_consumer_list (delivery_view ?t queue))" "cs_addr d = cs_addr (co_consumer co)"
    from view_list(3) [OF t queue d(1)] obtain co' where "dl_consumers ?t (cs_addr d) = Some co'" "d = co_consumer co'" by blast
    with d(2) addr Some show "mark d = mark (co_consumer co)" by (auto simp: put_consumer_def)
  qed
  from on_queue_inv [OF t _ this] run Some have "delivery_inv (set (dl_calls ?t)) s'" "more_calls ?t s'"
    by (auto simp: with_consumer_def)
  then show ?thesis by (rule inv_more)
qed

lemma delivery_exec_inv:
  assumes inv: "delivery_inv (insert c (set (dl_calls s))) s" and new: "dl_consumers s new = None"
    and run: "delivery_exec new c s = Inr s'"
  shows "delivery_inv (set (dl_calls s')) s'"
proof -
  have rest: "delivery_inv (set (dl_calls s)) s" if "\<And>q a n w. c \<noteq> Qu_Cancel q a n w" using inv_drop [OF inv that] .
  have queue: "delivery_inv (set (dl_calls s')) s'"
    if "on_queue q f s = Inr s'" "\<And>q a n w. c \<noteq> Qu_Cancel q a n w" "\<And>q q'. f q = Inr q' \<Longrightarrow> keeps_roster q q'" for q f
    using on_queue_inv [OF rest [OF that(2)] that(1)] that(3) inv_more by blast
  show ?thesis
  proof (cases c)
    case (Ch_Flow ch active)
    with run rest show ?thesis using outline_inv [OF _ outline_flow] by (auto simp: delivery_exec_def)
  next
    case (Ch_Consume ch q m)
    with run rest new show ?thesis using inv_consume by (auto simp: delivery_exec_def)
  next
    case (Ch_Ack ch)
    with run rest show ?thesis using outline_inv [OF _ outline_ack] by (auto simp: delivery_exec_def)
  next
    case (Ch_Cancel ch tag sync nowait)
    with run rest show ?thesis using inv_cancel by (auto simp: delivery_exec_def)
  next
    case (Ch_Destroy ch)
    with run rest show ?thesis using inv_channel_destroy by (auto simp: delivery_exec_def)
  next
    case (Qu_Consume q a active nowait)
    with run inv inv_queue_consume show ?thesis by (simp add: delivery_exec_def)
  next
    case (Qu_Cancel q a notify nowait)
    with run inv inv_queue_cancel show ?thesis by (auto simp: delivery_exec_def c_bind_Inr_iff)
  next
    case (Qu_Ack q a)
    with run rest inv_queue_ack show ?thesis by (simp add: delivery_exec_def)
  next
    case (Qu_Dispatch q)
    with run have "on_queue q amq_queue_dispatch s = Inr s'" by (simp add: delivery_exec_def)
    then show ?thesis by (rule queue) (use Qu_Dispatch in \<open>auto simp: amq_queue_dispatch_def roster_dispatch\<close>)
  next
    case (Qu_Publish q ch content immediate)
    with run have "on_queue q (amq_queue_publish ch content immediate) s = Inr s'" by (simp add: delivery_exec_def)
    then show ?thesis by (rule queue) (use Qu_Publish in \<open>auto simp: roster_publish\<close>)
  next
    case (Qu_Self_Destruct q)
    with run obtain t where t: "on_queue q (\<lambda>queue. Inr (amq_queue_self_destruct queue)) s = Inr t"
      "s' = fold amq_consumer_destroy (listed_consumers q s) t" by (auto simp: delivery_exec_def c_bind_Inr_iff)
    have "keeps_roster r r'" if "Inr (amq_queue_self_destruct r) = Inr r'" for r r'
      using that list_updates(6) [of r] by (auto simp: keeps_roster_def listed_def)
    with on_queue_inv [OF rest t(1)] Qu_Self_Destruct have "delivery_inv (set (dl_calls s)) t" "more_calls s t" by auto
    with t(2) fold_destroy inv_more show ?thesis by metis
  next
    case (Qu_Auto_Delete q)
    with run have "on_queue q (\<lambda>queue. Inr (amq_queue_auto_delete queue)) s = Inr s'" by (simp add: delivery_exec_def)
    then show ?thesis by (rule queue) (use Qu_Auto_Delete in \<open>auto simp: roster_same list_updates\<close>)
  next
    case (Qu_Destroy q)
    with run obtain t where t: "on_queue q (\<lambda>queue. Inr (amq_queue_basic_destroy queue)) s = Inr t"
      "s' = fold amq_consumer_destroy (listed_consumers q s) t" by (auto simp: delivery_exec_def c_bind_Inr_iff)
    have "keeps_roster r r'" if "Inr (amq_queue_basic_destroy r) = Inr r'" for r r'
      using that by (auto simp: keeps_roster_def listed_def amq_queue_basic_destroy_def amq_queue_basic_stop_def)
    with on_queue_inv [OF rest t(1)] Qu_Destroy have "delivery_inv (set (dl_calls s)) t" "more_calls s t" by auto
    with t(2) fold_destroy inv_more show ?thesis by metis
  qed
qed

lemma delivery_step_inv:
  assumes "delivery_inv (set (dl_calls s)) s" "dl_consumers s new = None" "delivery_step new i s = Inr s'"
  shows "delivery_inv (set (dl_calls s')) s'"
proof (cases "may_run i (dl_calls s)")
  case True
  let ?rest = "take i (dl_calls s) @ drop (Suc i) (dl_calls s)"
  have "dl_calls s = take i (dl_calls s) @ dl_calls s ! i # drop (Suc i) (dl_calls s)"
    using True by (simp add: may_run_def id_take_nth_drop)
  then have "set (dl_calls s) = insert (dl_calls s ! i) (set ?rest)" by (metis Un_insert_right list.simps(15) set_append)
  then have "delivery_inv (insert (dl_calls s ! i) (set (dl_calls (s\<lparr>dl_calls := ?rest\<rparr>)))) (s\<lparr>dl_calls := ?rest\<rparr>)"
    using assms(1) by simp
  from delivery_exec_inv [OF this] assms(2,3) True show ?thesis by (simp add: delivery_step_def)
qed (use assms in \<open>simp add: delivery_step_def\<close>)

lemma outside_harmless: "from_outside c \<Longrightarrow> harmless c"
  by (cases c) simp_all

lemma delivery_reach_inv:
  assumes "delivery_reach s"
  shows "delivery_inv (set (dl_calls s)) s"
  using assms
proof induction
  case (start s)
  then have f: "consumer_faces s = Map.empty" and r: "rosters s q = Some as \<Longrightarrow> as = []" for q as
    by (auto simp: delivery_start_def consumer_faces_def rosters_def ran_def)
  show ?case using start f by (auto simp: delivery_start_def delivery_inv_def delivery_ok_def dest: r)
next
  case (call s c)
  with outline_inv [OF _ outline_mail [of "[c]"]] show ?case using outside_harmless by simp
next
  case (earn s ch)
  with outline_inv [OF _ outline_earn] show ?case by blast
next
  case (open_channel s ch c)
  with outline_inv [OF _ outline_events(2)] show ?case by blast
next
  case (connections s cns)
  with outline_inv [OF _ outline_events(3)] show ?case by blast
next
  case (new_queue s q queue)
  have "rosters (s\<lparr>dl_queues := (dl_queues s)(q \<mapsto> queue)\<rparr>) = (rosters s)(q \<mapsto> [])"
    using new_queue by (simp add: rosters_def fun_eq_iff)
  with ok_roster [OF new_queue.IH [unfolded delivery_inv_def], of "[]" q] show ?case
    by (simp add: delivery_inv_def consumer_faces_def [abs_def])
next
  case (destroy_queue s q)
  show ?case
  proof (cases "q \<in> dl_dying s")
    case False
    let ?s = "s\<lparr>dl_dying := insert q (dl_dying s)\<rparr>"
    have "delivery_ok (insert q (dl_dying s)) (set (dl_calls s)) (consumer_faces s) (dl_tables s) (dl_lists s) (rosters s)"
      by (rule ok_dying [OF destroy_queue.IH [unfolded delivery_inv_def]]) blast
    then have "delivery_inv (set (dl_calls s)) ?s"
      by (simp add: delivery_inv_def consumer_faces_def [abs_def] rosters_def [abs_def])
    then have "delivery_inv (insert (Qu_Destroy q) (set (dl_calls s))) ?s" by (rule inv_harmless) auto
    with False show ?thesis by (simp add: amq_queue_destroy_def delivery_inv_def consumer_faces_def [abs_def] rosters_def [abs_def])
  qed (use destroy_queue in \<open>simp add: amq_queue_destroy_def\<close>)
next
  case (object_step s new i s')
  with delivery_step_inv show ?case by blast
qed

section \<open>Properties\<close>

definition consumers_agree :: "delivery_state \<Rightarrow> bool" where
  "consumers_agree s \<longleftrightarrow>
     (\<forall>cn tag a. dl_tables s cn tag = Some a \<longleftrightarrow>
        (\<exists>co. dl_consumers s a = Some co \<and> \<not> co_destroyed co \<and> co_connection co = cn \<and> cs_tag (co_consumer co) = tag)) \<and>
     (\<forall>ch. distinct (dl_lists s ch)) \<and>
     (\<forall>ch a. a \<in> set (dl_lists s ch) \<longleftrightarrow>
        (\<exists>co. dl_consumers s a = Some co \<and> cs_by_channel (co_consumer co) \<and> cs_channel (co_consumer co) = Some ch)) \<and>
     (\<forall>q queue. dl_queues s q = Some queue \<longrightarrow> distinct (map cs_addr (q_consumer_list queue)) \<and>
        (\<forall>c\<in>set (q_consumer_list queue). \<exists>co. dl_consumers s (cs_addr c) = Some co \<and> co_queue co = q)) \<and>
     (\<forall>a co. dl_consumers s a = Some co \<longrightarrow> \<not> co_destroyed co \<longrightarrow> \<not> cs_by_channel (co_consumer co) \<longrightarrow>
        co_queue co \<in> dl_dying s \<or> (\<exists>n w. Qu_Cancel (co_queue co) a n w \<in> set (dl_calls s)))"

lemma inv_agree:
  assumes "delivery_inv (set (dl_calls s)) s"
  shows "consumers_agree s"
proof -
  note ok = okD [OF assms [unfolded delivery_inv_def]]
  have face: "(\<exists>f. consumer_faces s a = Some f \<and> p f) \<longleftrightarrow> (\<exists>co. dl_consumers s a = Some co \<and> p (face_of co))" for a p
    by (auto simp: consumer_faces_def)
  have sel: "fc_destroyed (face_of co) = co_destroyed co" "fc_connection (face_of co) = co_connection co"
    "fc_queue (face_of co) = co_queue co" "fc_mark (face_of co) = mark (co_consumer co)" for co
    by (simp_all add: face_of_def)
  have "\<exists>co. dl_consumers s (cs_addr c) = Some co \<and> co_queue co = q"
    if "dl_queues s q = Some queue" "c \<in> set (q_consumer_list queue)" for q queue c
    using ok(1) [of q "map cs_addr (q_consumer_list queue)" "cs_addr c"] that unfolding face sel by (simp add: rosters_def)
  moreover have "distinct (map cs_addr (q_consumer_list queue))" if "dl_queues s q = Some queue" for q queue
    using ok(5) [of q] that by (simp add: rosters_def)
  moreover have "co_queue co \<in> dl_dying s \<or> (\<exists>n w. Qu_Cancel (co_queue co) a n w \<in> set (dl_calls s))"
    if "dl_consumers s a = Some co" "\<not> co_destroyed co" "\<not> cs_by_channel (co_consumer co)" for a co
    using ok(2) [of a "face_of co"] that by (simp add: consumer_faces_def sel mark_def)
  moreover have "distinct (dl_lists s ch)" for ch
    using assms by (simp add: delivery_inv_def delivery_ok_def)
  ultimately show ?thesis
    using ok(3,4) unfolding consumers_agree_def face sel by (simp add: mark_def)
qed

text \<open>
  C9. However channels and queues get to their work, and whatever clients call, the table of a connection
  has exactly the connection's living consumers under their tags, the list of a channel has each of the
  consumers the channel has not taken off it once, a queue has only consumers made for it, each once, and a
  living consumer that its channel has taken off is about to be cancelled by its queue, unless the queue has
  been destroyed: then the call can have failed, and the consumer is left dangling.
\<close>

theorem consumers_consistent:
  "delivery_reach s \<Longrightarrow> consumers_agree s"
  by (rule inv_agree [OF delivery_reach_inv])

text \<open>The first calls, in the order they were made.\<close>

fun run_delivery :: "nat \<Rightarrow> delivery_state \<Rightarrow> delivery_state c_result" where
  "run_delivery 0 s = Inr s"
| "run_delivery (Suc n) s = c_bind (delivery_step 0 0 s) (run_delivery n)"

lemma first_step: "dl_calls s = c # cs \<Longrightarrow> delivery_step new 0 s = delivery_exec new c (s\<lparr>dl_calls := cs\<rparr>)"
  by (simp add: delivery_step_def may_run_def)

lemma cancel_returns:
  assumes "\<not> cs_by_channel c"
  shows "\<exists>q'. amq_queue_cancel c notify nowait q = Inr q'"
proof -
  have "\<exists>q'. amq_queue_basic_cancel c q = Inr q'" for q
  proof (cases "cs_pending_content c")
    case (Some content)
    obtain r where "amq_queue_basic_dispatch (q\<lparr>q_content_list := content # q_content_list q\<rparr>) = Inr r"
      by (cases rule: dispatch_cases [of "q\<lparr>q_content_list := content # q_content_list q\<rparr>"]) blast+
    with assms Some show ?thesis by (simp add: amq_queue_basic_cancel_def)
  qed (use assms in \<open>simp add: amq_queue_basic_cancel_def\<close>)
  then show ?thesis by (simp add: amq_queue_cancel_def Let_def c_bind_def split: sum.splits) (metis Inr_not_Inl)
qed

text \<open>A cancellation by a queue: the consumer is destroyed and off every list, the others stay as they are.\<close>

lemma exec_cancel:
  assumes inv: "delivery_inv (insert (Qu_Cancel q a notify nowait) (set (dl_calls s))) s"
  shows "\<exists>t. delivery_exec 0 (Qu_Cancel q a notify nowait) s = Inr t \<and> more_calls s t \<and>
    delivery_inv (set (dl_calls t)) t \<and> (\<exists>f. consumer_faces t a = Some f \<and> fc_destroyed f) \<and>
    (\<forall>b. b \<noteq> a \<longrightarrow> consumer_faces t b = consumer_faces s b) \<and>
    (\<forall>r as. rosters t r = Some as \<longrightarrow> a \<notin> set as \<and> (\<exists>bs. rosters s r = Some bs \<and> set as \<subseteq> set bs)) \<and>
    dl_tables t = (case consumer_faces s a of None \<Rightarrow> dl_tables s | Some f \<Rightarrow>
      if fc_destroyed f then dl_tables s else (dl_tables s)(fc_connection f := (dl_tables s (fc_connection f))(fc_tag f := None))) \<and>
    (\<exists>es. dl_events t = dl_events s @ es)"
proof -
  note ok = okD [OF inv [unfolded delivery_inv_def]]
  obtain f where f: "consumer_faces s a = Some f" "fc_queue f = q" "\<not> fc_by_channel f" using ok(8) by blast
  then obtain co where co: "dl_consumers s a = Some co" "f = face_of co" by (auto simp: consumer_faces_def)
  have addr: "cs_addr (co_consumer co) = a" using ok(6) [OF f(1)] co(2) by (simp add: face_of_def mark_def)
  have only: "r = q" if "rosters s r = Some as" "a \<in> set as" for r as using ok(1) [OF that] f(1,2) by auto
  obtain t where t: "on_queue q (amq_queue_cancel (co_consumer co) notify nowait) s = Inr t" "dl_tables t = dl_tables s" "\<exists>es. dl_events t = dl_events s @ es"
    "\<forall>r as. rosters t r = Some as \<longrightarrow> a \<notin> set as \<and> (\<exists>bs. rosters s r = Some bs \<and> set as \<subseteq> set bs)"
  proof (cases "dl_queues s q")
    case None
    then have "rosters s q = None" by (simp add: rosters_def)
    with None that [of s] only show thesis by (fastforce simp: on_queue_def)
  next
    case (Some queue)
    have "\<not> cs_by_channel (co_consumer co)" using f(3) co(2) by (simp add: face_of_def mark_def)
    from cancel_returns [OF this] obtain queue' where q': "amq_queue_cancel (co_consumer co) notify nowait (delivery_view s queue) = Inr queue'"
      by blast
    note r = roster_cancel [OF q'] view_list [OF inv Some]
    have dist: "distinct (map cs_addr (q_consumer_list queue'))" and sub: "listed queue' \<subseteq> listed (delivery_view s queue)"
      using r(1,2) by (simp_all add: keeps_roster_def)
    have "cs_addr ` set (q_consumer_list queue') \<subseteq> cs_addr ` set (q_consumer_list (delivery_view s queue))"
      using image_mono [OF sub, of fst] by (simp add: listed_def image_image mark_def)
    also have "\<dots> = set (map cs_addr (q_consumer_list queue))" using r(5) by (metis list.set_map)
    finally have fewer: "cs_addr ` set (q_consumer_list queue') \<subseteq> set (map cs_addr (q_consumer_list queue))" .
    have st: "rosters (delivery_store q queue' s) = (rosters s)(q \<mapsto> map cs_addr (q_consumer_list queue'))"
      using store_inv(4) [OF inv dist] sub r(3) by blast
    show thesis
    proof (rule that [of "delivery_store q queue' s"])
      show "on_queue q (amq_queue_cancel (co_consumer co) notify nowait) s = Inr (delivery_store q queue' s)"
        using Some q' by (simp add: on_queue_def)
      show "dl_tables (delivery_store q queue' s) = dl_tables s" "\<exists>es. dl_events (delivery_store q queue' s) = dl_events s @ es"
        by (simp_all add: delivery_store_def)
      have rs: "rosters s q = Some (map cs_addr (q_consumer_list queue))" using Some by (simp add: rosters_def)
      show "\<forall>r as. rosters (delivery_store q queue' s) r = Some as \<longrightarrow>
          a \<notin> set as \<and> (\<exists>bs. rosters s r = Some bs \<and> set as \<subseteq> set bs)"
        using rs fewer r(1) addr only by (auto simp: st split: if_splits)
    qed
  qed
  from on_queue_inv [OF inv t(1)] roster_cancel have keep: "more_calls s t" "consumer_faces t = consumer_faces s" by blast+
  let ?t = "amq_consumer_destroy a t"
  have run: "delivery_exec 0 (Qu_Cancel q a notify nowait) s = Inr ?t"
    using co(1) t(1) by (simp add: delivery_exec_def with_consumer_def)
  have w: "with_consumer a (\<lambda>c. on_queue q (amq_queue_cancel c notify nowait)) s = Inr t"
    using co(1) t(1) by (simp add: with_consumer_def)
  have "consumer_faces ?t = (if fc_destroyed f then consumer_faces s else (consumer_faces s)(a \<mapsto> buried f)) \<and>
      rosters ?t = (if fc_destroyed f then rosters t else unlisted a (rosters t)) \<and>
      dl_tables ?t = (if fc_destroyed f then dl_tables s else (dl_tables s)(fc_connection f := (dl_tables s (fc_connection f))(fc_tag f := None)))"
  proof (cases "fc_destroyed f")
    case True
    then have "?t = t" using f(1) keep(2) by (intro destroy_nothing) simp
    with True keep t(2) show ?thesis by simp
  next
    case False
    with faces_destroy [of t a f] f(1) ok(6) [OF f(1)] keep(2) t(2) show ?thesis by simp
  qed
  moreover from this t(4) have "\<forall>r as. rosters ?t r = Some as \<longrightarrow> a \<notin> set as \<and> (\<exists>bs. rosters s r = Some bs \<and> set as \<subseteq> set bs)"
    by (fastforce simp: unlisted_def split: if_splits)
  ultimately show ?thesis
    using run inv_queue_cancel [OF inv w] f(1) keep(1) t(3)
    by (intro exI [of _ ?t]) (auto simp: more_calls_def)
qed

lemma run_cancels:
  assumes "dl_calls s = map (\<lambda>a. Qu_Cancel (g a) a n w) as @ rest" and "delivery_inv (set (dl_calls s)) s"
  shows "\<exists>t. run_delivery (length as) s = Inr t \<and> delivery_inv (set (dl_calls t)) t \<and>
    (\<forall>a\<in>set as. \<exists>f. consumer_faces t a = Some f \<and> fc_destroyed f) \<and> (\<forall>b. b \<notin> set as \<longrightarrow> consumer_faces t b = consumer_faces s b) \<and>
    (\<forall>r xs. rosters t r = Some xs \<longrightarrow> set xs \<inter> set as = {} \<and> (\<exists>bs. rosters s r = Some bs \<and> set xs \<subseteq> set bs))"
  using assms
proof (induction as arbitrary: s rest)
  case (Cons a as)
  let ?c = "Qu_Cancel (g a) a n w" and ?cs = "map (\<lambda>a. Qu_Cancel (g a) a n w) as @ rest"
  let ?s = "s\<lparr>dl_calls := ?cs\<rparr>"
  have same: "consumer_faces ?s = consumer_faces s" "rosters ?s = rosters s" by (simp_all add: consumer_faces_def [abs_def] rosters_def [abs_def])
  have "delivery_inv (insert ?c (set (dl_calls ?s))) ?s" using Cons.prems by simp
  from exec_cancel [OF this] obtain t where t: "delivery_exec 0 ?c ?s = Inr t" "more_calls ?s t" "delivery_inv (set (dl_calls t)) t"
    "\<exists>f. consumer_faces t a = Some f \<and> fc_destroyed f" "\<forall>b. b \<noteq> a \<longrightarrow> consumer_faces t b = consumer_faces s b"
    "\<forall>r xs. rosters t r = Some xs \<longrightarrow> a \<notin> set xs \<and> (\<exists>bs. rosters s r = Some bs \<and> set xs \<subseteq> set bs)"
    unfolding same by blast
  have step: "delivery_step 0 0 s = Inr t" using first_step [of s ?c ?cs 0] Cons.prems(1) t(1) by simp
  obtain more where "dl_calls t = map (\<lambda>a. Qu_Cancel (g a) a n w) as @ (rest @ more)" using t(2) by (auto simp: more_calls_def)
  from Cons.IH [OF this t(3)] obtain u where u: "run_delivery (length as) t = Inr u" "delivery_inv (set (dl_calls u)) u"
    "\<forall>a\<in>set as. \<exists>f. consumer_faces u a = Some f \<and> fc_destroyed f" "\<forall>b. b \<notin> set as \<longrightarrow> consumer_faces u b = consumer_faces t b"
    "\<forall>r xs. rosters u r = Some xs \<longrightarrow> set xs \<inter> set as = {} \<and> (\<exists>bs. rosters t r = Some bs \<and> set xs \<subseteq> set bs)" by blast
  have "\<exists>f. consumer_faces u b = Some f \<and> fc_destroyed f" if "b \<in> set (a # as)" for b
    using that u(3,4) t(4) by (cases "b \<in> set as") auto
  moreover have "consumer_faces u b = consumer_faces s b" if "b \<notin> set (a # as)" for b using that u(4) t(5) by simp
  moreover have "set xs \<inter> set (a # as) = {} \<and> (\<exists>bs. rosters s r = Some bs \<and> set xs \<subseteq> set bs)"
    if xs: "rosters u r = Some xs" for r xs
  proof -
    from u(5) xs obtain bs where bs: "set xs \<inter> set as = {}" "rosters t r = Some bs" "set xs \<subseteq> set bs" by blast
    moreover from t(6) bs(2) obtain ds where "a \<notin> set bs" "rosters s r = Some ds" "set bs \<subseteq> set ds" by blast
    ultimately show ?thesis by auto
  qed
  ultimately show ?case using step u(1,2) by simp
qed (simp add: more_calls_refl)

lemma roster_queue: "dl_queues s q = Some queue \<Longrightarrow> rosters s q = Some (map cs_addr (q_consumer_list queue))"
  by (simp add: rosters_def)

text \<open>The first call of a closed channel.\<close>

lemma close_starts:
  assumes "delivery_inv (set (dl_calls s)) s" and "dl_calls s = []"
  shows "delivery_step 0 0 (mail [Ch_Destroy ch] s) = Inr (amq_server_channel_destroy ch s)"
    and "dl_calls (amq_server_channel_destroy ch s) = map (\<lambda>a. Qu_Cancel (consumer_queue s a) a False True)
      (filter (\<lambda>a. consumer_queue s a \<notin> dl_dying s) (dl_lists s ch)) @ []"
    and "b \<notin> set (dl_lists s ch) \<Longrightarrow> consumer_faces (amq_server_channel_destroy ch s) b = consumer_faces s b"
    and "a \<in> set (dl_lists s ch) \<Longrightarrow> consumer_queue s a \<in> dl_dying s \<Longrightarrow>
      (\<exists>g. consumer_faces (amq_server_channel_destroy ch s) a = Some g \<and> fc_destroyed g) \<and>
      (\<forall>r xs. rosters (amq_server_channel_destroy ch s) r = Some xs \<longrightarrow> a \<notin> set xs)"
proof -
  have clean: "(mail [Ch_Destroy ch] s)\<lparr>dl_calls := []\<rparr> = s" using assms(2) by (cases s) (simp add: mail_def)
  have "dl_calls (mail [Ch_Destroy ch] s) = [Ch_Destroy ch]" using assms(2) by (simp add: mail_def call_fails_def)
  from first_step [OF this, of 0] show "delivery_step 0 0 (mail [Ch_Destroy ch] s) = Inr (amq_server_channel_destroy ch s)"
    unfolding clean by (simp add: delivery_exec_def)
  note all = close_all [OF assms(1) channel_list_alive [OF assms(1), of ch]]
  show "dl_calls (amq_server_channel_destroy ch s) = map (\<lambda>a. Qu_Cancel (consumer_queue s a) a False True)
      (filter (\<lambda>a. consumer_queue s a \<notin> dl_dying s) (dl_lists s ch)) @ []"
    using conjunct1 [OF conjunct2 [OF all]] assms(2) by (simp add: channel_destroy_frame)
  show "b \<notin> set (dl_lists s ch) \<Longrightarrow> consumer_faces (amq_server_channel_destroy ch s) b = consumer_faces s b"
    using all by (simp add: channel_destroy_frame)
  show "(\<exists>g. consumer_faces (amq_server_channel_destroy ch s) a = Some g \<and> fc_destroyed g) \<and>
      (\<forall>r xs. rosters (amq_server_channel_destroy ch s) r = Some xs \<longrightarrow> a \<notin> set xs)"
    if "a \<in> set (dl_lists s ch)" "consumer_queue s a \<in> dl_dying s"
    using all that by (simp add: channel_destroy_frame)
qed

text \<open>
  C14. When a channel is closed while nothing else is under way, the channel and the queues have done
  the work after one call for the channel and one for each of its consumers whose queue has not been
  destroyed: the consumers of the channel are destroyed, no queue lists them, their tags are free, and no
  consumer has the channel any more, except those left dangling before because their queue had been
  destroyed.  Every other consumer keeps its queue, connection, tag and channel and its place on the
  channel's list; the contents that the cancelled ones held may have gone to it.
\<close>

theorem channel_close_detaches:
  assumes "delivery_reach s" and "dl_calls s = []"
  shows "\<exists>t. run_delivery (Suc (length (filter (\<lambda>a. consumer_queue s a \<notin> dl_dying s) (dl_lists s ch)))) (mail [Ch_Destroy ch] s) = Inr t \<and>
    (\<forall>a\<in>set (dl_lists s ch). (\<exists>co. dl_consumers t a = Some co \<and> co_destroyed co) \<and> (\<forall>cn tag. dl_tables t cn tag \<noteq> Some a) \<and>
       (\<forall>q queue. dl_queues t q = Some queue \<longrightarrow> a \<notin> cs_addr ` set (q_consumer_list queue))) \<and>
    (\<forall>a co. dl_consumers t a = Some co \<longrightarrow> cs_channel (co_consumer co) = Some ch \<longrightarrow> co_queue co \<in> dl_dying s) \<and>
    (\<forall>a. a \<notin> set (dl_lists s ch) \<longrightarrow> consumer_faces t a = consumer_faces s a)"
proof -
  let ?as = "dl_lists s ch" and ?d = "amq_server_channel_destroy ch s"
  let ?live = "filter (\<lambda>a. consumer_queue s a \<notin> dl_dying s) ?as"
  have inv: "delivery_inv (set (dl_calls s)) s" using delivery_reach_inv assms(1) .
  note ok = okD [OF inv [unfolded delivery_inv_def]]
  note starts = close_starts [OF inv assms(2)]
  from run_cancels [OF starts(2) inv_channel_destroy [OF inv]] obtain t where
    t: "run_delivery (length ?live) ?d = Inr t" "delivery_inv (set (dl_calls t)) t"
      "\<forall>a\<in>set ?live. \<exists>f. consumer_faces t a = Some f \<and> fc_destroyed f" "\<forall>b. b \<notin> set ?live \<longrightarrow> consumer_faces t b = consumer_faces ?d b"
      "\<forall>r xs. rosters t r = Some xs \<longrightarrow> set xs \<inter> set ?live = {} \<and> (\<exists>bs. rosters ?d r = Some bs \<and> set xs \<subseteq> set bs)" by blast
  note okt = okD [OF t(2) [unfolded delivery_inv_def]]
  have gone: "(\<exists>f. consumer_faces t a = Some f \<and> fc_destroyed f) \<and> (\<forall>r xs. rosters t r = Some xs \<longrightarrow> a \<notin> set xs)" if a: "a \<in> set ?as" for a
  proof (cases "consumer_queue s a \<in> dl_dying s")
    case True
    with t(4) have "consumer_faces t a = consumer_faces ?d a" by simp
    with starts(4) [OF a True] t(5) show ?thesis by (metis subsetD)
  next
    case False
    with a have "a \<in> set ?live" by simp
    with t(3,5) show ?thesis by blast
  qed
  have others: "consumer_faces t a = consumer_faces s a" if "a \<notin> set ?as" for a
    using t(4) starts(3) that by simp
  have "co_queue co \<in> dl_dying s" if co: "dl_consumers t a = Some co" and ch: "cs_channel (co_consumer co) = Some ch" for a co
  proof -
    have f: "consumer_faces t a = Some (face_of co)" "fc_channel (face_of co) = Some ch"
      using co ch by (simp_all add: consumer_faces_def face_of_def mark_def)
    then have alive: "\<not> fc_destroyed (face_of co)" using okt(7) by fastforce
    then have a: "a \<notin> set ?as" using gone f(1) by fastforce
    then have "consumer_faces s a = Some (face_of co)" using others f(1) by simp
    with alive f(2) ok(2,4) [of a] assms(2) a have "fc_queue (face_of co) \<in> dl_dying s" by fastforce
    then show ?thesis by (simp add: face_of_def)
  qed
  moreover have "\<exists>co. dl_consumers t a = Some co \<and> co_destroyed co" if "a \<in> set ?as" for a
    using gone [OF that] by (fastforce simp: consumer_faces_def face_of_def)
  moreover have "dl_tables t cn tag \<noteq> Some a" if "a \<in> set ?as" for a cn tag
    using okt(3) gone [OF that] by fastforce
  moreover have "a \<notin> cs_addr ` set (q_consumer_list queue)" if "a \<in> set ?as" "dl_queues t q = Some queue" for a q queue
    using gone [OF that(1)] roster_queue [OF that(2)] by fastforce
  ultimately show ?thesis using starts(1) t(1) others by simp
qed

section \<open>A channel in use\<close>

definition demo_method :: consume_method where
  "demo_method = \<lparr>cm_tag = ''t'', cm_no_local = False, cm_no_ack = False, cm_exclusive = False, cm_nowait = False\<rparr>"

definition demo_delivery :: delivery_state where
  "demo_delivery = \<lparr>dl_queues = [9 \<mapsto> queue_with [] []], dl_consumers = Map.empty, dl_tables = (\<lambda>_. Map.empty),
     dl_last_tag = (\<lambda>_. 0), dl_lists = (\<lambda>_. []),
     dl_channels = [5 \<mapsto> \<lparr>ch_number = 1, ch_active = True, ch_credit = 0, ch_connection = Some 6\<rparr>],
     dl_connections = [6 \<mapsto> \<lparr>cn_id = ''C''\<rparr>], dl_dying = {}, dl_private_credit = 10, dl_shared_credit = 10, dl_calls = [], dl_events = []\<rparr>"

definition demo_consumer :: consumer_object where
  "demo_consumer = \<lparr>co_consumer = \<lparr>cs_addr = 100, cs_tag = ''t'', cs_channel = Some 5, cs_no_local = False, cs_no_ack = False,
     cs_exclusive = False, cs_paused = False, cs_pending_content = None, cs_by_channel = True\<rparr>,
     co_connection = 6, co_queue = 9, co_destroyed = False\<rparr>"

lemma demo_attached:
  "\<exists>s queue. delivery_reach s \<and> dl_calls s = [] \<and> dl_lists s = (\<lambda>_. [])(5 := [100]) \<and> dl_consumers s = [100 \<mapsto> demo_consumer] \<and>
    dl_tables s = (\<lambda>_. Map.empty)(6 := [''t'' \<mapsto> 100]) \<and> dl_queues s 9 = Some queue \<and> q_consumer_list queue = [co_consumer demo_consumer] \<and>
    dl_channels s 5 = Some \<lparr>ch_number = 1, ch_active = True, ch_credit = 10, ch_connection = Some 6\<rparr> \<and> dl_dying s = {}"
proof -
  have r0: "delivery_reach (mail [Ch_Consume 5 9 demo_method] demo_delivery)"
    by (rule delivery_reach.call [OF delivery_reach.start])
      (simp_all add: delivery_start_def demo_delivery_def queue_with_def ran_def)
  obtain s1 where s1: "delivery_step 100 0 (mail [Ch_Consume 5 9 demo_method] demo_delivery) = Inr s1"
    "dl_calls s1 = [Qu_Consume 9 100 True False]" "dl_lists s1 = (\<lambda>_. [])(5 := [100])" "dl_consumers s1 = [100 \<mapsto> demo_consumer]"
    "dl_tables s1 = (\<lambda>_. Map.empty)(6 := [''t'' \<mapsto> 100])" "dl_queues s1 = [9 \<mapsto> queue_with [] []]"
    "dl_channels s1 = [5 \<mapsto> \<lparr>ch_number = 1, ch_active = True, ch_credit = 10, ch_connection = Some 6\<rparr>]"
    "dl_connections s1 = [6 \<mapsto> \<lparr>cn_id = ''C''\<rparr>]" "dl_dying s1 = {}"
    by (simp add: call_fails_def first_step mail_def demo_delivery_def delivery_exec_def amq_server_channel_consume_def amq_consumer_new_def
        put_consumer_def demo_method_def demo_consumer_def initial_credit_def queue_with_def Let_def)
  obtain s2 where s2: "delivery_step 101 0 s1 = Inr s2" "dl_calls s2 = [Qu_Dispatch 9]" "dl_lists s2 = (\<lambda>_. [])(5 := [100])"
    "dl_consumers s2 = [100 \<mapsto> demo_consumer]" "dl_tables s2 = (\<lambda>_. Map.empty)(6 := [''t'' \<mapsto> 100])"
    "\<exists>queue. dl_queues s2 = [9 \<mapsto> queue] \<and> q_consumer_list queue = [co_consumer demo_consumer] \<and> q_content_list queue = []"
    "dl_channels s2 = [5 \<mapsto> \<lparr>ch_number = 1, ch_active = True, ch_credit = 10, ch_connection = Some 6\<rparr>]" "dl_dying s2 = {}"
    using s1(2-) by (simp add: call_fails_def first_step [OF s1(2)] delivery_exec_def with_consumer_def on_queue_def delivery_view_def queue_with_def
        amq_queue_consume_def consume_error_def consume_attach_def amq_queue_basic_consume_def by_queue_queue_def
        channel_link_def connection_link_def channel_connection_def demo_consumer_def delivery_store_def send_def written_def
        fun_eq_iff Let_def)
  obtain queue where queue: "dl_queues s2 = [9 \<mapsto> queue]" "q_consumer_list queue = [co_consumer demo_consumer]" "q_content_list queue = []"
    using s2(6) by blast
  obtain s3 where s3: "delivery_step 102 0 s2 = Inr s3" "dl_calls s3 = []" "dl_lists s3 = (\<lambda>_. [])(5 := [100])"
    "dl_consumers s3 = [100 \<mapsto> demo_consumer]" "dl_tables s3 = (\<lambda>_. Map.empty)(6 := [''t'' \<mapsto> 100])"
    "\<exists>queue. dl_queues s3 9 = Some queue \<and> q_consumer_list queue = [co_consumer demo_consumer]"
    "dl_channels s3 5 = Some \<lparr>ch_number = 1, ch_active = True, ch_credit = 10, ch_connection = Some 6\<rparr>" "dl_dying s3 = {}"
    using s2(2-) queue by (simp add: first_step [OF s2(2)] delivery_exec_def on_queue_def delivery_view_def amq_queue_dispatch_def
        amq_queue_basic_dispatch_def refreshed_def demo_consumer_def consumer_idle_def delivery_store_def written_def fun_eq_iff)
  have "delivery_reach s1" by (rule delivery_reach.object_step [OF r0 _ s1(1)]) (simp add: mail_def demo_delivery_def)
  then have "delivery_reach s2" by (rule delivery_reach.object_step [OF _ _ s2(1)]) (simp add: s1(4))
  then have "delivery_reach s3" by (rule delivery_reach.object_step [OF _ _ s3(1)]) (simp add: s2(4))
  with s3 show ?thesis by blast
qed

theorem consumers_consistent_witness:
  "\<exists>s. delivery_reach s \<and> dl_lists s 5 = [100] \<and> dl_tables s 6 ''t'' = Some 100 \<and> consumers_agree s"
  using demo_attached consumers_consistent by fastforce

theorem channel_close_detaches_witness:
  "\<exists>s t. dl_lists s 5 = [100] \<and> dl_tables s 6 ''t'' = Some 100 \<and> run_delivery 2 (mail [Ch_Destroy 5] s) = Inr t \<and>
    dl_tables t 6 ''t'' \<noteq> Some 100 \<and> (\<forall>q queue. dl_queues t q = Some queue \<longrightarrow> 100 \<notin> cs_addr ` set (q_consumer_list queue))"
proof -
  obtain s where s: "delivery_reach s" "dl_calls s = []" "dl_lists s 5 = [100]" "dl_tables s 6 ''t'' = Some 100" "dl_dying s = {}"
    using demo_attached by fastforce
  have "Suc (length (filter (\<lambda>a. consumer_queue s a \<notin> dl_dying s) (dl_lists s 5))) = 2" using s(3,5) by simp
  with channel_close_detaches [OF s(1,2), of 5] obtain t where "run_delivery 2 (mail [Ch_Destroy 5] s) = Inr t"
    "\<forall>a\<in>set (dl_lists s 5). (\<forall>cn tag. dl_tables t cn tag \<noteq> Some a) \<and>
       (\<forall>q queue. dl_queues t q = Some queue \<longrightarrow> a \<notin> cs_addr ` set (q_consumer_list queue))" by auto
  with s(3,4) show ?thesis by auto
qed

text \<open>
  The consumer that a failed call leaves dangling lives on: nothing is under way that would destroy it, and
  its tag stays taken.
\<close>

lemma dangling_keeps_tag:
  assumes "delivery_reach s" and "dl_channels s ch = Some c" and "ch_connection c = Some cn"
    and "dl_tables s cn tag = Some a" and "consumer_queue s a \<in> dl_dying s"
  shows "\<exists>t. amq_server_channel_cancel ch tag True nowait s = Inr t \<and> dl_calls t = dl_calls s \<and>
    dl_tables t cn tag = Some a \<and> (\<forall>ch. a \<notin> set (dl_lists t ch)) \<and>
    (\<exists>co. dl_consumers t a = Some co \<and> \<not> co_destroyed co)"
proof -
  have "consumers_agree s" by (rule inv_agree [OF delivery_reach_inv [OF assms(1)]])
  then obtain co where co: "dl_consumers s a = Some co" "\<not> co_destroyed co"
    using assms(4) unfolding consumers_agree_def by blast
  then have q: "consumer_queue s a = co_queue co" by (simp add: consumer_queue_def)
  show ?thesis
    using assms(2-5) co unfolding q
    by (auto simp: amq_server_channel_cancel_def queue_link_def by_channel_remove_def put_consumer_def
        queue_cancel_call_def call_fails_def mail_def Let_def)
qed

text \<open>
  C35. A client cancels a consumer without waiting for the answer and consumes from the same queue under the
  same tag, with an answer, while nothing else is under way.  If the channel works on both calls before the
  queue works on the cancellation, the client is told that it consumes, and has no consumer: the channel
  still finds the old one under the tag, which the queue then destroys.
\<close>

theorem reconsume_lost:
  assumes "delivery_reach s" and "dl_calls s = []"
    and "dl_channels s ch = Some c" and "ch_connection c = Some cn"
    and "dl_tables s cn tag = Some a" and "tag \<noteq> []" and "dl_queues s (consumer_queue s a) = Some queue"
    and "consumer_queue s a \<notin> dl_dying s" and "cm_tag m = tag" and "\<not> cm_nowait m"
  shows "\<exists>t. run_delivery 3 (mail [Ch_Cancel ch tag True True, Ch_Consume ch (consumer_queue s a) m] s) = Inr t \<and>
    Consume_Ok ch tag \<in> set (drop (length (dl_events s)) (dl_events t)) \<and> dl_tables t cn tag = None \<and>
    (\<forall>co\<in>ran (dl_consumers t). co_connection co = cn \<longrightarrow> cs_tag (co_consumer co) = tag \<longrightarrow> co_destroyed co)"
proof -
  let ?q = "consumer_queue s a" and ?r = "by_channel_remove a s"
  have inv: "delivery_inv (set (dl_calls s)) s" using delivery_reach_inv assms(1) .
  obtain f where f: "consumer_faces s a = Some f" "\<not> fc_destroyed f" "fc_connection f = cn" "fc_tag f = tag"
    using okD(3) [OF inv [unfolded delivery_inv_def]] assms(5) by blast
  let ?cancel = "Ch_Cancel ch tag True True" and ?consume = "Ch_Consume ch ?q m" and ?detach = "Qu_Cancel ?q a True True"
  let ?s0 = "mail [?cancel, ?consume] s"
  have calls: "dl_calls ?s0 = [?cancel, ?consume]" using assms(2) by (simp add: mail_def call_fails_def)
  have link: "queue_link (by_channel_remove a (?s0\<lparr>dl_calls := [?consume]\<rparr>)) a = Some ?q"
    using f(1,2) by (auto simp: consumer_faces_def consumer_queue_def face_of_def queue_link_def by_channel_remove_def
        put_consumer_def mail_def)
  obtain s1 where s1: "delivery_step 0 0 ?s0 = Inr s1" "dl_calls s1 = [?consume, ?detach]" "dl_channels s1 = dl_channels s"
    "dl_tables s1 = dl_tables s" "dl_queues s1 = dl_queues s" "dl_events s1 = dl_events s" "map_option co_queue (dl_consumers s1 a) = Some ?q"
    "consumer_faces s1 a = Some (taken_off f)"
    unfolding first_step [OF calls] delivery_exec_def amq_server_channel_cancel_def using assms(3-5,8) f(1) link
    by (auto simp: queue_cancel_call_def call_fails_def mail_def Let_def by_channel_remove_def put_consumer_def
        consumer_queue_def consumer_faces_def face_of_def mark_def)
  let ?s1 = "s1\<lparr>dl_calls := [?detach]\<rparr>"
  let ?s2 = "say (Consume_Ok ch tag) ?s1"
  have s2: "delivery_step 0 0 s1 = Inr ?s2"
    unfolding first_step [OF s1(2)] using assms(3-10) s1(3-7)
    by (auto simp: delivery_exec_def amq_server_channel_consume_def)
  let ?t0 = "?s0\<lparr>dl_calls := [?consume]\<rparr>"
  have "delivery_inv (set (dl_calls ?t0)) ?t0" using inv assms(2) inv_harmless [of "{}" s "{?consume}"] by simp
  moreover have "amq_server_channel_cancel ch tag True True ?t0 = Inr s1"
    using s1(1) unfolding first_step [OF calls] by (simp add: delivery_exec_def)
  ultimately have "delivery_inv (set (dl_calls s1)) s1" by (rule inv_cancel)
  then have "delivery_inv {?detach} s1" unfolding s1(2) using inv_drop [of ?consume "{?detach}" s1] by simp
  then have "delivery_inv (insert ?detach (set (dl_calls (?s2\<lparr>dl_calls := []\<rparr>)))) (?s2\<lparr>dl_calls := []\<rparr>)"
    by (simp add: delivery_inv_def say_def consumer_faces_def [abs_def] rosters_def [abs_def])
  from exec_cancel [OF this] obtain t where t: "delivery_exec 0 ?detach (?s2\<lparr>dl_calls := []\<rparr>) = Inr t"
    "delivery_inv (set (dl_calls t)) t" "dl_tables t = (dl_tables s)(cn := (dl_tables s cn)(tag := None))"
    "\<exists>es. dl_events t = dl_events s @ Consume_Ok ch tag # es"
    using s1(4,6,8) f(2-4) by (auto simp: say_def consumer_faces_def)
  have "dl_calls ?s2 = [?detach]" by (simp add: say_def)
  from first_step [OF this] t(1) have s3: "delivery_step 0 0 ?s2 = Inr t" by simp
  have "co_destroyed co" if "co \<in> ran (dl_consumers t)" "co_connection co = cn" "cs_tag (co_consumer co) = tag" for co
  proof (rule ccontr)
    assume alive: "\<not> co_destroyed co"
    from that(1) obtain b where "dl_consumers t b = Some co" by (auto simp: ran_def)
    with okD(3) [OF t(2) [unfolded delivery_inv_def], of cn tag b] that(2,3) alive t(3) show False
      by (auto simp: consumer_faces_def face_of_def mark_def)
  qed
  with s1(1) s2 s3 t(3,4) show ?thesis by (auto simp: eval_nat_numeral)
qed

theorem reconsume_lost_witness:
  "\<exists>s t. dl_tables s 6 ''t'' = Some 100 \<and>
    run_delivery 3 (mail [Ch_Cancel 5 ''t'' True True, Ch_Consume 5 9 demo_method] s) = Inr t \<and>
    Consume_Ok 5 ''t'' \<in> set (dl_events t) \<and> dl_tables t 6 ''t'' = None"
proof -
  obtain s queue where s: "delivery_reach s" "dl_calls s = []" "dl_tables s 6 ''t'' = Some 100" "dl_queues s 9 = Some queue"
    "dl_consumers s = [100 \<mapsto> demo_consumer]"
    "dl_channels s 5 = Some \<lparr>ch_number = 1, ch_active = True, ch_credit = 10, ch_connection = Some 6\<rparr>" "dl_dying s = {}"
    using demo_attached by fastforce
  then have q: "consumer_queue s 100 = 9" by (simp add: consumer_queue_def demo_consumer_def)
  with s(4) have "dl_queues s (consumer_queue s 100) = Some queue" by simp
  from reconsume_lost [OF s(1,2,6) _ s(3) _ this, of demo_method] s(3,7) q show ?thesis
    by (auto simp: demo_method_def dest: in_set_dropD)
qed

end
