(* ===== verification/Sfl_Comp.thy ===== *)
theory Sfl_Comp
  imports Amq_Prelude
begin

text \<open>
  The run-length compressors of \<^verbatim>\<open>tooling/base1/sfl/sflcomp.c\<close>: \<^verbatim>\<open>compress_rle\<close>,
  \<^verbatim>\<open>compress_nulls\<close>, \<^verbatim>\<open>compress_bits\<close> and their expanders.

  A buffer is a list of bytes; a read or a write outside it is the value \<open>Inl Out_Of_Bounds\<close>.
  The destination grows by appending, the length byte of an open literal string is patched in
  place, and the capacity of the destination is compared with the bytes produced: they are
  written in order, so some write leaves the buffer exactly when their number exceeds it.  Sizes
  are the 16-bit \<^verbatim>\<open>word\<close> of the source; with a capacity in that type no size wraps.
\<close>

section \<open>Buffers and the state of a compressor\<close>

record comp_state =
  cs_src :: "byte list"
  cs_src_scan :: nat
  cs_dst :: "byte list"
  cs_header :: "nat option"
  cs_length :: nat

definition comp_init :: "byte list \<Rightarrow> comp_state" where
  "comp_init src = \<lparr>cs_src = src, cs_src_scan = 0, cs_dst = [], cs_header = None, cs_length = 0\<rparr>"

text \<open>Closing an open literal string, and adding one byte to it; \<open>bias\<close> is 0, or 7 in
  \<^verbatim>\<open>compress_bits\<close>.\<close>

definition close_header :: "nat \<Rightarrow> comp_state \<Rightarrow> comp_state" where
  "close_header bias st =
     (case cs_header st of
        None \<Rightarrow> st
      | Some h \<Rightarrow> st\<lparr>cs_dst := (cs_dst st)[h := word_of_nat (cs_length st) + word_of_nat bias],
                     cs_header := None\<rparr>)"

definition put_literal :: "nat \<Rightarrow> nat \<Rightarrow> byte \<Rightarrow> comp_state \<Rightarrow> comp_state" where
  "put_literal limit bias cur_byte st =
     (let st1 = (case cs_header st of
                   None \<Rightarrow> st\<lparr>cs_header := Some (length (cs_dst st)),
                            cs_dst := cs_dst st @ [0], cs_length := 0\<rparr>
                 | Some h \<Rightarrow> st);
          st2 = st1\<lparr>cs_dst := cs_dst st1 @ [cur_byte], cs_length := cs_length st1 + 1\<rparr>
      in if cs_length st2 = limit then close_header bias st2 else st2)"

text \<open>\<^verbatim>\<open>while (src [run_end] == cur_byte) run_end++\<close>\<close>

function run_end_scan :: "byte list \<Rightarrow> byte \<Rightarrow> nat \<Rightarrow> nat c_result" where
  "run_end_scan src cur_byte run_end =
     (if run_end < length src
      then if src ! run_end = cur_byte then run_end_scan src cur_byte (Suc run_end)
           else Inr run_end
      else Inl Out_Of_Bounds)"
  by pat_completeness auto
termination by (relation "measure (\<lambda>(src, _, e). length src - e)") auto

declare run_end_scan.simps [simp del]

text \<open>The logical negation of a byte, which the code stores as a sentinel.\<close>

definition c_not :: "byte \<Rightarrow> byte" where
  "c_not b = (if b = 0 then 1 else 0)"

text \<open>
  The start of a run: the sentinel is written after the data, the end of the run is found.
  The result is the buffer with the sentinel and the end of the run.
\<close>

definition find_run :: "byte list \<Rightarrow> nat \<Rightarrow> byte \<Rightarrow> byte \<Rightarrow> nat \<Rightarrow> (byte list \<times> nat) c_result" where
  "find_run src src_size sentinel cur_byte src_scan =
     c_bind (c_write src src_size sentinel) (\<lambda>src'.
     c_bind (run_end_scan src' cur_byte src_scan) (\<lambda>run_end. Inr (src', run_end)))"

definition open_run :: "nat \<Rightarrow> byte list \<Rightarrow> nat \<Rightarrow> comp_state \<Rightarrow> comp_state" where
  "open_run bias src' run_end st =
     (close_header bias st)\<lparr>cs_src := src', cs_length := run_end - cs_src_scan st + 1,
                            cs_src_scan := run_end\<rparr>"

definition put_bytes :: "byte list \<Rightarrow> comp_state \<Rightarrow> comp_state" where
  "put_bytes bs st = st\<lparr>cs_dst := cs_dst st @ bs\<rparr>"

section \<open>compress\_rle\<close>

definition rle_run_code :: "nat \<Rightarrow> byte \<Rightarrow> byte list" where
  "rle_run_code len cur_byte =
     (if len < 256 \<and> cur_byte = 0 then [0x00, word_of_nat len]
      else if len < 256 \<and> cur_byte = 32 then [0x82, word_of_nat len]
      else if len < 128 then [word_of_nat len OR 0x80, cur_byte]
      else if len < 256 then [0x80, word_of_nat len, cur_byte]
      else [0x81, word_of_nat (len mod 256), word_of_nat (len div 256), cur_byte])"

definition rle_body :: "nat \<Rightarrow> comp_state \<Rightarrow> comp_state c_result" where
  "rle_body src_size st =
     c_bind (c_read (cs_src st) (cs_src_scan st)) (\<lambda>cur_byte.
     let st = st\<lparr>cs_src_scan := cs_src_scan st + 1\<rparr> in
     c_bind (c_bind (c_read (cs_src st) (cs_src_scan st)) (\<lambda>b1.
               if cur_byte \<noteq> b1 then Inr False
               else c_bind (c_read (cs_src st) (cs_src_scan st + 1)) (\<lambda>b2.
                 Inr (cur_byte = b2 \<and> cs_src_scan st + 1 < src_size)))) (\<lambda>have_run.
     if have_run
     then c_bind (find_run (cs_src st) src_size (c_not cur_byte) cur_byte (cs_src_scan st))
            (\<lambda>(src', run_end).
              let st = open_run 0 src' run_end st
              in Inr (put_bytes (rle_run_code (cs_length st) cur_byte) st))
     else Inr (put_literal 127 0 cur_byte st)))"

section \<open>compress\_nulls\<close>

definition nulls_run_code :: "nat \<Rightarrow> byte \<Rightarrow> byte list" where
  "nulls_run_code len cur_byte =
     (if cur_byte = 0
      then if len < 128 then [word_of_nat len OR 0x80]
           else if len < 256 then [0x81, word_of_nat len]
           else [0x80, word_of_nat (len mod 256), word_of_nat (len div 256)]
      else if len < 256 then [0x00, word_of_nat len, cur_byte]
      else [0x00, 0x00, word_of_nat (len mod 256), word_of_nat (len div 256), cur_byte])"

definition nulls_body :: "nat \<Rightarrow> comp_state \<Rightarrow> comp_state c_result" where
  "nulls_body src_size st =
     c_bind (c_read (cs_src st) (cs_src_scan st)) (\<lambda>cur_byte.
     let st = st\<lparr>cs_src_scan := cs_src_scan st + 1\<rparr> in
     c_bind (c_read (cs_src st) (cs_src_scan st)) (\<lambda>b1.
     if cur_byte = b1 \<and> cs_src_scan st < src_size
     then c_bind (find_run (cs_src st) src_size (c_not cur_byte) cur_byte (cs_src_scan st))
            (\<lambda>(src', run_end).
              if run_end - cs_src_scan st > 2 \<or> cur_byte = 0
              then let st = open_run 0 src' run_end st
                   in Inr (put_bytes (nulls_run_code (cs_length st) cur_byte) st)
              else Inr (put_literal 127 0 cur_byte (st\<lparr>cs_src := src'\<rparr>)))
     else Inr (put_literal 127 0 cur_byte st)))"

section \<open>compress\_bits\<close>

definition single_bits :: "byte list" where
  "single_bits = (replicate 256 0)[1 := 1, 2 := 2, 4 := 3, 8 := 4, 16 := 5, 32 := 6, 64 := 7, 128 := 8]"

definition bits_zero_code :: "nat \<Rightarrow> byte list" where
  "bits_zero_code len =
     (if len < 127 then [word_of_nat (len + 1) OR 0x80]
      else if len < 381 then [0x81, word_of_nat len - 127]
      else [0x80, word_of_nat (len mod 256), word_of_nat (len div 256)])"

definition bits_run_code :: "nat \<Rightarrow> byte \<Rightarrow> byte list" where
  "bits_run_code len cur_byte =
     (if len < 256 then [0x81, 0xFE, word_of_nat len, cur_byte]
      else [0x81, 0xFF, word_of_nat (len mod 256), word_of_nat (len div 256), cur_byte])"

text \<open>The test for three further equal bytes, with the reads of the short-circuit conjunction.\<close>

definition bits_have_run :: "byte list \<Rightarrow> nat \<Rightarrow> byte \<Rightarrow> nat \<Rightarrow> bool c_result" where
  "bits_have_run src src_size cur_byte scan =
     c_bind (c_read src scan) (\<lambda>b0. if cur_byte \<noteq> b0 then Inr False else
     c_bind (c_read src (scan + 1)) (\<lambda>b1. if cur_byte \<noteq> b1 then Inr False else
     c_bind (c_read src (scan + 2)) (\<lambda>b2. if cur_byte \<noteq> b2 then Inr False else
     Inr (int scan < int src_size - 2))))"

definition bits_body :: "nat \<Rightarrow> comp_state \<Rightarrow> comp_state c_result" where
  "bits_body src_size st =
     c_bind (c_read (cs_src st) (cs_src_scan st)) (\<lambda>cur_byte.
     let st = st\<lparr>cs_src_scan := cs_src_scan st + 1\<rparr> in
     if cur_byte = 0
     then c_bind (find_run (cs_src st) src_size 0xff 0 (cs_src_scan st)) (\<lambda>(src', run_end).
            let st = open_run 7 src' run_end st
            in Inr (put_bytes (bits_zero_code (cs_length st)) st))
     else if single_bits ! unat cur_byte \<noteq> 0
     then Inr (close_header 7 (put_bytes [single_bits ! unat cur_byte - 1] st))
     else c_bind (bits_have_run (cs_src st) src_size cur_byte (cs_src_scan st)) (\<lambda>have_run.
          if have_run
          then c_bind (find_run (cs_src st) src_size (c_not cur_byte) cur_byte (cs_src_scan st))
                 (\<lambda>(src', run_end).
                   let st = open_run 7 src' run_end st
                   in Inr (put_bytes (bits_run_code (cs_length st) cur_byte) st))
          else Inr (put_literal 120 7 cur_byte st)))"

section \<open>Facts shared by the three compressors\<close>

lemma close_header_simps [simp]:
  "cs_src (close_header bias st) = cs_src st"
  "cs_src_scan (close_header bias st) = cs_src_scan st"
  "cs_header (close_header bias st) = None"
  by (simp_all add: close_header_def split: option.split)

lemma put_literal_simps [simp]:
  "cs_src (put_literal limit bias c st) = cs_src st"
  "cs_src_scan (put_literal limit bias c st) = cs_src_scan st"
  by (auto simp: put_literal_def Let_def split: option.split)

lemma open_run_simps [simp]:
  "cs_src (open_run bias s e st) = s"
  "cs_src_scan (open_run bias s e st) = e"
  "cs_header (open_run bias s e st) = None"
  "cs_dst (open_run bias s e st) = cs_dst (close_header bias st)"
  "cs_length (open_run bias s e st) = e - cs_src_scan st + 1"
  by (simp_all add: open_run_def)

lemma put_bytes_simps [simp]:
  "cs_src (put_bytes bs st) = cs_src st"
  "cs_src_scan (put_bytes bs st) = cs_src_scan st"
  "cs_header (put_bytes bs st) = cs_header st"
  "cs_dst (put_bytes bs st) = cs_dst st @ bs"
  "cs_length (put_bytes bs st) = cs_length st"
  by (simp_all add: put_bytes_def)

text \<open>A sentinel that differs from the byte stops the scan inside the buffer.\<close>

lemma run_end_scan_stops:
  assumes "e \<le> n" and "n < length src" and "src ! n \<noteq> c"
  shows "\<exists>e'. run_end_scan src c e = Inr e' \<and> e \<le> e' \<and> e' \<le> n \<and> (\<forall>i. e \<le> i \<and> i < e' \<longrightarrow> src ! i = c)
    \<and> src ! e' \<noteq> c"
  using assms
proof (induction src c e rule: run_end_scan.induct)
  case (1 src c e)
  show ?case
  proof (cases "src ! e = c")
    case True
    then have "e < n" using 1 by (metis le_neq_implies_less)
    then obtain e' where "run_end_scan src c (Suc e) = Inr e'" "Suc e \<le> e'" "e' \<le> n"
      "\<forall>i. Suc e \<le> i \<and> i < e' \<longrightarrow> src ! i = c" "src ! e' \<noteq> c"
      using 1 True by auto
    moreover have "run_end_scan src c e = run_end_scan src c (Suc e)"
      using True 1 \<open>e < n\<close> by (subst run_end_scan.simps) simp
    ultimately show ?thesis using True by (metis Suc_leD Suc_leI le_neq_implies_less)
  next
    case False
    then show ?thesis using 1 by (subst run_end_scan.simps) auto
  qed
qed

lemma run_end_scan_ge: "run_end_scan src c e = Inr e' \<Longrightarrow> e \<le> e'"
  by (induction src c e rule: run_end_scan.induct)
    (subst (asm) (2) run_end_scan.simps, auto split: if_splits)

lemma find_run_ok:
  assumes "scan \<le> n" and "n < length src" and "sentinel \<noteq> c"
  shows "\<exists>e. find_run src n sentinel c scan = Inr (src[n := sentinel], e) \<and> scan \<le> e \<and> e \<le> n \<and>
    (\<forall>i. scan \<le> i \<and> i < e \<longrightarrow> src ! i = c) \<and> (e < n \<longrightarrow> src ! e \<noteq> c)"
proof -
  obtain e where e: "run_end_scan (src[n := sentinel]) c scan = Inr e" "scan \<le> e" "e \<le> n"
    "\<forall>i. scan \<le> i \<and> i < e \<longrightarrow> src[n := sentinel] ! i = c" "src[n := sentinel] ! e \<noteq> c"
    using run_end_scan_stops [of scan n "src[n := sentinel]" c] assms by auto
  have "find_run src n sentinel c scan = Inr (src[n := sentinel], e)"
    using assms(2) e(1) by (simp add: find_run_def)
  moreover have "\<forall>i. scan \<le> i \<and> i < e \<longrightarrow> src ! i = c" using e(3,4) by (metis nat_neq_iff not_le nth_list_update_neq)
  moreover have "e < n \<longrightarrow> src ! e \<noteq> c" using e(5) by auto
  ultimately show ?thesis using e(2,3) by blast
qed

lemma find_run_ge: "find_run src n s c scan = Inr (src', e) \<Longrightarrow> scan \<le> e"
  by (auto simp: find_run_def c_bind_Inr_iff dest: run_end_scan_ge)

lemma c_not_neq [simp]: "c_not c \<noteq> c"
  by (simp add: c_not_def)

lemma take_run:
  assumes "scan < e" and "e \<le> length src" and "\<forall>i. scan \<le> i \<and> i < e \<longrightarrow> src ! i = c"
  shows "take e src = take scan src @ replicate (e - scan) c"
  by (rule nth_equalityI) (use assms in \<open>auto simp: nth_append\<close>)

lemma find_run_cases:
  assumes "c_bind (find_run src n s c scan) f = Inr r"
  obtains src' e where "find_run src n s c scan = Inr (src', e)" "f (src', e) = Inr r" "scan \<le> e"
  using assms by (auto simp: c_bind_Inr_iff dest: find_run_ge)

lemma rle_body_advances: "rle_body n st = Inr st' \<Longrightarrow> cs_src_scan st < cs_src_scan st'"
  unfolding rle_body_def Let_def
  by (auto simp: c_bind_Inr_iff [of "c_read _ _"] c_bind_Inr_iff [of "c_bind _ _"]
      split: if_splits elim!: find_run_cases)

lemma nulls_body_advances: "nulls_body n st = Inr st' \<Longrightarrow> cs_src_scan st < cs_src_scan st'"
  unfolding nulls_body_def Let_def
  by (auto simp: c_bind_Inr_iff [of "c_read _ _"] split: if_splits elim!: find_run_cases)

lemma bits_body_advances: "bits_body n st = Inr st' \<Longrightarrow> cs_src_scan st < cs_src_scan st'"
  unfolding bits_body_def Let_def
  by (auto simp: c_bind_Inr_iff [of "c_read _ _"] c_bind_Inr_iff [of "bits_have_run _ _ _ _"]
      split: if_splits elim!: find_run_cases)

section \<open>The compressors\<close>

function rle_loop :: "nat \<Rightarrow> comp_state \<Rightarrow> comp_state c_result" where
  "rle_loop src_size st =
     (if cs_src_scan st < src_size
      then case rle_body src_size st of Inl e \<Rightarrow> Inl e | Inr st' \<Rightarrow> rle_loop src_size st'
      else Inr st)"
  by pat_completeness auto
termination
  by (relation "measure (\<lambda>(n, st). n - cs_src_scan st)") (auto dest!: rle_body_advances)

definition compress_rle :: "byte list \<Rightarrow> dbyte \<Rightarrow> dbyte \<Rightarrow> byte list c_result" where
  "compress_rle src src_size dst_max =
     c_bind (rle_loop (unat src_size) (comp_init src)) (\<lambda>st.
       let dst = cs_dst (close_header 0 st)
       in if length dst \<le> unat dst_max then Inr dst else Inl Out_Of_Bounds)"

function nulls_loop :: "nat \<Rightarrow> comp_state \<Rightarrow> comp_state c_result" where
  "nulls_loop src_size st =
     (if cs_src_scan st < src_size
      then case nulls_body src_size st of Inl e \<Rightarrow> Inl e | Inr st' \<Rightarrow> nulls_loop src_size st'
      else Inr st)"
  by pat_completeness auto
termination
  by (relation "measure (\<lambda>(n, st). n - cs_src_scan st)") (auto dest!: nulls_body_advances)

definition compress_nulls :: "byte list \<Rightarrow> dbyte \<Rightarrow> dbyte \<Rightarrow> byte list c_result" where
  "compress_nulls src src_size dst_max =
     c_bind (nulls_loop (unat src_size) (comp_init src)) (\<lambda>st.
       let dst = cs_dst (close_header 0 st)
       in if length dst \<le> unat dst_max then Inr dst else Inl Out_Of_Bounds)"

function bits_loop :: "nat \<Rightarrow> comp_state \<Rightarrow> comp_state c_result" where
  "bits_loop src_size st =
     (if cs_src_scan st < src_size
      then case bits_body src_size st of Inl e \<Rightarrow> Inl e | Inr st' \<Rightarrow> bits_loop src_size st'
      else Inr st)"
  by pat_completeness auto
termination
  by (relation "measure (\<lambda>(n, st). n - cs_src_scan st)") (auto dest!: bits_body_advances)

definition compress_bits :: "byte list \<Rightarrow> dbyte \<Rightarrow> dbyte \<Rightarrow> byte list c_result" where
  "compress_bits src src_size dst_max =
     c_bind (bits_loop (unat src_size) (comp_init src)) (\<lambda>st.
       let dst = cs_dst (close_header 7 st)
       in if length dst \<le> unat dst_max then Inr dst else Inl Out_Of_Bounds)"

declare rle_loop.simps [simp del] nulls_loop.simps [simp del] bits_loop.simps [simp del]

section \<open>The expanders\<close>

text \<open>Reading the next byte, and copying the next \<open>n\<close> bytes, of the compressed data.\<close>

fun next_byte :: "byte list \<Rightarrow> (byte \<times> byte list) c_result" where
  "next_byte [] = Inl Out_Of_Bounds"
| "next_byte (b # s) = Inr (b, s)"

definition next_bytes :: "nat \<Rightarrow> byte list \<Rightarrow> (byte list \<times> byte list) c_result" where
  "next_bytes n s = (if n \<le> length s then Inr (take n s, drop n s) else Inl Out_Of_Bounds)"

definition next_dbyte :: "byte list \<Rightarrow> (nat \<times> byte list) c_result" where
  "next_dbyte s = c_bind (next_byte s) (\<lambda>(lo, s). c_bind (next_byte s) (\<lambda>(hi, s).
     Inr (unat lo + unat hi * 256, s)))"

text \<open>The body of each loop: what one item of the compressed data adds to the destination, and
  the data that remain.\<close>

definition expand_rle_item :: "byte \<Rightarrow> byte list \<Rightarrow> (byte list \<times> byte list) c_result" where
  "expand_rle_item cur_byte s =
     (if cur_byte > 0 \<and> cur_byte < 128 then next_bytes (unat cur_byte) s
      else if cur_byte = 0x00
      then c_bind (next_byte s) (\<lambda>(len, s). Inr (replicate (unat len) 0, s))
      else if cur_byte = 0x82
      then c_bind (next_byte s) (\<lambda>(len, s). Inr (replicate (unat len) 32, s))
      else if cur_byte = 0x80
      then c_bind (next_byte s) (\<lambda>(len, s). c_bind (next_byte s) (\<lambda>(b, s).
             Inr (replicate (unat len) b, s)))
      else if cur_byte = 0x81
      then c_bind (next_dbyte s) (\<lambda>(len, s). c_bind (next_byte s) (\<lambda>(b, s).
             Inr (replicate len b, s)))
      else c_bind (next_byte s) (\<lambda>(b, s). Inr (replicate (unat (cur_byte AND 127)) b, s)))"

definition expand_nulls_item :: "byte \<Rightarrow> byte list \<Rightarrow> (byte list \<times> byte list) c_result" where
  "expand_nulls_item cur_byte s =
     (if cur_byte > 0 \<and> cur_byte < 128 then next_bytes (unat cur_byte) s
      else if cur_byte = 0x00
      then c_bind (next_byte s) (\<lambda>(len, s).
           c_bind (if len = 0 then next_dbyte s else Inr (unat len, s)) (\<lambda>(len, s).
           c_bind (next_byte s) (\<lambda>(b, s). Inr (replicate len b, s))))
      else if cur_byte = 0x80
      then c_bind (next_dbyte s) (\<lambda>(len, s). Inr (replicate len 0, s))
      else if cur_byte = 0x81
      then c_bind (next_byte s) (\<lambda>(len, s). Inr (replicate (unat len) 0, s))
      else Inr (replicate (unat (cur_byte AND 127)) 0, s))"

definition expand_bits_item :: "byte \<Rightarrow> byte list \<Rightarrow> (byte list \<times> byte list) c_result" where
  "expand_bits_item cur_byte s =
     (if cur_byte < 8 then Inr ([push_bit (unat cur_byte) 1], s)
      else if cur_byte < 128 then next_bytes (unat cur_byte - 7) s
      else if cur_byte = 0x80
      then c_bind (next_dbyte s) (\<lambda>(len, s). Inr (replicate len 0, s))
      else if cur_byte = 0x81
      then c_bind (next_byte s) (\<lambda>(len, s).
             if len = 0xFE
             then c_bind (next_byte s) (\<lambda>(len, s). c_bind (next_byte s) (\<lambda>(b, s).
                    Inr (replicate (unat len) b, s)))
             else if len = 0xFF
             then c_bind (next_dbyte s) (\<lambda>(len, s). c_bind (next_byte s) (\<lambda>(b, s).
                    Inr (replicate len b, s)))
             else Inr (replicate (unat len + 127) 0, s))
      else Inr (replicate (unat ((cur_byte - 1) AND 127)) 0, s))"

lemma next_bytes_rest: "next_bytes n s = Inr (c, s') \<Longrightarrow> length s' \<le> length s"
  by (auto simp: next_bytes_def split: if_splits)

lemma next_byte_rest: "next_byte s = Inr (c, s') \<Longrightarrow> s = c # s'"
  by (cases s) auto

lemma next_dbyte_rest: "next_dbyte s = Inr (c, s') \<Longrightarrow> length s' \<le> length s"
  by (auto simp: next_dbyte_def c_bind_Inr_iff dest!: next_byte_rest)

lemmas next_rests = next_bytes_rest next_byte_rest next_dbyte_rest

lemma expand_rle_item_rest: "expand_rle_item b s = Inr (c, s') \<Longrightarrow> length s' \<le> length s"
  by (auto simp: expand_rle_item_def c_bind_Inr_iff split: if_splits dest!: next_rests)

lemma expand_nulls_item_rest: "expand_nulls_item b s = Inr (c, s') \<Longrightarrow> length s' \<le> length s"
  by (auto simp: expand_nulls_item_def c_bind_Inr_iff split: if_splits dest!: next_rests)

lemma expand_bits_item_rest: "expand_bits_item b s = Inr (c, s') \<Longrightarrow> length s' \<le> length s"
  by (auto simp: expand_bits_item_def c_bind_Inr_iff split: if_splits dest!: next_rests)

function expand_rle_loop :: "byte list \<Rightarrow> byte list \<Rightarrow> byte list c_result" where
  "expand_rle_loop [] dst = Inr dst"
| "expand_rle_loop (b # s) dst =
     (case expand_rle_item b s of Inl e \<Rightarrow> Inl e | Inr (c, s') \<Rightarrow> expand_rle_loop s' (dst @ c))"
  by pat_completeness auto
termination
  by (relation "measure (\<lambda>(s, _). length s)") (auto dest!: expand_rle_item_rest)

function expand_nulls_loop :: "byte list \<Rightarrow> byte list \<Rightarrow> byte list c_result" where
  "expand_nulls_loop [] dst = Inr dst"
| "expand_nulls_loop (b # s) dst =
     (case expand_nulls_item b s of Inl e \<Rightarrow> Inl e | Inr (c, s') \<Rightarrow> expand_nulls_loop s' (dst @ c))"
  by pat_completeness auto
termination
  by (relation "measure (\<lambda>(s, _). length s)") (auto dest!: expand_nulls_item_rest)

function expand_bits_loop :: "byte list \<Rightarrow> byte list \<Rightarrow> byte list c_result" where
  "expand_bits_loop [] dst = Inr dst"
| "expand_bits_loop (b # s) dst =
     (case expand_bits_item b s of Inl e \<Rightarrow> Inl e | Inr (c, s') \<Rightarrow> expand_bits_loop s' (dst @ c))"
  by pat_completeness auto
termination
  by (relation "measure (\<lambda>(s, _). length s)") (auto dest!: expand_bits_item_rest)

definition fits :: "dbyte \<Rightarrow> byte list c_result \<Rightarrow> byte list c_result" where
  "fits dst_max r = c_bind r (\<lambda>dst. if length dst \<le> unat dst_max then Inr dst else Inl Out_Of_Bounds)"

definition expand_rle :: "byte list \<Rightarrow> dbyte \<Rightarrow> byte list c_result" where
  "expand_rle src dst_max = fits dst_max (expand_rle_loop src [])"

definition expand_nulls :: "byte list \<Rightarrow> dbyte \<Rightarrow> byte list c_result" where
  "expand_nulls src dst_max = fits dst_max (expand_nulls_loop src [])"

definition expand_bits :: "byte list \<Rightarrow> dbyte \<Rightarrow> byte list c_result" where
  "expand_bits src dst_max = fits dst_max (expand_bits_loop src [])"

section \<open>The interface between a compressor and its expander\<close>

text \<open>
  The invariant of a compressor's loop: what has been written expands to the data read so far,
  except for the length byte of the literal string that is open; closed items take at most
  \<open>num / den\<close> bytes for each byte read.
\<close>

definition chunk_inv ::
    "(byte list \<Rightarrow> byte list \<Rightarrow> byte list c_result) \<Rightarrow> nat \<Rightarrow> nat \<Rightarrow> nat \<Rightarrow> comp_state \<Rightarrow> byte list \<Rightarrow> bool" where
  "chunk_inv expand_loop limit num den st data \<longleftrightarrow>
     (case cs_header st of
        None \<Rightarrow> expand_loop (cs_dst st) [] = Inr data \<and> den * length (cs_dst st) \<le> num * length data
      | Some h \<Rightarrow> \<exists>pre hb lit d. cs_dst st = pre @ hb # lit \<and> length pre = h \<and> length lit = cs_length st \<and>
          lit \<noteq> [] \<and> length lit < limit \<and> expand_loop pre [] = Inr d \<and> data = d @ lit \<and>
          den * length pre \<le> num * length d)"

text \<open>
  What a compressor relies on: the expander takes the data item by item, an item does not look
  beyond its own bytes, and a literal string is an item.
\<close>

text \<open>The data are unchanged by the sentinel, which lies after them.\<close>

definition comp_inv ::
    "(byte list \<Rightarrow> byte list \<Rightarrow> byte list c_result) \<Rightarrow> nat \<Rightarrow> nat \<Rightarrow> nat \<Rightarrow> nat \<Rightarrow> byte list \<Rightarrow> comp_state \<Rightarrow> bool" where
  "comp_inv expand_loop limit num den n src st \<longleftrightarrow>
     length (cs_src st) = length src \<and> take n (cs_src st) = take n src \<and> cs_src_scan st \<le> n \<and>
     chunk_inv expand_loop limit num den st (take (cs_src_scan st) src)"

locale chunk_codec =
  fixes expand_item :: "byte \<Rightarrow> byte list \<Rightarrow> (byte list \<times> byte list) c_result"
    and expand_loop :: "byte list \<Rightarrow> byte list \<Rightarrow> byte list c_result"
    and limit :: nat
    and bias :: nat
    and num :: nat
    and den :: nat
    and gain :: nat
  assumes loop_nil: "expand_loop [] d = Inr d"
    and loop_cons: "expand_loop (b # s) d =
      (case expand_item b s of Inl e \<Rightarrow> Inl e | Inr (c, s') \<Rightarrow> expand_loop s' (d @ c))"
    and item_rest: "expand_item b s = Inr (c, s') \<Longrightarrow> length s' \<le> length s"
    and item_local: "expand_item b s = Inr (c, s') \<Longrightarrow> expand_item b (s @ t) = Inr (c, s' @ t)"
    and item_literal: "lit \<noteq> [] \<Longrightarrow> length lit \<le> limit \<Longrightarrow>
      expand_item (word_of_nat (length lit) + word_of_nat bias) lit = Inr (lit, [])"
    and limit_pos: "1 < limit"
    and den_num: "den \<le> num"
    and full_rate: "den * (limit + 1) \<le> num * limit"
    and item_rate: "0 < r \<Longrightarrow> m + gain \<le> r \<Longrightarrow>
      den * m \<le> num * r \<and> (\<forall>k>0. den * (1 + k + m) \<le> num * (k + r))"
begin

lemma loop_append:
  "expand_loop s d = Inr r \<Longrightarrow> expand_loop (s @ t) d = expand_loop t r"
proof (induction "length s" arbitrary: s d rule: less_induct)
  case less
  show ?case
  proof (cases s)
    case Nil
    then show ?thesis using less.prems by (simp add: loop_nil)
  next
    case (Cons b s1)
    with less.prems obtain c s' where i: "expand_item b s1 = Inr (c, s')" "expand_loop s' (d @ c) = Inr r"
      by (auto simp: loop_cons split: sum.splits)
    then have "expand_loop (s' @ t) (d @ c) = expand_loop t r"
      using less.hyps [of s' "d @ c"] item_rest [OF i(1)] Cons by simp
    then show ?thesis using Cons i item_local by (simp add: loop_cons)
  qed
qed

lemma loop_item:
  assumes "expand_loop s d = Inr r" and "expand_item b t = Inr (c, [])"
  shows "expand_loop (s @ b # t) d = Inr (r @ c)"
  using assms by (simp add: loop_append loop_cons loop_nil)

lemma chunk_close:
  assumes "chunk_inv expand_loop limit num den st data"
  shows "expand_loop (cs_dst (close_header bias st)) [] = Inr data"
    and "den * length (cs_dst (close_header bias st)) \<le> num * length data + den"
proof -
  have "expand_loop (cs_dst (close_header bias st)) [] = Inr data \<and>
    den * length (cs_dst (close_header bias st)) \<le> num * length data + den"
  proof (cases "cs_header st")
    case None
    then show ?thesis using assms by (simp add: chunk_inv_def close_header_def)
  next
    case (Some h)
    then obtain pre hb lit d where st: "cs_dst st = pre @ hb # lit" "length pre = h" "length lit = cs_length st"
      "lit \<noteq> []" "length lit < limit" "expand_loop pre [] = Inr d" "data = d @ lit"
      "den * length pre \<le> num * length d"
      using assms by (auto simp: chunk_inv_def)
    have "expand_loop (pre @ (word_of_nat (length lit) + word_of_nat bias) # lit) [] = Inr (d @ lit)"
      using st by (intro loop_item item_literal) auto
    moreover have "den * (h + 1 + length lit) \<le> num * (length d + length lit) + den"
      using st(8) mult_le_mono1 [OF den_num, of "length lit"]
      unfolding distrib_left st(2) [symmetric] mult_1_right by linarith
    ultimately show ?thesis using Some st
      by (auto simp: close_header_def list_update_append algebra_simps)
  qed
  then show "expand_loop (cs_dst (close_header bias st)) [] = Inr data"
    and "den * length (cs_dst (close_header bias st)) \<le> num * length data + den" by auto
qed

lemma chunk_item:
  assumes inv: "chunk_inv expand_loop limit num den st data"
    and st': "cs_header st' = None" "cs_dst st' = cs_dst (close_header bias st) @ b # t"
    and it: "expand_item b t = Inr (run, [])"
    and gain: "length (b # t) + gain \<le> length run"
  shows "chunk_inv expand_loop limit num den st' (data @ run)"
proof -
  have rate: "den * length (b # t) \<le> num * length run"
    "\<forall>k>0. den * (1 + k + length (b # t)) \<le> num * (k + length run)"
    using item_rate [OF _ gain] gain by (metis Suc_le_D add_Suc list.size(4) zero_less_Suc add_Suc_right add_0_right)+
  have "expand_loop (cs_dst st') [] = Inr (data @ run)"
    unfolding st'(2) by (rule loop_item [OF chunk_close(1) [OF inv] it])
  moreover have "den * length (cs_dst st') \<le> num * length (data @ run)"
  proof (cases "cs_header st")
    case None
    then show ?thesis using inv rate(1) st'(2)
      by (simp add: chunk_inv_def close_header_def algebra_simps)
  next
    case (Some h)
    then obtain pre hb lit d where st: "cs_dst st = pre @ hb # lit" "length pre = h"
      "lit \<noteq> []" "data = d @ lit" "den * length pre \<le> num * length d"
      using inv by (auto simp: chunk_inv_def)
    have "den * (1 + length lit + length (b # t)) \<le> num * (length lit + length run)"
      using rate(2) st(3) by blast
    then show ?thesis using Some st st'(2) by (simp add: close_header_def algebra_simps)
  qed
  ultimately show ?thesis using st'(1) by (simp add: chunk_inv_def)
qed

lemma chunk_literal:
  assumes inv: "chunk_inv expand_loop limit num den st data"
  shows "chunk_inv expand_loop limit num den (put_literal limit bias c st) (data @ [c])"
proof (cases "cs_header st")
  case None
  then have "expand_loop (cs_dst st) [] = Inr data" "den * length (cs_dst st) \<le> num * length data"
    using inv by (auto simp: chunk_inv_def)
  then show ?thesis using None limit_pos
    by (simp add: chunk_inv_def put_literal_def Let_def)
      (rule exI [of _ "cs_dst st"], rule exI [of _ 0], rule exI [of _ "[c]"], simp)
next
  case (Some h)
  then obtain pre hb lit d where st: "cs_dst st = pre @ hb # lit" "length pre = h" "length lit = cs_length st"
    "lit \<noteq> []" "length lit < limit" "expand_loop pre [] = Inr d" "data = d @ lit"
    "den * length pre \<le> num * length d"
    using inv by (auto simp: chunk_inv_def)
  show ?thesis
  proof (cases "length lit + 1 = limit")
    case True
    have "expand_item (word_of_nat (length (lit @ [c])) + word_of_nat bias) (lit @ [c]) = Inr (lit @ [c], [])"
      by (rule item_literal) (use True in auto)
    then have "expand_loop (pre @ (word_of_nat limit + word_of_nat bias) # lit @ [c]) [] = Inr (d @ lit @ [c])"
      using loop_item [OF st(6)] True by fastforce
    moreover have "den * (length pre + 1 + limit) \<le> num * (length d + limit)"
      using st(8) full_rate by (simp add: algebra_simps)
    ultimately show ?thesis using Some st True
      by (auto simp: chunk_inv_def put_literal_def Let_def close_header_def list_update_append)
  next
    case False
    then have "chunk_inv expand_loop limit num den
      (st\<lparr>cs_dst := cs_dst st @ [c], cs_length := cs_length st + 1\<rparr>) (data @ [c])"
      using Some st
      by (simp add: chunk_inv_def)
        (rule exI [of _ pre], rule exI [of _ hb], rule exI [of _ "lit @ [c]"], rule conjI, simp, rule conjI, simp,
          simp)
    then show ?thesis using Some st False by (simp add: put_literal_def Let_def)
  qed
qed

lemma chunk_scan [simp]:
  "chunk_inv expand_loop limit num den (st\<lparr>cs_src_scan := i\<rparr>) data = chunk_inv expand_loop limit num den st data"
  "chunk_inv expand_loop limit num den (st\<lparr>cs_src := s\<rparr>) data = chunk_inv expand_loop limit num den st data"
  by (cases "cs_header st"; simp add: chunk_inv_def)+

lemma comp_literal:
  assumes inv: "comp_inv expand_loop limit num den n src st" and n: "cs_src_scan st < n" "n \<le> length src"
    and st': "st' = st\<lparr>cs_src_scan := cs_src_scan st + 1\<rparr> \<or>
      st' = st\<lparr>cs_src_scan := cs_src_scan st + 1, cs_src := (cs_src st)[n := v]\<rparr>"
  shows "comp_inv expand_loop limit num den n src (put_literal limit bias (cs_src st ! cs_src_scan st) st')"
proof -
  have "cs_src st ! cs_src_scan st = src ! cs_src_scan st"
    using inv n by (metis comp_inv_def nth_take)
  moreover have "chunk_inv expand_loop limit num den st' (take (cs_src_scan st) src)"
    using inv st' by (auto simp: comp_inv_def)
  ultimately show ?thesis
    using inv st' n chunk_literal [of st' "take (cs_src_scan st) src" "src ! cs_src_scan st"]
    by (auto simp: comp_inv_def take_Suc_conv_app_nth)
qed

lemma comp_run:
  assumes inv: "comp_inv expand_loop limit num den n src st" and n: "cs_src_scan st < n" "n < length src"
    and c: "c = cs_src st ! cs_src_scan st" and s: "sentinel \<noteq> c"
    and code: "\<And>e. cs_src_scan st < e \<Longrightarrow> e \<le> n \<Longrightarrow>
      find_run (cs_src st) n sentinel c (cs_src_scan st + 1) = Inr ((cs_src st)[n := sentinel], e) \<Longrightarrow>
      \<forall>i. cs_src_scan st + 1 \<le> i \<and> i < e \<longrightarrow> cs_src st ! i = c \<Longrightarrow>
      (e < n \<longrightarrow> cs_src st ! e \<noteq> c) \<Longrightarrow> P e \<Longrightarrow>
      \<exists>b t. code (e - cs_src_scan st) = b # t \<and> expand_item b t = Inr (replicate (e - cs_src_scan st) c, []) \<and>
        length (b # t) + gain \<le> e - cs_src_scan st"
  shows "\<exists>e. find_run (cs_src st) n sentinel c (cs_src_scan st + 1) = Inr ((cs_src st)[n := sentinel], e) \<and>
    cs_src_scan st < e \<and> e \<le> n \<and>
    (P e \<longrightarrow> comp_inv expand_loop limit num den n src
      (let st1 = open_run bias ((cs_src st)[n := sentinel]) e (st\<lparr>cs_src_scan := cs_src_scan st + 1\<rparr>)
       in put_bytes (code (cs_length st1)) st1))"
proof -
  let ?i = "cs_src_scan st"
  have len: "length (cs_src st) = length src" and same: "\<forall>i<n. cs_src st ! i = src ! i"
    using inv n by (auto simp: comp_inv_def) (metis nth_take)
  obtain e where e: "find_run (cs_src st) n sentinel c (?i + 1) = Inr ((cs_src st)[n := sentinel], e)"
    "?i + 1 \<le> e" "e \<le> n" "\<forall>i. ?i + 1 \<le> i \<and> i < e \<longrightarrow> cs_src st ! i = c" "e < n \<longrightarrow> cs_src st ! e \<noteq> c"
    using find_run_ok [of "?i + 1" n "cs_src st" sentinel c] n len s by auto
  have "comp_inv expand_loop limit num den n src
      (put_bytes (code (e - ?i)) (open_run bias ((cs_src st)[n := sentinel]) e (st\<lparr>cs_src_scan := ?i + 1\<rparr>)))"
    if P: "P e"
  proof -
    obtain b t where bt: "code (e - ?i) = b # t" "expand_item b t = Inr (replicate (e - ?i) c, [])"
      "length (b # t) + gain \<le> e - ?i"
      using code [OF _ e(3) e(1) e(4) e(5) P] e(2) by auto
    have all: "\<forall>i. ?i \<le> i \<and> i < e \<longrightarrow> src ! i = c"
    proof (intro allI impI)
      fix i assume i: "?i \<le> i \<and> i < e"
      then have "cs_src st ! i = c" using e(4) c by (cases "i = ?i") auto
      then show "src ! i = c" using i e(3) same by simp
    qed
    have tk: "take e src = take ?i src @ replicate (e - ?i) c"
      using e(2,3) n by (intro take_run all) auto
    have "chunk_inv expand_loop limit num den
      (put_bytes (code (e - ?i)) (open_run bias ((cs_src st)[n := sentinel]) e (st\<lparr>cs_src_scan := ?i + 1\<rparr>)))
      (take ?i src @ replicate (e - ?i) c)"
      by (rule chunk_item [of "st\<lparr>cs_src_scan := ?i + 1\<rparr>"]) (use inv bt in \<open>auto simp: comp_inv_def\<close>)
    then show ?thesis using tk e(3) inv by (simp add: comp_inv_def)
  qed
  moreover have "e - (?i + 1) + 1 = e - ?i" using e(2) by simp
  ultimately show ?thesis using e(1-3) by (intro exI [of _ e]) (simp add: Let_def)
qed

end

text \<open>A compressor as the client of its expander: a loop whose body keeps the invariant.\<close>

locale chunk_compressor = chunk_codec +
  fixes body :: "nat \<Rightarrow> comp_state \<Rightarrow> comp_state c_result"
    and loop :: "nat \<Rightarrow> comp_state \<Rightarrow> comp_state c_result"
    and slack :: nat
  assumes loop_unfold: "loop n st =
      (if cs_src_scan st < n then case body n st of Inl e \<Rightarrow> Inl e | Inr st' \<Rightarrow> loop n st' else Inr st)"
    and body_inv: "comp_inv expand_loop limit num den n src st \<Longrightarrow> cs_src_scan st < n \<Longrightarrow>
      n + slack \<le> length src \<Longrightarrow> n < 65536 \<Longrightarrow>
      \<exists>st'. body n st = Inr st' \<and> comp_inv expand_loop limit num den n src st'"
    and body_advances: "body n st = Inr st' \<Longrightarrow> cs_src_scan st < cs_src_scan st'"
begin

lemma loop_inv:
  assumes "comp_inv expand_loop limit num den n src st" and "n + slack \<le> length src" and "n < 65536"
  shows "\<exists>st'. loop n st = Inr st' \<and> comp_inv expand_loop limit num den n src st' \<and> cs_src_scan st' = n"
  using assms(1)
proof (induction "n - cs_src_scan st" arbitrary: st rule: less_induct)
  case less
  show ?case
  proof (cases "cs_src_scan st < n")
    case True
    obtain st' where st': "body n st = Inr st'" "comp_inv expand_loop limit num den n src st'"
      using body_inv [OF less.prems True assms(2,3)] by blast
    then have "n - cs_src_scan st' < n - cs_src_scan st"
      using body_advances True by (simp add: diff_less_mono2)
    then show ?thesis using less.hyps st' True by (subst loop_unfold) simp
  next
    case False
    then show ?thesis using less.prems by (subst loop_unfold) (auto simp: comp_inv_def)
  qed
qed

lemma loop_roundtrip:
  assumes "n + slack \<le> length src" and "n < 65536"
  shows "\<exists>st. loop n (comp_init src) = Inr st \<and>
    expand_loop (cs_dst (close_header bias st)) [] = Inr (take n src) \<and>
    den * length (cs_dst (close_header bias st)) \<le> num * n + den"
proof -
  have "comp_inv expand_loop limit num den n src (comp_init src)"
    by (simp add: comp_inv_def comp_init_def chunk_inv_def loop_nil)
  then obtain st where st: "loop n (comp_init src) = Inr st" "comp_inv expand_loop limit num den n src st"
    "cs_src_scan st = n"
    using loop_inv assms by blast
  then have "chunk_inv expand_loop limit num den st (take n src)" by (simp add: comp_inv_def)
  from chunk_close [OF this] st(1) assms(1) show ?thesis by simp
qed

end

section \<open>The interpretations\<close>

lemma next_bytes_local: "next_bytes n s = Inr (c, s') \<Longrightarrow> next_bytes n (s @ t) = Inr (c, s' @ t)"
  by (auto simp: next_bytes_def split: if_splits)

lemma next_byte_local: "next_byte s = Inr (c, s') \<Longrightarrow> next_byte (s @ t) = Inr (c, s' @ t)"
  by (cases s) auto

lemma next_dbyte_local: "next_dbyte s = Inr (c, s') \<Longrightarrow> next_dbyte (s @ t) = Inr (c, s' @ t)"
  by (auto simp: next_dbyte_def c_bind_Inr_iff next_byte_local)

lemmas next_local = next_bytes_local next_byte_local next_dbyte_local

lemma expand_rle_item_local:
  "expand_rle_item b s = Inr (c, s') \<Longrightarrow> expand_rle_item b (s @ t) = Inr (c, s' @ t)"
  by (auto simp: expand_rle_item_def c_bind_Inr_iff next_local split: if_splits)

lemma expand_nulls_item_local:
  "expand_nulls_item b s = Inr (c, s') \<Longrightarrow> expand_nulls_item b (s @ t) = Inr (c, s' @ t)"
  by (auto simp: expand_nulls_item_def c_bind_Inr_iff next_local split: if_splits)

lemma expand_bits_item_local:
  "expand_bits_item b s = Inr (c, s') \<Longrightarrow> expand_bits_item b (s @ t) = Inr (c, s' @ t)"
proof (cases "b = 0x81")
  case True
  then show "expand_bits_item b s = Inr (c, s') \<Longrightarrow> ?thesis"
    by (cases s) (auto simp: expand_bits_item_def c_bind_Inr_iff next_local split: if_splits)
next
  case False
  then show "expand_bits_item b s = Inr (c, s') \<Longrightarrow> ?thesis"
    by (auto simp: expand_bits_item_def c_bind_Inr_iff next_local split: if_splits)
qed

lemma byte_of_nat_eq: "k < 256 \<Longrightarrow> m < 256 \<Longrightarrow> (word_of_nat k = (word_of_nat m :: byte)) = (k = m)"
  by (metis unat_byte)

lemma or_80_facts [table_facts]:
  assumes "k < 128"
  shows "\<not> (word_of_nat k OR 0x80 :: byte) < 128" "unat ((word_of_nat k OR 0x80 :: byte) AND 127) = k"
    "unat (((word_of_nat k OR 0x80 :: byte) - 1) AND 127) = (if k = 0 then 127 else k - 1)"
    "(word_of_nat k OR 0x80 :: byte) = 0x80 \<longleftrightarrow> k = 0" "(word_of_nat k OR 0x80 :: byte) = 0x81 \<longleftrightarrow> k = 1"
    "(word_of_nat k OR 0x80 :: byte) = 0x82 \<longleftrightarrow> k = 2" "(word_of_nat k OR 0x80 :: byte) \<noteq> 0"
    "\<not> (word_of_nat k OR 0x80 :: byte) < 8"
proof -
  have "list_all (\<lambda>k. let w = word_of_nat k OR 0x80 :: byte in \<not> w < 128 \<and> unat (w AND 127) = k \<and>
      unat ((w - 1) AND 127) = (if k = 0 then 127 else k - 1) \<and>
      (w = 0x80 \<longleftrightarrow> k = 0) \<and> (w = 0x81 \<longleftrightarrow> k = 1) \<and> (w = 0x82 \<longleftrightarrow> k = 2) \<and> w \<noteq> 0 \<and> \<not> w < 8) [0..<128]"
    by code_simp
  from list_all_lessI [OF this assms]
  show "\<not> (word_of_nat k OR 0x80 :: byte) < 128" "unat ((word_of_nat k OR 0x80 :: byte) AND 127) = k"
    "unat (((word_of_nat k OR 0x80 :: byte) - 1) AND 127) = (if k = 0 then 127 else k - 1)"
    "(word_of_nat k OR 0x80 :: byte) = 0x80 \<longleftrightarrow> k = 0" "(word_of_nat k OR 0x80 :: byte) = 0x81 \<longleftrightarrow> k = 1"
    "(word_of_nat k OR 0x80 :: byte) = 0x82 \<longleftrightarrow> k = 2" "(word_of_nat k OR 0x80 :: byte) \<noteq> 0"
    "\<not> (word_of_nat k OR 0x80 :: byte) < 8"
    by (simp_all add: Let_def)
qed

lemma next_bytes_all [simp]: "next_bytes (length s) s = Inr (s, [])"
  by (simp add: next_bytes_def)

lemma next_dbyte_code [simp]:
  "len < 65536 \<Longrightarrow> next_dbyte (word_of_nat (len mod 256) # word_of_nat (len div 256) # s) = Inr (len, s)"
  by (simp add: next_dbyte_def less_mult_imp_div_less)

lemma rle_run_code_item:
  assumes "3 \<le> len" "len < 65536"
  shows "\<exists>b t. rle_run_code len c = b # t \<and> expand_rle_item b t = Inr (replicate len c, []) \<and>
    length (b # t) + 1 \<le> len"
  using assms by (auto simp: rle_run_code_def expand_rle_item_def table_facts)

lemma nulls_run_code_item:
  assumes "2 \<le> len" "len < 65536" "c = 0 \<or> 4 \<le> len"
  shows "\<exists>b t. nulls_run_code len c = b # t \<and> expand_nulls_item b t = Inr (replicate len c, []) \<and>
    length (b # t) + 1 \<le> len"
  using assms byte_of_nat_eq [of len 0] by (auto simp: nulls_run_code_def expand_nulls_item_def table_facts)

lemma bits_zero_code_item:
  assumes "1 \<le> len" "len < 65536"
  shows "\<exists>b t. bits_zero_code len = b # t \<and> expand_bits_item b t = Inr (replicate len 0, []) \<and>
    length (b # t) \<le> len"
proof -
  consider k where "len + 1 = k" "1 < k" "k < 128" | m where "len = m + 127" "m < 254" | "381 \<le> len"
  proof -
    assume *: "\<And>k. len + 1 = k \<Longrightarrow> 1 < k \<Longrightarrow> k < 128 \<Longrightarrow> thesis" "\<And>m. len = m + 127 \<Longrightarrow> m < 254 \<Longrightarrow> thesis"
      "381 \<le> len \<Longrightarrow> thesis"
    show thesis using *(1) [of "len + 1"] *(2) [of "len - 127"] *(3) assms(1) by linarith
  qed
  then show ?thesis
  proof cases
    case 1
    then have "bits_zero_code len = [word_of_nat k OR 0x80]" by (auto simp: bits_zero_code_def)
    with 1 or_80_facts [of k] show ?thesis by (auto simp: expand_bits_item_def)
  next
    case 2
    then have "bits_zero_code len = [0x81, word_of_nat m]" by (simp add: bits_zero_code_def)
    with 2 byte_of_nat_eq [of m 254] byte_of_nat_eq [of m 255] show ?thesis
      by (simp add: expand_bits_item_def)
  next
    case 3
    then show ?thesis using assms by (auto simp: bits_zero_code_def expand_bits_item_def)
  qed
qed

lemma bits_run_code_item:
  assumes "4 \<le> len" "len < 65536"
  shows "\<exists>b t. bits_run_code len c = b # t \<and> expand_bits_item b t = Inr (replicate len c, []) \<and>
    length (b # t) \<le> len"
  using assms by (auto simp: bits_run_code_def expand_bits_item_def table_facts)

lemma literal_header:
  assumes "lit \<noteq> []" and "length lit + bias < 128"
  shows "0 < (word_of_nat (length lit) + word_of_nat bias :: byte)" "(word_of_nat (length lit) + word_of_nat bias :: byte) < 128"
    "unat (word_of_nat (length lit) + word_of_nat bias :: byte) = length lit + bias"
proof -
  have u: "unat (word_of_nat (length lit + bias) :: byte) = length lit + bias" using assms(2) by (intro unat_byte) simp
  then show "0 < (word_of_nat (length lit) + word_of_nat bias :: byte)" "(word_of_nat (length lit) + word_of_nat bias :: byte) < 128"
    "unat (word_of_nat (length lit) + word_of_nat bias :: byte) = length lit + bias"
    using assms by (simp_all add: word_less_nat_alt)
qed

interpretation rle: chunk_codec expand_rle_item expand_rle_loop 127 0 128 127 1
proof unfold_locales
  fix lit :: "byte list" assume "lit \<noteq> []" "length lit \<le> 127"
  then show "expand_rle_item (word_of_nat (length lit) + word_of_nat 0) lit = Inr (lit, [])"
    using literal_header [of lit 0] by (simp add: expand_rle_item_def)
qed (auto simp: expand_rle_item_rest expand_rle_item_local)

interpretation nulls: chunk_codec expand_nulls_item expand_nulls_loop 127 0 128 127 1
proof unfold_locales
  fix lit :: "byte list" assume "lit \<noteq> []" "length lit \<le> 127"
  then show "expand_nulls_item (word_of_nat (length lit) + word_of_nat 0) lit = Inr (lit, [])"
    using literal_header [of lit 0] by (simp add: expand_nulls_item_def)
qed (auto simp: expand_nulls_item_rest expand_nulls_item_local)

interpretation bitmaps: chunk_codec expand_bits_item expand_bits_loop 120 7 3 2 0
proof unfold_locales
  fix lit :: "byte list" assume "lit \<noteq> []" "length lit \<le> 120"
  then show "expand_bits_item (word_of_nat (length lit) + word_of_nat 7) lit = Inr (lit, [])"
    using literal_header [of lit 7] by (simp add: expand_bits_item_def word_less_nat_alt)
qed (auto simp: expand_bits_item_rest expand_bits_item_local)

lemma comp_inv_length: "comp_inv expand_loop limit num den n src st \<Longrightarrow> length (cs_src st) = length src"
  by (simp add: comp_inv_def)

lemma rle_body_inv:
  assumes inv: "comp_inv expand_rle_loop 127 128 127 n src st" and n: "cs_src_scan st < n" "n + 2 \<le> length src" "n < 65536"
  shows "\<exists>st'. rle_body n st = Inr st' \<and> comp_inv expand_rle_loop 127 128 127 n src st'"
proof -
  let ?i = "cs_src_scan st" and ?c = "cs_src st ! cs_src_scan st" and ?st = "st\<lparr>cs_src_scan := cs_src_scan st + 1\<rparr>"
  note len = comp_inv_length [OF inv]
  have read: "c_read (cs_src st) ?i = Inr ?c" "c_read (cs_src st) (?i + 1) = Inr (cs_src st ! (?i + 1))"
    "c_read (cs_src st) (?i + 1 + 1) = Inr (cs_src st ! (?i + 2))"
    using n len by simp_all
  show ?thesis
  proof (cases "?c = cs_src st ! (?i + 1) \<and> ?c = cs_src st ! (?i + 2) \<and> ?i + 2 < n")
    case True
    have "\<exists>e. find_run (cs_src st) n (c_not ?c) ?c (?i + 1) = Inr ((cs_src st)[n := c_not ?c], e) \<and> ?i < e \<and> e \<le> n \<and>
      (True \<longrightarrow> comp_inv expand_rle_loop 127 128 127 n src
        (let st1 = open_run 0 ((cs_src st)[n := c_not ?c]) e ?st in put_bytes (rle_run_code (cs_length st1) ?c) st1))"
    proof (rule rle.comp_run [OF inv n(1) _ refl c_not_neq])
      fix e assume e: "?i < e" "e \<le> n" "e < n \<longrightarrow> cs_src st ! e \<noteq> ?c"
      have "e \<noteq> ?i + 1" "e \<noteq> ?i + 2" using e(3) True by auto
      with e show "\<exists>b t. rle_run_code (e - ?i) ?c = b # t \<and> expand_rle_item b t = Inr (replicate (e - ?i) ?c, []) \<and>
          length (b # t) + 1 \<le> e - ?i"
        using rle_run_code_item n(3) by simp
    qed (use n in auto)
    then show ?thesis using True read by (auto simp: rle_body_def Let_def)
  next
    case False
    have "comp_inv expand_rle_loop 127 128 127 n src (put_literal 127 0 ?c ?st)"
      by (rule rle.comp_literal [OF inv n(1)]) (use n in auto)
    then show ?thesis using False read by (auto simp: rle_body_def Let_def)
  qed
qed

lemma nulls_body_inv:
  assumes inv: "comp_inv expand_nulls_loop 127 128 127 n src st" and n: "cs_src_scan st < n" "n + 1 \<le> length src" "n < 65536"
  shows "\<exists>st'. nulls_body n st = Inr st' \<and> comp_inv expand_nulls_loop 127 128 127 n src st'"
proof -
  let ?i = "cs_src_scan st" and ?c = "cs_src st ! cs_src_scan st" and ?st = "st\<lparr>cs_src_scan := cs_src_scan st + 1\<rparr>"
  note len = comp_inv_length [OF inv]
  have read: "c_read (cs_src st) ?i = Inr ?c" "c_read (cs_src st) (?i + 1) = Inr (cs_src st ! (?i + 1))"
    using n len by simp_all
  show ?thesis
  proof (cases "?c = cs_src st ! (?i + 1) \<and> ?i + 1 < n")
    case True
    let ?P = "\<lambda>e. e - (?i + 1) > 2 \<or> ?c = 0"
    have "\<exists>e. find_run (cs_src st) n (c_not ?c) ?c (?i + 1) = Inr ((cs_src st)[n := c_not ?c], e) \<and> ?i < e \<and> e \<le> n \<and>
      (?P e \<longrightarrow> comp_inv expand_nulls_loop 127 128 127 n src
        (let st1 = open_run 0 ((cs_src st)[n := c_not ?c]) e ?st in put_bytes (nulls_run_code (cs_length st1) ?c) st1))"
    proof (rule nulls.comp_run [OF inv n(1) _ refl c_not_neq])
      fix e assume e: "?i < e" "e \<le> n" "e < n \<longrightarrow> cs_src st ! e \<noteq> ?c" "?P e"
      have "e \<noteq> ?i + 1" using e(3) True by auto
      with e show "\<exists>b t. nulls_run_code (e - ?i) ?c = b # t \<and> expand_nulls_item b t = Inr (replicate (e - ?i) ?c, []) \<and>
          length (b # t) + 1 \<le> e - ?i"
        using n(3) by (intro nulls_run_code_item) auto
    qed (use n in auto)
    then obtain e where e: "find_run (cs_src st) n (c_not ?c) ?c (?i + 1) = Inr ((cs_src st)[n := c_not ?c], e)"
      "?P e \<longrightarrow> comp_inv expand_nulls_loop 127 128 127 n src
        (let st1 = open_run 0 ((cs_src st)[n := c_not ?c]) e ?st in put_bytes (nulls_run_code (cs_length st1) ?c) st1)"
      by blast
    have "comp_inv expand_nulls_loop 127 128 127 n src (put_literal 127 0 ?c (?st\<lparr>cs_src := (cs_src st)[n := c_not ?c]\<rparr>))"
      by (rule nulls.comp_literal [OF inv n(1)]) (use n in auto)
    then show ?thesis using e True read by (cases "?P e") (auto simp: nulls_body_def Let_def)
  next
    case False
    have "comp_inv expand_nulls_loop 127 128 127 n src (put_literal 127 0 ?c ?st)"
      by (rule nulls.comp_literal [OF inv n(1)]) (use n in auto)
    then show ?thesis using False read by (auto simp: nulls_body_def Let_def)
  qed
qed

lemma single_bits_nth: "i < 256 \<Longrightarrow> single_bits ! i =
   (if i = 128 then 8 else if i = 64 then 7 else if i = 32 then 6 else if i = 16 then 5
    else if i = 8 then 4 else if i = 4 then 3 else if i = 2 then 2 else if i = 1 then 1 else 0)"
  by (simp add: single_bits_def nth_list_update)

lemma single_bits_item:
  assumes "single_bits ! unat b \<noteq> 0"
  shows "expand_bits_item (single_bits ! unat b - 1) [] = Inr ([b], [])"
proof -
  have "unat b < 256" using unsigned_less [of b, where ?'a = nat] by simp
  then have "unat b \<in> {1, 2, 4, 8, 16, 32, 64, 128}"
    using assms by (auto simp: single_bits_nth split: if_splits)
  moreover have "b = word_of_nat (unat b)" by simp
  ultimately have "b \<in> {1, 2, 4, 8, 16, 32, 64, 128}" by (auto simp del: of_nat_unat)
  then show ?thesis by (auto simp: single_bits_nth expand_bits_item_def)
qed

lemma bits_have_run_eq:
  "scan + 2 < length src \<Longrightarrow> bits_have_run src n c scan =
     Inr (c = src ! scan \<and> c = src ! (scan + 1) \<and> c = src ! (scan + 2) \<and> scan + 2 < n)"
  by (auto simp: bits_have_run_def)

lemma bits_body_inv:
  assumes inv: "comp_inv expand_bits_loop 120 3 2 n src st" and n: "cs_src_scan st < n" "n + 3 \<le> length src" "n < 65536"
  shows "\<exists>st'. bits_body n st = Inr st' \<and> comp_inv expand_bits_loop 120 3 2 n src st'"
proof -
  let ?i = "cs_src_scan st" and ?c = "cs_src st ! cs_src_scan st" and ?st = "st\<lparr>cs_src_scan := cs_src_scan st + 1\<rparr>"
  note len = comp_inv_length [OF inv]
  have read: "c_read (cs_src st) ?i = Inr ?c" using n len by simp
  have run: "bits_have_run (cs_src st) n ?c (?i + 1) = Inr (?c = cs_src st ! (?i + 1) \<and>
      ?c = cs_src st ! (?i + 2) \<and> ?c = cs_src st ! (?i + 3) \<and> ?i + 3 < n)" (is "_ = Inr ?R")
    using n len by (subst bits_have_run_eq) (auto simp: numeral_3_eq_3)
  consider "?c = 0" | "?c \<noteq> 0" "single_bits ! unat ?c \<noteq> 0" | "?c \<noteq> 0" "single_bits ! unat ?c = 0" ?R
    | "?c \<noteq> 0" "single_bits ! unat ?c = 0" "\<not> ?R" by blast
  then show ?thesis
  proof cases
    case 1
    have "\<exists>e. find_run (cs_src st) n 0xff 0 (?i + 1) = Inr ((cs_src st)[n := 0xff], e) \<and> ?i < e \<and> e \<le> n \<and>
      (True \<longrightarrow> comp_inv expand_bits_loop 120 3 2 n src
        (let st1 = open_run 7 ((cs_src st)[n := 0xff]) e ?st in put_bytes (bits_zero_code (cs_length st1)) st1))"
      by (rule bitmaps.comp_run [OF inv n(1) _ 1 [symmetric]]) (use n bits_zero_code_item in auto)
    then show ?thesis using 1 read by (auto simp: bits_body_def Let_def)
  next
    case 2
    have c: "?c = src ! ?i" using inv n(1) by (metis comp_inv_def nth_take)
    have "chunk_inv expand_bits_loop 120 3 2 (close_header 7 (put_bytes [single_bits ! unat ?c - 1] ?st)) (take ?i src @ [?c])"
    proof (rule bitmaps.chunk_item)
      show "chunk_inv expand_bits_loop 120 3 2 ?st (take ?i src)" using inv by (simp add: comp_inv_def)
      show "expand_bits_item (single_bits ! unat ?c - 1) [] = Inr ([?c], [])" by (rule single_bits_item [OF 2(2)])
      show "cs_dst (close_header 7 (put_bytes [single_bits ! unat ?c - 1] ?st)) =
          cs_dst (close_header 7 ?st) @ [single_bits ! unat ?c - 1]"
        using inv by (auto simp: comp_inv_def chunk_inv_def close_header_def put_bytes_def list_update_append split: option.splits)
    qed simp_all
    then have "comp_inv expand_bits_loop 120 3 2 n src (close_header 7 (put_bytes [single_bits ! unat ?c - 1] ?st))"
      using inv n by (simp add: comp_inv_def c take_Suc_conv_app_nth)
    then show ?thesis using 2 read by (auto simp: bits_body_def Let_def)
  next
    case 3
    have "\<exists>e. find_run (cs_src st) n (c_not ?c) ?c (?i + 1) = Inr ((cs_src st)[n := c_not ?c], e) \<and> ?i < e \<and> e \<le> n \<and>
      (True \<longrightarrow> comp_inv expand_bits_loop 120 3 2 n src
        (let st1 = open_run 7 ((cs_src st)[n := c_not ?c]) e ?st in put_bytes (bits_run_code (cs_length st1) ?c) st1))"
    proof (rule bitmaps.comp_run [OF inv n(1) _ refl c_not_neq])
      fix e assume e: "?i < e" "e \<le> n" "e < n \<longrightarrow> cs_src st ! e \<noteq> ?c"
      have "e \<noteq> ?i + 1" "e \<noteq> ?i + 2" "e \<noteq> ?i + 3" using e(3) 3(3) by auto
      with e show "\<exists>b t. bits_run_code (e - ?i) ?c = b # t \<and> expand_bits_item b t = Inr (replicate (e - ?i) ?c, []) \<and>
          length (b # t) + 0 \<le> e - ?i"
        using n(3) bits_run_code_item [of "e - ?i" ?c] by simp
    qed (use n in auto)
    then show ?thesis using 3 read run by (auto simp: bits_body_def Let_def)
  next
    case 4
    have "comp_inv expand_bits_loop 120 3 2 n src (put_literal 120 7 ?c ?st)"
      by (rule bitmaps.comp_literal [OF inv n(1)]) (use n in auto)
    then show ?thesis using 4 read run by (auto simp: bits_body_def Let_def)
  qed
qed

interpretation rle: chunk_compressor expand_rle_item expand_rle_loop 127 0 128 127 1 rle_body rle_loop 2
  by unfold_locales (auto simp: rle_body_inv rle_body_advances rle_loop.simps)

interpretation nulls: chunk_compressor expand_nulls_item expand_nulls_loop 127 0 128 127 1 nulls_body nulls_loop 1
  by unfold_locales (auto simp: nulls_body_inv nulls_body_advances nulls_loop.simps)

interpretation bitmaps: chunk_compressor expand_bits_item expand_bits_loop 120 7 3 2 0 bits_body bits_loop 3
  by unfold_locales (auto simp: bits_body_inv bits_body_advances bits_loop.simps)

section \<open>Properties\<close>

lemma compress_ok:
  assumes "den * l \<le> num * n + den" and "num * n + den < den * (m + 1)"
  shows "l \<le> (m :: nat)"
proof -
  have "den * l < den * (m + 1)" using assms by linarith
  then have "l < m + 1" unfolding mult_less_cancel1 by simp
  then show ?thesis by simp
qed

lemma rate_127: "n + n div 127 + 1 \<le> m \<Longrightarrow> 128 * n + 127 < 127 * (m + 1 :: nat)"
proof -
  assume m: "n + n div 127 + 1 \<le> m"
  define q r where "q = n div 127" and "r = n mod 127"
  have "r < 127" and "127 * q + r = n" by (simp_all add: q_def r_def)
  moreover have "n + q + 1 \<le> m" using m by (simp add: q_def)
  ultimately show ?thesis by simp
qed

lemma rate_2: "n + n div 2 + 1 \<le> m \<Longrightarrow> 3 * n + 2 < 2 * (m + 1 :: nat)"
  by presburger

text \<open>
  C27. Run-length compression loses nothing: with two readable bytes after the data and a
  destination of at least \<open>n + n div 127 + 1\<close> bytes, \<open>compress_rle\<close> stays inside both buffers and
  \<open>expand_rle\<close> gives back exactly the \<open>n\<close> bytes of the source.
\<close>

theorem rle_roundtrip:
  assumes "unat n + 2 \<le> length src" and "unat n + unat n div 127 + 1 \<le> unat dst_max"
  shows "\<exists>dst. compress_rle src n dst_max = Inr dst \<and> expand_rle dst n = Inr (take (unat n) src)"
proof -
  have "unat n < 65536" using unsigned_less [of n, where ?'a = nat] by simp
  then obtain st where st: "rle_loop (unat n) (comp_init src) = Inr st"
    "expand_rle_loop (cs_dst (close_header 0 st)) [] = Inr (take (unat n) src)"
    "127 * length (cs_dst (close_header 0 st)) \<le> 128 * unat n + 127"
    using rle.loop_roundtrip [OF assms(1)] by blast
  have "length (cs_dst (close_header 0 st)) \<le> unat dst_max"
    by (rule compress_ok [OF st(3)]) (rule rate_127 [OF assms(2)])
  then show ?thesis using st by (auto simp: compress_rle_def expand_rle_def fits_def Let_def)
qed

theorem rle_roundtrip_witness:
  "\<exists>dst. compress_rle [7, 7, 7, 7, 1, 0, 0, 0, 9, 9] 8 20 = Inr dst \<and> expand_rle dst 8 = Inr [7, 7, 7, 7, 1, 0, 0, 0]"
  using rle_roundtrip [of 8 "[7, 7, 7, 7, 1, 0, 0, 0, 9, 9]" 20] by simp

text \<open>
  The variant for data with many zeroes loses nothing either, and needs only the one extra
  source byte that its documentation asks for.
\<close>

theorem nulls_roundtrip:
  assumes "unat n + 1 \<le> length src" and "unat n + unat n div 127 + 1 \<le> unat dst_max"
  shows "\<exists>dst. compress_nulls src n dst_max = Inr dst \<and> expand_nulls dst n = Inr (take (unat n) src)"
proof -
  have "unat n < 65536" using unsigned_less [of n, where ?'a = nat] by simp
  then obtain st where st: "nulls_loop (unat n) (comp_init src) = Inr st"
    "expand_nulls_loop (cs_dst (close_header 0 st)) [] = Inr (take (unat n) src)"
    "127 * length (cs_dst (close_header 0 st)) \<le> 128 * unat n + 127"
    using nulls.loop_roundtrip [OF assms(1)] by blast
  have "length (cs_dst (close_header 0 st)) \<le> unat dst_max"
    by (rule compress_ok [OF st(3)]) (rule rate_127 [OF assms(2)])
  then show ?thesis using st by (auto simp: compress_nulls_def expand_nulls_def fits_def Let_def)
qed

theorem nulls_roundtrip_witness:
  "\<exists>dst. compress_nulls [7, 7, 7, 7, 1, 0, 0, 0, 9] 8 20 = Inr dst \<and> expand_nulls dst 8 = Inr [7, 7, 7, 7, 1, 0, 0, 0]"
  using nulls_roundtrip [of 8 "[7, 7, 7, 7, 1, 0, 0, 0, 9]" 20] by simp

text \<open>
  The variant for sparse bitmaps loses nothing, given three readable bytes after the data and
  a destination half as large again as the source.
\<close>

theorem bits_roundtrip:
  assumes "unat n + 3 \<le> length src" and "unat n + unat n div 2 + 1 \<le> unat dst_max"
  shows "\<exists>dst. compress_bits src n dst_max = Inr dst \<and> expand_bits dst n = Inr (take (unat n) src)"
proof -
  have "unat n < 65536" using unsigned_less [of n, where ?'a = nat] by simp
  then obtain st where st: "bits_loop (unat n) (comp_init src) = Inr st"
    "expand_bits_loop (cs_dst (close_header 7 st)) [] = Inr (take (unat n) src)"
    "2 * length (cs_dst (close_header 7 st)) \<le> 3 * unat n + 2"
    using bitmaps.loop_roundtrip [OF assms(1)] by blast
  have "length (cs_dst (close_header 7 st)) \<le> unat dst_max"
    by (rule compress_ok [OF st(3)]) (rule rate_2 [OF assms(2)])
  then show ?thesis using st by (auto simp: compress_bits_def expand_bits_def fits_def Let_def)
qed

theorem bits_roundtrip_witness:
  "\<exists>dst. compress_bits [3, 1, 0, 0, 5, 5, 5, 5, 0, 0, 0] 8 20 = Inr dst \<and> expand_bits dst 8 = Inr [3, 1, 0, 0, 5, 5, 5, 5]"
  using bits_roundtrip [of 8 "[3, 1, 0, 0, 5, 5, 5, 5, 0, 0, 0]" 20] by simp

abbreviation bits_worst :: "nat \<Rightarrow> byte list" where
  "bits_worst k \<equiv> concat (replicate k [3, 1])"

lemma bits_worst_length: "length (bits_worst k) = 2 * k"
  by (induction k) auto

lemma bits_worst_nth: "i < k \<Longrightarrow> bits_worst k ! (2 * i) = 3 \<and> bits_worst k ! Suc (2 * i) = 1"
proof (induction k arbitrary: i)
  case (Suc k)
  then show ?case by (cases i) auto
qed simp

lemma single_bits_facts [simp]: "single_bits ! 3 = 0" "single_bits ! Suc 0 = 1"
  by (simp_all add: single_bits_nth)

lemma bits_worst_pair:
  assumes "i < k" and "length src = 2 * k + 3" and "\<forall>j<k. src ! (2 * j) = 3 \<and> src ! Suc (2 * j) = 1"
    and "st = \<lparr>cs_src = src, cs_src_scan = 2 * i, cs_dst = d, cs_header = None, cs_length = l\<rparr>"
  shows "\<exists>l'. bits_loop (2 * k) st = bits_loop (2 * k)
    \<lparr>cs_src = src, cs_src_scan = 2 * Suc i, cs_dst = d @ [8, 3, 0], cs_header = None, cs_length = l'\<rparr>"
proof -
  have s: "src ! (2 * i) = 3" "src ! Suc (2 * i) = 1" using assms by auto
  let ?st1 = "\<lparr>cs_src = src, cs_src_scan = Suc (2 * i), cs_dst = d @ [0, 3], cs_header = Some (length d), cs_length = 1\<rparr>"
  have "bits_body (2 * k) st = Inr ?st1"
    using assms(1,2,4) s by (simp add: bits_body_def bits_have_run_def put_literal_def Let_def)
  then have "bits_loop (2 * k) st = bits_loop (2 * k) ?st1"
    using assms(1,4) by (subst bits_loop.simps) simp
  moreover have "bits_body (2 * k) ?st1 = Inr \<lparr>cs_src = src, cs_src_scan = 2 * Suc i, cs_dst = d @ [8, 3, 0],
      cs_header = None, cs_length = 1\<rparr>"
    using assms(1,2) s by (simp add: bits_body_def close_header_def put_bytes_def Let_def list_update_append)
  then have "bits_loop (2 * k) ?st1 = bits_loop (2 * k) \<lparr>cs_src = src, cs_src_scan = 2 * Suc i, cs_dst = d @ [8, 3, 0],
      cs_header = None, cs_length = 1\<rparr>"
    using assms(1) by (subst bits_loop.simps) simp
  ultimately show ?thesis by metis
qed

lemma bits_worst_loop:
  assumes "length src = 2 * k + 3" and "\<forall>j<k. src ! (2 * j) = 3 \<and> src ! Suc (2 * j) = 1"
  shows "i \<le> k \<Longrightarrow> \<exists>l'. bits_loop (2 * k) \<lparr>cs_src = src, cs_src_scan = 2 * (k - i), cs_dst = d, cs_header = None, cs_length = l\<rparr> =
    Inr \<lparr>cs_src = src, cs_src_scan = 2 * k, cs_dst = d @ concat (replicate i [8, 3, 0]), cs_header = None, cs_length = l'\<rparr>"
proof (induction i arbitrary: d l)
  case 0
  then show ?case by (subst bits_loop.simps) simp
next
  case (Suc i)
  then have "k - Suc i < k" "Suc (k - Suc i) = k - i" by auto
  then obtain l' where "bits_loop (2 * k) \<lparr>cs_src = src, cs_src_scan = 2 * (k - Suc i), cs_dst = d, cs_header = None, cs_length = l\<rparr> =
    bits_loop (2 * k) \<lparr>cs_src = src, cs_src_scan = 2 * (k - i), cs_dst = d @ [8, 3, 0], cs_header = None, cs_length = l'\<rparr>"
    using bits_worst_pair [OF _ assms refl, of "k - Suc i" d l] by auto
  moreover obtain l'' where "bits_loop (2 * k) \<lparr>cs_src = src, cs_src_scan = 2 * (k - i), cs_dst = d @ [8, 3, 0], cs_header = None, cs_length = l'\<rparr> =
    Inr \<lparr>cs_src = src, cs_src_scan = 2 * k, cs_dst = (d @ [8, 3, 0]) @ concat (replicate i [8, 3, 0]), cs_header = None, cs_length = l''\<rparr>"
    using Suc by (meson Suc_leD)
  ultimately show ?case by auto
qed

text \<open>
  The bitmap variant can grow its input by half: on \<open>k\<close> pairs of a byte with two bits and a
  byte with one bit it writes three bytes for every two.  A destination ten per cent larger than
  the source, which the documentation recommends for the worst case, is overrun.
\<close>

theorem bits_worst_case:
  assumes "k < 32768"
  shows "compress_bits (bits_worst k @ [0, 0, 0]) (word_of_nat (2 * k)) dst_max =
    (if 3 * k \<le> unat dst_max then Inr (concat (replicate k [8, 3, 0])) else Inl Out_Of_Bounds)"
proof -
  let ?src = "bits_worst k @ [0, 0, 0]"
  have "length ?src = 2 * k + 3" by (simp add: bits_worst_length)
  moreover have "\<forall>j<k. ?src ! (2 * j) = 3 \<and> ?src ! Suc (2 * j) = 1"
    using bits_worst_nth [of _ k] by (auto simp: nth_append bits_worst_length)
  ultimately obtain l where "bits_loop (2 * k) (comp_init ?src) =
    Inr \<lparr>cs_src = ?src, cs_src_scan = 2 * k, cs_dst = concat (replicate k [8, 3, 0]), cs_header = None, cs_length = l\<rparr>"
    using bits_worst_loop [of ?src k k "[]" 0] by (auto simp: comp_init_def)
  moreover have "unat (word_of_nat (2 * k) :: dbyte) = 2 * k"
    unfolding unat_of_nat using assms by (simp add: take_bit_eq_mod)
  moreover have "length (concat (replicate k [8, 3, 0 :: byte])) = 3 * k" by (induction k) auto
  ultimately show ?thesis by (simp add: compress_bits_def Let_def close_header_def)
qed

theorem bits_worst_case_witness:
  "compress_bits (bits_worst 50 @ [0, 0, 0]) 100 110 = Inl Out_Of_Bounds"
  using bits_worst_case [of 50 110] by simp

text \<open>
  The documentation of \<open>compress_rle\<close> and \<open>compress_bits\<close> asks for one byte after the data; both read
  a second one when the last data byte is equal to the first byte after it.
\<close>

theorem compress_reads_past:
  "compress_rle [b, b] 1 dst_max = Inl Out_Of_Bounds \<and> compress_bits [3, 3] 1 dst_max = Inl Out_Of_Bounds"
proof
  have "rle_loop 1 (comp_init [b, b]) = Inl Out_Of_Bounds"
    by (subst rle_loop.simps) (simp add: comp_init_def rle_body_def c_read_def Let_def)
  then show "compress_rle [b, b] 1 dst_max = Inl Out_Of_Bounds" by (simp add: compress_rle_def)
  have "bits_loop 1 (comp_init [3, 3]) = Inl Out_Of_Bounds"
    by (subst bits_loop.simps) (simp add: comp_init_def bits_body_def bits_have_run_def c_read_def Let_def)
  then show "compress_bits [3, 3] 1 dst_max = Inl Out_Of_Bounds" by (simp add: compress_bits_def)
qed

end
