(* ===== verification/Sfl_Block.thy ===== *)
theory Sfl_Block
  imports Amq_Prelude
begin

text \<open>
  The LZ/RLE block compressor of \<^verbatim>\<open>tooling/base1/sfl/sflcomp.c\<close>: \<^verbatim>\<open>compress_block\<close> with its match
  finder \<^verbatim>\<open>get_match\<close>, and \<^verbatim>\<open>expand_block\<close>.

  The compressed data are groups of up to sixteen items behind a 16-bit command word, whose bits
  say, from the most significant one on, whether the item is a literal byte or a run or a match.
  The hash table of the match finder is a function of the 12-bit hash value; its entries are
  signed 16-bit numbers.  The 16-bit \<^verbatim>\<open>dst_size\<close> is the length of the destination list: the
  model stops with \<open>Out_Of_Bounds\<close> where it would wrap.
\<close>

section \<open>Compression\<close>

definition FLAG_COPY :: byte where "FLAG_COPY = 0x80"
definition FLAG_COMPRESS :: byte where "FLAG_COMPRESS = 0x40"

text \<open>Conversion of an unsigned 16-bit number to \<^verbatim>\<open>short\<close>.\<close>

definition c_short :: "nat \<Rightarrow> int" where
  "c_short n = (if n < 32768 then int n else int n - 65536)"

definition hash_value :: "byte \<Rightarrow> byte \<Rightarrow> byte \<Rightarrow> nat" where
  "hash_value b0 b1 b2 =
     (40543 * ((((unat b0 * 16) XOR unat b1) * 16) XOR unat b2)) div 16 mod 4096"

text \<open>The loop that measures a match; the result is the final value of \<^verbatim>\<open>*size\<close>.\<close>

function match_size :: "byte list \<Rightarrow> nat \<Rightarrow> nat \<Rightarrow> int \<Rightarrow> nat \<Rightarrow> nat c_result" where
  "match_size source ptr ssize pos sz =
     (if sz \<ge> 18 \<or> ptr + sz \<ge> ssize then Inr sz
      else if ptr + sz < length source \<and> 0 \<le> pos + int sz \<and> nat (pos + int sz) < length source
      then if source ! (ptr + sz) \<noteq> source ! nat (pos + int sz) then Inr sz
           else match_size source ptr ssize pos (sz + 1)
      else Inl Out_Of_Bounds)"
  by pat_completeness auto
termination by (relation "measure (\<lambda>(_, _, _, _, sz). 18 - sz)") auto

declare match_size.simps [simp del]

text \<open>
  The result of \<^verbatim>\<open>get_match\<close>: the position and the size of a match of three bytes or more, if one
  is found, and the updated hash table.
\<close>

definition get_match ::
    "byte list \<Rightarrow> nat \<Rightarrow> nat \<Rightarrow> (nat \<Rightarrow> int) \<Rightarrow> ((int \<times> nat) option \<times> (nat \<Rightarrow> int)) c_result" where
  "get_match source ptr ssize hash =
     c_bind (c_read source ptr) (\<lambda>b0. c_bind (c_read source (ptr + 1)) (\<lambda>b1.
     c_bind (c_read source (ptr + 2)) (\<lambda>b2.
     let h = hash_value b0 b1 b2; pos = hash h; hash' = hash(h := c_short ptr) in
     if pos \<noteq> -1 \<and> 0 \<le> int ptr - pos \<and> int ptr - pos < 4096
     then c_bind (match_size source ptr ssize pos 0) (\<lambda>sz.
            Inr (if sz \<ge> 3 then Some (pos, sz) else None, hash'))
     else Inr (None, hash'))))"

text \<open>\<^verbatim>\<open>for (Size = 1;; Size++)\<close>, the length of the run at \<open>src_index\<close>\<close>

function run_size :: "byte list \<Rightarrow> nat \<Rightarrow> nat \<Rightarrow> nat \<Rightarrow> nat c_result" where
  "run_size src src_index src_size sz =
     (if src_index + sz \<ge> src_size then Inr sz
      else if src_index + sz < length src
      then if src ! src_index \<noteq> src ! (src_index + sz) \<or> sz \<ge> 0xfff then Inr sz
           else run_size src src_index src_size (sz + 1)
      else Inl Out_Of_Bounds)"
  by pat_completeness auto
termination by (relation "measure (\<lambda>(_, i, n, sz). n - (i + sz))") auto

declare run_size.simps [simp del]

record lz_state =
  lz_src_index :: nat
  lz_dst :: "byte list"
  lz_HeaderIndex :: nat
  lz_Command :: dbyte
  lz_Bit :: nat
  lz_Hash :: "nat \<Rightarrow> int"

definition put_command :: "byte list \<Rightarrow> nat \<Rightarrow> dbyte \<Rightarrow> byte list" where
  "put_command dst HeaderIndex Command =
     dst[HeaderIndex := ucast (drop_bit 8 Command), HeaderIndex + 1 := ucast Command]"

definition flush_command :: "lz_state \<Rightarrow> lz_state" where
  "flush_command st =
     (if lz_Bit st > 15
      then st\<lparr>lz_dst := put_command (lz_dst st) (lz_HeaderIndex st) (lz_Command st) @ [0, 0],
              lz_HeaderIndex := length (lz_dst st), lz_Bit := 0\<rparr>
      else st)"

definition put_item :: "bool \<Rightarrow> byte list \<Rightarrow> nat \<Rightarrow> (nat \<Rightarrow> int) \<Rightarrow> lz_state \<Rightarrow> lz_state" where
  "put_item flag bytes used hash st =
     st\<lparr>lz_dst := lz_dst st @ bytes, lz_src_index := lz_src_index st + used,
        lz_Command := push_bit 1 (lz_Command st) + of_bool flag, lz_Bit := lz_Bit st + 1, lz_Hash := hash\<rparr>"

definition run_bytes :: "nat \<Rightarrow> byte \<Rightarrow> byte list" where
  "run_bytes sz b = [0, word_of_nat ((sz - 16) div 256), word_of_nat ((sz - 16) mod 256), b]"

definition match_bytes :: "nat \<Rightarrow> nat \<Rightarrow> byte list" where
  "match_bytes dist sz =
     (let Key = (dist * 16 + (sz - 3)) mod 65536
      in [word_of_nat (Key div 256), word_of_nat (Key mod 256)])"

text \<open>The three branches: a long run, a match, a literal.\<close>

definition compress_item :: "byte list \<Rightarrow> nat \<Rightarrow> lz_state \<Rightarrow> byte \<Rightarrow> nat \<Rightarrow> lz_state c_result" where
  "compress_item src src_size st b sz =
     (if sz \<ge> 16 then Inr (put_item True (run_bytes sz b) sz (lz_Hash st) st)
      else c_bind (get_match src (lz_src_index st) src_size (lz_Hash st)) (\<lambda>(m, hash).
        case m of
          Some (pos, sz) \<Rightarrow>
            Inr (put_item True (match_bytes (nat (int (lz_src_index st) - pos)) sz) sz hash st)
        | None \<Rightarrow> Inr (put_item False [b] 1 hash st)))"

definition compress_step :: "byte list \<Rightarrow> nat \<Rightarrow> lz_state \<Rightarrow> lz_state c_result" where
  "compress_step src src_size st0 =
     (let st = flush_command st0; i = lz_src_index st in
      c_bind (c_read src i) (\<lambda>b.
      c_bind (run_size src i src_size 1) (\<lambda>sz. compress_item src src_size st b sz)))"

lemma flush_command_index [simp]: "lz_src_index (flush_command st) = lz_src_index st"
  by (simp add: flush_command_def)

lemma put_item_index [simp]: "lz_src_index (put_item f bs k h st) = lz_src_index st + k"
  by (simp add: put_item_def)

lemma get_match_size: "get_match src i n h = Inr (Some (pos, sz), h') \<Longrightarrow> 3 \<le> sz"
  by (auto simp: get_match_def c_bind_Inr_iff Let_def split: if_splits)

lemma compress_item_advances:
  "compress_item src n st b sz = Inr st' \<Longrightarrow> lz_src_index st < lz_src_index st'"
  by (cases "16 \<le> sz")
    (auto simp: compress_item_def c_bind_Inr_iff split: option.splits dest!: get_match_size)

lemma compress_step_advances: "compress_step src n st = Inr st' \<Longrightarrow> lz_src_index st < lz_src_index st'"
  using compress_item_advances by (fastforce simp: compress_step_def c_bind_Inr_iff Let_def)

function compress_loop :: "byte list \<Rightarrow> nat \<Rightarrow> lz_state \<Rightarrow> lz_state c_result" where
  "compress_loop src src_size st =
     (if lz_src_index st < src_size \<and> length (lz_dst st) \<le> src_size
      then case compress_step src src_size st of
             Inl e \<Rightarrow> Inl e
           | Inr st' \<Rightarrow> if length (lz_dst st') < 65536 then compress_loop src src_size st'
                       else Inl Out_Of_Bounds
      else Inr st)"
  by pat_completeness auto
termination
  by (relation "measure (\<lambda>(_, n, st). n - lz_src_index st)") (auto dest!: compress_step_advances)

declare compress_loop.simps [simp del]

definition compress_init :: lz_state where
  "compress_init = \<lparr>lz_src_index = 0, lz_dst = [FLAG_COMPRESS, 0, 0], lz_HeaderIndex = 1, lz_Command = 0,
     lz_Bit = 0, lz_Hash = (\<lambda>_. -1)\<rparr>"

definition compress_block :: "byte list \<Rightarrow> dbyte \<Rightarrow> byte list c_result" where
  "compress_block src src_size =
     (let n = unat src_size in
      c_bind (compress_loop src n compress_init) (\<lambda>st.
        let dst = put_command (lz_dst st) (lz_HeaderIndex st) (push_bit (16 - lz_Bit st) (lz_Command st))
        in if length dst > n
           then if n \<le> length src then Inr (FLAG_COPY # take n src) else Inl Out_Of_Bounds
           else Inr dst))"

section \<open>Expansion\<close>

text \<open>Copying from the data already expanded, one byte at a time: the areas may overlap.\<close>

fun copy_back :: "nat \<Rightarrow> nat \<Rightarrow> byte list \<Rightarrow> byte list c_result" where
  "copy_back 0 addr dst = Inr dst"
| "copy_back (Suc n) addr dst = c_bind (c_read dst addr) (\<lambda>b. copy_back n (addr + 1) (dst @ [b]))"

text \<open>One item: the rest of the compressed data and the destination after it.\<close>

fun expand_item :: "bool \<Rightarrow> byte list \<Rightarrow> byte list \<Rightarrow> (byte list \<times> byte list) c_result" where
  "expand_item False (b # rest) dst = Inr (rest, dst @ [b])"
| "expand_item True (b0 # b1 # rest) dst =
     (let SymbolAddress = unat b0 * 16 + unat b1 div 16 in
      if SymbolAddress \<noteq> 0
      then if SymbolAddress \<le> length dst
           then c_bind (copy_back (unat b1 mod 16 + 3) (length dst - SymbolAddress) dst) (\<lambda>dst'. Inr (rest, dst'))
           else Inl Out_Of_Bounds
      else case rest of
             b2 # b3 # rest' \<Rightarrow> Inr (rest', dst @ replicate (unat b1 * 256 + (unat b2 + 16)) b3)
           | _ \<Rightarrow> Inl Out_Of_Bounds)"
| "expand_item _ _ _ = Inl Out_Of_Bounds"

lemma expand_item_rest: "expand_item f s d = Inr (s', d') \<Longrightarrow> length s' < length s"
  by (cases "(f, s, d)" rule: expand_item.cases)
    (auto simp: Let_def c_bind_Inr_iff split: if_splits list.splits)

function expand_loop :: "byte list \<Rightarrow> byte list \<Rightarrow> dbyte \<Rightarrow> nat \<Rightarrow> byte list c_result" where
  "expand_loop [] dst Command n = Inr dst"
| "expand_loop (b # rest) dst Command 0 =
     (case rest of
        [] \<Rightarrow> Inl Out_Of_Bounds
      | b' # rest' \<Rightarrow>
          let Command = push_bit 8 (ucast b) + ucast b' in
          (case expand_item (bit Command 15) rest' dst of
             Inl e \<Rightarrow> Inl e
           | Inr (s, dst') \<Rightarrow> expand_loop s dst' (push_bit 1 Command) 15))"
| "expand_loop (b # rest) dst Command (Suc n) =
     (case expand_item (bit Command 15) (b # rest) dst of
        Inl e \<Rightarrow> Inl e
      | Inr (s, dst') \<Rightarrow> expand_loop s dst' (push_bit 1 Command) n)"
  by pat_completeness auto
termination
  by (relation "measure (\<lambda>(s, _). length s)") (auto dest!: expand_item_rest)

definition expand_block :: "byte list \<Rightarrow> dbyte \<Rightarrow> byte list c_result" where
  "expand_block src dst_max =
     c_bind (case src of
               [] \<Rightarrow> Inl Out_Of_Bounds
             | b # rest \<Rightarrow> if b = FLAG_COPY then Inr rest else expand_loop rest [] 0 0) (\<lambda>dst.
       if length dst \<le> unat dst_max then Inr dst else Inl Out_Of_Bounds)"

section \<open>A group of items\<close>

text \<open>
  \<open>items_ok flags bytes d d'\<close>: the bytes are one item for each flag, and expanding them takes the
  destination from \<open>d\<close> to \<open>d'\<close>.
\<close>

fun items_ok :: "bool list \<Rightarrow> byte list \<Rightarrow> byte list \<Rightarrow> byte list \<Rightarrow> bool" where
  "items_ok [] bytes d d' \<longleftrightarrow> bytes = [] \<and> d' = d"
| "items_ok (f # fs) bytes d d' \<longleftrightarrow>
     (\<exists>b1 bs d1. bytes = b1 @ bs \<and> b1 \<noteq> [] \<and> expand_item f b1 d = Inr ([], d1) \<and> items_ok fs bs d1 d')"

lemma items_ok_snoc:
  assumes "items_ok fs bytes d d1" and "b \<noteq> []" and "expand_item f b d1 = Inr ([], d2)"
  shows "items_ok (fs @ [f]) (bytes @ b) d d2"
  using assms(1)
proof (induction fs arbitrary: bytes d)
  case Nil
  then show ?case using assms by auto
next
  case (Cons g fs)
  then obtain b1 bs d3 where "bytes = b1 @ bs" "b1 \<noteq> []" "expand_item g b1 d = Inr ([], d3)" "items_ok fs bs d3 d1"
    by auto
  then show ?case using Cons.IH [of bs d3]
    by (simp del: append_eq_append_conv) (rule exI [of _ b1], rule exI [of _ "bs @ b"], auto)
qed

lemma expand_item_local: "expand_item f s d = Inr (s', d') \<Longrightarrow> expand_item f (s @ t) d = Inr (s' @ t, d')"
  by (cases "(f, s, d)" rule: expand_item.cases)
    (auto simp: Let_def c_bind_Inr_iff split: if_splits list.splits)

lemma push_bit_1_bit: "bit (W * 2 :: dbyte) n \<longleftrightarrow> 0 < n \<and> n < 16 \<and> bit W (n - 1)"
proof -
  have "bit (push_bit 1 W) n \<longleftrightarrow> 1 \<le> n \<and> possible_bit TYPE(dbyte) n \<and> bit W (n - 1)"
    by (rule bit_push_bit_iff)
  then show ?thesis by auto
qed

lemma expand_loop_items:
  assumes "items_ok fs bytes d d'" and "length fs \<le> n" and "n \<le> 16"
    and "\<forall>i<length fs. bit W (15 - i) = fs ! i"
  shows "\<exists>W'. expand_loop (bytes @ t) d W n = expand_loop t d' W' (n - length fs)"
  using assms
proof (induction fs arbitrary: bytes d W n)
  case Nil
  then show ?case by auto
next
  case (Cons f fs)
  then obtain b1 bs d1 where b: "bytes = b1 @ bs" "b1 \<noteq> []" "expand_item f b1 d = Inr ([], d1)" "items_ok fs bs d1 d'"
    by auto
  obtain m where n: "n = Suc m" using Cons.prems by (cases n) auto
  have f: "bit W 15 = f" using Cons.prems(4) by force
  have "expand_item f (b1 @ bs @ t) d = Inr (bs @ t, d1)"
    using expand_item_local [OF b(3), of "bs @ t"] by simp
  then have step: "expand_loop (bytes @ t) d W n = expand_loop (bs @ t) d1 (push_bit 1 W) m"
    using b(1,2) n f by (cases b1) auto
  have "\<forall>i<length fs. bit (push_bit 1 W) (15 - i) = fs ! i"
  proof (intro allI impI)
    fix i assume "i < length fs"
    then have "i < 15" "bit W (15 - Suc i) = fs ! i" using Cons.prems(2-4) n by (auto dest: spec [of _ "Suc i"])
    then show "bit (push_bit 1 W) (15 - i) = fs ! i" by (auto simp: push_bit_1_bit)
  qed
  then have "\<exists>W'. expand_loop (bs @ t) d1 (push_bit 1 W) m = expand_loop t d' W' (m - length fs)"
    using Cons.IH [OF b(4), of m "push_bit 1 W"] Cons.prems(2,3) n by simp
  then show ?case using step n Cons.prems(2) by auto
qed

text \<open>
  The command word holds the flags of the open group, the last one in its least significant bit;
  the bits above belong to earlier groups and are shifted out before the word is written.
\<close>

definition command_ok :: "dbyte \<Rightarrow> bool list \<Rightarrow> bool" where
  "command_ok W fs \<longleftrightarrow> (\<forall>m<length fs. bit W m = fs ! (length fs - 1 - m))"

lemma bit_command_step:
  "bit (push_bit 1 (W :: dbyte) + of_bool f) n \<longleftrightarrow> (if n = 0 then f else n < 16 \<and> bit W (n - 1))"
  using even_bit_succ_iff [of "W * 2" n]
  by (cases f) (auto simp: push_bit_1_bit add.commute [of "W * 2"])

lemma command_ok_snoc:
  assumes "command_ok W fs" and "length fs < 16"
  shows "command_ok (push_bit 1 W + of_bool f) (fs @ [f])"
  unfolding command_ok_def
proof (intro allI impI)
  fix m assume m: "m < length (fs @ [f])"
  show "bit (push_bit 1 W + of_bool f) m = (fs @ [f]) ! (length (fs @ [f]) - 1 - m)"
  proof (cases m)
    case 0
    then show ?thesis unfolding bit_command_step by (simp add: nth_append)
  next
    case (Suc k)
    then have "bit W k = fs ! (length fs - 1 - k)" using assms(1) m by (simp add: command_ok_def)
    moreover have "length fs - Suc k < length fs" using Suc m by auto
    ultimately show ?thesis unfolding bit_command_step using Suc m assms(2) by (simp add: nth_append)
  qed
qed

lemma command_ok_shifted:
  assumes "command_ok W fs" and "length fs \<le> 16"
  shows "\<forall>i<length fs. bit (push_bit (16 - length fs) W) (15 - i) = fs ! i"
proof (intro allI impI)
  fix i assume i: "i < length fs"
  then have "15 - i - (16 - length fs) = length fs - 1 - i" using assms(2) by simp
  moreover have "bit W (length fs - 1 - i) = fs ! i"
    using assms(1) i by (auto simp: command_ok_def dest: spec [of _ "length fs - 1 - i"])
  ultimately show "bit (push_bit (16 - length fs) W) (15 - i) = fs ! i"
    using i assms(2) by (auto simp: bit_push_bit_iff)
qed

lemma command_bytes:
  "push_bit 8 (ucast (ucast (drop_bit 8 W) :: byte)) + ucast (ucast W :: byte) = (W :: dbyte)"
proof -
  have "unat W < 65536" using unsigned_less [of W, where ?'a = nat] by simp
  then have hi: "unat (ucast (drop_bit 8 W) :: byte) = unat W div 256"
    by (simp add: unat_div unsigned_ucast_eq drop_bit_eq_div take_bit_eq_mod less_mult_imp_div_less)
  have lo: "unat (ucast W :: byte) = unat W mod 256"
    by (simp add: unsigned_ucast_eq take_bit_eq_mod)
  have sum: "push_bit 8 (ucast b) + ucast b' = (word_of_nat (256 * unat b + unat b') :: dbyte)" for b b' :: byte
    by (simp add: push_bit_eq_mult mult.commute)
  have "256 * (unat W div 256) + unat W mod 256 = unat W" by simp
  then show ?thesis unfolding sum hi lo by (simp only: of_nat_unat ucast_id)
qed

section \<open>Runs and matches\<close>

lemma copy_back_ok:
  "i + n \<le> length src \<Longrightarrow> a < i \<Longrightarrow> \<forall>j<n. src ! (i + j) = src ! (a + j) \<Longrightarrow>
   copy_back n a (take i src) = Inr (take (i + n) src)"
proof (induction n arbitrary: i a)
  case (Suc n)
  have "src ! a = src ! i" using Suc.prems(3) [rule_format, of 0] by simp
  moreover have "\<forall>j<n. src ! (Suc i + j) = src ! (Suc a + j)"
    using Suc.prems(3) by (metis Suc_less_eq add_Suc_shift)
  ultimately show ?case
    using Suc.IH [of "Suc i" "Suc a"] Suc.prems(1,2) by (simp add: take_Suc_conv_app_nth [symmetric])
qed simp

lemma run_size_ok:
  "i + s \<le> n \<Longrightarrow> n \<le> length src \<Longrightarrow> 0 < s \<Longrightarrow> s \<le> 4095 \<Longrightarrow> \<forall>j< s. src ! (i + j) = src ! i \<Longrightarrow>
   \<exists>sz. run_size src i n s = Inr sz \<and> 0 < sz \<and> i + sz \<le> n \<and> sz \<le> 4095 \<and> (\<forall>j< sz. src ! (i + j) = src ! i)"
proof (induction "n - (i + s)" arbitrary: s)
  case 0
  then have "run_size src i n s = Inr s" by (subst run_size.simps) simp
  then show ?case using 0 by blast
next
  case (Suc k)
  have lt: "i + s < n" using Suc.hyps(2) by simp
  show ?case
  proof (cases "src ! i = src ! (i + s) \<and> s < 4095")
    case True
    then have all: "\<forall>j < s + 1. src ! (i + j) = src ! i" using Suc.prems(5) by (auto simp: less_Suc_eq)
    have step: "run_size src i n s = run_size src i n (s + 1)"
      using True Suc.prems(1-4) lt by (subst run_size.simps) simp
    show ?thesis unfolding step by (rule Suc.hyps(1) [OF _ _ _ _ _ all]) (use True Suc.prems(1-4) Suc.hyps(2) in auto)
  next
    case False
    then have "run_size src i n s = Inr s" using Suc.prems(1-4) Suc.hyps(2) by (subst run_size.simps) auto
    then show ?thesis using Suc.prems by blast
  qed
qed

lemma match_size_ok:
  "p < ptr \<Longrightarrow> ptr + s \<le> n \<Longrightarrow> n \<le> length src \<Longrightarrow> s \<le> 18 \<Longrightarrow> \<forall>j< s. src ! (ptr + j) = src ! (p + j) \<Longrightarrow>
   \<exists>sz. match_size src ptr n (int p) s = Inr sz \<and> ptr + sz \<le> n \<and> sz \<le> 18 \<and>
     (\<forall>j< sz. src ! (ptr + j) = src ! (p + j))"
proof (induction "18 - s" arbitrary: s)
  case 0
  then have "match_size src ptr n (int p) s = Inr s" by (subst match_size.simps) simp
  then show ?case using 0 by blast
next
  case (Suc k)
  have nat: "nat (int p + int s) = p + s" by simp
  have lt: "s < 18" using Suc.hyps(2) by simp
  show ?case
  proof (cases "ptr + s < n \<and> src ! (ptr + s) = src ! (p + s)")
    case True
    then have "\<forall>j< s + 1. src ! (ptr + j) = src ! (p + j)" using Suc.prems(5) by (auto simp: less_Suc_eq)
    moreover have "match_size src ptr n (int p) s = match_size src ptr n (int p) (s + 1)"
      using True Suc.prems(1-4) lt by (subst match_size.simps) (simp add: nat)
    ultimately show ?thesis using Suc.hyps(1) [of "s + 1"] Suc.hyps(2) Suc.prems(1-3) True lt by simp
  next
    case False
    then have "match_size src ptr n (int p) s = Inr s"
      using Suc.prems by (subst match_size.simps) (auto simp: nat)
    then show ?thesis using Suc.prems by blast
  qed
qed

definition hash_inv :: "nat \<Rightarrow> (nat \<Rightarrow> int) \<Rightarrow> bool" where
  "hash_inv i h \<longleftrightarrow> (\<forall>k. h k = -1 \<or> (\<exists>p<i. p < 65536 \<and> h k = c_short p))"

lemma get_match_ok:
  assumes h: "hash_inv i h" and n: "i < n" "n + 2 \<le> length src" "n < 65536"
  shows "\<exists>m h'. get_match src i n h = Inr (m, h') \<and> hash_inv (i + 1) h' \<and>
    (case m of None \<Rightarrow> True | Some (pos, sz) \<Rightarrow> \<exists>p. pos = int p \<and> p < i \<and> i - p < 4096 \<and> 3 \<le> sz \<and> sz \<le> 18 \<and>
      i + sz \<le> n \<and> (\<forall>j< sz. src ! (i + j) = src ! (p + j)))"
proof -
  let ?k = "hash_value (src ! i) (src ! (i + 1)) (src ! (i + 2))"
  let ?h = "h(?k := c_short i)"
  have h': "hash_inv (i + 1) ?h" 
    unfolding hash_inv_def
  proof
    fix k
    show "?h k = -1 \<or> (\<exists>p < i + 1. p < 65536 \<and> ?h k = c_short p)"
      using h [unfolded hash_inv_def, rule_format, of k] n
      by (cases "k = ?k") (auto intro: less_SucI)
  qed
  have read: "c_read src i = Inr (src ! i)" "c_read src (i + 1) = Inr (src ! (i + 1))"
    "c_read src (i + 2) = Inr (src ! (i + 2))" using n by simp_all
  show ?thesis
  proof (cases "h ?k \<noteq> -1 \<and> 0 \<le> int i - h ?k \<and> int i - h ?k < 4096")
    case True
    then obtain p where p: "p < i" "p < 65536" "h ?k = c_short p" using h unfolding hash_inv_def by blast
    with True have pos: "h ?k = int p" "i - p < 4096" by (auto simp: c_short_def split: if_splits)
    obtain sz where "match_size src i n (int p) 0 = Inr sz" "i + sz \<le> n" "sz \<le> 18" "\<forall>j< sz. src ! (i + j) = src ! (p + j)"
      using match_size_ok [of p i 0 n src] p n by auto
    moreover from this have "get_match src i n h = Inr (if 3 \<le> sz then Some (int p, sz) else None, ?h)"
      using True pos(1) read by (simp add: get_match_def Let_def)
    ultimately show ?thesis using pos(2) p(1) h'
      by (intro exI [of _ "if 3 \<le> sz then Some (int p, sz) else None"] exI [of _ ?h]) auto
  next
    case False
    have "get_match src i n h = Inr (None, ?h)"
      unfolding get_match_def Let_def read c_bind_simps by (rule if_not_P [OF False])
    then show ?thesis using h' by auto
  qed
qed

lemma literal_item: "i < length src \<Longrightarrow> expand_item False [src ! i] (take i src) = Inr ([], take (i + 1) src)"
  by (simp add: take_Suc_conv_app_nth)

lemma run_item:
  assumes "16 \<le> sz" "sz \<le> 4095" "i + sz \<le> length src" "\<forall>j < sz. src ! (i + j) = src ! i"
  shows "expand_item True (run_bytes sz (src ! i)) (take i src) = Inr ([], take (i + sz) src)"
proof -
  have hi: "(sz - 16) div 256 < 16" and lo: "(sz - 16) mod 256 < 256"
    using assms(2) by (auto simp: less_mult_imp_div_less)
  have "take (i + sz) src = take i src @ replicate sz (src ! i)"
  proof (rule nth_equalityI)
    fix j assume "j < length (take (i + sz) src)"
    then show "take (i + sz) src ! j = (take i src @ replicate sz (src ! i)) ! j"
      using assms(3) assms(4) [rule_format, of "j - i"] by (auto simp: nth_append)
  qed (use assms in simp)
  moreover have "unat (word_of_nat ((sz - 16) div 256) :: byte) = (sz - 16) div 256"
    by (rule unat_byte) (use hi in simp)
  moreover have "(sz - 16) div 256 * 256 + ((sz - 16) mod 256 + 16) = sz" using assms(1) by simp
  ultimately show ?thesis using hi lo by (simp add: run_bytes_def)
qed

lemma match_item:
  assumes "p < i" "i - p < 4096" "3 \<le> sz" "sz \<le> 18" "i + sz \<le> length src"
    and "\<forall>j < sz. src ! (i + j) = src ! (p + j)"
  shows "expand_item True (match_bytes (i - p) sz) (take i src) = Inr ([], take (i + sz) src)"
proof -
  define K where "K = (i - p) * 16 + (sz - 3)"
  obtain e where "sz = e + 3" "e < 16" using assms(3,4) by (intro that [of "sz - 3"]) auto
  then have K: "K < 65536" "K div 16 = i - p" "K mod 16 = sz - 3" using assms(1,2) by (auto simp: K_def)
  have "K div 256 < 256" using K(1) by (simp add: less_mult_imp_div_less)
  then have mb: "match_bytes (i - p) sz = [word_of_nat (K div 256), word_of_nat (K mod 256)]"
    "unat (word_of_nat (K div 256) :: byte) = K div 256" "unat (word_of_nat (K mod 256) :: byte) = K mod 256"
    using K(1) by (simp_all add: match_bytes_def K_def [symmetric])
  have "K = K mod 256 + (K div 256 * 16) * 16" by simp
  then have "K div 16 = (K mod 256 + (K div 256 * 16) * 16) div 16" by (rule arg_cong)
  then have "K div 256 * 16 + K mod 256 div 16 = K div 16"
    unfolding div_mult_self1 [of 16 "K mod 256" "K div 256 * 16", OF zero_neq_numeral [symmetric]] by simp
  then have sym: "K div 256 * 16 + K mod 256 div 16 = i - p" using K(2) by simp
  have "K mod 256 mod 16 = sz - 3" using K(3) by (simp add: mod_mod_cancel)
  moreover have "copy_back sz p (take i src) = Inr (take (i + sz) src)"
    by (rule copy_back_ok) (use assms in auto)
  ultimately show ?thesis using sym assms(1,3,5) by (simp add: mb Let_def)
qed

section \<open>The invariant of the compressor\<close>

text \<open>
  The groups written so far expand to \<open>d\<close>; the items of the open group take the expander from there
  to the data read so far.
\<close>

definition lz_inv :: "byte list \<Rightarrow> nat \<Rightarrow> lz_state \<Rightarrow> bool" where
  "lz_inv src n st \<longleftrightarrow> lz_src_index st \<le> n \<and> hash_inv (lz_src_index st) (lz_Hash st) \<and>
     (\<exists>P x y fs bytes d.
        lz_dst st = FLAG_COMPRESS # P @ [x, y] @ bytes \<and> lz_HeaderIndex st = length P + 1 \<and>
        length fs = lz_Bit st \<and> length fs \<le> 16 \<and> command_ok (lz_Command st) fs \<and>
        (\<forall>t. expand_loop (P @ t) [] 0 0 = expand_loop t d 0 0) \<and>
        items_ok fs bytes d (take (lz_src_index st) src))"

lemma expand_loop_command: "expand_loop t d W 0 = expand_loop t d 0 0"
  by (cases t) auto

lemma expand_loop_header:
  assumes "rest \<noteq> []"
  shows "expand_loop (ucast (drop_bit 8 W) # ucast W # rest) d 0 0 = expand_loop rest d W 16"
proof -
  have "expand_loop (ucast (drop_bit 8 W) # ucast W # rest) d 0 0 =
    (case expand_item (bit W 15) rest d of Inl e \<Rightarrow> Inl e
     | Inr (s, d') \<Rightarrow> expand_loop s d' (push_bit 1 W) 15)"
    by (simp add: command_bytes del: push_bit_of_1)
  moreover obtain b r where "rest = b # r" using assms by (cases rest) auto
  then have "(case expand_item (bit W 15) rest d of Inl e \<Rightarrow> Inl e
     | Inr (s, d') \<Rightarrow> expand_loop s d' (push_bit 1 W) 15) = expand_loop rest d W (Suc 15)"
    by (simp only: expand_loop.simps)
  ultimately show ?thesis by simp
qed

lemma items_ok_nonempty: "items_ok fs bytes d d' \<Longrightarrow> fs \<noteq> [] \<Longrightarrow> bytes \<noteq> []"
  by (cases fs) auto

text \<open>A group whose command word is written expands completely.\<close>

lemma group_expands:
  assumes "items_ok fs bytes d d'" and "command_ok W fs" and "length fs \<le> 16" and "fs \<noteq> []"
    and "length fs = 16 \<or> t = []"
  shows "expand_loop (ucast (drop_bit 8 (push_bit (16 - length fs) W)) # ucast (push_bit (16 - length fs) W) # bytes @ t) d 0 0 =
    expand_loop t d' 0 0"
proof -
  let ?W = "push_bit (16 - length fs) W"
  have "expand_loop (ucast (drop_bit 8 ?W) # ucast ?W # bytes @ t) d 0 0 = expand_loop (bytes @ t) d ?W 16"
    by (rule expand_loop_header) (use items_ok_nonempty [OF assms(1,4)] in simp)
  also obtain W' where "\<dots> = expand_loop t d' W' (16 - length fs)"
    using expand_loop_items [OF assms(1,3) order_refl command_ok_shifted [OF assms(2,3)]] by blast
  also have "\<dots> = expand_loop t d' 0 0"
    using assms(5) expand_loop_command by auto
  finally show ?thesis .
qed

lemma put_command_dst:
  "put_command (a # P @ [x, y] @ bytes) (length P + 1) W = a # P @ [ucast (drop_bit 8 W), ucast W] @ bytes"
  by (simp add: put_command_def list_update_append)

lemma flush_inv:
  assumes "lz_inv src n st"
  shows "lz_inv src n (flush_command st)" and "lz_Bit (flush_command st) < 16"
    and "length (lz_dst (flush_command st)) \<le> length (lz_dst st) + 2"
proof -
  from assms obtain P x y fs bytes d where st: "lz_src_index st \<le> n" "hash_inv (lz_src_index st) (lz_Hash st)"
    "lz_dst st = FLAG_COMPRESS # P @ [x, y] @ bytes" "lz_HeaderIndex st = length P + 1"
    "length fs = lz_Bit st" "length fs \<le> 16" "command_ok (lz_Command st) fs"
    "\<forall>t. expand_loop (P @ t) [] 0 0 = expand_loop t d 0 0" "items_ok fs bytes d (take (lz_src_index st) src)"
    unfolding lz_inv_def by blast
  show "lz_Bit (flush_command st) < 16" by (simp add: flush_command_def)
  show "length (lz_dst (flush_command st)) \<le> length (lz_dst st) + 2" by (simp add: flush_command_def put_command_def)
  show "lz_inv src n (flush_command st)"
  proof (cases "lz_Bit st > 15")
    case True
    then have len: "length fs = 16" using st(5,6) by simp
    let ?P = "P @ [ucast (drop_bit 8 (lz_Command st)), ucast (lz_Command st)] @ bytes"
    have ex: "expand_loop (?P @ t) [] 0 0 = expand_loop t (take (lz_src_index st) src) 0 0" for t
    proof -
      have "expand_loop (?P @ t) [] 0 0 =
        expand_loop (ucast (drop_bit 8 (lz_Command st)) # ucast (lz_Command st) # bytes @ t) d 0 0"
        using st(8) by simp
      also have "\<dots> = expand_loop t (take (lz_src_index st) src) 0 0"
        using group_expands [OF st(9,7,6), of t] len by fastforce
      finally show ?thesis .
    qed
    have "flush_command st = st\<lparr>lz_dst := FLAG_COMPRESS # ?P @ [0, 0], lz_HeaderIndex := length ?P + 1, lz_Bit := 0\<rparr>"
      unfolding flush_command_def st(3,4) put_command_dst using True by simp
    then show ?thesis using st(1,2) ex
      unfolding lz_inv_def
      by (simp add: command_ok_def del: append_assoc)
  next
    case False
    then show ?thesis using assms by (simp add: flush_command_def)
  qed
qed

lemma put_item_inv:
  assumes inv: "lz_inv src n st" and "lz_Bit st < 16" and "lz_src_index st + k \<le> n" and b: "bytes' \<noteq> []"
    and h: "hash_inv (lz_src_index st + k) h"
    and it: "expand_item f bytes' (take (lz_src_index st) src) = Inr ([], take (lz_src_index st + k) src)"
  shows "lz_inv src n (put_item f bytes' k h st)"
proof -
  from inv obtain P x y fs bytes d where st: "lz_src_index st \<le> n" "hash_inv (lz_src_index st) (lz_Hash st)"
    "lz_dst st = FLAG_COMPRESS # P @ [x, y] @ bytes" "lz_HeaderIndex st = length P + 1"
    "length fs = lz_Bit st" "length fs \<le> 16" "command_ok (lz_Command st) fs"
    "\<forall>t. expand_loop (P @ t) [] 0 0 = expand_loop t d 0 0" "items_ok fs bytes d (take (lz_src_index st) src)"
    unfolding lz_inv_def by blast
  have "command_ok (push_bit 1 (lz_Command st) + of_bool f) (fs @ [f])"
    by (rule command_ok_snoc [OF st(7)]) (use assms(2) st(5) in simp)
  moreover have "items_ok (fs @ [f]) (bytes @ bytes') d (take (lz_src_index st + k) src)"
    by (rule items_ok_snoc [OF st(9) b it])
  ultimately show ?thesis
    unfolding lz_inv_def put_item_def using st(3-5,8) assms(2,3) h
    by (intro conjI exI [of _ P] exI [of _ x] exI [of _ y] exI [of _ "fs @ [f]"] exI [of _ "bytes @ bytes'"] exI [of _ d])
      simp_all
qed

lemma hash_inv_mono: "hash_inv i h \<Longrightarrow> i \<le> j \<Longrightarrow> hash_inv j h"
  unfolding hash_inv_def by (meson less_le_trans)

lemma compress_step_inv:
  assumes inv: "lz_inv src n st" and n: "lz_src_index st < n" "n + 2 \<le> length src" "n < 65536"
  shows "\<exists>st'. compress_step src n st = Inr st' \<and> lz_inv src n st' \<and> lz_Bit st' \<noteq> 0 \<and>
    length (lz_dst st') \<le> length (lz_dst st) + 6"
proof -
  let ?st = "flush_command st" and ?i = "lz_src_index st"
  note fl = flush_inv [OF inv]
  have h: "hash_inv ?i (lz_Hash ?st)" using fl(1) by (simp add: lz_inv_def)
  obtain sz where sz: "run_size src ?i n 1 = Inr sz" "0 < sz" "?i + sz \<le> n" "sz \<le> 4095" "\<forall>j < sz. src ! (?i + j) = src ! ?i"
    using run_size_ok [of ?i 1 n src] n by auto
  have "\<exists>f bytes k h. compress_item src n ?st (src ! ?i) sz = Inr (put_item f bytes k h ?st) \<and> ?i + k \<le> n \<and>
    bytes \<noteq> [] \<and> length bytes \<le> 4 \<and> hash_inv (?i + k) h \<and> expand_item f bytes (take ?i src) = Inr ([], take (?i + k) src)"
  proof (cases "16 \<le> sz")
    case True
    then have "compress_item src n ?st (src ! ?i) sz = Inr (put_item True (run_bytes sz (src ! ?i)) sz (lz_Hash ?st) ?st)"
      by (simp add: compress_item_def)
    moreover have "expand_item True (run_bytes sz (src ! ?i)) (take ?i src) = Inr ([], take (?i + sz) src)"
      by (rule run_item [OF True sz(4) _ sz(5)]) (use sz n in simp)
    moreover have "run_bytes sz (src ! ?i) \<noteq> []" "length (run_bytes sz (src ! ?i)) \<le> 4" by (simp_all add: run_bytes_def)
    ultimately show ?thesis using sz(3) hash_inv_mono [OF h, of "?i + sz"] by (metis le_add1)
  next
    case False
    obtain m h' where m: "get_match src ?i n (lz_Hash ?st) = Inr (m, h')" "hash_inv (?i + 1) h'"
      "case m of None \<Rightarrow> True | Some (pos, sz) \<Rightarrow> \<exists>p. pos = int p \<and> p < ?i \<and> ?i - p < 4096 \<and> 3 \<le> sz \<and> sz \<le> 18 \<and>
        ?i + sz \<le> n \<and> (\<forall>j < sz. src ! (?i + j) = src ! (p + j))"
      using get_match_ok [OF h n] by blast
    show ?thesis
    proof (cases m)
      case None
      then have "compress_item src n ?st (src ! ?i) sz = Inr (put_item False [src ! ?i] 1 h' ?st)"
        using False m(1) by (simp add: compress_item_def)
      then show ?thesis using m(2) literal_item [of ?i src] n
        by (intro exI [of _ False] exI [of _ "[src ! ?i]"] exI [of _ 1] exI [of _ h']) simp
    next
      case (Some ps)
      then obtain p s where p: "m = Some (int p, s)" "p < ?i" "?i - p < 4096" "3 \<le> s" "s \<le> 18" "?i + s \<le> n"
        "\<forall>j < s. src ! (?i + j) = src ! (p + j)" using m(3) by (cases ps) auto
      have "nat (int ?i - int p) = ?i - p" by simp
      then have "compress_item src n ?st (src ! ?i) sz = Inr (put_item True (match_bytes (?i - p) s) s h' ?st)"
        using False m(1) p(1) by (simp add: compress_item_def)
      moreover have "expand_item True (match_bytes (?i - p) s) (take ?i src) = Inr ([], take (?i + s) src)"
        by (rule match_item [OF p(2-5) _ p(7)]) (use p n in simp)
      moreover have "match_bytes (?i - p) s \<noteq> []" "length (match_bytes (?i - p) s) \<le> 4"
        by (simp_all add: match_bytes_def Let_def)
      moreover have "hash_inv (?i + s) h'" by (rule hash_inv_mono [OF m(2)]) (use p in simp)
      ultimately show ?thesis using p(6) by blast
    qed
  qed
  then obtain f bytes k h' where it: "compress_item src n ?st (src ! ?i) sz = Inr (put_item f bytes k h' ?st)"
    "?i + k \<le> n" "bytes \<noteq> []" "length bytes \<le> 4" "hash_inv (?i + k) h'"
    "expand_item f bytes (take ?i src) = Inr ([], take (?i + k) src)" by blast
  have "lz_inv src n (put_item f bytes k h' ?st)"
    by (rule put_item_inv [OF fl(1,2)]) (use it in simp_all)
  moreover have "compress_step src n st = Inr (put_item f bytes k h' ?st)"
    using sz(1) it(1) n by (simp add: compress_step_def Let_def)
  ultimately show ?thesis using fl(3) it(4) by (auto simp: put_item_def)
qed

lemma compress_loop_inv:
  assumes "lz_inv src n st" and "lz_src_index st = 0 \<or> lz_Bit st \<noteq> 0" and n: "n + 2 \<le> length src" "n \<le> 65529"
  shows "\<exists>st'. compress_loop src n st = Inr st' \<and> lz_inv src n st' \<and> (lz_src_index st' = 0 \<or> lz_Bit st' \<noteq> 0) \<and>
    (n \<le> lz_src_index st' \<or> n < length (lz_dst st'))"
  using assms(1,2)
proof (induction "n - lz_src_index st" arbitrary: st rule: less_induct)
  case less
  show ?case
  proof (cases "lz_src_index st < n \<and> length (lz_dst st) \<le> n")
    case True
    obtain st' where st': "compress_step src n st = Inr st'" "lz_inv src n st'" "lz_Bit st' \<noteq> 0"
      "length (lz_dst st') \<le> length (lz_dst st) + 6"
      using compress_step_inv [OF less.prems(1) _ n(1)] True n(2) by auto
    then have "n - lz_src_index st' < n - lz_src_index st"
      using compress_step_advances True by (simp add: diff_less_mono2)
    from less.hyps [OF this st'(2)] st' True n show ?thesis by (subst compress_loop.simps) simp
  next
    case False
    then show ?thesis using less.prems by (subst compress_loop.simps) auto
  qed
qed

section \<open>Properties\<close>

text \<open>
  C26. Block compression loses nothing: for a source of up to 65529 bytes, with two readable bytes
  after it, \<open>compress_block\<close> returns at most one byte more than its input, and \<open>expand_block\<close> gives
  back exactly the input.
\<close>

theorem block_roundtrip:
  assumes "unat n + 2 \<le> length src" and "unat n \<le> 65529"
  shows "\<exists>dst. compress_block src n = Inr dst \<and> length dst \<le> unat n + 1 \<and>
    expand_block dst n = Inr (take (unat n) src)"
proof -
  let ?n = "unat n"
  have "lz_inv src ?n compress_init"
    unfolding lz_inv_def compress_init_def
    by (simp add: hash_inv_def command_ok_def)
  then obtain st where loop: "compress_loop src ?n compress_init = Inr st" "lz_inv src ?n st"
    "lz_src_index st = 0 \<or> lz_Bit st \<noteq> 0" "?n \<le> lz_src_index st \<or> ?n < length (lz_dst st)"
    using compress_loop_inv [of src ?n compress_init] assms by (auto simp: compress_init_def)
  from loop(2) obtain P x y fs bytes d where st: "lz_src_index st \<le> ?n"
    "lz_dst st = FLAG_COMPRESS # P @ [x, y] @ bytes" "lz_HeaderIndex st = length P + 1"
    "length fs = lz_Bit st" "length fs \<le> 16" "command_ok (lz_Command st) fs"
    "\<forall>t. expand_loop (P @ t) [] 0 0 = expand_loop t d 0 0" "items_ok fs bytes d (take (lz_src_index st) src)"
    unfolding lz_inv_def by blast
  let ?W = "push_bit (16 - lz_Bit st) (lz_Command st)"
  let ?dst = "FLAG_COMPRESS # P @ [ucast (drop_bit 8 ?W), ucast ?W] @ bytes"
  have put: "put_command (lz_dst st) (lz_HeaderIndex st) ?W = ?dst" unfolding st(2,3) by (rule put_command_dst)
  show ?thesis
  proof (cases "length ?dst > ?n")
    case True
    then have "compress_block src n = Inr (FLAG_COPY # take ?n src)"
      using loop(1) put assms(1) unfolding compress_block_def Let_def by (simp del: append_Cons append_assoc)
    then show ?thesis by (simp add: expand_block_def)
  next
    case False
    then have i: "lz_src_index st = ?n" "fs \<noteq> []"
      using loop(3,4) st(1,2,4) by auto
    have "expand_loop (P @ [ucast (drop_bit 8 ?W), ucast ?W] @ bytes) [] 0 0 = expand_loop [] (take ?n src) 0 0"
      using st(7) group_expands [OF st(8,6,5) i(2), of "[]"] i(1) st(4) by simp
    then have "expand_block ?dst n = Inr (take ?n src)"
      by (simp add: expand_block_def FLAG_COMPRESS_def FLAG_COPY_def)
    moreover have "compress_block src n = Inr ?dst"
      using loop(1) put False unfolding compress_block_def Let_def by (simp del: append_Cons append_assoc)
    ultimately show ?thesis using False by auto
  qed
qed

theorem block_roundtrip_witness:
  "\<exists>dst. compress_block (replicate 40 7 @ [1, 2]) 40 = Inr dst \<and> expand_block dst 40 = Inr (replicate 40 7)"
  using block_roundtrip [of 40 "replicate 40 7 @ [1, 2]"] by auto

end
