(* ===== verification/Sfl_Date.thy ===== *)
theory Sfl_Date
  imports Amq_Prelude "HOL-Library.Signed_Division"
begin

text \<open>
  Dates and times, \<^verbatim>\<open>tooling/base1/sfl/sfldate.c\<close> and the macros of \<^verbatim>\<open>sfldate.h\<close>.  A date is the
  number CCYYMMDD, a time the number HHMMSSCC.  The \<^verbatim>\<open>long\<close> values are integers; the divisions are
  those of C, which round towards zero (\<open>sdiv\<close>, \<open>smod\<close>).  A failing \<^verbatim>\<open>ASSERT\<close> is the value
  \<open>Inl Assert_Failed\<close>.

  The clock and the time zone of the machine are parameters: the current date and time
  \<open>now\<close>, and the C library functions \<^verbatim>\<open>mktime\<close>, \<^verbatim>\<open>localtime\<close> and \<^verbatim>\<open>gmtime\<close>.
\<close>

section \<open>The macros of sfldate.h\<close>

definition GET_CENTURY :: "int \<Rightarrow> int" where "GET_CENTURY d = d sdiv 1000000"
definition GET_CCYEAR :: "int \<Rightarrow> int" where "GET_CCYEAR d = d sdiv 10000"
definition GET_YEAR :: "int \<Rightarrow> int" where "GET_YEAR d = (d smod 1000000) sdiv 10000"
definition GET_MONTH :: "int \<Rightarrow> int" where "GET_MONTH d = (d smod 10000) sdiv 100"
definition GET_DAY :: "int \<Rightarrow> int" where "GET_DAY d = d smod 100"
definition GET_HOUR :: "int \<Rightarrow> int" where "GET_HOUR t = t sdiv 1000000"
definition GET_MINUTE :: "int \<Rightarrow> int" where "GET_MINUTE t = (t smod 1000000) sdiv 10000"
definition GET_SECOND :: "int \<Rightarrow> int" where "GET_SECOND t = (t smod 10000) sdiv 100"
definition GET_CENTI :: "int \<Rightarrow> int" where "GET_CENTI t = t smod 100"

definition MAKE_DATE :: "int \<Rightarrow> int \<Rightarrow> int \<Rightarrow> int \<Rightarrow> int" where
  "MAKE_DATE c y m d = c * 1000000 + y * 10000 + m * 100 + d"

definition MAKE_TIME :: "int \<Rightarrow> int \<Rightarrow> int \<Rightarrow> int \<Rightarrow> int" where
  "MAKE_TIME h m s c = h * 1000000 + m * 10000 + s * 100 + c"

definition INTERVAL_SEC :: int where "INTERVAL_SEC = 100"
definition INTERVAL_MIN :: int where "INTERVAL_MIN = 6000"
definition INTERVAL_HOUR :: int where "INTERVAL_HOUR = 360000"
definition INTERVAL_DAY :: int where "INTERVAL_DAY = 8640000"

definition c_assert :: "bool \<Rightarrow> 'a c_result \<Rightarrow> 'a c_result" where
  "c_assert b r = (if b then r else Inl Assert_Failed)"

lemma c_assert_simps [simp]: "c_assert True r = r" "c_assert False r = Inl Assert_Failed"
  by (simp_all add: c_assert_def)

section \<open>The calendar\<close>

definition leap_year :: "int \<Rightarrow> bool c_result" where
  "leap_year year = c_assert (year > 0)
     (Inr ((year smod 4 = 0 \<and> year smod 100 \<noteq> 0) \<or> year smod 400 = 0))"

definition month_days :: "int list" where
  "month_days = [31, 29, 31, 30, 31, 30, 31, 31, 30, 31, 30, 31]"

definition valid_date :: "int \<Rightarrow> bool c_result" where
  "valid_date date =
     (let month = GET_MONTH date; day = GET_DAY date in
      if date = 0 then Inr True
      else if month < 1 \<or> month > 12 then Inr False
      else if day < 1 \<or> day > month_days ! nat (month - 1) then Inr False
      else if month = 2 \<and> day = 29
      then c_bind (leap_year (GET_YEAR date)) (\<lambda>leap. Inr leap)
      else Inr True)"

definition valid_time :: "int \<Rightarrow> bool" where
  "valid_time time \<longleftrightarrow> time \<ge> 0 \<and> GET_SECOND time < 60 \<and> GET_MINUTE time < 60 \<and> GET_HOUR time < 24"

text \<open>\<^verbatim>\<open>ASSERT (valid_date (date))\<close>\<close>

definition assert_date :: "int \<Rightarrow> 'a c_result \<Rightarrow> 'a c_result" where
  "assert_date date r = c_bind (valid_date date) (\<lambda>ok. c_assert ok r)"

definition julian_days :: "int list" where
  "julian_days = [0, 31, 59, 90, 120, 151, 181, 212, 243, 273, 304, 334]"

definition julian_date :: "int \<Rightarrow> int c_result" where
  "julian_date date = assert_date date
     (if GET_MONTH date < 1 then Inl Out_Of_Bounds
      else let julian = julian_days ! nat (GET_MONTH date - 1) + GET_DAY date in
           if GET_MONTH date > 2
           then c_bind (leap_year (GET_YEAR date)) (\<lambda>leap. Inr (if leap then julian + 1 else julian))
           else Inr julian)"

definition day_of_week :: "int \<Rightarrow> int c_result" where
  "day_of_week date = assert_date date
     (let (month, year) = (if GET_MONTH date > 2 then (GET_MONTH date - 2, GET_CCYEAR date)
                           else (GET_MONTH date + 10, GET_CCYEAR date - 1));
          day = (13 * month - 1) sdiv 5 + GET_DAY date + year smod 100 + (year smod 100) sdiv 4 +
                (year sdiv 100) sdiv 4 - 2 * (year sdiv 100) + 77
      in Inr (day - 7 * (day sdiv 7)))"

definition date_to_days :: "int \<Rightarrow> int c_result" where
  "date_to_days date = assert_date date
     (let (month, year, century) =
            (if GET_MONTH date > 2 then (GET_MONTH date - 3, GET_YEAR date, GET_CENTURY date)
             else if GET_YEAR date \<noteq> 0 then (GET_MONTH date + 9, GET_YEAR date - 1, GET_CENTURY date)
             else (GET_MONTH date + 9, 99, GET_CENTURY date - 1))
      in Inr ((146097 * century) sdiv 4 + (1461 * year) sdiv 4 + (153 * month + 2) sdiv 5 +
              GET_DAY date + 1721119))"

definition days_to_date :: "int \<Rightarrow> int" where
  "days_to_date days0 =
     (let days = days0 - 1721119;
          century = (4 * days - 1) sdiv 146097;
          days = 4 * days - 1 - 146097 * century;
          day = days sdiv 4;
          year = (4 * day + 3) sdiv 1461;
          day = 4 * day + 3 - 1461 * year;
          day = (day + 4) sdiv 4;
          month = (5 * day - 3) sdiv 153;
          day = 5 * day - 3 - 153 * month;
          day = (day + 5) sdiv 5;
          (month, year, century) =
            (if month < 10 then (month + 3, year, century)
             else if year = 99 then (month - 9, 0, century + 1)
             else (month - 9, year + 1, century))
      in MAKE_DATE century year month day)"

definition next_weekday :: "int \<Rightarrow> int c_result" where
  "next_weekday date =
     c_bind (date_to_days date) (\<lambda>days. c_bind (day_of_week date) (\<lambda>dow.
       Inr (days_to_date (if dow = 5 then days + 3 else if dow = 6 then days + 2 else days + 1))))"

definition prev_weekday :: "int \<Rightarrow> int c_result" where
  "prev_weekday date =
     c_bind (date_to_days date) (\<lambda>days. c_bind (day_of_week date) (\<lambda>dow.
       Inr (days_to_date (if dow = 1 then days - 3 else if dow = 0 then days - 2 else days - 1))))"

definition week_of_year :: "int \<Rightarrow> int c_result" where
  "week_of_year date =
     (let year = GET_CCYEAR date - 1501;
          day = year * 365 + year sdiv 4 - 29872 + 1 - year sdiv 100 + (year - 300) sdiv 400
      in assert_date date (c_bind (julian_date date) (\<lambda>j. Inr ((j + (day + 4) smod 7) sdiv 7))))"

definition year_quarter :: "int \<Rightarrow> int c_result" where
  "year_quarter date = assert_date date (Inr ((GET_MONTH date - 1) sdiv 3 + 1))"

definition default_century :: "int \<Rightarrow> int" where
  "default_century date =
     (if GET_CENTURY date = 0 then date + (if GET_YEAR date > 50 then 19000000 else 20000000) else date)"

section \<open>Packed dates and times\<close>

definition pack_date :: "int \<Rightarrow> dbyte c_result" where
  "pack_date date = assert_date date
     (Inr (word_of_int ((GET_CCYEAR date - 1980) * 512 + GET_MONTH date * 32 + GET_DAY date)))"

definition pack_time :: "int \<Rightarrow> dbyte c_result" where
  "pack_time time = c_assert (valid_time time)
     (Inr (word_of_int (GET_HOUR time * 2048 + GET_MINUTE time * 32 + GET_SECOND time div 2)))"

definition unpack_date :: "dbyte \<Rightarrow> int" where
  "unpack_date packdate =
     (let year = uint (drop_bit 9 (packdate AND 0xfe00)) + 80
      in MAKE_DATE (if year > 80 then 19 else 20) year
           (uint (drop_bit 5 (packdate AND 0x01e0))) (uint (packdate AND 0x001f)))"

definition unpack_time :: "dbyte \<Rightarrow> int" where
  "unpack_time packtime =
     MAKE_TIME (uint (drop_bit 11 (packtime AND 0xf800))) (uint (drop_bit 5 (packtime AND 0x07e0)))
       (uint (packtime AND 0x001f) * 2) 0"

section \<open>Intervals\<close>

definition time_to_csecs :: "int \<Rightarrow> int c_result" where
  "time_to_csecs time = c_assert (valid_time time)
     (Inr (GET_HOUR time * INTERVAL_HOUR + GET_MINUTE time * INTERVAL_MIN + GET_SECOND time * INTERVAL_SEC +
           GET_CENTI time))"

definition csecs_to_time :: "int \<Rightarrow> int c_result" where
  "csecs_to_time csecs = c_assert (csecs \<ge> 0 \<and> csecs < INTERVAL_DAY)
     (let hour = csecs sdiv INTERVAL_HOUR; csecs = csecs smod INTERVAL_HOUR;
          mins = csecs sdiv INTERVAL_MIN; csecs = csecs smod INTERVAL_MIN;
          sec = csecs sdiv INTERVAL_SEC; csecs = csecs smod INTERVAL_SEC
      in Inr (MAKE_TIME hour mins sec csecs))"

text \<open>The loops that carry whole days out of, or into, the centiseconds.\<close>

function carry_days :: "int \<Rightarrow> int \<Rightarrow> int \<times> int" where
  "carry_days days csecs =
     (if csecs \<ge> INTERVAL_DAY then carry_days (days + 1) (csecs - INTERVAL_DAY) else (days, csecs))"
  by pat_completeness auto
termination by (relation "measure (\<lambda>(_, c). nat c)") (auto simp: INTERVAL_DAY_def)

function borrow_days :: "int \<Rightarrow> int \<Rightarrow> int \<times> int" where
  "borrow_days days csecs =
     (if csecs < 0 then borrow_days (days - 1) (csecs + INTERVAL_DAY) else (days, csecs))"
  by pat_completeness auto
termination by (relation "measure (\<lambda>(_, c). nat (- c))") (auto simp: INTERVAL_DAY_def)

declare carry_days.simps [simp del] borrow_days.simps [simp del]

text \<open>A missing date or time argument is a null pointer, which the code replaces by zero.\<close>

definition future_date :: "int \<times> int \<Rightarrow> int option \<Rightarrow> int option \<Rightarrow> int \<Rightarrow> int \<Rightarrow> (int \<times> int) c_result" where
  "future_date now date time days csecs =
     (let d = (case date of None \<Rightarrow> 0 | Some d \<Rightarrow> d); t = (case time of None \<Rightarrow> 0 | Some t \<Rightarrow> t);
          (d, t) = (if d = 0 \<and> t = 0 then now else (d, t))
      in c_bind (date_to_days d) (\<lambda>dd. c_bind (time_to_csecs t) (\<lambda>cs.
           let (days, csecs) = carry_days (dd + days) (cs + csecs)
           in c_bind (csecs_to_time csecs) (\<lambda>time'. Inr (days_to_date days, time')))))"

definition past_date :: "int \<times> int \<Rightarrow> int option \<Rightarrow> int option \<Rightarrow> int \<Rightarrow> int \<Rightarrow> (int \<times> int) c_result" where
  "past_date now date time days csecs =
     (let d = (case date of None \<Rightarrow> 0 | Some d \<Rightarrow> d); t = (case time of None \<Rightarrow> 0 | Some t \<Rightarrow> t);
          (d, t) = (if d = 0 \<and> t = 0 then now else (d, t))
      in c_bind (date_to_days d) (\<lambda>dd. c_bind (time_to_csecs t) (\<lambda>cs.
           let (days, csecs) = borrow_days (dd - days) (cs - csecs)
           in c_bind (csecs_to_time csecs) (\<lambda>time'. Inr (days_to_date days, time')))))"

definition date_diff :: "int \<Rightarrow> int \<Rightarrow> int \<Rightarrow> int \<Rightarrow> (int \<times> int) c_result" where
  "date_diff date1 time1 date2 time2 =
     c_bind (date_to_days date1) (\<lambda>d1. c_bind (date_to_days date2) (\<lambda>d2.
     c_bind (time_to_csecs time1) (\<lambda>t1. c_bind (time_to_csecs time2) (\<lambda>t2.
       let days = d1 - d2; csecs = t1 - t2 in
       c_assert (csecs \<ge> - INTERVAL_DAY \<and> csecs \<le> INTERVAL_DAY)
         (if days > 0 \<and> csecs < 0 then Inr (days - 1, csecs + INTERVAL_DAY)
          else if days < 0 \<and> csecs > 0 then Inr (days + 1, csecs - INTERVAL_DAY)
          else Inr (days, csecs))))))"

definition date_is_future :: "int \<times> int \<Rightarrow> int \<Rightarrow> int \<Rightarrow> bool c_result" where
  "date_is_future now date time = assert_date date (c_assert (valid_time time)
     (Inr (date > fst now \<or> (date = fst now \<and> time > snd now))))"

definition date_is_past :: "int \<times> int \<Rightarrow> int \<Rightarrow> int \<Rightarrow> bool c_result" where
  "date_is_past now date time = assert_date date (c_assert (valid_time time)
     (Inr (date < fst now \<or> (date = fst now \<and> time < snd now))))"

section \<open>System timers\<close>

record tm =
  tm_sec :: int
  tm_min :: int
  tm_hour :: int
  tm_mday :: int
  tm_mon :: int
  tm_year :: int
  tm_isdst :: int

definition date_to_timer :: "(tm \<Rightarrow> int) \<Rightarrow> int \<Rightarrow> int \<Rightarrow> int c_result" where
  "date_to_timer mktime date time = assert_date date (c_assert (valid_time time)
     (let timer = mktime \<lparr>tm_sec = GET_SECOND time, tm_min = GET_MINUTE time, tm_hour = GET_HOUR time,
            tm_mday = GET_DAY date, tm_mon = GET_MONTH date - 1, tm_year = GET_CCYEAR date - 1900, tm_isdst = -1\<rparr>
      in Inr (if timer = -1 then 0 else timer)))"

text \<open>Timers beyond \<^verbatim>\<open>LONG_MAX\<close> are moved back by steps of twenty years, which are added again.\<close>

function adjust_timer :: "nat \<Rightarrow> nat \<Rightarrow> int \<Rightarrow> nat \<times> int" where
  "adjust_timer long_max adjusted_time adjust_years =
     (if adjusted_time > long_max then adjust_timer long_max (adjusted_time - 631152000) (adjust_years + 20)
      else (adjusted_time, adjust_years))"
  by pat_completeness auto
termination by (relation "measure (\<lambda>(_, t, _). t)") auto

declare adjust_timer.simps [simp del]

definition safe_localtime :: "nat \<Rightarrow> (nat \<Rightarrow> tm) \<Rightarrow> int \<Rightarrow> tm" where
  "safe_localtime long_max localtime time_secs =
     (let (t, years) = adjust_timer long_max (nat (time_secs mod 2 ^ 32)) 0; s = localtime t
      in s\<lparr>tm_year := tm_year s + years\<rparr>)"

definition safe_gmtime :: "nat \<Rightarrow> (nat \<Rightarrow> tm option) \<Rightarrow> int \<Rightarrow> tm option" where
  "safe_gmtime long_max gmtime time_secs =
     (let (t, years) = adjust_timer long_max (nat (time_secs mod 2 ^ 32)) 0
      in case gmtime t of None \<Rightarrow> None | Some s \<Rightarrow> Some (s\<lparr>tm_year := tm_year s + years\<rparr>))"

definition tm_date :: "tm \<Rightarrow> int" where
  "tm_date s = (let year = tm_year s + 1900
                in MAKE_DATE (year sdiv 100) (year smod 100) (tm_mon s + 1) (tm_mday s))"

definition tm_time :: "tm \<Rightarrow> int" where
  "tm_time s = MAKE_TIME (tm_hour s) (tm_min s) (tm_sec s) 0"

definition timer_to_date :: "nat \<Rightarrow> (nat \<Rightarrow> tm) \<Rightarrow> int \<Rightarrow> int" where
  "timer_to_date long_max localtime time_secs =
     (if time_secs = 0 then 0 else tm_date (safe_localtime long_max localtime time_secs))"

definition timer_to_time :: "nat \<Rightarrow> (nat \<Rightarrow> tm) \<Rightarrow> int \<Rightarrow> int" where
  "timer_to_time long_max localtime time_secs =
     (if time_secs = 0 then 0 else tm_time (safe_localtime long_max localtime time_secs))"

definition timer_to_gmdate :: "nat \<Rightarrow> (nat \<Rightarrow> tm option) \<Rightarrow> int \<Rightarrow> int c_result" where
  "timer_to_gmdate long_max gmtime time_secs =
     (if time_secs = 0 then Inr 0
      else case safe_gmtime long_max gmtime time_secs of None \<Rightarrow> Inl Null_Pointer | Some s \<Rightarrow> Inr (tm_date s))"

definition timer_to_gmtime :: "nat \<Rightarrow> (nat \<Rightarrow> tm option) \<Rightarrow> int \<Rightarrow> int c_result" where
  "timer_to_gmtime long_max gmtime time_secs =
     (if time_secs = 0 then Inr 0
      else case safe_gmtime long_max gmtime time_secs of None \<Rightarrow> Inl Null_Pointer | Some s \<Rightarrow> Inr (tm_time s))"

definition local_to_gmt ::
    "nat \<Rightarrow> (nat \<Rightarrow> tm) \<Rightarrow> (tm \<Rightarrow> int) \<Rightarrow> int \<Rightarrow> int \<Rightarrow> int \<Rightarrow> (int \<times> int) c_result" where
  "local_to_gmt long_max localtime mktime timezone date time =
     c_bind (date_to_timer mktime date time) (\<lambda>timer.
       let s = safe_localtime long_max localtime (timer + timezone) in Inr (tm_date s, tm_time s))"

definition gmt_to_local ::
    "nat \<Rightarrow> (nat \<Rightarrow> tm) \<Rightarrow> (tm \<Rightarrow> int) \<Rightarrow> int \<Rightarrow> int \<Rightarrow> int \<Rightarrow> (int \<times> int) c_result" where
  "gmt_to_local long_max localtime mktime timezone gmt_date gmt_time =
     c_bind (date_to_timer mktime gmt_date gmt_time) (\<lambda>timer.
       let s = safe_localtime long_max localtime (timer - timezone) in Inr (tm_date s, tm_time s))"

section \<open>Division of numbers that are not negative\<close>

lemma sdiv_nonneg [simp]: "0 \<le> a \<Longrightarrow> 0 < b \<Longrightarrow> a sdiv b = a div (b :: int)"
  by (cases "a = 0") (simp_all add: signed_divide_int_def)

lemma smod_nonneg [simp]: "0 \<le> a \<Longrightarrow> 0 < b \<Longrightarrow> a smod b = a mod (b :: int)"
  by (cases "a = 0") (simp_all add: signed_modulo_int_def)

lemma div_eqI: "b * q \<le> a \<Longrightarrow> a < b * q + b \<Longrightarrow> a div b = (q :: int)"
  using int_div_pos_eq [of a b q "a - b * q"] by auto

section \<open>The fields of a date\<close>

text \<open>A date that passes the checks of \<open>valid_date\<close>, by its fields.\<close>

definition date_ok :: "int \<Rightarrow> int \<Rightarrow> int \<Rightarrow> int \<Rightarrow> bool" where
  "date_ok c y m d \<longleftrightarrow> 0 \<le> c \<and> 0 \<le> y \<and> y < 100 \<and> 1 \<le> m \<and> m \<le> 12 \<and> 1 \<le> d \<and> d \<le> month_days ! nat (m - 1) \<and>
     (m = 2 \<and> d = 29 \<longrightarrow> y \<noteq> 0 \<and> y mod 4 = 0)"

lemma month_cases:
  assumes "1 \<le> m" "m \<le> (12 :: int)"
  obtains "m = 1" | "m = 2" | "m = 3" | "m = 4" | "m = 5" | "m = 6" | "m = 7" | "m = 8" | "m = 9"
    | "m = 10" | "m = 11" | "m = 12"
proof -
  have "m = 1 \<or> m = 2 \<or> m = 3 \<or> m = 4 \<or> m = 5 \<or> m = 6 \<or> m = 7 \<or> m = 8 \<or> m = 9 \<or> m = 10 \<or> m = 11 \<or> m = 12"
    using assms by presburger
  then show thesis using that by blast
qed

lemma month_days_le: "1 \<le> m \<Longrightarrow> m \<le> 12 \<Longrightarrow> month_days ! nat (m - 1) \<le> 31"
  by (erule month_cases) (simp_all add: month_days_def)

lemma date_fields:
  assumes "0 \<le> c" "0 \<le> y" "y < 100" "0 \<le> m" "m < 100" "0 \<le> d" "d < 100"
  shows "GET_CENTURY (MAKE_DATE c y m d) = c" "GET_YEAR (MAKE_DATE c y m d) = y"
    "GET_MONTH (MAKE_DATE c y m d) = m" "GET_DAY (MAKE_DATE c y m d) = d"
    "GET_CCYEAR (MAKE_DATE c y m d) = 100 * c + y"
proof -
  let ?x = "c * 1000000 + y * 10000 + m * 100 + d"
  have nn: "0 \<le> ?x" and nn6: "0 \<le> y * 10000 + m * 100 + d" and nn4: "0 \<le> m * 100 + d" using assms by simp_all
  have 6: "?x div 1000000 = c" by (rule div_eqI) (use assms in simp_all)
  then have r6: "?x mod 1000000 = y * 10000 + m * 100 + d" by (simp add: minus_div_mult_eq_mod [symmetric])
  have 4: "?x div 10000 = 100 * c + y" by (rule div_eqI) (use assms in simp_all)
  then have r4: "?x mod 10000 = m * 100 + d" by (simp add: minus_div_mult_eq_mod [symmetric])
  have "?x div 100 = 10000 * c + 100 * y + m" by (rule div_eqI) (use assms in simp_all)
  then have r2: "?x mod 100 = d" by (simp add: minus_div_mult_eq_mod [symmetric])
  have "(y * 10000 + m * 100 + d) div 10000 = y" by (rule div_eqI) (use assms in simp_all)
  moreover have "(m * 100 + d) div 100 = m" by (rule div_eqI) (use assms in simp_all)
  ultimately show "GET_CENTURY (MAKE_DATE c y m d) = c" "GET_YEAR (MAKE_DATE c y m d) = y"
    "GET_MONTH (MAKE_DATE c y m d) = m" "GET_DAY (MAKE_DATE c y m d) = d"
    "GET_CCYEAR (MAKE_DATE c y m d) = 100 * c + y"
    unfolding MAKE_DATE_def GET_CENTURY_def GET_YEAR_def GET_MONTH_def GET_DAY_def GET_CCYEAR_def
      smod_nonneg [OF nn zero_less_numeral] sdiv_nonneg [OF nn zero_less_numeral] 6 r6 4 r4 r2
      sdiv_nonneg [OF nn6 zero_less_numeral] sdiv_nonneg [OF nn4 zero_less_numeral] by simp_all
qed

lemma date_digits:
  "d = d div 1000000 * 1000000 + d mod 1000000 div 10000 * 10000 + d mod 10000 div 100 * 100 + d mod (100 :: int)"
proof -
  have sum: "a = b + r \<Longrightarrow> r = c + s \<Longrightarrow> s = e + t \<Longrightarrow> a = b + c + e + t" for a b c e r s t :: int
    by simp
  have "d mod 1000000 = d mod 1000000 div 10000 * 10000 + d mod 10000"
    using div_mult_mod_eq [of "d mod 1000000" 10000] by (simp add: mod_mod_cancel)
  moreover have "d mod 10000 = d mod 10000 div 100 * 100 + d mod 100"
    using div_mult_mod_eq [of "d mod 10000" 100] by (simp add: mod_mod_cancel)
  moreover have "d = d div 1000000 * 1000000 + d mod 1000000" by simp
  ultimately show ?thesis by (intro sum)
qed

lemma date_split:
  assumes "0 \<le> d"
  shows "d = MAKE_DATE (GET_CENTURY d) (GET_YEAR d) (GET_MONTH d) (GET_DAY d)"
    "0 \<le> GET_CENTURY d" "0 \<le> GET_YEAR d" "GET_YEAR d < 100" "0 \<le> GET_MONTH d" "GET_MONTH d < 100"
    "0 \<le> GET_DAY d" "GET_DAY d < 100"
proof -
  have g: "GET_CENTURY d = d div 1000000" "GET_YEAR d = d mod 1000000 div 10000"
    "GET_MONTH d = d mod 10000 div 100" "GET_DAY d = d mod 100"
    using assms by (simp_all add: GET_CENTURY_def GET_YEAR_def GET_MONTH_def GET_DAY_def)
  show "d = MAKE_DATE (GET_CENTURY d) (GET_YEAR d) (GET_MONTH d) (GET_DAY d)"
    unfolding g MAKE_DATE_def
    by (rule date_digits)
  show "0 \<le> GET_CENTURY d" "0 \<le> GET_YEAR d" "GET_YEAR d < 100" "0 \<le> GET_MONTH d" "GET_MONTH d < 100"
    "0 \<le> GET_DAY d" "GET_DAY d < 100"
    using assms zdiv_mono1 [of "d mod 1000000" 999999 10000] zdiv_mono1 [of "d mod 10000" 9999 100]
      pos_mod_bound [of 1000000 d] pos_mod_bound [of 10000 d]
    unfolding g by (simp_all add: pos_imp_zdiv_nonneg_iff)
qed

lemma valid_date_ok:
  assumes "valid_date d = Inr True" and "0 < d"
  shows "\<exists>c y m dd. d = MAKE_DATE c y m dd \<and> date_ok c y m dd"
proof -
  have "date_ok (GET_CENTURY d) (GET_YEAR d) (GET_MONTH d) (GET_DAY d)"
    using assms date_split [of d]
    by (auto simp: valid_date_def date_ok_def leap_year_def c_assert_def Let_def split: if_splits)
  then show ?thesis using date_split(1) [of d] assms(2) by (metis less_le)
qed

lemma date_ok_valid:
  assumes "date_ok c y m d"
  shows "valid_date (MAKE_DATE c y m d) = Inr True" and "0 < MAKE_DATE c y m d"
proof -
  have b: "0 \<le> c" "0 \<le> y" "y < 100" "1 \<le> m" "m \<le> 12" "1 \<le> d" "d \<le> 31"
    using assms month_days_le [of m] by (auto simp: date_ok_def)
  then show "0 < MAKE_DATE c y m d" by (simp add: MAKE_DATE_def)
  moreover have "GET_CENTURY (MAKE_DATE c y m d) = c" "GET_YEAR (MAKE_DATE c y m d) = y"
    "GET_MONTH (MAKE_DATE c y m d) = m" "GET_DAY (MAKE_DATE c y m d) = d"
    by (rule date_fields; use b in simp)+
  ultimately show "valid_date (MAKE_DATE c y m d) = Inr True"
    using assms by (auto simp: valid_date_def date_ok_def leap_year_def Let_def)
qed

section \<open>Day numbers\<close>

text \<open>
  The day number of a date, from the fields with the year starting in March, as \<open>date_to_days\<close>
  computes it.
\<close>

definition day_number :: "int \<Rightarrow> int \<Rightarrow> int \<Rightarrow> int \<Rightarrow> int" where
  "day_number c y m d = (146097 * c) div 4 + (1461 * y) div 4 + (153 * m + 2) div 5 + d + 1721119"

text \<open>The fields with the year starting in March.\<close>

definition march_ok :: "int \<Rightarrow> int \<Rightarrow> int \<Rightarrow> int \<Rightarrow> bool" where
  "march_ok c y m d \<longleftrightarrow> 0 \<le> c \<and> 0 \<le> y \<and> y < 100 \<and> 0 \<le> m \<and> m \<le> 11 \<and> 1 \<le> d \<and>
     d \<le> [31, 30, 31, 30, 31, 31, 30, 31, 30, 31, 31, 29] ! nat m \<and>
     (m = 11 \<and> d = 29 \<longrightarrow> y mod 4 = 3 \<and> (y = 99 \<longrightarrow> c mod 4 = 3))"

definition from_march :: "int \<Rightarrow> int \<Rightarrow> int \<Rightarrow> int \<Rightarrow> int" where
  "from_march c y m d =
     (if m < 10 then MAKE_DATE c y (m + 3) d
      else if y = 99 then MAKE_DATE (c + 1) 0 (m - 9) d else MAKE_DATE c (y + 1) (m - 9) d)"

lemma march_month_cases:
  assumes "0 \<le> m" "m \<le> (11 :: int)"
  obtains "m = 0" | "m = 1" | "m = 2" | "m = 3" | "m = 4" | "m = 5" | "m = 6" | "m = 7" | "m = 8"
    | "m = 9" | "m = 10" | "m = 11"
proof -
  have "m = 0 \<or> m = 1 \<or> m = 2 \<or> m = 3 \<or> m = 4 \<or> m = 5 \<or> m = 6 \<or> m = 7 \<or> m = 8 \<or> m = 9 \<or> m = 10 \<or> m = 11"
    using assms by presburger
  then show thesis using that by blast
qed

text \<open>The three steps of \<open>days_to_date\<close>: month and day, year of the century, century.\<close>

lemma month_step:
  assumes "march_ok c y m d" and "s = (153 * m + 2) div 5 + d"
  shows "(5 * s - 3) div 153 = m" and "(5 * s - 3 - 153 * m + 5) div 5 = d" and "1 \<le> s" and "s \<le> 366"
    and "s = 366 \<Longrightarrow> m = 11 \<and> d = 29"
proof -
  have m: "0 \<le> m" "m \<le> 11" using assms(1) by (auto simp: march_ok_def)
  have "(5 * s - 3) div 153 = m \<and> (5 * s - 3 - 153 * m + 5) div 5 = d \<and> 1 \<le> s \<and> s \<le> 366 \<and> (s = 366 \<longrightarrow> m = 11 \<and> d = 29)"
    using m assms by (cases rule: march_month_cases) (auto simp: march_ok_def intro!: div_eqI)
  then show "(5 * s - 3) div 153 = m" and "(5 * s - 3 - 153 * m + 5) div 5 = d" and "1 \<le> s" and "s \<le> 366"
    and "s = 366 \<Longrightarrow> m = 11 \<and> d = 29" by auto
qed

lemma year_step:
  fixes y s :: int
  assumes "0 \<le> y" and "1 \<le> s" and "s \<le> 366" and "s = 366 \<Longrightarrow> y mod 4 = 3" and "r = (1461 * y) div 4 + s"
  shows "(4 * (r - 1) + 3) div 1461 = y" and "(4 * (r - 1) + 3 - 1461 * y + 4) div 4 = s"
proof -
  define q where "q = y div 4"
  define e where "e = y mod 4"
  have y: "y = 4 * q + e" and e: "0 \<le> e" "e < 4" by (simp_all add: q_def e_def)
  have "(1461 * y) div 4 = 1461 * q + 365 * e" by (rule div_eqI) (use e in \<open>simp_all add: y\<close>)
  then have r: "4 * (r - 1) + 3 = 1461 * y + (4 * s - e - 1)" using assms(5) y by simp
  have "s = 366 \<Longrightarrow> e = 3" using assms(4) by (simp add: e_def)
  then have "4 * s - e - 1 < 1461" using assms(3) e by linarith
  then show "(4 * (r - 1) + 3) div 1461 = y" unfolding r by (intro div_eqI) (use assms(2) e in auto)
  show "(4 * (r - 1) + 3 - 1461 * y + 4) div 4 = s" unfolding r by (rule div_eqI) (use e in auto)
qed

lemma century_step:
  fixes c r :: int
  assumes "0 \<le> c" and "1 \<le> r" and "r \<le> 36525" and "r = 36525 \<Longrightarrow> c mod 4 = 3" and "n = (146097 * c) div 4 + r"
  shows "(4 * n - 1) div 146097 = c" and "(4 * n - 1 - 146097 * c) div 4 = r - 1"
proof -
  define q where "q = c div 4"
  define e where "e = c mod 4"
  have c: "c = 4 * q + e" and e: "0 \<le> e" "e < 4" by (simp_all add: q_def e_def)
  have "(146097 * c) div 4 = 146097 * q + 36524 * e" by (rule div_eqI) (use e in \<open>simp_all add: c\<close>)
  then have n: "4 * n - 1 = 146097 * c + (4 * r - e - 1)" using assms(5) c by simp
  have "r = 36525 \<Longrightarrow> e = 3" using assms(4) by (simp add: e_def)
  then have "4 * r - e - 1 < 146097" using assms(3) e by linarith
  then show "(4 * n - 1) div 146097 = c" unfolding n by (intro div_eqI) (use assms(2) e in auto)
  show "(4 * n - 1 - 146097 * c) div 4 = r - 1" unfolding n by (rule div_eqI) (use e in auto)
qed

lemma year_days_le:
  fixes y :: int
  shows "0 \<le> y \<Longrightarrow> y < 100 \<Longrightarrow> (1461 * y) div 4 \<le> 36159 \<and> (y \<noteq> 99 \<longrightarrow> (1461 * y) div 4 \<le> 35794)"
  using zdiv_mono1 [of "1461 * y" "1461 * 99" 4] zdiv_mono1 [of "1461 * y" "1461 * 98" 4] by auto

lemma days_to_date_day_number:
  assumes ok: "march_ok c y m d"
  shows "days_to_date (day_number c y m d) = from_march c y m d"
proof -
  define s where "s = (153 * m + 2) div 5 + d"
  define r where "r = (1461 * y) div 4 + s"
  define n where "n = (146097 * c) div 4 + r"
  note ms = month_step [OF ok s_def]
  have b: "0 \<le> c" "0 \<le> y" "y < 100" using ok by (auto simp: march_ok_def)
  have leap: "s = 366 \<Longrightarrow> y mod 4 = 3 \<and> (y = 99 \<longrightarrow> c mod 4 = 3)" using ms(5) ok by (auto simp: march_ok_def)
  note ys = year_step [OF b(2) ms(3,4) conjunct1 [OF leap] r_def]
  have r: "1 \<le> r" "r \<le> 36525" "r = 36525 \<Longrightarrow> c mod 4 = 3"
    using ms(3,4) leap year_days_le [OF b(2,3)] b pos_imp_zdiv_nonneg_iff [of 4 "1461 * y"]
    by (auto simp: r_def)
  note cs = century_step [OF b(1) r n_def]
  have "0 \<le> (146097 * c) div 4" using b by (simp add: pos_imp_zdiv_nonneg_iff)
  then have n: "1 \<le> n" using r by (simp add: n_def)
  have dn: "day_number c y m d = n + 1721119" by (simp add: day_number_def n_def r_def s_def)
  have c: "(4 * (day_number c y m d - 1721119) - 1) sdiv 146097 = c" unfolding dn using n cs(1) by simp
  have "0 \<le> 4 * n - 1 - 146097 * c" using cs(1) pos_mod_sign [of 146097 "4 * n - 1"]
    by (metis minus_mult_div_eq_mod zero_less_numeral)
  then have day: "(4 * (day_number c y m d - 1721119) - 1 - 146097 * c) sdiv 4 = r - 1"
    unfolding dn using cs(2) by simp
  have y: "(4 * (r - 1) + 3) sdiv 1461 = y" using ys(1) r by simp
  have "0 \<le> 4 * (r - 1) + 3 - 1461 * y" using ys(1) pos_mod_sign [of 1461 "4 * (r - 1) + 3"]
    by (metis minus_mult_div_eq_mod zero_less_numeral)
  then have s: "(4 * (r - 1) + 3 - 1461 * y + 4) sdiv 4 = s" using ys(2) by simp
  have m: "(5 * s - 3) sdiv 153 = m" using ms(1,3) by simp
  have "0 \<le> 5 * s - 3 - 153 * m" using ms(1) pos_mod_sign [of 153 "5 * s - 3"]
    by (metis minus_mult_div_eq_mod zero_less_numeral)
  then have d: "(5 * s - 3 - 153 * m + 5) sdiv 5 = d" using ms(2) by simp
  show ?thesis
    unfolding days_to_date_def Let_def c day y s m d from_march_def by simp
qed

text \<open>The fields of a date, with the year starting in March.\<close>

definition to_march :: "int \<Rightarrow> int \<Rightarrow> int \<Rightarrow> int \<Rightarrow> int \<times> int \<times> int" where
  "to_march c y m d = (if m > 2 then (c, y, m - 3) else if y \<noteq> 0 then (c, y - 1, m + 9) else (c - 1, 99, m + 9))"

definition date_number :: "int \<Rightarrow> int \<Rightarrow> int \<Rightarrow> int \<Rightarrow> int" where
  "date_number c y m d = (case to_march c y m d of (c', y', m') \<Rightarrow> day_number c' y' m' d)"

lemma date_ok_march:
  assumes "date_ok c y m d" and "1 \<le> c" and "to_march c y m d = (c', y', m')"
  shows "march_ok c' y' m' d" and "from_march c' y' m' d = MAKE_DATE c y m d"
proof -
  have m: "1 \<le> m" "m \<le> 12" using assms(1) by (auto simp: date_ok_def)
  have "march_ok c' y' m' d \<and> from_march c' y' m' d = MAKE_DATE c y m d"
    using m assms
    by (cases rule: month_cases;
        auto simp: date_ok_def march_ok_def to_march_def from_march_def month_days_def split: if_splits; presburger)
  then show "march_ok c' y' m' d" and "from_march c' y' m' d = MAKE_DATE c y m d" by auto
qed

lemma date_to_days_number:
  assumes ok: "date_ok c y m d" and "1 \<le> c"
  shows "date_to_days (MAKE_DATE c y m d) = Inr (date_number c y m d)"
proof -
  have b: "0 \<le> c" "0 \<le> y" "y < 100" "1 \<le> m" "m \<le> 12" "1 \<le> d" "d \<le> 31"
    using ok month_days_le [of m] by (auto simp: date_ok_def)
  have g: "GET_CENTURY (MAKE_DATE c y m d) = c" "GET_YEAR (MAKE_DATE c y m d) = y"
    "GET_MONTH (MAKE_DATE c y m d) = m" "GET_DAY (MAKE_DATE c y m d) = d"
    by (rule date_fields; use b in simp)+
  obtain c' y' m' where t: "to_march c y m d = (c', y', m')" by (cases "to_march c y m d")
  have nn: "0 \<le> c'" "0 \<le> y'" "0 \<le> m'" using date_ok_march(1) [OF assms t] by (auto simp: march_ok_def)
  have "date_to_days (MAKE_DATE c y m d) =
      Inr ((146097 * c') sdiv 4 + (1461 * y') sdiv 4 + (153 * m' + 2) sdiv 5 + d + 1721119)"
    using t unfolding date_to_days_def assert_date_def g date_ok_valid(1) [OF ok]
    by (auto simp: to_march_def split: if_splits)
  then show ?thesis using nn by (simp add: date_number_def t day_number_def)
qed

text \<open>The day number determines the date.\<close>

lemma days_to_date_number:
  assumes "date_ok c y m d" and "1 \<le> c"
  shows "days_to_date (date_number c y m d) = MAKE_DATE c y m d"
proof -
  obtain c' y' m' where t: "to_march c y m d = (c', y', m')" by (cases "to_march c y m d")
  show ?thesis
    using date_ok_march [OF assms t] days_to_date_day_number by (simp add: date_number_def t)
qed

text \<open>Every day number has a date: the three steps once more, from the number to the fields.\<close>

lemma century_fields:
  fixes n :: int
  assumes "1 \<le> n" and "c = (4 * n - 1) div 146097" and "r = (4 * n - 1 - 146097 * c) div 4 + 1"
  shows "0 \<le> c" "n = (146097 * c) div 4 + r" "1 \<le> r" "r \<le> 36525" "r = 36525 \<Longrightarrow> c mod 4 = 3"
proof -
  define q where "q = c div 4"
  define e where "e = c mod 4"
  define x where "x = 4 * n - 1 - 146097 * c"
  have c: "c = 4 * q + e" and e: "0 \<le> e" "e < 4" by (simp_all add: q_def e_def)
  have x: "0 \<le> x" "x < 146097" unfolding x_def assms(2) by (simp_all add: minus_mult_div_eq_mod)
  have d: "(146097 * c) div 4 = 146097 * q + 36524 * e" by (rule div_eqI) (use e in \<open>simp_all add: c\<close>)
  define k where "k = n - (146097 * q + 36524 * e)"
  have k: "x = 4 * k - 1 - e" by (simp add: k_def x_def c)
  have "x div 4 = k - 1" by (rule div_eqI) (use e k in auto)
  then have r: "r = k" unfolding assms(3) by (simp add: x_def [symmetric])
  show "0 \<le> c" using assms(1,2) by (simp add: pos_imp_zdiv_nonneg_iff)
  show "n = (146097 * c) div 4 + r" unfolding d r by (simp add: k_def)
  show "1 \<le> r" "r \<le> 36525" "r = 36525 \<Longrightarrow> c mod 4 = 3" using r k x e by (auto simp: e_def [symmetric])
qed

lemma year_fields:
  fixes r :: int
  assumes "1 \<le> r" and "r \<le> 36525" and "y = (4 * (r - 1) + 3) div 1461" and "s = (4 * (r - 1) + 3 - 1461 * y + 4) div 4"
  shows "0 \<le> y" "y < 100" "r = (1461 * y) div 4 + s" "1 \<le> s" "s \<le> 366" "s = 366 \<Longrightarrow> y mod 4 = 3 \<and> (y = 99 \<longrightarrow> r = 36525)"
proof -
  define q where "q = y div 4"
  define e where "e = y mod 4"
  define x where "x = 4 * (r - 1) + 3 - 1461 * y"
  have y: "y = 4 * q + e" and e: "0 \<le> e" "e < 4" by (simp_all add: q_def e_def)
  have x: "0 \<le> x" "x < 1461" unfolding x_def assms(3) by (simp_all add: minus_mult_div_eq_mod)
  have d: "(1461 * y) div 4 = 1461 * q + 365 * e" by (rule div_eqI) (use e in \<open>simp_all add: y\<close>)
  define k where "k = r - (1461 * q + 365 * e)"
  have k: "x = 4 * k - 1 - e" by (simp add: k_def x_def y)
  have s: "s = k" unfolding assms(4) x_def [symmetric] by (rule div_eqI) (use e k in auto)
  show "0 \<le> y" using assms(1,3) by (simp add: pos_imp_zdiv_nonneg_iff)
  show "y < 100" using assms(2) x(1) by (auto simp: x_def)
  show r: "r = (1461 * y) div 4 + s" unfolding d s by (simp add: k_def)
  show "1 \<le> s" "s \<le> 366" using s k x e by auto
  show "s = 366 \<Longrightarrow> y mod 4 = 3 \<and> (y = 99 \<longrightarrow> r = 36525)" using s k x e r by (auto simp: e_def [symmetric])
qed

lemma month_fields:
  fixes s :: int
  assumes "1 \<le> s" and "s \<le> 366" and "m = (5 * s - 3) div 153" and "d = (5 * s - 3 - 153 * m + 5) div 5"
  shows "0 \<le> m" "m \<le> 11" "s = (153 * m + 2) div 5 + d" "1 \<le> d"
    "d \<le> [31, 30, 31, 30, 31, 31, 30, 31, 30, 31, 31, 29] ! nat m" "m = 11 \<Longrightarrow> d = 29 \<Longrightarrow> s = 366"
proof -
  define x where "x = 5 * s - 3 - 153 * m"
  have x: "0 \<le> x" "x < 153" unfolding x_def assms(3) by (simp_all add: minus_mult_div_eq_mod)
  show m: "0 \<le> m" "m \<le> 11" using assms(1,2) x by (auto simp: x_def)
  have d: "d = (x + 5) div 5" using assms(4) by (simp add: x_def)
  define j where "j = (x + 5) mod 5"
  have j: "x + 5 = 5 * d + j" "0 \<le> j" "j < 5"
    unfolding d j_def by (simp_all only: mult_div_mod_eq pos_mod_sign pos_mod_bound zero_less_numeral)
  from m have "s = (153 * m + 2) div 5 + d \<and> 1 \<le> d \<and> d \<le> [31, 30, 31, 30, 31, 31, 30, 31, 30, 31, 31, 29] ! nat m \<and>
      (m = 11 \<longrightarrow> d = 29 \<longrightarrow> s = 366)"
    using x [unfolded x_def] j [unfolded x_def] assms(2)
    by (cases rule: march_month_cases) (simp_all, presburger+)
  then show "s = (153 * m + 2) div 5 + d" "1 \<le> d"
    "d \<le> [31, 30, 31, 30, 31, 31, 30, 31, 30, 31, 31, 29] ! nat m" "m = 11 \<Longrightarrow> d = 29 \<Longrightarrow> s = 366" by auto
qed

lemma day_number_exists:
  assumes "1721120 \<le> n"
  shows "\<exists>c y m d. march_ok c y m d \<and> n = day_number c y m d"
proof -
  define c r where "c = (4 * (n - 1721119) - 1) div 146097" and "r = (4 * (n - 1721119) - 1 - 146097 * c) div 4 + 1"
  define y s where "y = (4 * (r - 1) + 3) div 1461" and "s = (4 * (r - 1) + 3 - 1461 * y + 4) div 4"
  define m d where "m = (5 * s - 3) div 153" and "d = (5 * s - 3 - 153 * m + 5) div 5"
  have "1 \<le> n - 1721119" using assms by simp
  note c = century_fields [OF this c_def r_def]
  note y = year_fields [OF c(3,4) y_def s_def]
  note m = month_fields [OF y(4,5) m_def d_def]
  have "m = 11 \<Longrightarrow> d = 29 \<Longrightarrow> y mod 4 = 3 \<and> (y = 99 \<longrightarrow> c mod 4 = 3)" using m(6) y(6) c(5) by blast
  then have "march_ok c y m d" using c(1) y(1,2) m(1,2,4,5) by (auto simp: march_ok_def)
  moreover have "n = day_number c y m d" using c(2) y(3) m(3) by (simp add: day_number_def)
  ultimately show ?thesis by blast
qed

end
