(* ===== verification/Sfl_Date_Properties.thy ===== *)
theory Sfl_Date_Properties
  imports Sfl_Date
begin

text \<open>
  What the date functions of \<open>Sfl_Date\<close> guarantee: the conversions between dates and day numbers are
  inverse to each other, the weekday agrees with the day number, packing and unpacking, and the
  arithmetic on dates and times.
\<close>

section \<open>Valid dates by their fields\<close>

lemma century_of:
  assumes "date_ok c y m d" and "1000000 \<le> MAKE_DATE c y m d"
  shows "1 \<le> c"
proof -
  have "y < 100" "m \<le> 12" "d \<le> 31" using assms(1) month_days_le [of m] by (auto simp: date_ok_def)
  then show ?thesis using assms(2) by (auto simp: MAKE_DATE_def)
qed

lemma valid_dateE:
  assumes "valid_date d = Inr True" and "1000000 \<le> d"
  obtains c y m dd where "d = MAKE_DATE c y m dd" "date_ok c y m dd" "1 \<le> c"
    "date_to_days d = Inr (date_number c y m dd)" "days_to_date (date_number c y m dd) = d"
proof -
  obtain c y m dd where d: "d = MAKE_DATE c y m dd" "date_ok c y m dd" using valid_date_ok [OF assms(1)] assms(2) by auto
  moreover have "1 \<le> c" by (rule century_of) (use d assms(2) in auto)
  ultimately show thesis using that date_to_days_number days_to_date_number by blast
qed

lemma day_number_bound:
  assumes "march_ok c y m d" and "1757644 \<le> day_number c y m d"
  shows "1 \<le> c"
proof (rule ccontr)
  assume "\<not> 1 \<le> c"
  then have c: "c = 0" using assms(1) by (simp add: march_ok_def)
  note ms = month_step [OF assms(1) refl]
  have "(1461 * y) div 4 + ((153 * m + 2) div 5 + d) \<le> 36524"
    using ms(4,5) year_days_le [of y] assms(1) by (auto simp: march_ok_def c)
  then show False using assms(2) by (simp add: day_number_def c)
qed

lemma from_march_ok:
  assumes "march_ok c y m d" and "1 \<le> c"
  shows "(y = 99 \<and> m = 11 \<and> d = 29 \<and> from_march c y m d = MAKE_DATE (c + 1) 0 2 29) \<or>
    (\<exists>c' y' m'. date_ok c' y' m' d \<and> 1 \<le> c' \<and> from_march c y m d = MAKE_DATE c' y' m' d \<and>
      date_number c' y' m' d = day_number c y m d)"
proof -
  have m: "0 \<le> m" "m \<le> 11" using assms(1) by (auto simp: march_ok_def)
  define c' y' m' where "c' = (if m < 10 \<or> y \<noteq> 99 then c else c + 1)"
    and "y' = (if m < 10 then y else if y = 99 then 0 else y + 1)" and "m' = (if m < 10 then m + 3 else m - 9)"
  have f: "from_march c y m d = MAKE_DATE c' y' m' d" by (simp add: from_march_def c'_def y'_def m'_def)
  have "date_number c' y' m' d = day_number c y m d"
    using m assms(1) by (auto simp: date_number_def to_march_def c'_def y'_def m'_def march_ok_def)
  moreover have "(y = 99 \<and> m = 11 \<and> d = 29) \<or> date_ok c' y' m' d"
    using m assms
    by (cases rule: march_month_cases;
        auto simp: march_ok_def date_ok_def month_days_def c'_def y'_def m'_def split: if_splits; presburger)
  moreover have "1 \<le> c'" using assms(2) by (simp add: c'_def)
  moreover have "y = 99 \<Longrightarrow> m = 11 \<Longrightarrow> d = 29 \<Longrightarrow> from_march c y m d = MAKE_DATE (c + 1) 0 2 29"
    by (simp add: from_march_def)
  ultimately show ?thesis using f by blast
qed

lemma century_leap_day:
  assumes "0 \<le> c"
  shows "valid_date (MAKE_DATE c 0 2 29) = Inl Assert_Failed"
proof -
  have g: "GET_YEAR (MAKE_DATE c 0 2 29) = 0" "GET_MONTH (MAKE_DATE c 0 2 29) = 2" "GET_DAY (MAKE_DATE c 0 2 29) = 29"
    by (rule date_fields; use assms in simp)+
  have "MAKE_DATE c 0 2 29 \<noteq> 0" using assms by (simp add: MAKE_DATE_def)
  then show ?thesis by (simp add: valid_date_def g month_days_def leap_year_def)
qed

lemma days_to_date_cases:
  assumes "1757644 \<le> n"
  obtains (leap) c where "1 \<le> c" "days_to_date n = MAKE_DATE c 0 2 29"
  | (plain) c y m d where "date_ok c y m d" "1 \<le> c" "days_to_date n = MAKE_DATE c y m d"
      "date_to_days (days_to_date n) = Inr n"
proof -
  obtain c y m d where ok: "march_ok c y m d" and n: "n = day_number c y m d"
    using day_number_exists [of n] assms by auto
  have c: "1 \<le> c" by (rule day_number_bound [OF ok]) (use assms n in simp)
  have dd: "days_to_date n = from_march c y m d" unfolding n by (rule days_to_date_day_number [OF ok])
  from from_march_ok [OF ok c] show thesis
  proof (elim disjE exE conjE)
    assume "from_march c y m d = MAKE_DATE (c + 1) 0 2 29"
    then show thesis using dd c leap [of "c + 1"] by simp
  next
    fix c' y' m' assume "date_ok c' y' m' d" "1 \<le> c'" "from_march c y m d = MAKE_DATE c' y' m' d"
      "date_number c' y' m' d = day_number c y m d"
    then show thesis using dd n date_to_days_number plain by metis
  qed
qed



text \<open>
  Converting a day number to a date and back gives the same number, except for the 29th of
  February of a year divisible by 100, which \<open>date_to_days\<close> refuses with a failed assertion.
\<close>

theorem days_date_roundtrip:
  assumes "1757644 \<le> n"
  shows "date_to_days (days_to_date n) = Inr n \<or>
    (\<exists>c. days_to_date n = MAKE_DATE c 0 2 29 \<and> date_to_days (days_to_date n) = Inl Assert_Failed)"
  using assms
proof (cases rule: days_to_date_cases)
  case (leap c)
  then show ?thesis using century_leap_day [of c] by (auto simp: date_to_days_def assert_date_def)
qed blast

theorem days_date_roundtrip_witness:
  "date_to_days (days_to_date 2452164) = Inr 2452164 \<or>
    (\<exists>c. days_to_date 2452164 = MAKE_DATE c 0 2 29 \<and> date_to_days (days_to_date 2452164) = Inl Assert_Failed)"
  by (rule days_date_roundtrip) simp

section \<open>Weekdays\<close>

lemma sdiv_quotients:
  fixes c y m :: int
  shows "(146097 * c) div 4 = 36524 * c + c div 4" "(1461 * y) div 4 = 365 * y + y div 4"
    "(153 * m + 2) div 5 = 30 * m + (3 * m + 2) div 5" "(13 * (m + 1) - 1) div 5 = 2 * m + 2 + (3 * m + 2) div 5"
proof -
  have "(146097 * c) div 4 = (c + (36524 * c) * 4) div 4" by simp
  then show "(146097 * c) div 4 = 36524 * c + c div 4" by (simp only: div_mult_self1 [OF zero_neq_numeral [symmetric]])
  have "(1461 * y) div 4 = (y + (365 * y) * 4) div 4" by simp
  then show "(1461 * y) div 4 = 365 * y + y div 4" by (simp only: div_mult_self1 [OF zero_neq_numeral [symmetric]])
  have "(153 * m + 2) div 5 = (3 * m + 2 + (30 * m) * 5) div 5" by (simp add: algebra_simps)
  then show "(153 * m + 2) div 5 = 30 * m + (3 * m + 2) div 5" by (simp only: div_mult_self1 [OF zero_neq_numeral [symmetric]])
  have "(13 * (m + 1) - 1) div 5 = (3 * m + 2 + (2 * m + 2) * 5) div 5" by (simp add: algebra_simps)
  then show "(13 * (m + 1) - 1) div 5 = 2 * m + 2 + (3 * m + 2) div 5" by (simp only: div_mult_self1 [OF zero_neq_numeral [symmetric]])
qed

text \<open>Zeller's formula, on the fields with the year starting in March, and the day number.\<close>

lemma zeller_mod:
  fixes c y m d :: int
  assumes "z = (13 * (m + 1) - 1) div 5 + d + y + y div 4 + c div 4 - 2 * c + 77"
  shows "z mod 7 = (day_number c y m d + 1) mod 7"
proof -
  have "day_number c y m d + 1 = z + 7 * (5218 * c + 52 * y + 4 * m + 245863)"
    unfolding assms day_number_def sdiv_quotients by simp
  then show ?thesis by (simp only: mod_mult_self2)
qed

lemma day_of_week_number:
  assumes ok: "date_ok c y m d" and c: "1 \<le> c" "c < 46"
  shows "day_of_week (MAKE_DATE c y m d) = Inr ((date_number c y m d + 1) mod 7)"
proof -
  have b: "0 \<le> c" "0 \<le> y" "y < 100" "1 \<le> m" "m \<le> 12" "1 \<le> d" "d \<le> 31"
    using ok month_days_le [of m] by (auto simp: date_ok_def)
  have g: "GET_CCYEAR (MAKE_DATE c y m d) = 100 * c + y"
    "GET_MONTH (MAKE_DATE c y m d) = m" "GET_DAY (MAKE_DATE c y m d) = d"
    by (rule date_fields; use b in simp)+
  obtain c' y' m' where t: "to_march c y m d = (c', y', m')" by (cases "to_march c y m d")
  have mo: "0 \<le> c'" "0 \<le> y'" "y' < 100" "0 \<le> m'" using date_ok_march(1) [OF ok c(1) t] by (auto simp: march_ok_def)
  have c': "c' < 46" using t c by (auto simp: to_march_def split: if_splits)
  have ym: "(if m > 2 then (m - 2, 100 * c + y) else (m + 10, 100 * c + y - 1)) = (m' + 1, 100 * c' + y')"
    using t by (auto simp: to_march_def split: if_splits)
  have "(100 * c' + y') div 100 = c'" by (rule div_eqI) (use mo in simp_all)
  moreover from this have "(100 * c' + y') mod 100 = y'" by (simp add: minus_mult_div_eq_mod [symmetric])
  moreover have "0 \<le> 100 * c' + y'" "0 \<le> 13 * (m' + 1) - 1" using mo by simp_all
  ultimately have q: "(100 * c' + y') sdiv 100 = c'" "(100 * c' + y') smod 100 = y'"
    "(13 * (m' + 1) - 1) sdiv 5 = (13 * (m' + 1) - 1) div 5" "y' sdiv 4 = y' div 4" "c' sdiv 4 = c' div 4"
    using mo by simp_all
  define z where "z = (13 * (m' + 1) - 1) div 5 + d + y' + y' div 4 + c' div 4 - 2 * c' + 77"
  have "0 \<le> (3 * m' + 2) div 5" "0 \<le> y' div 4" using mo by (simp_all add: pos_imp_zdiv_nonneg_iff)
  moreover have "c' - 3 \<le> 4 * (c' div 4)" using mult_div_mod_eq [of 4 c'] pos_mod_bound [of 4 c'] by linarith
  ultimately have "0 \<le> z" using c' b mo unfolding z_def sdiv_quotients by linarith
  then have "z - 7 * (z sdiv 7) = z mod 7" by (simp add: minus_mult_div_eq_mod)
  moreover have "z mod 7 = (date_number c y m d + 1) mod 7"
    using zeller_mod [OF z_def] by (simp add: date_number_def t)
  moreover have "day_of_week (MAKE_DATE c y m d) = Inr (z - 7 * (z sdiv 7))"
    unfolding day_of_week_def assert_date_def date_ok_valid(1) [OF ok] g ym Let_def prod.case q z_def c_bind_simps c_assert_simps ..
  ultimately show ?thesis by simp
qed

text \<open>
  The weekday agrees with the day number: for every valid date of the years 100 to 4599, Zeller's
  formula gives the day number plus one, modulo seven, so consecutive days have consecutive
  weekdays.
\<close>

theorem day_of_week_correct:
  assumes "valid_date d = Inr True" and "1000000 \<le> d" and "d < 46000000"
  shows "\<exists>n. date_to_days d = Inr n \<and> day_of_week d = Inr ((n + 1) mod 7)"
  using assms(1,2)
proof (rule valid_dateE)
  fix c y m dd assume d: "d = MAKE_DATE c y m dd" "date_ok c y m dd" "1 \<le> c" "date_to_days d = Inr (date_number c y m dd)"
  have "c < 46" using assms(3) d(1,2) by (auto simp: MAKE_DATE_def date_ok_def)
  then show ?thesis using day_of_week_number [OF d(2,3)] d(1,4) by auto
qed

theorem day_of_week_correct_witness: "\<exists>n. date_to_days 20010911 = Inr n \<and> day_of_week 20010911 = Inr ((n + 1) mod 7)"
  by (rule day_of_week_correct) (simp_all add: valid_date_def GET_MONTH_def GET_DAY_def month_days_def)

definition weekend :: "int \<Rightarrow> bool" where
  "weekend n \<longleftrightarrow> (n + 1) mod 7 = 0 \<or> (n + 1) mod 7 = 6"

lemma weekday_steps:
  fixes n :: int
  defines "w \<equiv> (n + 1) mod 7"
  defines "k \<equiv> if w = 5 then 3 else if w = 6 then 2 else 1"
    and "j \<equiv> if w = 1 then 3 else if w = 0 then 2 else 1"
  shows "\<not> weekend (n + k) \<and> (\<forall>i. 0 < i \<and> i < k \<longrightarrow> weekend (n + i))"
    and "\<not> weekend (n - j) \<and> (\<forall>i. 0 < i \<and> i < j \<longrightarrow> weekend (n - i))"
proof -
  have "0 \<le> w" "w < 7" by (simp_all add: w_def)
  then have "w = 0 \<or> w = 1 \<or> w = 2 \<or> w = 3 \<or> w = 4 \<or> w = 5 \<or> w = 6" by presburger
  moreover have add: "(n + i + 1) mod 7 = (w + i) mod 7" for i
    unfolding w_def by (subst mod_add_left_eq) (simp add: ac_simps)
  moreover have sub: "(n - i + 1) mod 7 = (w - i) mod 7" for i
    unfolding w_def mod_diff_left_eq by (simp add: algebra_simps)
  moreover have one: "0 < i \<and> i < 3 \<longleftrightarrow> i = 1 \<or> i = 2" "0 < i \<and> i < 2 \<longleftrightarrow> i = 1" "\<not> (0 < i \<and> i < 1)" for i :: int
    by auto
  ultimately show "\<not> weekend (n + k) \<and> (\<forall>i. 0 < i \<and> i < k \<longrightarrow> weekend (n + i))"
    and "\<not> weekend (n - j) \<and> (\<forall>i. 0 < i \<and> i < j \<longrightarrow> weekend (n - i))"
    unfolding weekend_def add sub k_def j_def by (elim disjE; simp)+
qed

text \<open>
  \<open>next_weekday\<close> and \<open>prev_weekday\<close> move to the nearest later, and earlier, day that is not a
  Saturday or a Sunday.
\<close>

theorem weekday_moves:
  assumes "valid_date d = Inr True" and "1000000 \<le> d" and "d < 46000000"
  shows "\<exists>n k j. date_to_days d = Inr n \<and>
    next_weekday d = Inr (days_to_date (n + k)) \<and> 0 < k \<and> \<not> weekend (n + k) \<and> (\<forall>i. 0 < i \<and> i < k \<longrightarrow> weekend (n + i)) \<and>
    prev_weekday d = Inr (days_to_date (n - j)) \<and> 0 < j \<and> \<not> weekend (n - j) \<and> (\<forall>i. 0 < i \<and> i < j \<longrightarrow> weekend (n - i))"
  using assms(1,2)
proof (rule valid_dateE)
  fix c y m dd assume d: "d = MAKE_DATE c y m dd" "date_ok c y m dd" "1 \<le> c" "date_to_days d = Inr (date_number c y m dd)"
  define n where "n = date_number c y m dd"
  have "c < 46" using assms(3) d(1,2) by (auto simp: MAKE_DATE_def date_ok_def)
  then have dow: "day_of_week d = Inr ((n + 1) mod 7)" using day_of_week_number [OF d(2,3)] d(1) by (simp add: n_def)
  let ?w = "(n + 1) mod 7"
  let ?k = "if ?w = 5 then 3 else if ?w = 6 then 2 else (1 :: int)"
  let ?j = "if ?w = 1 then 3 else if ?w = 0 then 2 else (1 :: int)"
  have days: "date_to_days d = Inr n" using d(4) by (simp add: n_def)
  have "next_weekday d = Inr (days_to_date (n + ?k))" "prev_weekday d = Inr (days_to_date (n - ?j))"
    unfolding next_weekday_def prev_weekday_def days dow by auto
  moreover have "0 < ?k" "0 < ?j" by simp_all
  ultimately show ?thesis using days weekday_steps [of n] by blast
qed

theorem weekday_moves_witness:
  "\<exists>n k. date_to_days 20010914 = Inr n \<and> next_weekday 20010914 = Inr (days_to_date (n + k)) \<and> 0 < k \<and> \<not> weekend (n + k)"
proof -
  have "valid_date 20010914 = Inr True" by (simp add: valid_date_def GET_MONTH_def GET_DAY_def month_days_def)
  from weekday_moves [OF this] show ?thesis by auto
qed

section \<open>Times\<close>

text \<open>A time has its fields in the same decimal places as a date.\<close>

lemma time_as_date:
  "GET_HOUR t = GET_CENTURY t" "GET_MINUTE t = GET_YEAR t" "GET_SECOND t = GET_MONTH t" "GET_CENTI t = GET_DAY t"
  "MAKE_TIME h m s c = MAKE_DATE h m s c"
  by (simp_all add: GET_HOUR_def GET_CENTURY_def GET_MINUTE_def GET_YEAR_def GET_SECOND_def GET_MONTH_def
      GET_CENTI_def GET_DAY_def MAKE_TIME_def MAKE_DATE_def)

definition time_ok :: "int \<Rightarrow> int \<Rightarrow> int \<Rightarrow> int \<Rightarrow> bool" where
  "time_ok h m s c \<longleftrightarrow> 0 \<le> h \<and> h < 24 \<and> 0 \<le> m \<and> m < 60 \<and> 0 \<le> s \<and> s < 60 \<and> 0 \<le> c \<and> c < 100"

lemma time_fields:
  assumes "time_ok h m s c"
  shows "GET_HOUR (MAKE_TIME h m s c) = h" "GET_MINUTE (MAKE_TIME h m s c) = m"
    "GET_SECOND (MAKE_TIME h m s c) = s" "GET_CENTI (MAKE_TIME h m s c) = c"
    "valid_time (MAKE_TIME h m s c)"
proof -
  have b: "0 \<le> h" "0 \<le> m" "m < 100" "0 \<le> s" "s < 100" "0 \<le> c" "c < 100" using assms by (auto simp: time_ok_def)
  show f: "GET_HOUR (MAKE_TIME h m s c) = h" "GET_MINUTE (MAKE_TIME h m s c) = m"
    "GET_SECOND (MAKE_TIME h m s c) = s" "GET_CENTI (MAKE_TIME h m s c) = c"
    unfolding time_as_date by (rule date_fields [OF b])+
  show "valid_time (MAKE_TIME h m s c)"
    unfolding valid_time_def f using assms by (simp add: time_ok_def MAKE_TIME_def)
qed

lemma valid_timeE:
  assumes "valid_time t"
  obtains h m s c where "t = MAKE_TIME h m s c" "time_ok h m s c"
proof -
  have t: "0 \<le> t" using assms by (simp add: valid_time_def)
  note sp = date_split [OF t]
  have "time_ok (GET_CENTURY t) (GET_YEAR t) (GET_MONTH t) (GET_DAY t)"
    using assms sp(2-8) by (simp add: valid_time_def time_as_date time_ok_def)
  with that sp(1) show thesis unfolding time_as_date by blast
qed

lemma csecs_fields:
  assumes "time_ok h m s c" and x: "x = h * 360000 + m * 6000 + s * 100 + c"
  shows "time_to_csecs (MAKE_TIME h m s c) = Inr x" "csecs_to_time x = Inr (MAKE_TIME h m s c)" "0 \<le> x" "x < INTERVAL_DAY"
proof -
  have b: "0 \<le> h" "h < 24" "0 \<le> m" "m < 60" "0 \<le> s" "s < 60" "0 \<le> c" "c < 100" using assms by (auto simp: time_ok_def)
  show xb: "0 \<le> x" "x < INTERVAL_DAY" using b by (auto simp: x INTERVAL_DAY_def)
  have d1: "x div 360000 = h" by (rule div_eqI) (use b in \<open>simp_all add: x\<close>)
  have r1: "x mod 360000 = m * 6000 + s * 100 + c" using d1 by (simp add: minus_mult_div_eq_mod [symmetric] x)
  have d2: "(m * 6000 + s * 100 + c) div 6000 = m" by (rule div_eqI) (use b in simp_all)
  have r2: "(m * 6000 + s * 100 + c) mod 6000 = s * 100 + c" using d2 by (simp add: minus_mult_div_eq_mod [symmetric])
  have d3: "(s * 100 + c) div 100 = s" by (rule div_eqI) (use b in simp_all)
  have r3: "(s * 100 + c) mod 100 = c" using d3 by (simp add: minus_mult_div_eq_mod [symmetric])
  have nn: "0 \<le> m * 6000 + s * 100 + c" "0 \<le> s * 100 + c" using b by simp_all
  show "csecs_to_time x = Inr (MAKE_TIME h m s c)"
    unfolding csecs_to_time_def INTERVAL_HOUR_def INTERVAL_MIN_def INTERVAL_SEC_def Let_def
      sdiv_nonneg [OF xb(1) zero_less_numeral] smod_nonneg [OF xb(1) zero_less_numeral] d1 r1
      sdiv_nonneg [OF nn(1) zero_less_numeral] smod_nonneg [OF nn(1) zero_less_numeral] d2 r2
      sdiv_nonneg [OF nn(2) zero_less_numeral] smod_nonneg [OF nn(2) zero_less_numeral] d3 r3
    using xb by simp
  show "time_to_csecs (MAKE_TIME h m s c) = Inr x"
    unfolding time_to_csecs_def time_fields(1-4) [OF assms(1)]
    using time_fields(5) [OF assms(1)] by (simp add: x INTERVAL_HOUR_def INTERVAL_MIN_def INTERVAL_SEC_def)
qed

lemma csecs_split:
  assumes "0 \<le> x" and "x < INTERVAL_DAY"
  obtains h m s c where "time_ok h m s c" "x = h * 360000 + m * 6000 + s * 100 + c"
proof -
  define h y where "h = x div 360000" and "y = x mod 360000"
  define m z where "m = y div 6000" and "z = y mod 6000"
  define s c where "s = z div 100" and "c = z mod 100"
  have x: "x = h * 360000 + y" and y: "y = m * 6000 + z" and z: "z = s * 100 + c"
    by (simp_all add: h_def y_def m_def z_def s_def c_def)
  have r: "0 \<le> y" "y < 360000" "0 \<le> z" "z < 6000" "0 \<le> c" "c < 100" by (simp_all add: y_def z_def c_def)
  have nn: "0 \<le> h" "0 \<le> m" "0 \<le> s"
    using assms(1) r by (simp_all add: h_def m_def s_def pos_imp_zdiv_nonneg_iff)
  have "h < 24" using x r assms(2) by (simp add: INTERVAL_DAY_def)
  moreover have "m < 60" using y r by simp
  moreover have "s < 60" using z r by simp
  ultimately have "time_ok h m s c" using nn r by (simp add: time_ok_def)
  then show thesis using that x y z by simp
qed

lemma valid_time_csecs:
  assumes "valid_time t"
  shows "\<exists>x. time_to_csecs t = Inr x \<and> 0 \<le> x \<and> x < INTERVAL_DAY \<and> csecs_to_time x = Inr t"
proof -
  obtain h m s c where t: "t = MAKE_TIME h m s c" "time_ok h m s c" using assms by (rule valid_timeE)
  show ?thesis unfolding t(1) using csecs_fields [OF t(2) refl] by blast
qed

lemma csecs_valid_time:
  assumes "0 \<le> x" and "x < INTERVAL_DAY"
  shows "\<exists>t. csecs_to_time x = Inr t \<and> valid_time t \<and> time_to_csecs t = Inr x"
proof -
  obtain h m s c where x: "time_ok h m s c" "x = h * 360000 + m * 6000 + s * 100 + c" using assms by (rule csecs_split)
  show ?thesis using csecs_fields [OF x] time_fields(5) [OF x(1)] by blast
qed

text \<open>
  A time of day and its number of centiseconds determine each other: both conversions succeed
  on valid input and are inverse to each other.
\<close>

theorem csecs_roundtrip:
  "(valid_time t \<longrightarrow> (\<exists>x. time_to_csecs t = Inr x \<and> 0 \<le> x \<and> x < INTERVAL_DAY \<and> csecs_to_time x = Inr t)) \<and>
   (0 \<le> x \<and> x < INTERVAL_DAY \<longrightarrow> (\<exists>t. csecs_to_time x = Inr t \<and> valid_time t \<and> time_to_csecs t = Inr x))"
  using valid_time_csecs [of t] csecs_valid_time [of x] by blast

theorem csecs_roundtrip_witness: "\<exists>t. csecs_to_time 4530125 = Inr t \<and> valid_time t \<and> time_to_csecs t = Inr 4530125"
  using csecs_roundtrip [of 0 4530125] by (simp add: INTERVAL_DAY_def)

section \<open>Moving in time\<close>

lemma carry_days_spec:
  "0 \<le> csecs \<Longrightarrow> carry_days days csecs = (d, c) \<Longrightarrow>
   0 \<le> c \<and> c < INTERVAL_DAY \<and> days \<le> d \<and> d * INTERVAL_DAY + c = days * INTERVAL_DAY + csecs"
proof (induction days csecs rule: carry_days.induct)
  case (1 days csecs)
  show ?case
  proof (cases "INTERVAL_DAY \<le> csecs")
    case True
    then have "carry_days (days + 1) (csecs - INTERVAL_DAY) = (d, c)" using 1(3) by (subst (asm) carry_days.simps) simp
    then show ?thesis using 1(1) [OF True] True by (simp add: algebra_simps)
  next
    case False
    then show ?thesis using 1(2,3) by (subst (asm) carry_days.simps) auto
  qed
qed

lemma borrow_days_spec:
  "csecs < INTERVAL_DAY \<Longrightarrow> borrow_days days csecs = (d, c) \<Longrightarrow>
   0 \<le> c \<and> c < INTERVAL_DAY \<and> d * INTERVAL_DAY + c = days * INTERVAL_DAY + csecs"
proof (induction days csecs rule: borrow_days.induct)
  case (1 days csecs)
  show ?case
  proof (cases "csecs < 0")
    case True
    then have "borrow_days (days - 1) (csecs + INTERVAL_DAY) = (d, c)" using 1(3) by (subst (asm) borrow_days.simps) simp
    then show ?thesis using 1(1) [OF True] True by (simp add: algebra_simps)
  next
    case False
    then show ?thesis using 1(2,3) by (subst (asm) borrow_days.simps) auto
  qed
qed

lemma date_number_ge:
  assumes "date_ok c y m d" and "1010000 \<le> MAKE_DATE c y m d"
  shows "1757644 \<le> date_number c y m d"
proof -
  have c: "1 \<le> c" by (rule century_of [OF assms(1)]) (use assms(2) in simp)
  obtain c' y' m' where t: "to_march c y m d = (c', y', m')" by (cases "to_march c y m d")
  have mo: "0 \<le> y'" "0 \<le> m'" "1 \<le> d" using date_ok_march(1) [OF assms(1) c t] by (auto simp: march_ok_def)
  have "m \<le> 12" "d \<le> 31" using assms(1) month_days_le [of m] by (auto simp: date_ok_def)
  then have "1 \<le> c'" using t c assms(2) by (auto simp: to_march_def MAKE_DATE_def split: if_splits)
  then have "36524 \<le> (146097 * c') div 4" using zdiv_mono1 [of 146097 "146097 * c'" 4] by simp
  moreover have "0 \<le> (1461 * y') div 4" "0 \<le> (153 * m' + 2) div 5" using mo by (simp_all add: pos_imp_zdiv_nonneg_iff)
  ultimately show ?thesis using mo by (simp add: date_number_def t day_number_def)
qed

lemma days_csecs_unique:
  assumes "d * INTERVAL_DAY + c = d' * INTERVAL_DAY + c'" "0 \<le> c" "c < INTERVAL_DAY" "0 \<le> c'" "c' < INTERVAL_DAY"
  shows "d = d'" "c = c'"
proof -
  have "(d * INTERVAL_DAY + c) div INTERVAL_DAY = d" by (rule div_eqI) (use assms in \<open>simp_all add: mult.commute\<close>)
  moreover have "(d' * INTERVAL_DAY + c') div INTERVAL_DAY = d'" by (rule div_eqI) (use assms in \<open>simp_all add: mult.commute\<close>)
  ultimately show "d = d'" using assms(1) by simp
  with assms(1) show "c = c'" by simp
qed

text \<open>
  \<open>past_date\<close> undoes \<open>future_date\<close>: moving a valid date and time forward by an interval and back by
  the same interval returns to the start, as long as the date in between is one the code accepts.
\<close>

theorem future_past_inverse:
  assumes "valid_date d = Inr True" and "1010000 \<le> d" and "valid_time t" and "0 \<le> days" and "0 \<le> csecs"
    and "future_date now (Some d) (Some t) days csecs = Inr (d', t')" and "valid_date d' = Inr True"
  shows "past_date now (Some d') (Some t') days csecs = Inr (d, t)"
proof -
  have "1000000 \<le> d" using assms(2) by simp
  with assms(1) obtain c y m dd where d: "d = MAKE_DATE c y m dd" "date_ok c y m dd"
    "date_to_days d = Inr (date_number c y m dd)" "days_to_date (date_number c y m dd) = d" by (rule valid_dateE)
  define n where "n = date_number c y m dd"
  have n: "date_to_days d = Inr n" "days_to_date n = d" "1757644 \<le> n"
    using d date_number_ge [OF d(2)] assms(2) by (auto simp: n_def)
  obtain x where x: "time_to_csecs t = Inr x" "0 \<le> x" "x < INTERVAL_DAY" "csecs_to_time x = Inr t"
    using valid_time_csecs [OF assms(3)] by blast
  obtain n' x' where c: "carry_days (n + days) (x + csecs) = (n', x')" by fastforce
  have sp: "0 \<le> x'" "x' < INTERVAL_DAY" "n + days \<le> n'" "n' * INTERVAL_DAY + x' = (n + days) * INTERVAL_DAY + (x + csecs)"
    using carry_days_spec [OF _ c] x(2) assms(5) by auto
  have "d \<noteq> 0" using assms(2) by simp
  then have r: "d' = days_to_date n'" "csecs_to_time x' = Inr t'"
    using assms(6) n(1) x(1) c by (auto simp: future_date_def c_bind_Inr_iff)
  have t': "time_to_csecs t' = Inr x'"
    using csecs_valid_time [OF sp(1,2)] r(2) by auto
  have dd: "date_to_days d' = Inr n' \<and> d' \<noteq> 0"
  proof (rule days_to_date_cases [of n'])
    show "1757644 \<le> n'" using sp(3) assms(4) n(3) by simp
    show ?thesis if "1 \<le> c" "days_to_date n' = MAKE_DATE c 0 2 29" for c
      using that century_leap_day [of c] assms(7) r(1) by simp
    show ?thesis if "date_ok c y m d" "days_to_date n' = MAKE_DATE c y m d" "date_to_days (days_to_date n') = Inr n'" for c y m d
      using that date_ok_valid(2) [OF that(1)] r(1) by simp
  qed
  obtain m y where b: "borrow_days (n' - days) (x' - csecs) = (m, y)" by fastforce
  have "x' - csecs < INTERVAL_DAY" using sp(2) assms(5) by simp
  from borrow_days_spec [OF this b] sp(4)
  have "m * INTERVAL_DAY + y = n * INTERVAL_DAY + x" "0 \<le> y" "y < INTERVAL_DAY" by (auto simp: algebra_simps)
  from days_csecs_unique [OF this x(2,3)] have "m = n" "y = x" .
  then show ?thesis using dd t' b n(2) x(4) by (simp add: past_date_def)
qed

theorem future_past_inverse_witness:
  "past_date (0, 0) (Some 20010913) (Some 100) 1 8640100 = Inr (20010911, 0)"
proof (rule future_past_inverse)
  show "valid_date 20010911 = Inr True" "valid_date 20010913 = Inr True" by code_simp+
  show "valid_time 0" by code_simp
  show "future_date (0, 0) (Some 20010911) (Some 0) 1 8640100 = Inr (20010913, 100)" by code_simp
qed simp_all

text \<open>
  \<open>date_diff\<close> splits the distance between two moments into days and centiseconds that add up to
  it and have the same sign.
\<close>

theorem date_diff_correct:
  assumes "date_to_days d1 = Inr n1" and "date_to_days d2 = Inr n2"
    and "time_to_csecs t1 = Inr x1" and "time_to_csecs t2 = Inr x2"
  shows "\<exists>days csecs. date_diff d1 t1 d2 t2 = Inr (days, csecs) \<and>
    days * INTERVAL_DAY + csecs = (n1 * INTERVAL_DAY + x1) - (n2 * INTERVAL_DAY + x2) \<and>
    - INTERVAL_DAY < csecs \<and> csecs < INTERVAL_DAY \<and> (0 \<le> days \<and> 0 \<le> csecs \<or> days \<le> 0 \<and> csecs \<le> 0)"
proof -
  have v: "valid_time t1" "valid_time t2" using assms(3,4) by (auto simp: time_to_csecs_def c_assert_def split: if_splits)
  have x: "0 \<le> x1" "x1 < INTERVAL_DAY" "0 \<le> x2" "x2 < INTERVAL_DAY"
    using valid_time_csecs [OF v(1)] valid_time_csecs [OF v(2)] assms(3,4) by auto
  define carry :: int where "carry = (if n1 - n2 > 0 \<and> x1 - x2 < 0 then 1 else if n1 - n2 < 0 \<and> x1 - x2 > 0 then -1 else 0)"
  have "date_diff d1 t1 d2 t2 = Inr (n1 - n2 - carry, x1 - x2 + carry * INTERVAL_DAY)"
    using x by (simp add: date_diff_def assms Let_def carry_def)
  moreover have "- INTERVAL_DAY < x1 - x2 + carry * INTERVAL_DAY" "x1 - x2 + carry * INTERVAL_DAY < INTERVAL_DAY"
    "0 \<le> n1 - n2 - carry \<and> 0 \<le> x1 - x2 + carry * INTERVAL_DAY \<or> n1 - n2 - carry \<le> 0 \<and> x1 - x2 + carry * INTERVAL_DAY \<le> 0"
    using x by (auto simp: carry_def)
  moreover have "(n1 - n2 - carry) * INTERVAL_DAY + (x1 - x2 + carry * INTERVAL_DAY) =
      (n1 * INTERVAL_DAY + x1) - (n2 * INTERVAL_DAY + x2)" by (simp add: algebra_simps)
  ultimately show ?thesis by blast
qed

theorem date_diff_correct_witness:
  "\<exists>days csecs. date_diff 20010911 8460000 20010914 0 = Inr (days, csecs) \<and> days \<le> 0 \<and> csecs \<le> 0"
proof -
  have "date_to_days 20010911 = Inr 2452164" "date_to_days 20010914 = Inr 2452167"
    "time_to_csecs 8460000 = Inr 3156000" "time_to_csecs 0 = Inr 0" by code_simp+
  from date_diff_correct [OF this] show ?thesis by (auto simp: INTERVAL_DAY_def)
qed

section \<open>Packed dates and times\<close>

lemma uint_field:
  fixes p :: dbyte
  shows "uint (drop_bit k (p AND push_bit k (mask n))) = uint p div 2 ^ k mod 2 ^ n"
proof -
  have "drop_bit k (p AND push_bit k (mask n)) = take_bit n (drop_bit k p)"
    by (rule bit_word_eqI) (auto simp: bit_simps dest: bit_imp_le_length)
  then have "uint (drop_bit k (p AND push_bit k (mask n))) = take_bit n (drop_bit k (uint p))"
    using take_bit_int_eq_self [of "uint p" 16] unsigned_less [of p, where ?'a = int]
    by (simp add: unsigned_take_bit_eq unsigned_drop_bit_eq)
  also have "\<dots> = uint p div 2 ^ k mod 2 ^ n" by (simp only: take_bit_eq_mod drop_bit_eq_div)
  finally show ?thesis .
qed

lemma uint_packed:
  assumes "0 \<le> x" "x < 65536"
  shows "uint (word_of_int x :: dbyte) = x"
  using assms by (simp add: uint_word_of_int_eq take_bit_int_eq_self)

lemma packed_fields:
  fixes a b c :: int
  assumes "0 \<le> a" "a < 128" "0 \<le> b" "b < 16" "0 \<le> c" "c < 32" and p: "p = (word_of_int (a * 512 + b * 32 + c) :: dbyte)"
  shows "uint (drop_bit 9 (p AND 0xfe00)) = a" "uint (drop_bit 5 (p AND 0x01e0)) = b" "uint (p AND 0x001f) = c"
proof -
  have u: "uint p = a * 512 + b * 32 + c" unfolding p by (rule uint_packed) (use assms in simp_all)
  have "(a * 512 + b * 32 + c) div 512 = a" by (rule div_eqI) (use assms in simp_all)
  then show "uint (drop_bit 9 (p AND 0xfe00)) = a"
    using uint_field [of 9 p 7] u assms(1,2) by (simp add: mask_eq_exp_minus_1)
  have 5: "(a * 512 + b * 32 + c) div 32 = a * 16 + b" by (rule div_eqI) (use assms in simp_all)
  then show "uint (drop_bit 5 (p AND 0x01e0)) = b"
    using uint_field [of 5 p 4] u assms(3,4) by (simp add: mask_eq_exp_minus_1)
  have "(a * 512 + b * 32 + c) mod 32 = c" using 5 by (simp add: minus_mult_div_eq_mod [symmetric])
  then show "uint (p AND 0x001f) = c" using uint_field [of 0 p 5] u by (simp add: mask_eq_exp_minus_1)
qed

lemma packed_time_fields:
  fixes a b c :: int
  assumes "0 \<le> a" "a < 32" "0 \<le> b" "b < 64" "0 \<le> c" "c < 32" and p: "p = (word_of_int (a * 2048 + b * 32 + c) :: dbyte)"
  shows "uint (drop_bit 11 (p AND 0xf800)) = a" "uint (drop_bit 5 (p AND 0x07e0)) = b" "uint (p AND 0x001f) = c"
proof -
  have u: "uint p = a * 2048 + b * 32 + c" unfolding p by (rule uint_packed) (use assms in simp_all)
  have "(a * 2048 + b * 32 + c) div 2048 = a" by (rule div_eqI) (use assms in simp_all)
  then show "uint (drop_bit 11 (p AND 0xf800)) = a"
    using uint_field [of 11 p 5] u assms(1,2) by (simp add: mask_eq_exp_minus_1)
  have 5: "(a * 2048 + b * 32 + c) div 32 = a * 64 + b" by (rule div_eqI) (use assms in simp_all)
  then show "uint (drop_bit 5 (p AND 0x07e0)) = b"
    using uint_field [of 5 p 6] u assms(3,4) by (simp add: mask_eq_exp_minus_1)
  have "(a * 2048 + b * 32 + c) mod 32 = c" using 5 by (simp add: minus_mult_div_eq_mod [symmetric])
  then show "uint (p AND 0x001f) = c" using uint_field [of 0 p 5] u by (simp add: mask_eq_exp_minus_1)
qed

text \<open>
  Packing a date of the years 1981 to 2107 into 16 bits and unpacking it gives the date back; a date
  of the year 1980, which the documentation allows, comes back as the same day of the year 2080.
\<close>

theorem pack_date_roundtrip:
  assumes "valid_date d = Inr True" and "19800000 \<le> d" and "d < 21080000"
  shows "\<exists>p. pack_date d = Inr p \<and> unpack_date p = (if GET_CCYEAR d = 1980 then d + 1000000 else d)"
proof -
  obtain c y m dd where d: "d = MAKE_DATE c y m dd" "date_ok c y m dd"
    using valid_date_ok [OF assms(1)] assms(2) by auto
  have b: "0 \<le> c" "0 \<le> y" "y < 100" "1 \<le> m" "m \<le> 12" "1 \<le> dd" "dd \<le> 31"
    using d(2) month_days_le [of m] by (auto simp: date_ok_def)
  have g: "GET_CCYEAR d = 100 * c + y" "GET_MONTH d = m" "GET_DAY d = dd"
    unfolding d(1) by (rule date_fields; use b in simp)+
  define a where "a = 100 * c + y - 1980"
  have a: "0 \<le> a" "a < 128" using assms(2,3) b unfolding a_def d(1) MAKE_DATE_def by auto
  let ?p = "word_of_int (a * 512 + m * 32 + dd) :: dbyte"
  have "pack_date d = Inr ?p" by (simp add: pack_date_def assert_date_def assms(1) g a_def)
  moreover have "uint (drop_bit 9 (?p AND 0xfe00)) = a" "uint (drop_bit 5 (?p AND 0x01e0)) = m" "uint (?p AND 0x001f) = dd"
    by (rule packed_fields; use a b in simp)+
  then have "unpack_date ?p = MAKE_DATE (if a + 80 > 80 then 19 else 20) (a + 80) m dd"
    unfolding unpack_date_def Let_def by simp
  ultimately show ?thesis
    using a b g(1) by (intro exI [of _ ?p]) (auto simp: MAKE_DATE_def a_def d(1))
qed

theorem pack_date_roundtrip_witness: "\<exists>p. pack_date 19800229 = Inr p \<and> unpack_date p = 20800229"
proof -
  have "valid_date 19800229 = Inr True" by code_simp
  from pack_date_roundtrip [OF this] show ?thesis by (simp add: GET_CCYEAR_def)
qed

text \<open>
  Packing a time into 16 bits and unpacking it keeps hours and minutes, drops the centiseconds and
  rounds the seconds down to an even number.
\<close>

theorem pack_time_roundtrip:
  assumes "valid_time t"
  shows "\<exists>p. pack_time t = Inr p \<and>
    unpack_time p = MAKE_TIME (GET_HOUR t) (GET_MINUTE t) (GET_SECOND t - GET_SECOND t mod 2) 0"
proof -
  obtain h m s c where t: "t = MAKE_TIME h m s c" "time_ok h m s c" using assms by (rule valid_timeE)
  have b: "0 \<le> h" "h < 24" "0 \<le> m" "m < 60" "0 \<le> s" "s < 60" using t(2) by (auto simp: time_ok_def)
  have s2: "0 \<le> s div 2" "s div 2 < 32" using b by auto
  let ?p = "word_of_int (h * 2048 + m * 32 + s div 2) :: dbyte"
  have "pack_time t = Inr ?p" using assms by (simp add: pack_time_def t(1) time_fields [OF t(2)])
  moreover have "uint (drop_bit 11 (?p AND 0xf800)) = h" "uint (drop_bit 5 (?p AND 0x07e0)) = m" "uint (?p AND 0x001f) = s div 2"
    by (rule packed_time_fields; use b s2 in simp)+
  then have "unpack_time ?p = MAKE_TIME h m (s div 2 * 2) 0" unfolding unpack_time_def by simp
  moreover have "s div 2 * 2 = s - s mod 2" by (simp add: minus_mod_eq_div_mult)
  ultimately show ?thesis by (simp add: t(1) time_fields [OF t(2)])
qed

theorem pack_time_roundtrip_witness: "\<exists>p. pack_time 23595999 = Inr p \<and> unpack_time p = 23595800"
proof -
  have "valid_time 23595999" by code_simp
  from pack_time_roundtrip [OF this] show ?thesis
    by (simp add: MAKE_TIME_def GET_HOUR_def GET_MINUTE_def GET_SECOND_def)
qed

section \<open>Years divisible by one hundred\<close>

text \<open>
  \<open>valid_date\<close> and \<open>julian_date\<close> pass the year within the century to \<open>leap_year\<close>, which asserts that the
  year is positive: in the years 1900, 2000, 2100 and so on the 29th of February, and every date
  from March on, stop the program.
\<close>

theorem century_years_fail:
  assumes "0 \<le> c" and "date_ok c 0 m d" and "2 < m"
  shows "valid_date (MAKE_DATE c 0 2 29) = Inl Assert_Failed \<and> julian_date (MAKE_DATE c 0 m d) = Inl Assert_Failed"
proof -
  have b: "1 \<le> m" "m \<le> 12" "1 \<le> d" "d \<le> 31"
    using assms(2) month_days_le [of m] by (auto simp: date_ok_def)
  have g: "GET_YEAR (MAKE_DATE c 0 m d) = 0" "GET_MONTH (MAKE_DATE c 0 m d) = m"
    by (rule date_fields; use assms(1) b in simp)+
  have "julian_date (MAKE_DATE c 0 m d) = Inl Assert_Failed"
    unfolding julian_date_def assert_date_def date_ok_valid(1) [OF assms(2)] g
    using assms(3) by (simp add: leap_year_def Let_def)
  then show ?thesis using century_leap_day [OF assms(1)] by simp
qed

theorem century_years_fail_witness:
  "valid_date 20000229 = Inl Assert_Failed \<and> julian_date 20000301 = Inl Assert_Failed"
proof -
  have "date_ok 20 0 3 1" by (simp add: date_ok_def month_days_def)
  from century_years_fail [OF _ this] show ?thesis by (simp add: MAKE_DATE_def)
qed

end
