(* ===== verification/Spec2Isabelle.thy ===== *)
theory Spec2Isabelle
  imports Ipr_Bits Ipr_Index Icl_Shortstr Icl_Longstr Ipr_Hash_Destroy Asl_Codec Amq_Broker_Properties Amq_Channel_Properties Sfl_Comp Sfl_Block
    Sfl_Date Sfl_Date_Properties
begin

text \<open>
  A verification development for OpenAMQ, an AMQP message broker in C.  It models the core of the broker
  and the runtime libraries under it: messages come in on a channel, an exchange finds the queues
  whose bindings they match, the queues hold them and dispatch them to consumers.

  \<^bold>\<open>The program.\<close>  A client opens a connection (\<^verbatim>\<open>server/amq_server_connection.icl\<close>) and calls protocol
  methods on a channel (\<^verbatim>\<open>server/amq_server.asl\<close>).  They work on the exchanges and queues in the tables of
  the broker object (\<^verbatim>\<open>server/amq_broker.icl\<close>).  An exchange (\<^verbatim>\<open>server/amq_exchange.icl\<close>) keeps bindings
  (\<^verbatim>\<open>server/amq_binding.icl\<close>) and delegates compiling and matching to one of six implementations
  (\<^verbatim>\<open>server/amq_exchange_*.icl\<close>).  Topic, regexp and headers exchanges number their bindings with an index
  (\<^verbatim>\<open>tooling/base2/ipr/ipr_index.c\<close>) and keep sets of numbers as bit maps (\<^verbatim>\<open>tooling/base2/ipr/ipr_bits.c\<close>);
  routing keys are looked up in hash tables (\<^verbatim>\<open>tooling/base2/ipr/ipr_hash_table.c\<close>).  Arguments and
  headers are AMQP field tables (\<^verbatim>\<open>tooling/base2/asl/asl_field.c\<close>, \<^verbatim>\<open>asl_field_list.c\<close>) in long strings
  (\<^verbatim>\<open>tooling/base2/icl/icl_longstr.c\<close>).  Exchanges, queues, channels and the broker are asynchronous
  objects: a call is a message that the object works on later.  Two brokers form a pair in which a failover
  agent (\<^verbatim>\<open>server/amq_failover.icl\<close>) decides which one serves.

  \<^bold>\<open>The theories.\<close>  A definition has the name of the function or type it models; the code of a class
  \<^verbatim>\<open>c\<close> in a file \<^verbatim>\<open>c.icl\<close> is the source of the functions \<^verbatim>\<open>c_method\<close>.

    \<^item> \<open>Amq_Prelude\<close>: machine types, the failures of C code as the values \<open>c_fail\<close> of the result type
      \<open>'a c_result\<close>, byte buffers, and shared facts on lists and words.  \<open>C_Chars\<close>: the character
      functions of the C library.
    \<^item> \<open>Ipr_Bits\<close> with the contract \<open>bitmap\<close> of \<open>Bitmap_Spec\<close>: every bit operation refines an operation on
      finite sets of numbers.  \<open>Ipr_Index\<close>: the table that numbers objects, its probing and its invariant.
    \<^item> \<open>Ipr_Hash\<close>, \<open>Ipr_Hash_Map\<close>, \<open>Ipr_Hash_Properties\<close>, \<open>Ipr_Hash_Store\<close>, \<open>Ipr_Hash_Destroy\<close>: hash items and tables
      on a heap with link counts, the map a table stands for, its growth, the store of data by key (locale
      \<open>keyed_store\<close>), visiting and destruction.
    \<^item> \<open>Icl_Shortstr\<close>, \<open>Icl_Longstr\<close>: bounded strings, byte blocks, and the pattern search.
    \<^item> \<open>Asl_Object\<close>, \<open>Asl_Ring\<close>, \<open>Asl_List\<close>, \<open>Asl_Field\<close>, \<open>Asl_Codec\<close>: fields and lists of fields as linked objects,
      the list container (locale \<open>list_container\<close>), and the reading and writing of field tables.
    \<^item> \<open>Amq_Content\<close>, \<open>Amq_Binding\<close>, \<open>Amq_Exchange\<close>, \<open>Amq_Topic\<close>, \<open>Amq_Headers\<close>: contents, bindings, the exchange
      object with the direct, fanout, topic, regexp and headers implementations.  \<open>Amq_Exchange_Spec\<close>: the
      specification of an exchange, a set of triples of key, arguments and queue, and the contract
      \<open>exchange_kind\<close> between the object and an implementation.  \<open>Amq_Exchange_Kinds\<close> interprets it for all
      five kinds, \<open>Amq_Exchange_Properties\<close> states what follows.
    \<^item> \<open>Amq_Queue\<close>: queue, content manager and consumers.  \<open>Amq_Queue_Properties\<close>: dispatching.  \<open>Amq_Queue_Steps\<close>:
      the queue as a state machine, its invariant, and orders of events in which messages are lost.  Of a
      consumer that the queue refused and that is cancelled later, the state machine keeps a flag: it is what
      ends the protection of an exclusive consumer.
    \<^item> \<open>Amq_Channel\<close>: channels (\<^verbatim>\<open>server/amq_server_channel.icl\<close>) and their consumers
      (\<^verbatim>\<open>server/amq_consumer.icl\<close>) together with the queues: the store of consumers they share, the tables of tags,
      the mailboxes, and queues that are destroyed, to which calls fail.  \<open>Amq_Channel_Spec\<close>: what the methods of
      a queue leave alone of its consumers, and the agreement of tables, lists and store.
      \<open>Amq_Channel_Properties\<close>: every order of the calls keeps it; what closing a channel does; consumers that
      are left dangling, and a race in which a consumer is lost.
    \<^item> \<open>Amq_Login\<close>, \<open>Amq_Failover\<close>: authentication, the open method, the failover agent and the pair of brokers.
    \<^item> \<open>Amq_Broker\<close>: the tables, the standard exchanges, the protocol methods, and the mailboxes that put
      exchanges and queues together.  \<open>Amq_Broker_Properties\<close>: the invariant of the tables, what a
      publication and a deletion do in the end, and what a client can break.
    \<^item> \<open>Sfl_Comp\<close>, \<open>Sfl_Block\<close>: the four codecs of \<^verbatim>\<open>tooling/base1/sfl/sflcomp.c\<close>; the run-length codecs share
      the contracts \<open>chunk_codec\<close> and \<open>chunk_compressor\<close>.  \<open>Sfl_Date\<close>, \<open>Sfl_Date_Properties\<close>: the calendar
      arithmetic of \<^verbatim>\<open>tooling/base1/sfl/sfldate.c\<close>.

  \<^bold>\<open>What the theorems show.\<close>  Refinement: an exchange of each kind implements the set of bound queues, the
  hash table a map, the list container sequences, the bit map sets.  Invariants: queue, broker tables,
  consumers of channels and queues, index, failover pair.  Functional behaviour and progress: dispatching, limits, login, deletion, closing a channel, failover.
  Round trips: field tables, compression, dates, stored data.  Errors: how messages are lost, memory is
  read out of bounds or assertions are reached, each for a class of states or inputs that the theorem gives.

  \<^bold>\<open>Conventions.\<close> A failed assertion, an access out of bounds, a null pointer and
  freed memory are results \<open>Inl e\<close>; \<open>Inr x\<close> is a normal return. A loop without a
  bound in the code is a \<open>partial_function\<close> with result \<open>None\<close> for not
  returning, and the theorems show \<open>Some\<close>: the probing of the index, the chains of a hash
  table, the rings of a list, the scans of a bit map, and what calls them. No fuel is used;
  \<open>run_calls\<close> and \<open>run_delivery\<close> count steps of the objects, and the theorems
  give the number or show that there is one. Bounds of the code are constants of the model: 255 characters
  of a short string, 131072 bits of a bit map and entries of an index (a walk over a bit map stays inside
  only if the last eight are clear), 16000 queues a message is sent to. \<open>has_room\<close> keeps an
  exchange below a third of the numbers (\<open>3 * n + 17\<close>), so that the index, which probes from
  a growing start, always finds one. Sizes and hash values are words where the code lets them wrap around;
  message counters are unbounded.

  \<^bold>\<open>Parameters.\<close>  The regular expression library (\<open>env_re\<close>, \<open>cf_matches\<close>) is any function of pattern and
  text; the formatting of \<^verbatim>\<open>apr_vsnprintf\<close> any function; the contents of fresh or uninitialised memory any
  bytes; the configuration any record of values.  The headers theorem admits contents and arguments whose
  field keys are distinct, as the code decides by counting; the topic theorem admits patterns that fit the
  buffer and keys met in an order without the fault that \<open>topic_exact_hides_wildcard\<close> shows.  In the
  failover pair a status message arrives at once or not at all, clocks run alike, and the safety
  theorem assumes that a living peer is heard within the timeout (\<open>timely\<close>), which the agent itself assumes.
  In the broker, and between channels and queues, a mailbox is in order per object and objects are free to
  run in any order; a protocol method and the broker's deletion of a queue are single steps.  A call to a
  queue fails from the moment the queue is destroyed, which may be at any time (\<open>dl_dying\<close>); the calls before
  are still worked on.

  \<^bold>\<open>Not modelled.\<close>  Sockets, threads, the state machines generated for the protocol agents, and logging;
  the connections of a federation to other brokers (only what they make an exchange do locally); the console,
  leases, RestMS resources and direct transfer, which are views of or shortcuts around the objects modelled
  here over sockets; allocation caches and locks; wrappers of the operating system in the SFL, iPR and iCL
  libraries; code generators and build tools; the client libraries; third-party code; the shutdown of a whole server.  The
  exchanges and the protocol methods are in \<open>Amq_Broker\<close>, where clients publish and fetch contents; the consuming
  side, in \<open>Amq_Channel\<close>, is a model of its own, in which publications come from outside.
\<close>

end
